(* ===== verification/RT_Prelude.thy ===== *)
theory RT_Prelude
  imports "HOL-Library.Word" "HOL-Library.Monad_Syntax"
begin

unbundle bit_operations_syntax

text \<open>
  Shared vocabulary of the development: the C integer types of
  \<^verbatim>\<open>include/rtdef.h\<close>, its error codes, the convention for code that stops, and the
  generic lemmas on lists, words and options that the component theories use.
\<close>

section \<open>Integer types and error codes\<close>

type_synonym u8 = "8 word"
type_synonym u16 = "16 word"
type_synonym u32 = "32 word"

text \<open>\<^verbatim>\<open>rt_err_t\<close> is a signed machine integer; only the small constants below occur.\<close>

type_synonym rt_err = int

abbreviation RT_EOK :: rt_err where "RT_EOK \<equiv> 0"
abbreviation RT_ERROR :: rt_err where "RT_ERROR \<equiv> 1"
abbreviation RT_ETIMEOUT :: rt_err where "RT_ETIMEOUT \<equiv> 2"
abbreviation RT_EFULL :: rt_err where "RT_EFULL \<equiv> 3"
abbreviation RT_EEMPTY :: rt_err where "RT_EEMPTY \<equiv> 4"
abbreviation RT_ENOMEM :: rt_err where "RT_ENOMEM \<equiv> 5"
abbreviation RT_ENOSYS :: rt_err where "RT_ENOSYS \<equiv> 6"
abbreviation RT_EBUSY :: rt_err where "RT_EBUSY \<equiv> 7"

abbreviation RT_TICK_MAX :: u32 where "RT_TICK_MAX \<equiv> 0xffffffff"
abbreviation RT_TICK_HALF :: u32 where "RT_TICK_HALF \<equiv> 0x7fffffff"

lemma RT_TICK_HALF_eq: "RT_TICK_HALF = RT_TICK_MAX div 2"
  by simp

text \<open>\<^verbatim>\<open>RT_ALIGN\<close> and \<^verbatim>\<open>RT_ALIGN_DOWN\<close> at the configured alignment
  \<^verbatim>\<open>RT_ALIGN_SIZE = 4\<close>, on machine words.\<close>

definition rt_align :: "'a::len word \<Rightarrow> 'a word" where
  "rt_align n = (n + 4 - 1) AND NOT (4 - 1)"

definition rt_align_down :: "'a::len word \<Rightarrow> 'a word" where
  "rt_align_down n = n AND NOT (4 - 1)"

section \<open>Code that stops\<close>

text \<open>
  A failed \<^verbatim>\<open>RT_ASSERT\<close> loops for ever, a dereference of \<^verbatim>\<open>RT_NULL\<close> faults, and an
  overflowing stack is a hang: such a call does not come back.  An operation that can do any of
  these has a result of option type, and \<^const>\<open>None\<close> is the call that stops the system.
  \<open>returns m P\<close> is the total-correctness assertion: the call comes back, and its result
  satisfies \<open>P\<close>.
\<close>

definition returns :: "'a option \<Rightarrow> ('a \<Rightarrow> bool) \<Rightarrow> bool" where
  "returns m P \<longleftrightarrow> (\<exists>x. m = Some x \<and> P x)"

named_theorems returns_intros

lemma returns_Some [simp]: "returns (Some x) P \<longleftrightarrow> P x"
  by (simp add: returns_def)

lemma returns_None [simp]: "\<not> returns None P"
  by (simp add: returns_def)

lemma returns_bind [simp]:
  "returns (Option.bind m f) P \<longleftrightarrow> returns m (\<lambda>x. returns (f x) P)"
  by (cases m) auto

lemma returns_if:
  "returns (if b then m else m') P \<longleftrightarrow> (if b then returns m P else returns m' P)"
  by simp

lemma returns_mono: "returns m P \<Longrightarrow> (\<And>x. P x \<Longrightarrow> Q x) \<Longrightarrow> returns m Q"
  by (auto simp: returns_def)

lemma returns_conj: "returns m P \<Longrightarrow> returns m Q \<Longrightarrow> returns m (\<lambda>x. P x \<and> Q x)"
  by (auto simp: returns_def)

lemma returnsE: "returns m P \<Longrightarrow> (\<And>x. m = Some x \<Longrightarrow> P x \<Longrightarrow> R) \<Longrightarrow> R"
  by (auto simp: returns_def)

text \<open>\<^verbatim>\<open>RT_ASSERT(EX)\<close>.\<close>

definition rt_assert :: "bool \<Rightarrow> unit option" where
  "rt_assert b = (if b then Some () else None)"

lemma returns_rt_assert [simp]: "returns (rt_assert b) P \<longleftrightarrow> b \<and> P ()"
  by (simp add: rt_assert_def)

lemma rt_assert_Some [simp]: "rt_assert b = Some u \<longleftrightarrow> b"
  by (simp add: rt_assert_def)

lemma rt_assert_True [simp]: "rt_assert True = Some ()"
  by (simp add: rt_assert_def)

section \<open>Lists\<close>

text \<open>\<open>insert_by P x ys\<close> puts \<open>x\<close> in front of the first element satisfying \<open>P\<close>, or at the
  end: the loop the kernel runs over its ordered lists.\<close>

fun insert_by :: "('a \<Rightarrow> bool) \<Rightarrow> 'a \<Rightarrow> 'a list \<Rightarrow> 'a list" where
  "insert_by P x [] = [x]"
| "insert_by P x (y # ys) = (if P y then x # y # ys else y # insert_by P x ys)"

lemma set_insert_by [simp]: "set (insert_by P x ys) = insert x (set ys)"
  by (induction ys) auto

lemma distinct_insert_by [simp]: "distinct (insert_by P x ys) \<longleftrightarrow> x \<notin> set ys \<and> distinct ys"
  by (induction ys) auto

lemma length_insert_by [simp]: "length (insert_by P x ys) = Suc (length ys)"
  by (induction ys) auto

lemma insert_by_neq_Nil [simp]: "insert_by P x ys \<noteq> []"
  by (cases ys) auto

lemma insert_by_split:
  "insert_by P x ys = takeWhile (\<lambda>y. \<not> P y) ys @ x # dropWhile (\<lambda>y. \<not> P y) ys"
  by (induction ys) auto

lemma removeAll_insert_by [simp]: "x \<notin> set ys \<Longrightarrow> removeAll x (insert_by P x ys) = ys"
  by (induction ys) auto

lemma removeAll_snoc [simp]: "x \<notin> set ys \<Longrightarrow> removeAll x (ys @ [x]) = ys"
  by (induction ys) auto

lemma distinct_removeAll_hd: "distinct (x # xs) \<Longrightarrow> removeAll x (x # xs) = xs"
  by simp

lemma removeAll_eq_Nil: "removeAll x xs = [] \<longleftrightarrow> set xs \<subseteq> {x}"
  by (auto simp flip: set_empty)

lemma sorted_wrt_removeAll: "sorted_wrt P xs \<Longrightarrow> sorted_wrt P (removeAll x xs)"
  by (induction xs) auto

text \<open>Ordered insertion keeps a list sorted by a key.\<close>

abbreviation sorted_by :: "('a \<Rightarrow> 'b::linorder) \<Rightarrow> 'a list \<Rightarrow> bool" where
  "sorted_by f \<equiv> sorted_wrt (\<lambda>x y. f x \<le> f y)"

lemma sorted_insert_by:
  "sorted_by f ys \<Longrightarrow> (\<And>y. y \<in> set ys \<Longrightarrow> P y \<longleftrightarrow> f x \<le> f y) \<Longrightarrow> sorted_by f (insert_by P x ys)"
proof (induction ys)
  case (Cons y ys)
  then have "sorted_by f (insert_by P x ys)" by simp
  moreover have "f x \<le> f z" if "P y" "z \<in> set ys" for z
    using Cons.prems(1) Cons.prems(2)[of y] that by force
  ultimately show ?case using Cons.prems(1) Cons.prems(2)[of y] by auto
qed simp

lemma sorted_by_cong:
  "(\<And>x. x \<in> set xs \<Longrightarrow> f x = g x) \<Longrightarrow> sorted_by f xs \<longleftrightarrow> sorted_by g xs"
  by (induction xs) auto

section \<open>Distances between ticks\<close>

text \<open>The tick counter wraps; two instants are compared by the distance between them, which is right
  as long as both lie within half the range of the counter from a common origin.\<close>

lemma unat_diff_wrap:
  fixes u v :: u32
  shows "unat (u - v) = (if v \<le> u then unat u - unat v else 2 ^ 32 + unat u - unat v)"
  by (cases "v \<le> u") (simp_all add: unat_sub_if' word_le_nat_alt)

lemma tick_before_iff:
  fixes u v :: u32
  assumes "unat u \<le> unat RT_TICK_HALF" "unat v \<le> unat RT_TICK_HALF" "unat u = unat RT_TICK_HALF \<longrightarrow> v \<noteq> 0"
  shows "u - v < RT_TICK_HALF \<longleftrightarrow> unat v \<le> unat u"
proof -
  have "v \<noteq> 0 \<longleftrightarrow> 0 < unat v" by (simp add: unat_gt_0)
  with assms show ?thesis
    by (auto simp: word_less_nat_alt[of "u - v"] unat_diff_wrap word_le_nat_alt)
qed

lemma tick_expired_iff:
  fixes u :: u32
  assumes "unat u \<le> unat RT_TICK_HALF"
  shows "1 - u < RT_TICK_HALF \<longleftrightarrow> unat u \<le> 1"
  using assms by (auto simp: word_less_nat_alt[of "1 - u"] unat_diff_wrap word_le_nat_alt)

lemma sint_nonneg_iff: "0 \<le> sint (x :: u32) \<longleftrightarrow> unat x < 2 ^ 31"
proof -
  have "0 \<le> sint x \<longleftrightarrow> \<not> bit (uint x) 31"
    by (simp add: sint_uint signed_take_bit_nonnegative_iff)
  also have "\<dots> \<longleftrightarrow> even (uint x div 2 ^ 31)" by (simp only: bit_iff_odd not_not)
  also have "\<dots> \<longleftrightarrow> uint x < 2 ^ 31"
  proof -
    have "uint x div 2 ^ 31 < 2" "0 \<le> uint x div 2 ^ 31"
      using unsigned_less[of x, where 'a = int] by (simp_all add: div_less_iff_less_mult pos_imp_zdiv_nonneg_iff)
    then have "uint x div 2 ^ 31 = 0 \<or> uint x div 2 ^ 31 = 1" by linarith
    moreover have "uint x < 2 ^ 31 \<longleftrightarrow> uint x div 2 ^ 31 = 0" by (auto simp: div_eq_0_iff zdiv_eq_0_iff)
    ultimately show ?thesis by auto
  qed
  also have "\<dots> \<longleftrightarrow> int (unat x) < int (2 ^ 31)" by simp
  also have "\<dots> \<longleftrightarrow> unat x < 2 ^ 31" by (simp only: of_nat_less_iff)
  finally show ?thesis .
qed

lemma unat_ucast_16_32 [simp]: "unat (ucast (x :: u16) :: u32) = unat x"
  using unsigned_less[of x, where 'a = nat] by (simp add: unsigned_ucast_eq take_bit_nat_eq_self)

text \<open>A counter below its largest value does not wrap.\<close>

lemma unat_succ: "x \<noteq> - 1 \<Longrightarrow> unat (x + 1) = Suc (unat x)" for x :: "'a::len word"
  using unatSuc[of x] by (metis add.commute eq_neg_iff_add_eq_0)

lemma unat_succ_8: "x \<noteq> 0xff \<Longrightarrow> unat (x + 1) = Suc (unat x)" for x :: u8
proof -
  have "(- 1 :: u8) = 0xff" by simp
  then show "x \<noteq> 0xff \<Longrightarrow> unat (x + 1) = Suc (unat x)" using unat_succ[of x] by metis
qed

lemma unat_succ_16: "x \<noteq> 0xffff \<Longrightarrow> unat (x + 1) = Suc (unat x)" for x :: u16
proof -
  have "(- 1 :: u16) = 0xffff" by simp
  then show "x \<noteq> 0xffff \<Longrightarrow> unat (x + 1) = Suc (unat x)" using unat_succ[of x] by metis
qed

section \<open>Alignment\<close>

lemma and_m4: "x AND - 4 = push_bit 2 (drop_bit 2 x)" for x :: u32
proof -
  have m: "(- 4 :: u32) = NOT (mask 2)" by (simp add: mask_eq_exp_minus_1)
  have "Suc (Suc (n - 2)) = n" if "2 \<le> n" for n :: nat using that by simp
  then show ?thesis unfolding m by (intro bit_word_eqI) (auto simp: bit_simps)
qed

lemma unat_and_m4: "unat (x AND - 4) = unat x div 4 * 4" for x :: u32
proof -
  have "unat x div 4 * 4 < 2 ^ 32" using unsigned_less[of x, where 'a = nat] by simp
  then show ?thesis
    by (simp add: and_m4 push_bit_eq_mult drop_bit_eq_div unat_word_ariths unat_div)
qed

lemma and_3_aligned: "4 dvd unat x \<Longrightarrow> x AND 3 = 0" for x :: u32
proof -
  assume "4 dvd unat x"
  then have "unat (x AND - 4) = unat x" by (simp add: unat_and_m4)
  then have "x AND - 4 = x" by (simp add: word_unat_eq_iff)
  then have "x AND 3 = x AND (- 4 AND 3)" by (metis and.assoc)
  then show ?thesis by simp
qed

lemma unat_rt_align: "unat n + 3 < 2 ^ 32 \<Longrightarrow> unat (rt_align n) = (unat n + 3) div 4 * 4" for n :: u32
proof -
  assume a: "unat n + 3 < 2 ^ 32"
  have "rt_align n = (n + 3) AND - 4" by (simp add: rt_align_def add.commute)
  then have "unat (rt_align n) = unat (n + 3) div 4 * 4" by (simp only: unat_and_m4)
  moreover have "unat (n + 3) = unat n + 3" using a by (simp add: unat_word_ariths)
  ultimately show ?thesis by simp
qed

lemma rt_align_bounds:
  fixes n :: u32
  assumes "unat n + 3 < 2 ^ 32"
  shows "unat n \<le> unat (rt_align n)" "unat (rt_align n) < unat n + 4" "4 dvd unat (rt_align n)"
  unfolding unat_rt_align[OF assms] by presburger+
end
