(* ===== verification/Rt_List.thy ===== *)
theory Rt_List
  imports RT_Prelude
begin

text \<open>
  The intrusive doubly linked list of \<^verbatim>\<open>include/rtservice.h\<close>.  The first part is the code
  itself: nodes are addresses, the heap maps an address to its \<open>next\<close> and \<open>prev\<close> pointers, and
  every operation is the sequence of assignments of the source.  The second part is the abstract
  view the kernel components use: a store that maps each list head to the sequence of its
  members.  The locale \<open>list_impl\<close> is the contract between the two; it is interpreted on the
  pointer code and on the sequence store.
\<close>

section \<open>The pointer code\<close>

datatype ('h, 'n) lnode = Head 'h | Node 'n

record ('h, 'n) lheap =
  l_next :: "('h, 'n) lnode \<Rightarrow> ('h, 'n) lnode"
  l_prev :: "('h, 'n) lnode \<Rightarrow> ('h, 'n) lnode"

definition set_next :: "('h, 'n) lnode \<Rightarrow> ('h, 'n) lnode \<Rightarrow> ('h, 'n) lheap \<Rightarrow> ('h, 'n) lheap" where
  "set_next a b s = s\<lparr>l_next := (l_next s)(a := b)\<rparr>"

definition set_prev :: "('h, 'n) lnode \<Rightarrow> ('h, 'n) lnode \<Rightarrow> ('h, 'n) lheap \<Rightarrow> ('h, 'n) lheap" where
  "set_prev a b s = s\<lparr>l_prev := (l_prev s)(a := b)\<rparr>"

definition rt_list_init :: "('h, 'n) lnode \<Rightarrow> ('h, 'n) lheap \<Rightarrow> ('h, 'n) lheap" where
  "rt_list_init l s = set_next l l (set_prev l l s)"

definition rt_list_insert_after ::
  "('h, 'n) lnode \<Rightarrow> ('h, 'n) lnode \<Rightarrow> ('h, 'n) lheap \<Rightarrow> ('h, 'n) lheap" where
  "rt_list_insert_after l n s =
     (let s1 = set_prev (l_next s l) n s;
          s2 = set_next n (l_next s1 l) s1;
          s3 = set_next l n s2
      in set_prev n l s3)"

definition rt_list_insert_before ::
  "('h, 'n) lnode \<Rightarrow> ('h, 'n) lnode \<Rightarrow> ('h, 'n) lheap \<Rightarrow> ('h, 'n) lheap" where
  "rt_list_insert_before l n s =
     (let s1 = set_next (l_prev s l) n s;
          s2 = set_prev n (l_prev s1 l) s1;
          s3 = set_prev l n s2
      in set_next n l s3)"

definition rt_list_remove :: "('h, 'n) lnode \<Rightarrow> ('h, 'n) lheap \<Rightarrow> ('h, 'n) lheap" where
  "rt_list_remove n s =
     (let s1 = set_prev (l_next s n) (l_prev s n) s;
          s2 = set_next (l_prev s1 n) (l_next s1 n) s1
      in set_next n n (set_prev n n s2))"

definition rt_list_isempty :: "('h, 'n) lnode \<Rightarrow> ('h, 'n) lheap \<Rightarrow> bool" where
  "rt_list_isempty l s \<longleftrightarrow> l_next s l = l"

section \<open>Chains\<close>

text \<open>\<open>link a b\<close> makes \<open>b\<close> the successor of \<open>a\<close>; every operation above is two such steps.\<close>

definition link :: "('h, 'n) lnode \<Rightarrow> ('h, 'n) lnode \<Rightarrow> ('h, 'n) lheap \<Rightarrow> ('h, 'n) lheap" where
  "link a b s = set_next a b (set_prev b a s)"

lemma l_next_link [simp]: "l_next (link a b s) = (l_next s)(a := b)"
  and l_prev_link [simp]: "l_prev (link a b s) = (l_prev s)(b := a)"
  by (simp_all add: link_def set_next_def set_prev_def)

lemma lheap_eqI:
  fixes s t :: "('h, 'n) lheap"
  shows "l_next s = l_next t \<Longrightarrow> l_prev s = l_prev t \<Longrightarrow> s = t"
  by (cases s, cases t) simp

lemma insert_after_link:
  "n \<noteq> l \<Longrightarrow> rt_list_insert_after l n s = link l n (link n (l_next s l) s)"
  by (rule lheap_eqI)
    (auto simp: rt_list_insert_after_def Let_def link_def set_next_def set_prev_def fun_upd_twist)

lemma insert_before_link:
  "n \<noteq> l \<Longrightarrow> rt_list_insert_before l n s = link n l (link (l_prev s l) n s)"
  by (rule lheap_eqI)
    (auto simp: rt_list_insert_before_def Let_def link_def set_next_def set_prev_def fun_upd_twist)

lemma remove_link:
  "rt_list_remove n s = link n n (link (l_prev s n) (l_next s n) s)"
  by (rule lheap_eqI)
    (auto simp: rt_list_remove_def Let_def link_def set_next_def set_prev_def fun_eq_iff)

text \<open>\<open>chain s a xs b\<close>: following \<open>next\<close> from \<open>a\<close> visits exactly \<open>xs\<close> and then \<open>b\<close>, and the
  \<open>prev\<close> pointers agree.\<close>

fun chain :: "('h, 'n) lheap \<Rightarrow> ('h, 'n) lnode \<Rightarrow> ('h, 'n) lnode list \<Rightarrow> ('h, 'n) lnode \<Rightarrow> bool" where
  "chain s a [] b \<longleftrightarrow> l_next s a = b \<and> l_prev s b = a"
| "chain s a (x # xs) b \<longleftrightarrow> l_next s a = x \<and> l_prev s x = a \<and> chain s x xs b"

lemma chain_append: "chain s a (xs @ x # ys) b \<longleftrightarrow> chain s a xs x \<and> chain s x ys b"
  by (induction xs arbitrary: a) auto

lemma chain_first: "chain s a xs b \<Longrightarrow> l_next s a = hd (xs @ [b])"
  by (cases xs) auto

lemma chain_last: "chain s a xs b \<Longrightarrow> l_prev s b = last (a # xs)"
  by (induction xs arbitrary: a) auto

text \<open>Linking two nodes leaves a chain alone that neither leaves the first nor enters the second.\<close>

lemma chain_link_other:
  "\<lbrakk> chain s a xs b; p \<notin> set (a # xs); q \<notin> set (xs @ [b]) \<rbrakk> \<Longrightarrow> chain (link p q s) a xs b"
  by (induction xs arbitrary: a) auto

text \<open>Redirecting the end of a chain, and redirecting its start.\<close>

lemma chain_relink_last:
  "\<lbrakk> chain s a xs b; distinct (a # xs); c \<notin> set xs \<rbrakk> \<Longrightarrow> chain (link (last (a # xs)) c s) a xs c"
  by (induction xs arbitrary: a) auto

lemma chain_relink_first:
  assumes "chain s a xs b" "distinct (xs @ [b])" "c \<notin> set xs"
  shows "chain (link c (hd (xs @ [b])) s) c xs b"
proof (cases xs)
  case Nil
  then show ?thesis by simp
next
  case (Cons x ys)
  with assms have "chain (link c x s) x ys b"
    by (intro chain_link_other) auto
  with Cons show ?thesis by simp
qed

section \<open>The sequence store\<close>

type_synonym ('h, 'n) lstore = "'h \<Rightarrow> 'n list"

text \<open>No node is in two lists, or twice in one.\<close>

definition store_wf :: "('h, 'n) lstore \<Rightarrow> bool" where
  "store_wf L \<longleftrightarrow> (\<forall>h. distinct (L h)) \<and> (\<forall>h h'. h \<noteq> h' \<longrightarrow> set (L h) \<inter> set (L h') = {})"

definition unlinked :: "'n \<Rightarrow> ('h, 'n) lstore \<Rightarrow> bool" where
  "unlinked n L \<longleftrightarrow> (\<forall>h. n \<notin> set (L h))"

text \<open>Insertion before the head node appends, insertion after the head node prepends; removal
  takes the node out of whichever list holds it.\<close>

definition st_append :: "'h \<Rightarrow> 'n \<Rightarrow> ('h, 'n) lstore \<Rightarrow> ('h, 'n) lstore" where
  "st_append h n L = L(h := L h @ [n])"

definition st_push :: "'h \<Rightarrow> 'n \<Rightarrow> ('h, 'n) lstore \<Rightarrow> ('h, 'n) lstore" where
  "st_push h n L = L(h := n # L h)"

definition st_insert_by :: "('n \<Rightarrow> bool) \<Rightarrow> 'h \<Rightarrow> 'n \<Rightarrow> ('h, 'n) lstore \<Rightarrow> ('h, 'n) lstore" where
  "st_insert_by P h n L = L(h := insert_by P n (L h))"

definition st_remove :: "'n \<Rightarrow> ('h, 'n) lstore \<Rightarrow> ('h, 'n) lstore" where
  "st_remove n L = (\<lambda>h. removeAll n (L h))"

lemma store_wfI:
  "(\<And>h. distinct (L h)) \<Longrightarrow> (\<And>h h' n. n \<in> set (L h) \<Longrightarrow> n \<in> set (L h') \<Longrightarrow> h = h') \<Longrightarrow> store_wf L"
  by (auto simp: store_wf_def)

lemma store_wf_distinct: "store_wf L \<Longrightarrow> distinct (L h)"
  by (simp add: store_wf_def)

lemma store_wf_unique: "store_wf L \<Longrightarrow> n \<in> set (L h) \<Longrightarrow> n \<in> set (L h') \<Longrightarrow> h = h'"
  by (auto simp: store_wf_def)

lemma st_remove_apply [simp]: "st_remove n L h = removeAll n (L h)"
  by (simp add: st_remove_def)

lemma unlinked_st_remove [simp]: "unlinked n (st_remove n L)"
  by (simp add: unlinked_def)

lemma unlinkedD: "unlinked n L \<Longrightarrow> n \<notin> set (L h)"
  by (simp add: unlinked_def)

lemma unlinked_upd: "unlinked m (L(h := zs)) \<longleftrightarrow> m \<notin> set zs \<and> (\<forall>h'. h' \<noteq> h \<longrightarrow> m \<notin> set (L h'))"
  by (auto simp: unlinked_def)

lemma unlinked_upd_subset: "unlinked m (L(h := zs)) \<Longrightarrow> set (L h) \<subseteq> set zs \<Longrightarrow> unlinked m L"
  by (auto simp: unlinked_upd) (auto simp: unlinked_def)

lemma st_remove_unlinked: "unlinked n L \<Longrightarrow> st_remove n L = L"
  by (auto simp: st_remove_def unlinked_def)

lemma store_wf_remove [simp]: "store_wf L \<Longrightarrow> store_wf (st_remove n L)"
  by (auto simp: store_wf_def distinct_removeAll)

lemma store_wf_upd:
  assumes "store_wf L" "unlinked n L" "distinct zs" "set zs \<subseteq> insert n (set (L h))"
  shows "store_wf (L(h := zs))"
proof (rule store_wfI)
  show "distinct ((L(h := zs)) h')" for h'
    using assms by (auto simp: store_wf_distinct)
  show "h1 = h2" if "m \<in> set ((L(h := zs)) h1)" "m \<in> set ((L(h := zs)) h2)" for h1 h2 m
    using assms(1,2,4) that store_wf_unique[OF assms(1), of m]
    by (auto simp: unlinked_def split: if_splits)
qed

lemma store_wf_append: "store_wf L \<Longrightarrow> unlinked n L \<Longrightarrow> store_wf (st_append h n L)"
  unfolding st_append_def by (rule store_wf_upd) (auto simp: unlinkedD store_wf_distinct)

lemma store_wf_push: "store_wf L \<Longrightarrow> unlinked n L \<Longrightarrow> store_wf (st_push h n L)"
  unfolding st_push_def by (rule store_wf_upd) (auto simp: unlinkedD store_wf_distinct)

lemma store_wf_insert_by: "store_wf L \<Longrightarrow> unlinked n L \<Longrightarrow> store_wf (st_insert_by P h n L)"
  unfolding st_insert_by_def by (rule store_wf_upd) (auto simp: unlinkedD store_wf_distinct)

lemma st_remove_append: "unlinked n L \<Longrightarrow> st_remove n (st_append h n L) = L"
  by (auto simp: st_remove_def st_append_def unlinked_def fun_eq_iff)

section \<open>The pointer code implements the store\<close>

text \<open>\<open>lrep s L\<close>: every head is the start of a ring through its members, and a node in no list is
  its own ring (what \<open>rt_list_init\<close> and \<open>rt_list_remove\<close> leave behind).\<close>

definition lrep :: "('h, 'n) lheap \<Rightarrow> ('h, 'n) lstore \<Rightarrow> bool" where
  "lrep s L \<longleftrightarrow> store_wf L \<and> (\<forall>h. chain s (Head h) (map Node (L h)) (Head h)) \<and>
     (\<forall>n. unlinked n L \<longrightarrow> chain s (Node n) [] (Node n))"

lemma distinct_ring: "distinct xs \<Longrightarrow> distinct (Head h # map Node xs)"
  by (auto simp: distinct_map inj_on_def)

lemma lrep_chain: "lrep s L \<Longrightarrow> chain s (Head h) (map Node (L h)) (Head h)"
  by (simp add: lrep_def)

lemma rt_list_isempty_rep: "lrep s L \<Longrightarrow> rt_list_isempty (Head h) s \<longleftrightarrow> L h = []"
  using lrep_chain[of s L h] by (cases "L h") (auto simp: rt_list_isempty_def)

lemma rt_list_first_rep: "lrep s L \<Longrightarrow> L h = n # ns \<Longrightarrow> l_next s (Head h) = Node n"
  using lrep_chain[of s L h] by simp

lemma link_commute: "p \<noteq> a \<Longrightarrow> q \<noteq> b \<Longrightarrow> link p q (link a b s) = link a b (link p q s)"
  by (rule lheap_eqI) (auto simp: fun_upd_twist)

lemma chain_split:
  "chain s a (xs @ ys) b \<Longrightarrow> chain s a xs (hd (ys @ [b])) \<and> chain s (last (a # xs)) ys b"
  by (cases ys, auto dest: chain_last chain_first simp: chain_append)
    (induction xs arbitrary: a, auto)+

text \<open>All three kinds of insertion put an unlinked node between two neighbours \<open>p\<close> and \<open>q\<close> of one
  ring.\<close>

lemma ring_link_between:
  assumes c: "chain s a (xs @ ys) b" and d: "distinct (a # xs @ ys)" "distinct (xs @ ys @ [b])"
    and n: "n \<notin> set (a # b # xs @ ys)"
  shows "chain (link (last (a # xs)) n (link n (hd (ys @ [b])) s)) a (xs @ n # ys) b"
proof -
  let ?p = "last (a # xs)" and ?q = "hd (ys @ [b])"
  have p: "?p \<in> set (a # xs)" by (rule last_in_set) simp
  have q: "?q \<in> set (ys @ [b])" by (rule hd_in_set) simp
  from chain_split[OF c] have c1: "chain s a xs ?q" and c2: "chain s ?p ys b" by auto
  have "chain (link ?p n s) a xs n" using c1 d n by (intro chain_relink_last[where b = ?q]) auto
  then have 1: "chain (link n ?q (link ?p n s)) a xs n"
    by (rule chain_link_other) (use d n p q in auto)
  have "chain (link n ?q s) n ys b" using c2 d n by (intro chain_relink_first[where a = ?p]) auto
  then have 2: "chain (link ?p n (link n ?q s)) n ys b"
    by (rule chain_link_other) (use d n p q in auto)
  have "link ?p n (link n ?q s) = link n ?q (link ?p n s)"
    using p q n by (intro link_commute) auto
  with 1 2 show ?thesis by (simp add: chain_append)
qed

lemma lrep_link_between:
  assumes rep: "lrep s L" and unl: "unlinked n L" and split: "L h = xs @ ys"
    and p: "p = last (Head h # map Node xs)" and q: "q = hd (map Node ys @ [Head h])"
  shows "lrep (link p (Node n) (link (Node n) q s)) (L(h := xs @ n # ys))"
proof -
  let ?s = "link p (Node n) (link (Node n) q s)" and ?L = "L(h := xs @ n # ys)"
  have wf: "store_wf L" using rep by (simp add: lrep_def)
  have d: "distinct (xs @ ys)" using store_wf_distinct[OF wf, of h] split by simp
  have nin: "n \<notin> set xs" "n \<notin> set ys" using unlinkedD[OF unl, of h] split by auto
  have pm: "p \<in> set (Head h # map Node xs)" unfolding p by (rule last_in_set) simp
  have qm: "q \<in> set (map Node ys @ [Head h])" unfolding q by (rule hd_in_set) simp
  have wf': "store_wf ?L"
    using d nin split by (intro store_wf_upd[OF wf unl]) auto
  have ring: "chain ?s (Head h) (map Node (xs @ n # ys)) (Head h)"
    unfolding p q map_append list.map using lrep_chain[OF rep, of h] split d nin
    by (intro ring_link_between) (auto simp: distinct_map inj_on_def)
  have other: "chain ?s (Head h') (map Node (L h')) (Head h')" if "h' \<noteq> h" for h'
  proof (intro chain_link_other)
    show "chain s (Head h') (map Node (L h')) (Head h')" by (rule lrep_chain[OF rep])
  qed (use that pm qm unl split store_wf_unique[OF wf, of _ h h'] in \<open>auto simp: unlinked_def\<close>)
  have free: "chain ?s (Node m) [] (Node m)" if "unlinked m ?L" for m
  proof (intro chain_link_other)
    have "unlinked m L" by (rule unlinked_upd_subset[OF that]) (simp add: split subset_insertI2)
    then show "chain s (Node m) [] (Node m)" using rep by (simp add: lrep_def)
  qed (use that pm qm in \<open>auto simp: unlinked_upd\<close>)
  show ?thesis unfolding lrep_def using wf' ring other free by (simp add: fun_upd_apply)
qed

text \<open>The insertions of the source, at any neighbour of a ring.\<close>

lemma insert_before_rep:
  assumes rep: "lrep s L" and unl: "unlinked n L" and split: "L h = xs @ ys"
    and q: "q = hd (map Node ys @ [Head h])"
  shows "lrep (rt_list_insert_before q (Node n) s) (L(h := xs @ n # ys))"
proof -
  let ?p = "last (Head h # map Node xs)"
  from lrep_chain[OF rep, of h] have c: "chain s (Head h) (map Node xs @ map Node ys) (Head h)"
    by (simp add: split)
  have prev: "l_prev s q = ?p"
    using chain_split[OF c] chain_last q by blast
  have qm: "q \<in> set (map Node ys @ [Head h])" unfolding q by (rule hd_in_set) simp
  have pm: "?p \<in> set (Head h # map Node xs)" by (rule last_in_set) simp
  have nn: "n \<notin> set xs" "n \<notin> set ys" using unlinkedD[OF unl, of h] split by auto
  have "rt_list_insert_before q (Node n) s = link (Node n) q (link ?p (Node n) s)"
    using qm nn by (subst insert_before_link) (auto simp: prev)
  also have "\<dots> = link ?p (Node n) (link (Node n) q s)"
    using pm qm nn by (intro link_commute) auto
  finally show ?thesis using lrep_link_between[OF rep unl split refl q] by simp
qed

lemma insert_after_rep:
  assumes rep: "lrep s L" and unl: "unlinked n L" and split: "L h = xs @ ys"
    and p: "p = last (Head h # map Node xs)"
  shows "lrep (rt_list_insert_after p (Node n) s) (L(h := xs @ n # ys))"
proof -
  let ?q = "hd (map Node ys @ [Head h])"
  from lrep_chain[OF rep, of h] have c: "chain s (Head h) (map Node xs @ map Node ys) (Head h)"
    by (simp add: split)
  have nxt: "l_next s p = ?q"
    using chain_split[OF c] chain_first p by blast
  have pm: "p \<in> set (Head h # map Node xs)" unfolding p by (rule last_in_set) simp
  have nn: "n \<notin> set xs" using unlinkedD[OF unl, of h] split by auto
  have "rt_list_insert_after p (Node n) s = link p (Node n) (link (Node n) ?q s)"
    using pm nn by (subst insert_after_link) (auto simp: nxt)
  then show ?thesis using lrep_link_between[OF rep unl split p refl] by simp
qed

lemma ring_skip:
  assumes c: "chain s a (xs @ n # ys) b" and d: "distinct (a # xs @ n # ys)" "distinct (xs @ n # ys @ [b])"
  shows "chain (link (last (a # xs)) (hd (ys @ [b])) s) a (xs @ ys) b"
proof -
  let ?p = "last (a # xs)" and ?q = "hd (ys @ [b])"
  have p: "?p \<in> set (a # xs)" by (rule last_in_set) simp
  from c have c1: "chain s a xs n" and c2: "chain s n ys b" by (simp_all add: chain_append)
  have 1: "chain (link ?p ?q s) a xs ?q"
    using c1 d by (intro chain_relink_last[where b = n]) (cases ys; auto)+
  show ?thesis
  proof (cases ys)
    case Nil
    with 1 show ?thesis by simp
  next
    case (Cons y zs)
    have "chain (link ?p ?q s) y zs b"
      using c2 d p Cons by (intro chain_link_other) auto
    with 1 Cons show ?thesis by (simp add: chain_append)
  qed
qed

lemma ring_unlink:
  assumes c: "chain s a (xs @ n # ys) b" and d: "distinct (a # xs @ n # ys)" "distinct (xs @ n # ys @ [b])"
  shows "chain (link n n (link (last (a # xs)) (hd (ys @ [b])) s)) a (xs @ ys) b"
  by (rule chain_link_other[OF ring_skip[OF assms]]) (use d in auto)

lemma remove_rep:
  assumes rep: "lrep s L"
  shows "lrep (rt_list_remove (Node n) s) (st_remove n L)"
proof (cases "unlinked n L")
  case True
  then have c: "chain s (Node n) [] (Node n)" using rep by (simp add: lrep_def)
  then have "rt_list_remove (Node n) s = s"
    by (intro lheap_eqI) (auto simp: remove_link fun_eq_iff)
  with True rep show ?thesis by (simp add: st_remove_unlinked)
next
  case False
  then obtain h xs ys where split: "L h = xs @ n # ys"
    by (auto simp: unlinked_def dest: split_list)
  have wf: "store_wf L" using rep by (simp add: lrep_def)
  let ?p = "last (Head h # map Node xs)" and ?q = "hd (map Node ys @ [Head h])"
  let ?s = "link (Node n) (Node n) (link ?p ?q s)"
  have c: "chain s (Head h) (map Node xs @ Node n # map Node ys) (Head h)"
    using lrep_chain[OF rep, of h] split by simp
  then have c12: "chain s (Head h) (map Node xs) (Node n)" "chain s (Node n) (map Node ys) (Head h)"
    by (simp_all add: chain_append)
  have s': "rt_list_remove (Node n) s = ?s"
    by (simp only: remove_link chain_last[OF c12(1)] chain_first[OF c12(2)])
  have d: "distinct (xs @ n # ys)" using store_wf_distinct[OF wf, of h] split by simp
  have pm: "?p \<in> set (Head h # map Node xs)" by (rule last_in_set) simp
  have qm: "?q \<in> set (map Node ys @ [Head h])" by (rule hd_in_set) simp
  have ring: "chain ?s (Head h) (map Node (st_remove n L h)) (Head h)"
  proof -
    have "chain ?s (Head h) (map Node xs @ map Node ys) (Head h)"
      by (rule ring_unlink[OF c]) (use d in \<open>auto simp: distinct_map inj_on_def\<close>)
    then show ?thesis using d split by simp
  qed
  have other: "chain ?s (Head h') (map Node (st_remove n L h')) (Head h')" if "h' \<noteq> h" for h'
  proof -
    have disj: "m \<notin> set (L h')" if "m \<in> set (xs @ n # ys)" for m
      using that \<open>h' \<noteq> h\<close> store_wf_unique[OF wf, of m h h'] split by auto
    then have nin: "n \<notin> set (L h')" by simp
    have "chain ?s (Head h') (map Node (L h')) (Head h')"
    proof (intro chain_link_other)
      show "chain s (Head h') (map Node (L h')) (Head h')" by (rule lrep_chain[OF rep])
    qed (use that nin pm qm disj in auto)
    with nin show ?thesis by simp
  qed
  have free: "chain ?s (Node m) [] (Node m)" if "unlinked m (st_remove n L)" for m
  proof (cases "m = n")
    case False
    have m: "m \<notin> set (L h')" for h' using that False by (auto simp: unlinked_def)
    show ?thesis
    proof (intro chain_link_other)
      show "chain s (Node m) [] (Node m)" using rep m by (simp add: lrep_def unlinked_def)
    qed (use False m[of h] pm qm split in auto)
  qed simp
  show ?thesis unfolding s' lrep_def using wf ring other free by (metis store_wf_remove)
qed

section \<open>The contract of a list store\<close>

text \<open>
  What the kernel relies on: appending, prepending and removing act on the sequences of the lists
  alone, the test for emptiness and the first element read them, and the invariant is kept.
\<close>

locale list_impl =
  fixes rep :: "'s \<Rightarrow> ('h, 'n) lstore \<Rightarrow> bool"
    and append :: "'h \<Rightarrow> 'n \<Rightarrow> 's \<Rightarrow> 's"
    and push :: "'h \<Rightarrow> 'n \<Rightarrow> 's \<Rightarrow> 's"
    and remove :: "'n \<Rightarrow> 's \<Rightarrow> 's"
    and isempty :: "'h \<Rightarrow> 's \<Rightarrow> bool"
  assumes rep_wf: "rep s L \<Longrightarrow> store_wf L"
    and rep_append: "rep s L \<Longrightarrow> unlinked n L \<Longrightarrow> rep (append h n s) (st_append h n L)"
    and rep_push: "rep s L \<Longrightarrow> unlinked n L \<Longrightarrow> rep (push h n s) (st_push h n L)"
    and rep_remove: "rep s L \<Longrightarrow> rep (remove n s) (st_remove n L)"
    and rep_isempty: "rep s L \<Longrightarrow> isempty h s \<longleftrightarrow> L h = []"
begin

text \<open>Moving a node to the tail of a list, the round-robin step.\<close>

lemma rep_move: "rep s L \<Longrightarrow> rep (append h n (remove n s)) (st_append h n (st_remove n L))"
  by (intro rep_append rep_remove) simp_all

lemma append_remove: "rep s L \<Longrightarrow> unlinked n L \<Longrightarrow> rep (remove n (append h n s)) L"
  using rep_remove[OF rep_append] st_remove_append by metis

lemma append_not_empty: "rep s L \<Longrightarrow> unlinked n L \<Longrightarrow> \<not> isempty h (append h n s)"
  by (simp add: rep_isempty[OF rep_append] st_append_def)

text \<open>First in, first out: a sequence of appended nodes is the sequence of the list.\<close>

lemma rep_append_all:
  "rep s L \<Longrightarrow> distinct ns \<Longrightarrow> (\<And>n. n \<in> set ns \<Longrightarrow> unlinked n L) \<Longrightarrow>
   rep (fold (append h) ns s) (L(h := L h @ ns))"
proof (induction ns arbitrary: s L)
  case Nil
  then show ?case by simp
next
  case (Cons n ns)
  have "rep (append h n s) (L(h := L h @ [n]))"
    using rep_append[OF Cons.prems(1), of n h] Cons.prems(3)[of n] by (simp add: st_append_def)
  moreover have "unlinked m (L(h := L h @ [n]))" if "m \<in> set ns" for m
    using Cons.prems(2) Cons.prems(3)[of m] that by (auto simp: unlinked_upd unlinkedD)
  ultimately have "rep (fold (append h) ns (append h n s)) ((L(h := L h @ [n]))(h := (L(h := L h @ [n])) h @ ns))"
    using Cons.prems(2) by (intro Cons.IH) (simp_all del: fun_upd_apply)
  then show ?case by (simp only: fun_upd_same fun_upd_upd append_assoc append.simps fold_simps)
qed

end

interpretation ptr_list: list_impl lrep
  "\<lambda>h n. rt_list_insert_before (Head h) (Node n)"
  "\<lambda>h n. rt_list_insert_after (Head h) (Node n)"
  "\<lambda>n. rt_list_remove (Node n)"
  "\<lambda>h. rt_list_isempty (Head h)"
proof (unfold_locales, goal_cases)
  case (1 s L)
  then show ?case by (simp add: lrep_def)
next
  case (2 s L n h)
  then show ?case using insert_before_rep[of s L n h "L h" "[]" "Head h"] by (simp add: st_append_def)
next
  case (3 s L n h)
  then show ?case using insert_after_rep[of s L n h "[]" "L h" "Head h"] by (simp add: st_push_def)
next
  case (4 s L n)
  then show ?case by (rule remove_rep)
next
  case (5 s L h)
  then show ?case by (rule rt_list_isempty_rep)
qed

interpretation seq_list: list_impl "\<lambda>s L. s = L \<and> store_wf L"
  st_append st_push st_remove "\<lambda>h s. s h = []"
  by unfold_locales (auto intro: store_wf_append store_wf_push)

text \<open>The neighbours of a member are the same node just when it is alone in its list: the test of
  \<^verbatim>\<open>rt_thread_yield\<close>.\<close>

lemma chain_neighbours:
  "chain s a (xs @ n # ys) b \<Longrightarrow> l_prev s n = last (a # xs) \<and> l_next s n = hd (ys @ [b])"
  by (auto simp: chain_append dest: chain_last chain_first)

lemma neighbours_differ:
  assumes rep: "lrep s L" and n: "n \<in> set (L h)"
  shows "l_next s (Node n) \<noteq> l_prev s (Node n) \<longleftrightarrow> 1 < length (L h)"
proof -
  obtain xs ys where split: "L h = xs @ n # ys" using n by (auto dest: split_list)
  have "chain s (Head h) (map Node xs @ Node n # map Node ys) (Head h)"
    using lrep_chain[OF rep, of h] split by simp
  note nb = chain_neighbours[OF this]
  have d: "distinct (xs @ n # ys)" using rep split by (metis lrep_def store_wf_distinct)
  show ?thesis
  proof (cases xs rule: rev_cases)
    case Nil
    then show ?thesis using nb split by (cases ys) auto
  next
    case (snoc zs z)
    then show ?thesis using nb split d by (cases ys) auto
  qed
qed

text \<open>The ordered insertion of the kernel's search loops (\<^verbatim>\<open>rt_timer_start\<close>, the priority case of
  \<^verbatim>\<open>rt_ipc_list_suspend\<close>): follow \<open>next\<close> from the head to the first member satisfying \<open>P\<close>, or
  back to the head, and insert before the node found.\<close>

partial_function (option) list_walk ::
  "('n \<Rightarrow> bool) \<Rightarrow> ('h, 'n) lheap \<Rightarrow> ('h, 'n) lnode \<Rightarrow> ('h, 'n) lnode option" where
  "list_walk P s a =
     (case a of
        Head h \<Rightarrow> Some a
      | Node m \<Rightarrow> if P m then Some a else list_walk P s (l_next s a))"

definition list_insert_by ::
  "('n \<Rightarrow> bool) \<Rightarrow> 'h \<Rightarrow> 'n \<Rightarrow> ('h, 'n) lheap \<Rightarrow> ('h, 'n) lheap option" where
  "list_insert_by P h n s =
     do { q \<leftarrow> list_walk P s (l_next s (Head h));
          Some (rt_list_insert_before q (Node n) s) }"

lemma list_walk_chain:
  "chain s a (map Node xs) (Head h) \<Longrightarrow>
   list_walk P s (l_next s a) = Some (hd (map Node (dropWhile (\<lambda>x. \<not> P x) xs) @ [Head h]))"
  by (induction xs arbitrary: a) (simp_all add: list_walk.simps)

lemma list_insert_by_rep:
  assumes rep: "lrep s L" and unl: "unlinked n L"
  shows "returns (list_insert_by P h n s) (\<lambda>s'. lrep s' (st_insert_by P h n L))"
proof -
  let ?xs = "takeWhile (\<lambda>x. \<not> P x) (L h)" and ?ys = "dropWhile (\<lambda>x. \<not> P x) (L h)"
  have "lrep (rt_list_insert_before (hd (map Node ?ys @ [Head h])) (Node n) s) (L(h := ?xs @ n # ?ys))"
    by (rule insert_before_rep[OF rep unl]) simp_all
  then show ?thesis
    by (simp add: list_insert_by_def list_walk_chain[OF lrep_chain[OF rep]] st_insert_by_def insert_by_split)
qed

end
