(* ===== verification/Kservice.thy ===== *)
theory Kservice
  imports RT_Prelude
begin

text \<open>
  The string services of \<^verbatim>\<open>src/kservice.c\<close> that the kernel objects use for their names.  A C
  string is the list of its bytes; reading past the end of the list reads the terminating zero.
\<close>

section \<open>Bounded copy and comparison\<close>

type_synonym cstr = "u8 list"

fun char_at :: "cstr \<Rightarrow> u8" where
  "char_at [] = 0"
| "char_at (c # _) = c"

text \<open>The bytes \<^verbatim>\<open>rt_strncpy\<close> stores at \<^verbatim>\<open>dst\<close>: at most \<open>n\<close> bytes of the source, and zeros from
  its terminator on.\<close>

fun rt_strncpy :: "cstr \<Rightarrow> nat \<Rightarrow> u8 list" where
  "rt_strncpy s 0 = []"
| "rt_strncpy s (Suc n) =
     (if char_at s = 0 then replicate (Suc n) 0 else char_at s # rt_strncpy (tl s) n)"

text \<open>The signed byte \<^verbatim>\<open>__res\<close> that \<^verbatim>\<open>rt_strncmp\<close> returns.\<close>

fun rt_strncmp :: "cstr \<Rightarrow> cstr \<Rightarrow> nat \<Rightarrow> u8" where
  "rt_strncmp cs ct 0 = 0"
| "rt_strncmp cs ct (Suc n) =
     (let res = char_at cs - char_at ct
      in if res \<noteq> 0 \<or> char_at cs = 0 then res else rt_strncmp (tl cs) (tl ct) n)"

fun rt_strlen :: "cstr \<Rightarrow> nat" where
  "rt_strlen s = (case s of [] \<Rightarrow> 0 | c # cs \<Rightarrow> if c = 0 then 0 else Suc (rt_strlen cs))"

lemma length_rt_strncpy [simp]: "length (rt_strncpy s n) = n"
  by (induction s n rule: rt_strncpy.induct) auto

text \<open>The part of a string that \<^verbatim>\<open>n\<close> bytes can see.\<close>

fun visible :: "cstr \<Rightarrow> nat \<Rightarrow> cstr" where
  "visible s 0 = []"
| "visible s (Suc n) = (if char_at s = 0 then [] else char_at s # visible (tl s) n)"

lemma rt_strncmp_0_iff: "rt_strncmp cs ct n = 0 \<longleftrightarrow> visible cs n = visible ct n"
  by (induction cs ct n rule: rt_strncmp.induct) (auto simp: Let_def)

lemma visible_replicate_0 [simp]: "visible (replicate m 0) n = []"
  by (cases n; cases m) auto

lemma visible_rt_strncpy: "visible (rt_strncpy s n) n = visible s n"
  by (induction s n rule: rt_strncpy.induct) auto

lemma visible_nonzero: "0 \<notin> set s \<Longrightarrow> visible s n = take n s"
proof (induction n arbitrary: s)
  case (Suc n)
  then show ?case by (cases s) auto
qed simp

text \<open>Looking a stored name up by the string it was stored from.\<close>

lemma strncmp_stored_name:
  "rt_strncmp (rt_strncpy s n) t n = 0 \<longleftrightarrow> visible s n = visible t n"
  by (simp add: rt_strncmp_0_iff visible_rt_strncpy)

section \<open>Comparison and search\<close>

function rt_strcmp :: "cstr \<Rightarrow> cstr \<Rightarrow> u32" where
  "rt_strcmp cs ct =
     (if char_at cs \<noteq> 0 \<and> char_at cs = char_at ct then rt_strcmp (tl cs) (tl ct)
      else ucast (char_at cs) - ucast (char_at ct))"
  by pat_completeness auto

termination rt_strcmp
  by (relation "measure (\<lambda>(cs, ct). length cs)") (auto simp: neq_Nil_conv elim: char_at.elims)

definition lower :: "u8 \<Rightarrow> u8" where
  "lower c = (if c \<ge> 65 \<and> c \<le> 90 then c + 32 else c)"

function rt_strcasecmp :: "cstr \<Rightarrow> cstr \<Rightarrow> u32" where
  "rt_strcasecmp a b =
     (let ca = lower (char_at a); cb = lower (char_at b)
      in if ca = cb \<and> ca \<noteq> 0 then rt_strcasecmp (tl a) (tl b) else ucast ca - ucast cb)"
  by pat_completeness auto

termination rt_strcasecmp
proof (relation "measure (\<lambda>(a, b). length a)", simp)
  fix a b :: cstr and ca cb assume "ca = lower (char_at a)" "cb = lower (char_at b)" "ca = cb \<and> ca \<noteq> 0"
  then have "a \<noteq> []" by (auto simp: lower_def)
  then show "((tl a, tl b), a, b) \<in> measure (\<lambda>(a, b). length a)" by simp
qed

declare rt_strcmp.simps [simp del] rt_strcasecmp.simps [simp del] rt_strlen.simps [simp del]

text \<open>The loop of \<^verbatim>\<open>rt_strstr\<close>: \<open>l1\<close> bytes are left of \<open>s1\<close>; the result is the rest of \<open>s1\<close> from the first occurrence on.\<close>

fun strstr_loop :: "nat \<Rightarrow> cstr \<Rightarrow> cstr \<Rightarrow> nat \<Rightarrow> cstr option" where
  "strstr_loop l1 s1 s2 l2 =
     (if l1 < l2 then None
      else if take l2 s1 = take l2 s2 then Some s1
      else case l1 of 0 \<Rightarrow> None | Suc l \<Rightarrow> strstr_loop l (tl s1) s2 l2)"

declare strstr_loop.simps [simp del]

definition rt_strstr :: "cstr \<Rightarrow> cstr \<Rightarrow> cstr option" where
  "rt_strstr s1 s2 = (if rt_strlen s2 = 0 then Some s1 else strstr_loop (rt_strlen s1) s1 s2 (rt_strlen s2))"

lemma rt_strlen_simps [simp]: "rt_strlen [] = 0" "rt_strlen (c # cs) = (if c = 0 then 0 else Suc (rt_strlen cs))"
  by (simp_all add: rt_strlen.simps)

lemma strlen_nonzero: "0 \<notin> set s \<Longrightarrow> rt_strlen s = length s"
  by (induction s) auto

text \<open>Two strings compare equal when they have the same characters, in either case for \<^verbatim>\<open>rt_strcasecmp\<close>.\<close>

lemma ucast_u8_inj: "ucast a - ucast b = (0 :: u32) \<longleftrightarrow> a = b" for a b :: u8
proof -
  have "unat (ucast c :: u32) = unat c" for c :: u8
    using unsigned_less[of c, where 'a = nat] by (simp add: unsigned_ucast_eq take_bit_nat_eq_self)
  then have "ucast a = (ucast b :: u32) \<longleftrightarrow> a = b" by (metis word_unat_eq_iff)
  then show ?thesis by simp
qed

lemma rt_strcmp_eq: "0 \<notin> set s \<Longrightarrow> 0 \<notin> set t \<Longrightarrow> rt_strcmp s t = 0 \<longleftrightarrow> s = t"
proof (induction s arbitrary: t)
  case Nil
  then show ?case using ucast_u8_inj[of 0 "char_at t"] by (subst rt_strcmp.simps) (cases t; auto)
next
  case (Cons c s)
  then show ?case using ucast_u8_inj[of c "char_at t"] by (subst rt_strcmp.simps) (cases t; auto)
qed

lemma lower_0: "lower c = 0 \<longleftrightarrow> c = 0"
proof -
  have "c + 32 \<noteq> 0" if "65 \<le> c" "c \<le> 90" for c :: u8
  proof -
    have "unat (c + 32) = unat c + 32" using that by (simp add: unat_word_ariths word_le_nat_alt)
    then show ?thesis by (metis add_is_0 unat_0 zero_neq_numeral)
  qed
  then show ?thesis by (auto simp: lower_def)
qed

lemma rt_strcasecmp_eq: "0 \<notin> set s \<Longrightarrow> 0 \<notin> set t \<Longrightarrow> rt_strcasecmp s t = 0 \<longleftrightarrow> map lower s = map lower t"
proof (induction s arbitrary: t)
  case Nil
  have l0: "lower 0 = 0" by (simp add: lower_def)
  have "rt_strcasecmp [] t = ucast (lower 0) - ucast (lower (char_at t))" by (subst rt_strcasecmp.simps) (simp add: l0)
  then have "rt_strcasecmp [] t = 0 \<longleftrightarrow> lower 0 = lower (char_at t)" by (simp only: ucast_u8_inj)
  also have "\<dots> \<longleftrightarrow> t = []" using Nil lower_0[of "char_at t"] l0 by (cases t) auto
  finally show ?case by auto
next
  case (Cons c s)
  have nz: "lower c \<noteq> 0" using Cons.prems lower_0[of c] by auto
  show ?case
  proof (cases "lower c = lower (char_at t)")
    case True
    then obtain d t' where t: "t = d # t'" using nz lower_0[of "char_at t"] by (cases t) auto
    have "rt_strcasecmp (c # s) t = rt_strcasecmp s t'" using True nz t by (subst rt_strcasecmp.simps) simp
    then show ?thesis using Cons.IH[of t'] Cons.prems True t by simp
  next
    case False
    then have "rt_strcasecmp (c # s) t = ucast (lower c) - ucast (lower (char_at t))" by (subst rt_strcasecmp.simps) simp
    then have "rt_strcasecmp (c # s) t \<noteq> 0" using False ucast_u8_inj by metis
    then show ?thesis using False by (cases t) auto
  qed
qed

text \<open>\<^verbatim>\<open>rt_strstr\<close> finds the first occurrence, if there is one.\<close>

lemma strstr_loop_spec:
  "s2 \<noteq> [] \<Longrightarrow> (case strstr_loop (length s1) s1 s2 (length s2) of
     Some r \<Rightarrow> (\<exists>p q. s1 = p @ r \<and> r = s2 @ q \<and> (\<forall>p' q'. s1 = p' @ s2 @ q' \<longrightarrow> length p \<le> length p'))
   | None \<Rightarrow> \<not> (\<exists>p q. s1 = p @ s2 @ q))"
proof (induction s1)
  case Nil
  then show ?case by (subst strstr_loop.simps) simp
next
  case (Cons c s1)
  have tail: "p' \<noteq> [] \<and> s1 = tl p' @ s2 @ q'" if "c # s1 = p' @ s2 @ q'" "take (length s2) (c # s1) \<noteq> s2" for p' q'
    using that by (cases p') auto
  consider (short) "length (c # s1) < length s2" | (here) "\<not> length (c # s1) < length s2" "take (length s2) (c # s1) = s2"
    | (later) "\<not> length (c # s1) < length s2" "take (length s2) (c # s1) \<noteq> s2" by blast
  then show ?case
  proof cases
    case short
    have "length s2 \<le> length (c # s1)" if "c # s1 = p @ s2 @ q" for p q unfolding that by simp
    then have "\<not> (\<exists>p q. c # s1 = p @ s2 @ q)" using short by fastforce
    then show ?thesis using short by (subst strstr_loop.simps) simp
  next
    case here
    have "c # s1 = s2 @ drop (length s2) (c # s1)" using append_take_drop_id[of "length s2" "c # s1"] here(2) by simp
    then have "\<exists>p q. c # s1 = p @ (c # s1) \<and> c # s1 = s2 @ q \<and> (\<forall>p' q'. c # s1 = p' @ s2 @ q' \<longrightarrow> length p \<le> length p')"
      by (intro exI[of _ "[]"] exI[of _ "drop (length s2) (c # s1)"]) simp
    moreover have "strstr_loop (length (c # s1)) (c # s1) s2 (length s2) = Some (c # s1)"
      using here by (subst strstr_loop.simps) simp
    ultimately show ?thesis by (simp only: option.case)
  next
    case later
    have eq: "strstr_loop (length (c # s1)) (c # s1) s2 (length s2) = strstr_loop (length s1) s1 s2 (length s2)"
      using later by (subst strstr_loop.simps) simp
    show ?thesis
    proof (cases "strstr_loop (length s1) s1 s2 (length s2)")
      case None
      then show ?thesis using Cons later(2) tail unfolding eq by fastforce
    next
      case (Some r)
      then obtain p q where pq: "s1 = p @ r" "r = s2 @ q" "\<And>p' q'. s1 = p' @ s2 @ q' \<Longrightarrow> length p \<le> length p'"
        using Cons by auto
      have "length (c # p) \<le> length p'" if "c # s1 = p' @ s2 @ q'" for p' q'
        using pq(3)[of "tl p'" q'] tail[OF that later(2)] by (cases p') auto
      then have "\<exists>p q. c # s1 = p @ r \<and> r = s2 @ q \<and> (\<forall>p' q'. c # s1 = p' @ s2 @ q' \<longrightarrow> length p \<le> length p')"
        using pq(1,2) by (intro exI[of _ "c # p"] exI[of _ q]) auto
      then show ?thesis unfolding eq Some option.case .
    qed
  qed
qed

end
