(* ===== verification/Kernel_State.thy ===== *)
theory Kernel_State
  imports Rt_List Kservice
begin

text \<open>
  The data of the kernel: the structures of \<^verbatim>\<open>include/rtdef.h\<close> as records, and one record for the
  global variables of the kernel sources.  Pointers are natural numbers (addresses); a structure is
  found through a table indexed by its address.  Embedded list nodes are not fields: the node
  \<^verbatim>\<open>tlist\<close> of a thread lives in the store \<open>k_tlists\<close>, the node \<^verbatim>\<open>list\<close> of a timer in
  \<open>k_timer_list\<close>, the node \<^verbatim>\<open>list\<close> of an object in \<open>k_container\<close> (the stores that the pointer
  code of theory \<open>Rt_List\<close> implements).
\<close>

section \<open>Structures\<close>

type_synonym ptr = nat
type_synonym tid = ptr

datatype thread_stat =
    RT_THREAD_INIT | RT_THREAD_READY | RT_THREAD_SUSPEND | RT_THREAD_RUNNING | RT_THREAD_CLOSE

datatype timer_id = Thread_Timer tid | Timer ptr

datatype obj =
    OThread tid | OSem ptr | OMutex ptr | OEvent ptr | OMailBox ptr | OMessageQueue ptr
  | OMemHeap ptr | OMemPool ptr | ODevice ptr | OTimer timer_id

text \<open>\<^verbatim>\<open>struct rt_object\<close>: the header every kernel object starts with.\<close>

record rt_object =
  o_name :: "u8 list"
  o_type :: u8
  o_flag :: u8

text \<open>\<^verbatim>\<open>struct rt_timer\<close>.  The time-out function is the kernel's own \<^verbatim>\<open>rt_thread_timeout\<close> or a
  function of the user.\<close>

datatype timeout_func = Rt_thread_timeout | User_timeout ptr

record rt_timer =
  tm_timeout_func :: timeout_func
  tm_parameter :: ptr
  tm_init_tick :: u32
  tm_timeout_tick :: u32

text \<open>\<^verbatim>\<open>struct rt_thread\<close>.\<close>

record rt_thread =
  t_sp :: u32
  t_entry :: ptr
  t_parameter :: ptr
  t_stack_addr :: u32
  t_stack_size :: u16
  t_error :: rt_err
  t_stat :: thread_stat
  t_current_priority :: u8
  t_init_priority :: u8
  t_number_mask :: u32
  t_event_set :: u32
  t_event_info :: u8
  t_init_tick :: u32
  t_remaining_tick :: u32
  t_cleanup :: "ptr option"
  t_user_data :: u32

record rt_semaphore =
  s_value :: u16

record rt_mutex =
  m_value :: u16
  m_original_priority :: u8
  m_hold :: u8
  m_owner :: "tid option"

record rt_event =
  e_set :: u32

text \<open>\<^verbatim>\<open>struct rt_mailbox\<close>: the pointer \<^verbatim>\<open>msg_pool\<close> is the address \<open>mb_pool_addr\<close> and the words \<open>mb_msg_pool\<close>
  found there.\<close>

record rt_mailbox =
  mb_pool_addr :: u32
  mb_msg_pool :: "u32 list"
  mb_size :: u16
  mb_entry :: u16
  mb_in_offset :: u16
  mb_out_offset :: u16

text \<open>\<^verbatim>\<open>struct rt_messagequeue\<close>.  A message block is its number in the pool; \<open>mq_next\<close> is the header
  \<^verbatim>\<open>struct rt_mq_message\<close> of a block and \<open>mq_data\<close> the \<^verbatim>\<open>msg_size\<close> bytes behind it; \<open>mq_pool_addr\<close> is the
  address of the pool.\<close>

record rt_messagequeue =
  mq_pool_addr :: u32
  mq_msg_size :: u16
  mq_max_msgs :: u16
  mq_entry :: u16
  mq_head :: "nat option"
  mq_tail :: "nat option"
  mq_free :: "nat option"
  mq_next :: "nat \<Rightarrow> nat option"
  mq_data :: "nat \<Rightarrow> u8 list"

text \<open>\<^verbatim>\<open>struct rt_mempool\<close>.  The word in front of a block, a pointer to the next free block or to the pool,
  is in the word memory \<open>k_words\<close>.\<close>

record rt_mempool =
  mp_start_address :: ptr
  mp_size :: u32
  mp_block_size :: u32
  mp_block_list :: ptr
  mp_block_total_count :: u32
  mp_block_free_count :: u32
  mp_suspend_thread_count :: u32

text \<open>\<^verbatim>\<open>struct heap_mem\<close> and the variables of \<^verbatim>\<open>src/mem.c\<close>.  Blocks are named by their offset
  from \<^verbatim>\<open>heap_ptr\<close>; \<open>h_mem\<close> is the header found at an offset.\<close>

record heap_mem =
  hm_magic :: u16
  hm_used :: u16
  hm_next :: u32
  hm_prev :: u32

record heap =
  h_mem :: "u32 \<Rightarrow> heap_mem"
  h_ptr :: u32
  h_end :: u32
  h_lfree :: u32
  h_size :: u32
  h_used_mem :: u32
  h_max_mem :: u32

section \<open>The kernel state\<close>

text \<open>The heads of the lists a thread can be on: the ready queue of a priority, the list of defunct
  threads, and the wait queues of the IPC objects and of the driver framework.\<close>

datatype thead =
    Ready u8 | Defunct | Sem_Q ptr | Mutex_Q ptr | Event_Q ptr | Mb_Recv_Q ptr | Mb_Send_Q ptr
  | Mq_Q ptr | Mp_Q ptr | Comp_Q ptr | Dq_Push_Q ptr | Dq_Pop_Q ptr | Pipe_Read_Q ptr | Pipe_Write_Q ptr

record kernel =
  k_threads :: "tid \<Rightarrow> rt_thread"
  k_tlists :: "(thead, tid) lstore"
  k_ready_group :: u32
  k_current :: "tid option"
  k_current_priority :: u8
  k_lock_nest :: "16 word"
  k_interrupt_nest :: u8
  k_tick :: u32
  k_timers :: "timer_id \<Rightarrow> rt_timer"
  k_timer_list :: "timer_id list"
  k_objects :: "obj \<Rightarrow> rt_object"
  k_container :: "nat \<Rightarrow> obj list"
  k_sems :: "ptr \<Rightarrow> rt_semaphore"
  k_mutexes :: "ptr \<Rightarrow> rt_mutex"
  k_events :: "ptr \<Rightarrow> rt_event"
  k_mailboxes :: "ptr \<Rightarrow> rt_mailbox"
  k_mqs :: "ptr \<Rightarrow> rt_messagequeue"
  k_mempools :: "ptr \<Rightarrow> rt_mempool"
  k_words :: "ptr \<Rightarrow> ptr"
  k_heap :: heap

abbreviation thread :: "kernel \<Rightarrow> tid \<Rightarrow> rt_thread" where
  "thread k t \<equiv> k_threads k t"

abbreviation stat :: "kernel \<Rightarrow> tid \<Rightarrow> thread_stat" where
  "stat k t \<equiv> t_stat (k_threads k t)"

abbreviation prio :: "kernel \<Rightarrow> tid \<Rightarrow> u8" where
  "prio k t \<equiv> t_current_priority (k_threads k t)"

abbreviation ready :: "kernel \<Rightarrow> u8 \<Rightarrow> tid list" where
  "ready k p \<equiv> k_tlists k (Ready p)"

abbreviation timer_flag :: "kernel \<Rightarrow> timer_id \<Rightarrow> u8" where
  "timer_flag k i \<equiv> o_flag (k_objects k (OTimer i))"

text \<open>Assignments to fields of one structure.\<close>

definition upd_thread :: "tid \<Rightarrow> (rt_thread \<Rightarrow> rt_thread) \<Rightarrow> kernel \<Rightarrow> kernel" where
  "upd_thread t f k = k\<lparr>k_threads := (k_threads k)(t := f (k_threads k t))\<rparr>"

definition upd_timer :: "timer_id \<Rightarrow> (rt_timer \<Rightarrow> rt_timer) \<Rightarrow> kernel \<Rightarrow> kernel" where
  "upd_timer i f k = k\<lparr>k_timers := (k_timers k)(i := f (k_timers k i))\<rparr>"

definition upd_object :: "obj \<Rightarrow> (rt_object \<Rightarrow> rt_object) \<Rightarrow> kernel \<Rightarrow> kernel" where
  "upd_object x f k = k\<lparr>k_objects := (k_objects k)(x := f (k_objects k x))\<rparr>"

definition upd_tlists :: "((thead, tid) lstore \<Rightarrow> (thead, tid) lstore) \<Rightarrow> kernel \<Rightarrow> kernel" where
  "upd_tlists f k = k\<lparr>k_tlists := f (k_tlists k)\<rparr>"

lemmas upd_defs = upd_thread_def upd_timer_def upd_object_def upd_tlists_def

lemma upd_thread_frame [simp]:
  "k_tlists (upd_thread t f k) = k_tlists k" "k_ready_group (upd_thread t f k) = k_ready_group k"
  "k_current (upd_thread t f k) = k_current k"
  "k_current_priority (upd_thread t f k) = k_current_priority k"
  "k_lock_nest (upd_thread t f k) = k_lock_nest k"
  "k_interrupt_nest (upd_thread t f k) = k_interrupt_nest k" "k_tick (upd_thread t f k) = k_tick k"
  "k_timers (upd_thread t f k) = k_timers k" "k_timer_list (upd_thread t f k) = k_timer_list k"
  "k_objects (upd_thread t f k) = k_objects k" "k_container (upd_thread t f k) = k_container k"
  "k_sems (upd_thread t f k) = k_sems k" "k_mutexes (upd_thread t f k) = k_mutexes k"
  "k_events (upd_thread t f k) = k_events k" "k_mailboxes (upd_thread t f k) = k_mailboxes k"
  "k_mqs (upd_thread t f k) = k_mqs k" "k_mempools (upd_thread t f k) = k_mempools k"
  "k_words (upd_thread t f k) = k_words k" "k_heap (upd_thread t f k) = k_heap k"
  "k_threads (upd_thread t f k) = (k_threads k)(t := f (k_threads k t))"
  by (simp_all add: upd_thread_def)

lemma upd_timer_frame [simp]:
  "k_threads (upd_timer i g k) = k_threads k" "k_tlists (upd_timer i g k) = k_tlists k"
  "k_ready_group (upd_timer i g k) = k_ready_group k" "k_current (upd_timer i g k) = k_current k"
  "k_current_priority (upd_timer i g k) = k_current_priority k"
  "k_lock_nest (upd_timer i g k) = k_lock_nest k"
  "k_interrupt_nest (upd_timer i g k) = k_interrupt_nest k" "k_tick (upd_timer i g k) = k_tick k"
  "k_timer_list (upd_timer i g k) = k_timer_list k" "k_objects (upd_timer i g k) = k_objects k"
  "k_container (upd_timer i g k) = k_container k" "k_sems (upd_timer i g k) = k_sems k"
  "k_mutexes (upd_timer i g k) = k_mutexes k" "k_events (upd_timer i g k) = k_events k"
  "k_mailboxes (upd_timer i g k) = k_mailboxes k" "k_mqs (upd_timer i g k) = k_mqs k"
  "k_mempools (upd_timer i g k) = k_mempools k" "k_words (upd_timer i g k) = k_words k"
  "k_heap (upd_timer i g k) = k_heap k"
  "k_timers (upd_timer i g k) = (k_timers k)(i := g (k_timers k i))"
  by (simp_all add: upd_timer_def)

lemma upd_object_frame [simp]:
  "k_threads (upd_object x h k) = k_threads k" "k_tlists (upd_object x h k) = k_tlists k"
  "k_ready_group (upd_object x h k) = k_ready_group k" "k_current (upd_object x h k) = k_current k"
  "k_current_priority (upd_object x h k) = k_current_priority k"
  "k_lock_nest (upd_object x h k) = k_lock_nest k"
  "k_interrupt_nest (upd_object x h k) = k_interrupt_nest k" "k_tick (upd_object x h k) = k_tick k"
  "k_timers (upd_object x h k) = k_timers k" "k_timer_list (upd_object x h k) = k_timer_list k"
  "k_container (upd_object x h k) = k_container k" "k_sems (upd_object x h k) = k_sems k"
  "k_mutexes (upd_object x h k) = k_mutexes k" "k_events (upd_object x h k) = k_events k"
  "k_mailboxes (upd_object x h k) = k_mailboxes k" "k_mqs (upd_object x h k) = k_mqs k"
  "k_mempools (upd_object x h k) = k_mempools k" "k_words (upd_object x h k) = k_words k"
  "k_heap (upd_object x h k) = k_heap k"
  "k_objects (upd_object x h k) = (k_objects k)(x := h (k_objects k x))"
  by (simp_all add: upd_object_def)

lemma upd_tlists_frame [simp]:
  "k_threads (upd_tlists g k) = k_threads k" "k_ready_group (upd_tlists g k) = k_ready_group k"
  "k_current (upd_tlists g k) = k_current k"
  "k_current_priority (upd_tlists g k) = k_current_priority k"
  "k_lock_nest (upd_tlists g k) = k_lock_nest k"
  "k_interrupt_nest (upd_tlists g k) = k_interrupt_nest k" "k_tick (upd_tlists g k) = k_tick k"
  "k_timers (upd_tlists g k) = k_timers k" "k_timer_list (upd_tlists g k) = k_timer_list k"
  "k_objects (upd_tlists g k) = k_objects k" "k_container (upd_tlists g k) = k_container k"
  "k_sems (upd_tlists g k) = k_sems k" "k_mutexes (upd_tlists g k) = k_mutexes k"
  "k_events (upd_tlists g k) = k_events k" "k_mailboxes (upd_tlists g k) = k_mailboxes k"
  "k_mqs (upd_tlists g k) = k_mqs k" "k_mempools (upd_tlists g k) = k_mempools k"
  "k_words (upd_tlists g k) = k_words k" "k_heap (upd_tlists g k) = k_heap k"
  "k_tlists (upd_tlists g k) = g (k_tlists k)"
  by (simp_all add: upd_tlists_def)

text \<open>The value of a call that may leave the processor in the middle: it has returned, or the caller
  is off the processor and the rest of the call runs when the caller is current again.\<close>

datatype 'a outcome = Done 'a | Blocked

end
