(* ===== verification/Scheduler.thy ===== *)
theory Scheduler
  imports Kernel_State
begin

unbundle bit_operations_syntax

text \<open>
  The scheduler, \<^verbatim>\<open>src/scheduler.c\<close>, at the configured \<^verbatim>\<open>RT_THREAD_PRIORITY_MAX = 32\<close>: the
  bitmap search for the highest ready priority, the ready queues, the schedule itself, and the
  scheduler lock.  Lower numbers are higher priorities.
\<close>

section \<open>The code\<close>

definition rt_lowest_bitmap :: "nat list" where
  "rt_lowest_bitmap =
    [0, 0, 1, 0, 2, 0, 1, 0, 3, 0, 1, 0, 2, 0, 1, 0,
     4, 0, 1, 0, 2, 0, 1, 0, 3, 0, 1, 0, 2, 0, 1, 0,
     5, 0, 1, 0, 2, 0, 1, 0, 3, 0, 1, 0, 2, 0, 1, 0,
     4, 0, 1, 0, 2, 0, 1, 0, 3, 0, 1, 0, 2, 0, 1, 0,
     6, 0, 1, 0, 2, 0, 1, 0, 3, 0, 1, 0, 2, 0, 1, 0,
     4, 0, 1, 0, 2, 0, 1, 0, 3, 0, 1, 0, 2, 0, 1, 0,
     5, 0, 1, 0, 2, 0, 1, 0, 3, 0, 1, 0, 2, 0, 1, 0,
     4, 0, 1, 0, 2, 0, 1, 0, 3, 0, 1, 0, 2, 0, 1, 0,
     7, 0, 1, 0, 2, 0, 1, 0, 3, 0, 1, 0, 2, 0, 1, 0,
     4, 0, 1, 0, 2, 0, 1, 0, 3, 0, 1, 0, 2, 0, 1, 0,
     5, 0, 1, 0, 2, 0, 1, 0, 3, 0, 1, 0, 2, 0, 1, 0,
     4, 0, 1, 0, 2, 0, 1, 0, 3, 0, 1, 0, 2, 0, 1, 0,
     6, 0, 1, 0, 2, 0, 1, 0, 3, 0, 1, 0, 2, 0, 1, 0,
     4, 0, 1, 0, 2, 0, 1, 0, 3, 0, 1, 0, 2, 0, 1, 0,
     5, 0, 1, 0, 2, 0, 1, 0, 3, 0, 1, 0, 2, 0, 1, 0,
     4, 0, 1, 0, 2, 0, 1, 0, 3, 0, 1, 0, 2, 0, 1, 0]"

text \<open>The search both \<^verbatim>\<open>rt_system_scheduler_start\<close> and \<^verbatim>\<open>rt_schedule\<close> contain.\<close>

definition highest_ready_priority :: "u32 \<Rightarrow> nat" where
  "highest_ready_priority g =
     (if g AND 0xff \<noteq> 0 then rt_lowest_bitmap ! unat (g AND 0xff)
      else if g AND 0xff00 \<noteq> 0 then rt_lowest_bitmap ! unat (drop_bit 8 g AND 0xff) + 8
      else if g AND 0xff0000 \<noteq> 0 then rt_lowest_bitmap ! unat (drop_bit 16 g AND 0xff) + 16
      else rt_lowest_bitmap ! unat (drop_bit 24 g AND 0xff) + 24)"

text \<open>\<^verbatim>\<open>_rt_scheduler_stack_check\<close>: \<^const>\<open>False\<close> where it prints \<^emph>\<open>stack overflow\<close> and hangs (the
  caller has interrupts disabled, so \<open>level\<close> is not zero).\<close>

definition rt_scheduler_stack_check :: "rt_thread \<Rightarrow> bool" where
  "rt_scheduler_stack_check th \<longleftrightarrow>
     \<not> (t_sp th \<le> t_stack_addr th \<or> t_sp th > t_stack_addr th + ucast (t_stack_size th))"

definition rt_system_scheduler_init :: "kernel \<Rightarrow> kernel" where
  "rt_system_scheduler_init k =
     k\<lparr>k_lock_nest := 0,
       k_tlists := (\<lambda>h. case h of Ready p \<Rightarrow> if p < 32 then [] else k_tlists k h
                                | Defunct \<Rightarrow> [] | _ \<Rightarrow> k_tlists k h),
       k_current_priority := 31,
       k_current := None,
       k_ready_group := 0\<rparr>"

text \<open>\<^verbatim>\<open>rt_list_entry(rt_thread_priority_table[p].next, struct rt_thread, tlist)\<close>: on an empty queue
  the result is not a thread.\<close>

definition first_ready :: "kernel \<Rightarrow> u8 \<Rightarrow> tid option" where
  "first_ready k p = (case ready k p of [] \<Rightarrow> None | t # _ \<Rightarrow> Some t)"

definition rt_system_scheduler_start :: "kernel \<Rightarrow> kernel option" where
  "rt_system_scheduler_start k =
     do { to_thread \<leftarrow> first_ready k (of_nat (highest_ready_priority (k_ready_group k)));
          Some (k\<lparr>k_current := Some to_thread\<rparr>) }"

definition rt_schedule :: "kernel \<Rightarrow> kernel option" where
  "rt_schedule k =
     (if k_lock_nest k = 0 then
        do { let p = of_nat (highest_ready_priority (k_ready_group k));
             to_thread \<leftarrow> first_ready k p;
             if Some to_thread \<noteq> k_current k then
               do { from_thread \<leftarrow> k_current k;
                    rt_assert (rt_scheduler_stack_check (thread k to_thread));
                    Some (k\<lparr>k_current_priority := p, k_current := Some to_thread\<rparr>) }
             else Some k }
      else Some k)"

definition rt_schedule_insert_thread :: "tid \<Rightarrow> kernel \<Rightarrow> kernel" where
  "rt_schedule_insert_thread t k =
     (let k1 = upd_thread t (t_stat_update (\<lambda>_. RT_THREAD_READY)) k;
          k2 = upd_tlists (st_append (Ready (prio k1 t)) t) k1
      in k2\<lparr>k_ready_group := k_ready_group k2 OR t_number_mask (thread k2 t)\<rparr>)"

definition rt_schedule_remove_thread :: "tid \<Rightarrow> kernel \<Rightarrow> kernel" where
  "rt_schedule_remove_thread t k =
     (let k1 = upd_tlists (st_remove t) k
      in if ready k1 (prio k1 t) = []
         then k1\<lparr>k_ready_group := k_ready_group k1 AND NOT (t_number_mask (thread k1 t))\<rparr>
         else k1)"

definition rt_enter_critical :: "kernel \<Rightarrow> kernel" where
  "rt_enter_critical k = k\<lparr>k_lock_nest := k_lock_nest k + 1\<rparr>"

definition rt_exit_critical :: "kernel \<Rightarrow> kernel option" where
  "rt_exit_critical k =
     (let k1 = k\<lparr>k_lock_nest := k_lock_nest k - 1\<rparr>
      in if sint (k_lock_nest k1) \<le> 0 then rt_schedule (k1\<lparr>k_lock_nest := 0\<rparr>) else Some k1)"

section \<open>The bitmap search\<close>

text \<open>Every entry of the table is the number of the lowest bit set in its index.\<close>

fun lowest_bit :: "int \<Rightarrow> nat \<Rightarrow> bool" where
  "lowest_bit n 0 = odd n"
| "lowest_bit n (Suc p) = (even n \<and> lowest_bit (n div 2) p)"

fun bitmap_ok :: "int \<Rightarrow> nat list \<Rightarrow> bool" where
  "bitmap_ok n [] = True"
| "bitmap_ok n (p # ps) = (p < 8 \<and> lowest_bit n p \<and> bitmap_ok (n + 1) ps)"

lemma lowest_bit_iff: "lowest_bit n p \<longleftrightarrow> bit n p \<and> (\<forall>q<p. \<not> bit n q)"
proof (induction p arbitrary: n)
  case 0
  then show ?case by (simp add: bit_0)
next
  case (Suc p)
  have "(\<forall>q<Suc p. \<not> bit n q) \<longleftrightarrow> even n \<and> (\<forall>q<p. \<not> bit (n div 2) q)"
    by (auto simp: bit_0 less_Suc_eq_0_disj bit_Suc)
  with Suc show ?case by (auto simp: bit_Suc)
qed

lemma bitmap_ok_nth: "bitmap_ok n ps \<Longrightarrow> i < length ps \<Longrightarrow> ps ! i < 8 \<and> lowest_bit (n + int i) (ps ! i)"
proof (induction n ps arbitrary: i rule: bitmap_ok.induct)
  case (2 n p ps)
  then show ?case by (cases i) (auto simp: algebra_simps)
qed simp

lemma rt_lowest_bitmap_ok: "bitmap_ok 1 (tl rt_lowest_bitmap)"
  by code_simp

lemma length_rt_lowest_bitmap: "length rt_lowest_bitmap = 256"
  by (simp add: rt_lowest_bitmap_def)

lemma lowest_bitmap_byte:
  fixes b :: u32
  assumes "b \<noteq> 0" "b < 256"
  defines "p \<equiv> rt_lowest_bitmap ! unat b"
  shows "p < 8" "bit b p" "\<And>q. q < p \<Longrightarrow> \<not> bit b q"
proof -
  have b: "0 < unat b" "unat b < 256"
    using assms(1,2) by (simp_all add: word_less_nat_alt unat_gt_0)
  then have "p = tl rt_lowest_bitmap ! (unat b - 1)"
    by (simp add: p_def nth_tl length_rt_lowest_bitmap)
  with bitmap_ok_nth[OF rt_lowest_bitmap_ok, of "unat b - 1"] b
  have "p < 8" "lowest_bit (uint b) p"
    by (simp_all add: length_rt_lowest_bitmap)
  then show "p < 8" "bit b p" "\<And>q. q < p \<Longrightarrow> \<not> bit b q"
    by (auto simp: lowest_bit_iff bit_uint_iff)
qed

text \<open>One byte of the group.\<close>

definition byte :: "nat \<Rightarrow> u32 \<Rightarrow> u32" where
  "byte i g = drop_bit (8 * i) g AND 0xff"

lemma byte_masks:
  "(0xff :: u32) = mask 8" "(0xff00 :: u32) = push_bit 8 (mask 8)"
  "(0xff0000 :: u32) = push_bit 16 (mask 8)"
  by (simp_all add: mask_eq_exp_minus_1 push_bit_eq_mult)

lemma bit_imp_less_32: "bit (g :: u32) n \<Longrightarrow> n < 32"
  using bit_imp_possible_bit[of g n] by (simp add: possible_bit_word)

lemma bit_byte: "bit (byte i g) n \<longleftrightarrow> n < 8 \<and> bit g (8 * i + n)"
  unfolding byte_def byte_masks by (auto simp: bit_and_iff bit_drop_bit_eq bit_mask_iff possible_bit_word)

lemma byte_less: "byte i g < 256"
proof -
  have "byte i g \<le> 0xff" by (simp add: byte_def word_and_le1)
  then show ?thesis by (rule order.strict_trans1) simp
qed

lemma and_push_mask: "g AND push_bit k (mask 8) = 0 \<longleftrightarrow> drop_bit k g AND mask 8 = (0 :: u32)"
proof -
  have "(\<forall>n. \<not> (bit g n \<and> k \<le> n \<and> n - k < 8)) \<longleftrightarrow> (\<forall>n. \<not> (bit g (k + n) \<and> n < 8))"
    by (metis le_add1 le_add_diff_inverse add_diff_cancel_left')
  then show ?thesis
    by (auto simp: bit_eq_iff bit_and_iff bit_push_bit_iff bit_drop_bit_eq bit_mask_iff possible_bit_word
        dest: bit_imp_less_32)
qed

lemma and_byte_mask:
  "g AND 0xff00 = 0 \<longleftrightarrow> byte 1 g = 0" "g AND 0xff0000 = 0 \<longleftrightarrow> byte 2 g = 0"
  unfolding byte_masks and_push_mask by (simp_all add: byte_def byte_masks(1))

lemma highest_ready_priority_byte:
  "highest_ready_priority g =
     (let i = (if byte 0 g \<noteq> 0 then 0 else if byte 1 g \<noteq> 0 then 1 else if byte 2 g \<noteq> 0 then 2 else 3)
      in rt_lowest_bitmap ! unat (byte i g) + 8 * i)"
  by (simp add: highest_ready_priority_def and_byte_mask Let_def) (simp add: byte_def)

lemma highest_in_byte:
  assumes "byte i g \<noteq> 0" "\<And>j. j < i \<Longrightarrow> byte j g = 0" "i < 4"
  defines "p \<equiv> rt_lowest_bitmap ! unat (byte i g) + 8 * i"
  shows "p < 32 \<and> bit g p \<and> (\<forall>q<p. \<not> bit g q)"
proof -
  note b = lowest_bitmap_byte[OF assms(1) byte_less]
  have "\<not> bit g q" if "q < p" for q
  proof (cases "q < 8 * i")
    case True
    then have "byte (q div 8) g = 0" by (intro assms(2)) auto
    then have "\<not> bit (byte (q div 8) g) (q mod 8)" by simp
    then show ?thesis by (simp add: bit_byte)
  next
    case False
    with that have "\<not> bit (byte i g) (q - 8 * i)" by (intro b(3)) (auto simp: p_def)
    with False that b(1) show ?thesis by (simp add: bit_byte p_def)
  qed
  moreover have "bit g p" using b(2) by (simp add: bit_byte p_def add.commute)
  ultimately show ?thesis using b(1) assms(3) by (simp add: p_def)
qed

lemma highest_ready_priority_lowest:
  assumes "g \<noteq> 0"
  defines "p \<equiv> highest_ready_priority g"
  shows "p < 32 \<and> bit g p \<and> (\<forall>q<p. \<not> bit g q)"
proof -
  have "byte 0 g \<noteq> 0 \<or> byte 1 g \<noteq> 0 \<or> byte 2 g \<noteq> 0 \<or> byte 3 g \<noteq> 0"
  proof (rule ccontr)
    assume "\<not> ?thesis"
    then have "byte i g = 0" if "i < 4" for i
      using that by (auto simp: numeral_eq_Suc less_Suc_eq)
    then have "\<not> bit (byte (n div 8) g) (n mod 8)" if "n < 32" for n
      using that by simp
    then have "\<not> bit g n" if "n < 32" for n using that by (simp add: bit_byte)
    then have "g = 0" by (intro bit_eqI) (auto simp: possible_bit_word)
    with assms show False by simp
  qed
  define i :: nat where
    "i = (if byte 0 g \<noteq> 0 then 0 else if byte 1 g \<noteq> 0 then 1 else if byte 2 g \<noteq> 0 then 2 else 3)"
  have "byte i g \<noteq> 0" "i < 4"
    using \<open>byte 0 g \<noteq> 0 \<or> byte 1 g \<noteq> 0 \<or> byte 2 g \<noteq> 0 \<or> byte 3 g \<noteq> 0\<close> by (auto simp: i_def)
  moreover have "byte j g = 0" if "j < i" for j
  proof -
    from that have "j = 0 \<or> j = 1 \<or> j = 2" by (auto simp: i_def split: if_splits)
    with that show ?thesis by (auto simp: i_def split: if_splits)
  qed
  ultimately have "rt_lowest_bitmap ! unat (byte i g) + 8 * i < 32 \<and>
      bit g (rt_lowest_bitmap ! unat (byte i g) + 8 * i) \<and>
      (\<forall>q<rt_lowest_bitmap ! unat (byte i g) + 8 * i. \<not> bit g q)"
    by (intro highest_in_byte)
  then show ?thesis
    unfolding p_def highest_ready_priority_byte Let_def i_def[symmetric] by simp
qed

section \<open>The scheduler invariant\<close>

text \<open>
  A ready thread is on the ready queue of its priority and on no other list; the ready group has
  exactly the bits of the priorities with a non-empty queue; the bit mask kept in a thread is the bit
  of its priority; a thread on a wait queue is suspended and a thread on the defunct list is closed.
  \<open>sinv U\<close> states this of the threads in \<open>U\<close>, which are the only ones linked anywhere: while an
  operation has taken a thread \<open>t\<close> off its list and not put it back, \<open>sinv (- {t})\<close> holds.
\<close>

definition prio_mask :: "u8 \<Rightarrow> u32" where
  "prio_mask p = push_bit (unat p) 1"

definition mask_ok :: "rt_thread \<Rightarrow> bool" where
  "mask_ok th \<longleftrightarrow>
     t_current_priority th < 32 \<and> t_number_mask th = prio_mask (t_current_priority th)"

definition group_ok :: "kernel \<Rightarrow> bool" where
  "group_ok k \<longleftrightarrow> (\<forall>p<32. bit (k_ready_group k) (unat p) \<longleftrightarrow> ready k p \<noteq> [])"

fun stat_fits :: "thead \<Rightarrow> thread_stat \<Rightarrow> bool" where
  "stat_fits (Ready p) s \<longleftrightarrow> s = RT_THREAD_READY"
| "stat_fits Defunct s \<longleftrightarrow> s = RT_THREAD_CLOSE"
| "stat_fits _ s \<longleftrightarrow> s = RT_THREAD_SUSPEND"

definition thread_ok :: "kernel \<Rightarrow> tid \<Rightarrow> bool" where
  "thread_ok k t \<longleftrightarrow>
     (stat k t = RT_THREAD_READY \<longrightarrow> t \<in> set (ready k (prio k t))) \<and>
     (\<forall>p. t \<in> set (ready k p) \<longrightarrow> p = prio k t) \<and>
     (stat k t = RT_THREAD_READY \<or> stat k t = RT_THREAD_SUSPEND \<longrightarrow> mask_ok (thread k t)) \<and>
     (\<forall>h. t \<in> set (k_tlists k h) \<longrightarrow> stat_fits h (stat k t))"

definition sinv :: "tid set \<Rightarrow> kernel \<Rightarrow> bool" where
  "sinv U k \<longleftrightarrow> store_wf (k_tlists k) \<and> (\<forall>h. set (k_tlists k h) \<subseteq> U) \<and> group_ok k \<and>
     (\<forall>t\<in>U. thread_ok k t)"

abbreviation sched_inv :: "kernel \<Rightarrow> bool" where
  "sched_inv \<equiv> sinv UNIV"

text \<open>The fields of the state that the invariant reads.\<close>

lemma sinv_cong:
  assumes "k_tlists k' = k_tlists k" "k_ready_group k' = k_ready_group k"
    and "\<And>t. t \<in> U \<Longrightarrow> stat k' t = stat k t \<and> prio k' t = prio k t \<and>
           t_number_mask (thread k' t) = t_number_mask (thread k t)"
  shows "sinv U k' \<longleftrightarrow> sinv U k"
  using assms by (auto simp: sinv_def group_ok_def thread_ok_def mask_ok_def)

text \<open>The other variables of the kernel can be written freely.\<close>

lemma sinv_update [simp]:
  "sinv U (k\<lparr>k_current := x0\<rparr>) \<longleftrightarrow> sinv U k"
  "sinv U (k\<lparr>k_current_priority := x1\<rparr>) \<longleftrightarrow> sinv U k"
  "sinv U (k\<lparr>k_lock_nest := x2\<rparr>) \<longleftrightarrow> sinv U k"
  "sinv U (k\<lparr>k_interrupt_nest := x3\<rparr>) \<longleftrightarrow> sinv U k"
  "sinv U (k\<lparr>k_tick := x4\<rparr>) \<longleftrightarrow> sinv U k"
  "sinv U (k\<lparr>k_timers := x5\<rparr>) \<longleftrightarrow> sinv U k"
  "sinv U (k\<lparr>k_timer_list := x6\<rparr>) \<longleftrightarrow> sinv U k"
  "sinv U (k\<lparr>k_objects := x7\<rparr>) \<longleftrightarrow> sinv U k"
  "sinv U (k\<lparr>k_container := x8\<rparr>) \<longleftrightarrow> sinv U k"
  "sinv U (k\<lparr>k_sems := x9\<rparr>) \<longleftrightarrow> sinv U k"
  "sinv U (k\<lparr>k_mutexes := x10\<rparr>) \<longleftrightarrow> sinv U k"
  "sinv U (k\<lparr>k_events := x11\<rparr>) \<longleftrightarrow> sinv U k"
  "sinv U (k\<lparr>k_mailboxes := x12\<rparr>) \<longleftrightarrow> sinv U k"
  "sinv U (k\<lparr>k_mqs := x13\<rparr>) \<longleftrightarrow> sinv U k"
  "sinv U (k\<lparr>k_mempools := x14\<rparr>) \<longleftrightarrow> sinv U k"
  "sinv U (k\<lparr>k_words := x15\<rparr>) \<longleftrightarrow> sinv U k"
  "sinv U (k\<lparr>k_heap := x16\<rparr>) \<longleftrightarrow> sinv U k"
  by (rule sinv_cong; simp)+

lemma sinv_upd_other [simp]:
  "sinv U (upd_object x g k) \<longleftrightarrow> sinv U k" "sinv U (upd_timer i h k) \<longleftrightarrow> sinv U k"
  by (simp_all add: upd_object_def upd_timer_def)

lemma sinv_wf: "sinv U k \<Longrightarrow> store_wf (k_tlists k)"
  by (simp add: sinv_def)

lemma sinv_group: "sinv U k \<Longrightarrow> group_ok k"
  by (simp add: sinv_def)

lemma sinv_thread: "sinv U k \<Longrightarrow> t \<in> U \<Longrightarrow> thread_ok k t"
  by (simp add: sinv_def)

lemma sinv_subset: "sinv U k \<Longrightarrow> set (k_tlists k h) \<subseteq> U"
  by (simp add: sinv_def)

lemma sched_inv_ready_iff: "sched_inv k \<Longrightarrow> t \<in> set (ready k p) \<longleftrightarrow> stat k t = RT_THREAD_READY \<and> prio k t = p"
  using sinv_thread[of UNIV k t] by (auto simp: thread_ok_def dest: spec[of _ "Ready p"])

lemma sched_inv_mask: "sched_inv k \<Longrightarrow> stat k t = RT_THREAD_READY \<or> stat k t = RT_THREAD_SUSPEND \<Longrightarrow> mask_ok (thread k t)"
  using sinv_thread[of UNIV k t] by (auto simp: thread_ok_def)

lemma hole_unlinked: "sinv (- {t}) k \<Longrightarrow> unlinked t (k_tlists k)"
  by (auto simp: sinv_def unlinked_def)

text \<open>Writing the structure of a thread that is on no list.\<close>

lemma sinv_hole_upd_thread [simp]: "sinv (- {t}) (upd_thread t f k) \<longleftrightarrow> sinv (- {t}) k"
  by (rule sinv_cong) (auto simp: upd_thread_def)

text \<open>Bits of the ready group.\<close>

lemma bit_prio_mask: "q < 32 \<Longrightarrow> bit (prio_mask p) (unat (q :: u8)) \<longleftrightarrow> q = p"
  by (auto simp: prio_mask_def bit_push_bit_iff bit_exp_iff word_less_nat_alt possible_bit_word word_unat_eq_iff)

lemma bit_or_prio:
  "q < 32 \<Longrightarrow> bit (g OR prio_mask p) (unat (q :: u8)) \<longleftrightarrow> bit g (unat q) \<or> q = p"
  by (simp add: bit_or_iff bit_prio_mask)

lemma bit_clear_prio:
  "q < 32 \<Longrightarrow> bit (g AND NOT (prio_mask p)) (unat (q :: u8)) \<longleftrightarrow> bit g (unat q) \<and> q \<noteq> p"
  by (simp add: bit_and_iff bit_not_iff bit_prio_mask word_less_nat_alt possible_bit_word)

section \<open>The ready queues\<close>

lemma remove_thread_fields [simp]:
  "k_threads (rt_schedule_remove_thread t k) = k_threads k"
  "k_tlists (rt_schedule_remove_thread t k) = st_remove t (k_tlists k)"
  "k_current (rt_schedule_remove_thread t k) = k_current k"
  "k_current_priority (rt_schedule_remove_thread t k) = k_current_priority k"
  "k_lock_nest (rt_schedule_remove_thread t k) = k_lock_nest k"
  "k_interrupt_nest (rt_schedule_remove_thread t k) = k_interrupt_nest k"
  "k_tick (rt_schedule_remove_thread t k) = k_tick k"
  "k_timers (rt_schedule_remove_thread t k) = k_timers k"
  "k_timer_list (rt_schedule_remove_thread t k) = k_timer_list k"
  "k_objects (rt_schedule_remove_thread t k) = k_objects k"
  "k_container (rt_schedule_remove_thread t k) = k_container k"
  "k_sems (rt_schedule_remove_thread t k) = k_sems k"
  "k_mutexes (rt_schedule_remove_thread t k) = k_mutexes k"
  "k_events (rt_schedule_remove_thread t k) = k_events k"
  "k_mailboxes (rt_schedule_remove_thread t k) = k_mailboxes k"
  "k_mqs (rt_schedule_remove_thread t k) = k_mqs k"
  "k_mempools (rt_schedule_remove_thread t k) = k_mempools k"
  "k_words (rt_schedule_remove_thread t k) = k_words k"
  "k_heap (rt_schedule_remove_thread t k) = k_heap k"
  by (simp_all add: rt_schedule_remove_thread_def upd_tlists_def Let_def)

lemma insert_thread_fields [simp]:
  "k_tlists (rt_schedule_insert_thread t k) = st_append (Ready (prio k t)) t (k_tlists k)"
  "k_ready_group (rt_schedule_insert_thread t k) = k_ready_group k OR t_number_mask (thread k t)"
  "k_threads (rt_schedule_insert_thread t k) =
     (k_threads k)(t := (k_threads k t)\<lparr>t_stat := RT_THREAD_READY\<rparr>)"
  "k_current (rt_schedule_insert_thread t k) = k_current k"
  "k_current_priority (rt_schedule_insert_thread t k) = k_current_priority k"
  "k_lock_nest (rt_schedule_insert_thread t k) = k_lock_nest k"
  "k_interrupt_nest (rt_schedule_insert_thread t k) = k_interrupt_nest k"
  "k_tick (rt_schedule_insert_thread t k) = k_tick k"
  "k_timers (rt_schedule_insert_thread t k) = k_timers k"
  "k_timer_list (rt_schedule_insert_thread t k) = k_timer_list k"
  "k_objects (rt_schedule_insert_thread t k) = k_objects k"
  "k_container (rt_schedule_insert_thread t k) = k_container k"
  "k_sems (rt_schedule_insert_thread t k) = k_sems k"
  "k_mutexes (rt_schedule_insert_thread t k) = k_mutexes k"
  "k_events (rt_schedule_insert_thread t k) = k_events k"
  "k_mailboxes (rt_schedule_insert_thread t k) = k_mailboxes k"
  "k_mqs (rt_schedule_insert_thread t k) = k_mqs k"
  "k_mempools (rt_schedule_insert_thread t k) = k_mempools k"
  "k_words (rt_schedule_insert_thread t k) = k_words k"
  "k_heap (rt_schedule_insert_thread t k) = k_heap k"
  by (simp_all add: rt_schedule_insert_thread_def upd_tlists_def upd_thread_def Let_def)

text \<open>Taking a thread off its list leaves a hole; the mask of the thread must be the bit of its
  priority, or the wrong bit of the group is cleared.\<close>

lemma remove_thread_hole:
  assumes inv: "sched_inv k" and m: "mask_ok (thread k t)"
  shows "sinv (- {t}) (rt_schedule_remove_thread t k)"
proof -
  let ?k = "rt_schedule_remove_thread t k" and ?p = "prio k t"
  have other: "ready ?k p = ready k p" if "p \<noteq> ?p" for p
    using sched_inv_ready_iff[OF inv, of t p] that by simp
  have grp: "k_ready_group ?k =
      (if ready ?k ?p = [] then k_ready_group k AND NOT (prio_mask ?p) else k_ready_group k)"
    using m by (simp add: rt_schedule_remove_thread_def upd_tlists_def Let_def mask_ok_def)
  have "group_ok ?k"
    unfolding group_ok_def
  proof (intro allI impI)
    fix p :: u8 assume p: "p < 32"
    have old: "bit (k_ready_group k) (unat p) \<longleftrightarrow> ready k p \<noteq> []"
      using sinv_group[OF inv] p by (simp add: group_ok_def)
    show "bit (k_ready_group ?k) (unat p) \<longleftrightarrow> ready ?k p \<noteq> []"
    proof (cases "p = ?p")
      case True
      then show ?thesis
        using m old p by (auto simp: grp bit_clear_prio mask_ok_def)
    next
      case False
      then show ?thesis
        using m old p other[OF False] by (auto simp: grp bit_clear_prio mask_ok_def)
    qed
  qed
  moreover have "thread_ok ?k u" if "u \<noteq> t" for u
    using sinv_thread[OF inv, of u] that by (auto simp: thread_ok_def)
  ultimately show ?thesis
    using sinv_wf[OF inv] by (auto simp: sinv_def)
qed

text \<open>Filling the hole with a ready thread.\<close>

lemma insert_thread_inv:
  assumes inv: "sinv (- {t}) k" and m: "mask_ok (thread k t)"
  shows "sched_inv (rt_schedule_insert_thread t k)"
proof -
  let ?k = "rt_schedule_insert_thread t k" and ?p = "prio k t"
  have unl: "unlinked t (k_tlists k)" using inv by (rule hole_unlinked)
  have "group_ok ?k"
    using sinv_group[OF inv] m by (auto simp: group_ok_def mask_ok_def bit_or_prio st_append_def)
  moreover have "thread_ok ?k u" for u
  proof (cases "u = t")
    case True
    then show ?thesis
      using unl m by (auto simp: thread_ok_def st_append_def mask_ok_def unlinked_def split: if_splits)
  next
    case False
    then have ok: "thread_ok k u" using inv by (simp add: sinv_def)
    have "u \<in> set (k_tlists ?k h) \<longleftrightarrow> u \<in> set (k_tlists k h)" for h
      using False by (simp add: st_append_def)
    with False ok show ?thesis unfolding thread_ok_def by simp
  qed
  ultimately show ?thesis
    using store_wf_append[OF sinv_wf[OF inv] unl] by (simp add: sinv_def)
qed

text \<open>Filling the hole with a thread that is not ready: on no list, on a wait queue or defunct.\<close>

lemma sinv_fill:
  assumes inv: "sinv (- {t}) k" and st: "stat k t \<noteq> RT_THREAD_READY"
    and m: "stat k t = RT_THREAD_SUSPEND \<longrightarrow> mask_ok (thread k t)"
  shows "sched_inv k"
  using assms hole_unlinked[OF inv] by (auto simp: sinv_def thread_ok_def unlinked_def)

lemma sinv_fill_queue:
  assumes inv: "sinv (- {t}) k" and fit: "stat_fits h (stat k t)" and h: "\<forall>p. h \<noteq> Ready p"
    and m: "stat k t = RT_THREAD_SUSPEND \<longrightarrow> mask_ok (thread k t)"
    and zs: "set zs = insert t (set (k_tlists k h))" "distinct zs"
  shows "sched_inv (k\<lparr>k_tlists := (k_tlists k)(h := zs)\<rparr>)"
proof -
  have unl: "unlinked t (k_tlists k)" using inv by (rule hole_unlinked)
  have st: "stat k t \<noteq> RT_THREAD_READY" using fit h by (cases h) auto
  have "store_wf ((k_tlists k)(h := zs))"
    using zs by (intro store_wf_upd[OF sinv_wf[OF inv] unl]) auto
  moreover have "thread_ok (k\<lparr>k_tlists := (k_tlists k)(h := zs)\<rparr>) u" for u
  proof (cases "u = t")
    case True
    then show ?thesis
      using unl fit m st h zs by (auto simp: thread_ok_def unlinked_def split: if_splits)
  next
    case False
    then have ok: "thread_ok k u" using inv by (simp add: sinv_def)
    have "u \<in> set (((k_tlists k)(h := zs)) h') \<longleftrightarrow> u \<in> set (k_tlists k h')" for h'
      using False zs by simp
    with ok show ?thesis unfolding thread_ok_def by simp
  qed
  moreover have "group_ok (k\<lparr>k_tlists := (k_tlists k)(h := zs)\<rparr>)"
    using sinv_group[OF inv] h by (auto simp: group_ok_def)
  ultimately show ?thesis by (simp add: sinv_def)
qed

section \<open>The schedule\<close>

text \<open>What the next thread to run is: a ready thread of the highest priority that has one, at the head
  of its queue.\<close>

definition next_to_run :: "kernel \<Rightarrow> tid \<Rightarrow> bool" where
  "next_to_run k t \<longleftrightarrow> stat k t = RT_THREAD_READY \<and> t = hd (ready k (prio k t)) \<and>
     (\<forall>u. stat k u = RT_THREAD_READY \<longrightarrow> prio k t \<le> prio k u)"

text \<open>What the context switch needs: some thread is ready, somebody is running, and no thread that is
  or can become ready has overflown its stack.\<close>

definition stacks_ok :: "kernel \<Rightarrow> bool" where
  "stacks_ok k \<longleftrightarrow> (\<forall>t. stat k t = RT_THREAD_READY \<or> stat k t = RT_THREAD_SUSPEND \<longrightarrow>
     rt_scheduler_stack_check (thread k t))"

definition can_schedule :: "kernel \<Rightarrow> bool" where
  "can_schedule k \<longleftrightarrow> (\<exists>t. stat k t = RT_THREAD_READY) \<and> k_current k \<noteq> None \<and> stacks_ok k"

lemma stacks_ok_cong: "k_threads k' = k_threads k \<Longrightarrow> stacks_ok k' = stacks_ok k"
  by (simp add: stacks_ok_def)

lemma next_to_run_unique: "sched_inv k \<Longrightarrow> next_to_run k t \<Longrightarrow> next_to_run k u \<Longrightarrow> t = u"
  unfolding next_to_run_def by (metis order.antisym)

lemma first_ready_highest:
  assumes inv: "sched_inv k" and ex: "stat k u = RT_THREAD_READY"
  defines "p \<equiv> of_nat (highest_ready_priority (k_ready_group k)) :: u8"
  shows "\<exists>t. first_ready k p = Some t \<and> next_to_run k t \<and> prio k t = p"
proof -
  let ?n = "highest_ready_priority (k_ready_group k)"
  have rdy: "u \<in> set (ready k (prio k u))" and pu: "prio k u < 32"
    using inv ex sched_inv_mask[OF inv, of u] by (auto simp: sched_inv_ready_iff mask_ok_def)
  have bits: "bit (k_ready_group k) (unat q) \<longleftrightarrow> ready k q \<noteq> []" if "q < 32" for q
    using sinv_group[OF inv] that by (simp add: group_ok_def)
  have "bit (k_ready_group k) (unat (prio k u))" using bits[OF pu] rdy by auto
  then have "k_ready_group k \<noteq> 0" by auto
  note n = highest_ready_priority_lowest[OF this]
  have un: "unat p = ?n" using n by (simp add: p_def unat_of_nat)
  then have p: "p < 32" using n by (simp add: word_less_nat_alt)
  then obtain t ts where t: "ready k p = t # ts"
    using bits[OF p] n un by (cases "ready k p") auto
  have rt: "stat k t = RT_THREAD_READY" "prio k t = p"
    using sched_inv_ready_iff[OF inv, of t p] t by auto
  have "p \<le> prio k v" if v: "stat k v = RT_THREAD_READY" for v
  proof -
    have "v \<in> set (ready k (prio k v))" "prio k v < 32"
      using inv v sched_inv_mask[OF inv, of v] by (auto simp: sched_inv_ready_iff mask_ok_def)
    then have "bit (k_ready_group k) (unat (prio k v))" using bits by fastforce
    then have "\<not> unat (prio k v) < ?n" using n by auto
    then show ?thesis using un by (simp add: word_le_nat_alt)
  qed
  with t rt show ?thesis by (auto simp: first_ready_def next_to_run_def)
qed

text \<open>A schedule only moves the processor.\<close>

definition switch_to :: "u8 \<Rightarrow> tid option \<Rightarrow> kernel \<Rightarrow> kernel" where
  "switch_to p c k = k\<lparr>k_current_priority := p, k_current := c\<rparr>"

lemma switch_to_fields [simp]:
  "k_threads (switch_to p c k) = k_threads k" "k_tlists (switch_to p c k) = k_tlists k"
  "k_ready_group (switch_to p c k) = k_ready_group k" "k_lock_nest (switch_to p c k) = k_lock_nest k"
  "k_interrupt_nest (switch_to p c k) = k_interrupt_nest k" "k_tick (switch_to p c k) = k_tick k"
  "k_timers (switch_to p c k) = k_timers k" "k_timer_list (switch_to p c k) = k_timer_list k"
  "k_objects (switch_to p c k) = k_objects k" "k_container (switch_to p c k) = k_container k"
  "k_sems (switch_to p c k) = k_sems k" "k_mutexes (switch_to p c k) = k_mutexes k"
  "k_events (switch_to p c k) = k_events k" "k_mailboxes (switch_to p c k) = k_mailboxes k"
  "k_mqs (switch_to p c k) = k_mqs k" "k_mempools (switch_to p c k) = k_mempools k"
  "k_words (switch_to p c k) = k_words k" "k_heap (switch_to p c k) = k_heap k"
  "k_current (switch_to p c k) = c"
  "sinv U (switch_to p c k) = sinv U k"
  by (simp_all add: switch_to_def)

lemma switch_to_self: "switch_to (k_current_priority k) (k_current k) k = k"
  by (simp add: switch_to_def)

lemma rt_schedule_Some: "rt_schedule k = Some k' \<Longrightarrow> \<exists>p c. k' = switch_to p c k"
  unfolding rt_schedule_def Let_def
  by (auto simp: bind_eq_Some_conv simp flip: switch_to_def split: if_splits intro: switch_to_self[symmetric])

lemma rt_schedule_returns:
  assumes inv: "sched_inv k" and can: "can_schedule k"
  shows "returns (rt_schedule k) (\<lambda>k'. \<exists>p c. k' = switch_to p (Some c) k \<and>
           (if k_lock_nest k = 0 then next_to_run k c else k_current k = Some c))"
proof -
  from can obtain u c where u: "stat k u = RT_THREAD_READY" and c: "k_current k = Some c"
    by (auto simp: can_schedule_def)
  obtain t where t: "first_ready k (of_nat (highest_ready_priority (k_ready_group k))) = Some t"
    and nxt: "next_to_run k t" using first_ready_highest[OF inv u] by blast
  have chk: "rt_scheduler_stack_check (thread k t)"
    using nxt can by (simp add: can_schedule_def stacks_ok_def next_to_run_def)
  have same: "k = switch_to (k_current_priority k) (Some c) k"
    using c by (simp add: switch_to_def)
  show ?thesis
  proof (cases "k_lock_nest k = 0 \<and> Some t \<noteq> k_current k")
    case True
    then show ?thesis using t nxt c chk
      by (auto simp: rt_schedule_def Let_def switch_to_def)
  next
    case False
    then have "rt_schedule k = Some k" using t c by (auto simp: rt_schedule_def Let_def)
    moreover have "if k_lock_nest k = 0 then next_to_run k c else k_current k = Some c"
      using False nxt c by auto
    ultimately show ?thesis unfolding returns_def using same by blast
  qed
qed

lemma can_schedule_cong:
  "\<lbrakk>k_threads k' = k_threads k; k_current k' = k_current k\<rbrakk> \<Longrightarrow> can_schedule k' = can_schedule k"
  by (simp add: can_schedule_def stacks_ok_def)

lemma can_schedule_switch [simp]: "can_schedule k \<Longrightarrow> can_schedule (switch_to p (Some c) k)"
  by (simp add: can_schedule_def stacks_ok_def)

lemma rt_exit_critical_returns:
  assumes inv: "sched_inv k" and can: "can_schedule k"
  shows "returns (rt_exit_critical k) (\<lambda>k'. sched_inv k' \<and> can_schedule k' \<and>
    k_threads k' = k_threads k \<and> k_tlists k' = k_tlists k \<and>
    (if sint (k_lock_nest k - 1) \<le> 0 then k_lock_nest k' = 0 \<and> (\<exists>c. k_current k' = Some c \<and> next_to_run k c)
     else k_lock_nest k' = k_lock_nest k - 1 \<and> k_current k' = k_current k))"
proof (cases "sint (k_lock_nest k - 1) \<le> 0")
  case True
  let ?k = "k\<lparr>k_lock_nest := 0\<rparr>"
  have inv': "sched_inv ?k" using inv by (subst sinv_cong) auto
  have can': "can_schedule ?k" using can by (simp add: can_schedule_def stacks_ok_def)
  have nx: "next_to_run ?k c \<longleftrightarrow> next_to_run k c" for c by (simp add: next_to_run_def)
  show ?thesis
    using True rt_schedule_returns[OF inv' can'] inv' can' nx
    by (auto simp: rt_exit_critical_def Let_def elim!: returns_mono)
next
  case False
  let ?k = "k\<lparr>k_lock_nest := k_lock_nest k - 1\<rparr>"
  have "sched_inv ?k" using inv by (subst sinv_cong) auto
  moreover have "can_schedule ?k" using can by (simp add: can_schedule_def stacks_ok_def)
  ultimately show ?thesis using False by (simp add: rt_exit_critical_def Let_def)
qed

end
