(* ===== verification/Object.thy ===== *)
theory Object
  imports Scheduler
begin

unbundle bit_operations_syntax

text \<open>
  The object system, \<^verbatim>\<open>src/object.c\<close>: every kernel object has a header with a name and a type and is
  linked in the container of its class.  The operations here work on static objects; allocating and
  deleting objects on the heap is in theory \<open>Kernel_Heap\<close>.
\<close>

section \<open>The code\<close>

text \<open>\<^verbatim>\<open>enum rt_object_class_type\<close> in the configuration of \<^verbatim>\<open>rtconfig.h\<close>.\<close>

abbreviation RT_Object_Class_Thread :: u8 where "RT_Object_Class_Thread \<equiv> 0"
abbreviation RT_Object_Class_Semaphore :: u8 where "RT_Object_Class_Semaphore \<equiv> 1"
abbreviation RT_Object_Class_Mutex :: u8 where "RT_Object_Class_Mutex \<equiv> 2"
abbreviation RT_Object_Class_Event :: u8 where "RT_Object_Class_Event \<equiv> 3"
abbreviation RT_Object_Class_MailBox :: u8 where "RT_Object_Class_MailBox \<equiv> 4"
abbreviation RT_Object_Class_MessageQueue :: u8 where "RT_Object_Class_MessageQueue \<equiv> 5"
abbreviation RT_Object_Class_MemHeap :: u8 where "RT_Object_Class_MemHeap \<equiv> 6"
abbreviation RT_Object_Class_MemPool :: u8 where "RT_Object_Class_MemPool \<equiv> 7"
abbreviation RT_Object_Class_Device :: u8 where "RT_Object_Class_Device \<equiv> 8"
abbreviation RT_Object_Class_Timer :: u8 where "RT_Object_Class_Timer \<equiv> 9"
abbreviation RT_Object_Class_Unknown :: u8 where "RT_Object_Class_Unknown \<equiv> 10"
abbreviation RT_Object_Class_Static :: u8 where "RT_Object_Class_Static \<equiv> 0x80"

abbreviation RT_NAME_MAX :: nat where "RT_NAME_MAX \<equiv> 6"

definition rt_object_init :: "obj \<Rightarrow> u8 \<Rightarrow> cstr \<Rightarrow> kernel \<Rightarrow> kernel" where
  "rt_object_init x type name k =
     (let k1 = upd_object x (\<lambda>ob. ob\<lparr>o_type := type OR RT_Object_Class_Static,
                                     o_name := rt_strncpy name RT_NAME_MAX\<rparr>) k
      in k1\<lparr>k_container := st_push (unat type) x (k_container k1)\<rparr>)"

definition rt_object_detach :: "obj \<Rightarrow> kernel \<Rightarrow> kernel" where
  "rt_object_detach x k = k\<lparr>k_container := st_remove x (k_container k)\<rparr>"

definition rt_object_is_systemobject :: "obj \<Rightarrow> kernel \<Rightarrow> bool" where
  "rt_object_is_systemobject x k \<longleftrightarrow> o_type (k_objects k x) AND RT_Object_Class_Static \<noteq> 0"

text \<open>The search loop over the container of a class.\<close>

definition find_name :: "cstr \<Rightarrow> u8 \<Rightarrow> kernel \<Rightarrow> obj option" where
  "find_name name type k =
     List.find (\<lambda>x. rt_strncmp (o_name (k_objects k x)) name RT_NAME_MAX = 0) (k_container k (unat type))"

text \<open>The guard lets the class \<^verbatim>\<open>RT_Object_Class_Unknown\<close> through, which indexes one past the end of
  \<^verbatim>\<open>rt_object_container\<close>: there the behaviour of the C code is undefined.\<close>

definition rt_object_find :: "cstr option \<Rightarrow> u8 \<Rightarrow> kernel \<Rightarrow> (obj option \<times> kernel) option" where
  "rt_object_find name type k =
     (case name of
        None \<Rightarrow> Some (None, k)
      | Some name \<Rightarrow>
          if type > RT_Object_Class_Unknown then Some (None, k)
          else do {
            rt_assert (k_interrupt_nest k = 0);
            rt_assert (type < RT_Object_Class_Unknown);
            let k1 = rt_enter_critical k;
            k2 \<leftarrow> rt_exit_critical k1;
            Some (find_name name type k1, k2)
          })"

section \<open>The container\<close>

definition container_ok :: "kernel \<Rightarrow> bool" where
  "container_ok k \<longleftrightarrow> store_wf (k_container k)"

lemma object_init_fields [simp]:
  "k_threads (rt_object_init x c n k) = k_threads k" "k_tlists (rt_object_init x c n k) = k_tlists k"
  "k_ready_group (rt_object_init x c n k) = k_ready_group k"
  "k_current (rt_object_init x c n k) = k_current k"
  "k_current_priority (rt_object_init x c n k) = k_current_priority k"
  "k_lock_nest (rt_object_init x c n k) = k_lock_nest k"
  "k_interrupt_nest (rt_object_init x c n k) = k_interrupt_nest k"
  "k_tick (rt_object_init x c n k) = k_tick k" "k_timers (rt_object_init x c n k) = k_timers k"
  "k_timer_list (rt_object_init x c n k) = k_timer_list k"
  "k_container (rt_object_init x c n k) = st_push (unat c) x (k_container k)"
  "k_sems (rt_object_init x c n k) = k_sems k" "k_mutexes (rt_object_init x c n k) = k_mutexes k"
  "k_events (rt_object_init x c n k) = k_events k"
  "k_mailboxes (rt_object_init x c n k) = k_mailboxes k" "k_mqs (rt_object_init x c n k) = k_mqs k"
  "k_mempools (rt_object_init x c n k) = k_mempools k" "k_words (rt_object_init x c n k) = k_words k"
  "k_heap (rt_object_init x c n k) = k_heap k"
  "o_flag (k_objects (rt_object_init x c n k) y) = o_flag (k_objects k y)"
  "o_name (k_objects (rt_object_init x c n k) x) = rt_strncpy n RT_NAME_MAX"
  "o_type (k_objects (rt_object_init x c n k) x) = c OR RT_Object_Class_Static"
  by (simp_all add: rt_object_init_def upd_object_def Let_def)

lemma object_init_other [simp]: "y \<noteq> x \<Longrightarrow> k_objects (rt_object_init x c n k) y = k_objects k y"
  by (simp add: rt_object_init_def upd_object_def Let_def)

lemma object_detach_fields [simp]:
  "k_threads (rt_object_detach x k) = k_threads k" "k_tlists (rt_object_detach x k) = k_tlists k"
  "k_ready_group (rt_object_detach x k) = k_ready_group k" "k_current (rt_object_detach x k) = k_current k"
  "k_current_priority (rt_object_detach x k) = k_current_priority k"
  "k_lock_nest (rt_object_detach x k) = k_lock_nest k"
  "k_interrupt_nest (rt_object_detach x k) = k_interrupt_nest k" "k_tick (rt_object_detach x k) = k_tick k"
  "k_timers (rt_object_detach x k) = k_timers k" "k_timer_list (rt_object_detach x k) = k_timer_list k"
  "k_objects (rt_object_detach x k) = k_objects k"
  "k_container (rt_object_detach x k) = st_remove x (k_container k)"
  "k_sems (rt_object_detach x k) = k_sems k" "k_mutexes (rt_object_detach x k) = k_mutexes k"
  "k_events (rt_object_detach x k) = k_events k" "k_mailboxes (rt_object_detach x k) = k_mailboxes k"
  "k_mqs (rt_object_detach x k) = k_mqs k" "k_mempools (rt_object_detach x k) = k_mempools k"
  "k_words (rt_object_detach x k) = k_words k" "k_heap (rt_object_detach x k) = k_heap k"
  by (simp_all add: rt_object_detach_def)

lemma container_ok_init: "container_ok k \<Longrightarrow> unlinked x (k_container k) \<Longrightarrow> container_ok (rt_object_init x c n k)"
  by (simp add: container_ok_def store_wf_push)

lemma container_ok_detach: "container_ok k \<Longrightarrow> container_ok (rt_object_detach x k)"
  by (simp add: container_ok_def)

lemma sinv_object [simp]:
  "sinv U (rt_object_init x c n k) \<longleftrightarrow> sinv U k" "sinv U (rt_object_detach x k) \<longleftrightarrow> sinv U k"
  by (rule sinv_cong; simp)+

lemma is_systemobject_init: "rt_object_is_systemobject x (rt_object_init x c n k)"
proof -
  have "bit ((c OR 0x80) AND 0x80) 7"
    by (simp add: bit_and_iff bit_or_iff)
  then show ?thesis unfolding rt_object_is_systemobject_def object_init_fields by (metis bit_0_eq bot_apply bot_bool_def)
qed

section \<open>Looking an object up by its name\<close>

text \<open>What a lookup may return: an object of the class whose stored name agrees with the one asked for
  in the first \<^verbatim>\<open>RT_NAME_MAX\<close> characters; nothing only if there is none.\<close>

lemma find_name_Some:
  "find_name name c k = Some x \<Longrightarrow>
   x \<in> set (k_container k (unat c)) \<and> rt_strncmp (o_name (k_objects k x)) name RT_NAME_MAX = 0"
  by (auto simp: find_name_def find_Some_iff)

lemma find_name_None:
  "find_name name c k = None \<longleftrightarrow>
   (\<forall>x\<in>set (k_container k (unat c)). rt_strncmp (o_name (k_objects k x)) name RT_NAME_MAX \<noteq> 0)"
  by (auto simp: find_name_def find_None_iff)

lemma find_name_init:
  assumes "visible name RT_NAME_MAX = visible name' RT_NAME_MAX"
  shows "find_name name' c (rt_object_init x c name k) = Some x"
  using assms unfolding find_name_def object_init_fields st_push_def
  by (simp add: strncmp_stored_name)

lemma find_name_detach: "find_name name c (rt_object_detach x k) \<noteq> Some x"
  by (auto dest: find_name_Some)

lemma find_name_enter [simp]: "find_name name c (rt_enter_critical k) = find_name name c k"
  by (simp add: find_name_def rt_enter_critical_def)

lemma enter_critical_inv [simp]:
  "sinv U (rt_enter_critical k) \<longleftrightarrow> sinv U k" "can_schedule (rt_enter_critical k) \<longleftrightarrow> can_schedule k"
  "k_threads (rt_enter_critical k) = k_threads k" "k_tlists (rt_enter_critical k) = k_tlists k"
  "k_current (rt_enter_critical k) = k_current k" "k_lock_nest (rt_enter_critical k) = k_lock_nest k + 1"
  by (auto simp: rt_enter_critical_def can_schedule_def stacks_ok_def)

lemma rt_object_find_returns:
  assumes inv: "sched_inv k" "can_schedule k" and irq: "k_interrupt_nest k = 0" and c: "c < RT_Object_Class_Unknown"
  shows "returns (rt_object_find (Some name) c k)
           (\<lambda>(r, k'). r = find_name name c k \<and> sched_inv k' \<and> k_threads k' = k_threads k \<and> k_tlists k' = k_tlists k)"
  using rt_exit_critical_returns[of "rt_enter_critical k"] inv irq c
  by (auto simp: rt_object_find_def Let_def elim!: returns_mono)

end
