(* ===== verification/Timer.thy ===== *)
theory Timer
  imports Object
begin

unbundle bit_operations_syntax

text \<open>
  The hard timers, \<^verbatim>\<open>src/timer.c\<close> (\<^verbatim>\<open>RT_USING_TIMER_SOFT\<close> is off): a list of active timers ordered
  by expiry, over a tick counter that wraps.  The function a timer calls when it expires is an
  argument \<open>call\<close> of the check loop: the kernel's own \<^verbatim>\<open>rt_thread_timeout\<close> is in theory \<open>Thread\<close>, and
  the others belong to the application.
\<close>

section \<open>The code\<close>

abbreviation RT_TIMER_FLAG_ACTIVATED :: u8 where "RT_TIMER_FLAG_ACTIVATED \<equiv> 1"
abbreviation RT_TIMER_FLAG_PERIODIC :: u8 where "RT_TIMER_FLAG_PERIODIC \<equiv> 2"
abbreviation RT_TIMER_FLAG_ONE_SHOT :: u8 where "RT_TIMER_FLAG_ONE_SHOT \<equiv> 0"
abbreviation RT_TIMER_CTRL_SET_TIME :: u8 where "RT_TIMER_CTRL_SET_TIME \<equiv> 0"
abbreviation RT_TIMER_CTRL_GET_TIME :: u8 where "RT_TIMER_CTRL_GET_TIME \<equiv> 1"
abbreviation RT_TIMER_CTRL_SET_ONESHOT :: u8 where "RT_TIMER_CTRL_SET_ONESHOT \<equiv> 2"
abbreviation RT_TIMER_CTRL_SET_PERIODIC :: u8 where "RT_TIMER_CTRL_SET_PERIODIC \<equiv> 3"

definition activated :: "kernel \<Rightarrow> timer_id \<Rightarrow> bool" where
  "activated k i \<longleftrightarrow> timer_flag k i AND RT_TIMER_FLAG_ACTIVATED \<noteq> 0"

definition periodic :: "kernel \<Rightarrow> timer_id \<Rightarrow> bool" where
  "periodic k i \<longleftrightarrow> timer_flag k i AND RT_TIMER_FLAG_PERIODIC \<noteq> 0"

text \<open>The assignments to \<^verbatim>\<open>timer->parent.flag\<close>.\<close>

definition set_flag :: "timer_id \<Rightarrow> u8 \<Rightarrow> kernel \<Rightarrow> kernel" where
  "set_flag i f = upd_object (OTimer i) (\<lambda>ob. ob\<lparr>o_flag := o_flag ob OR f\<rparr>)"

definition clear_flag :: "timer_id \<Rightarrow> u8 \<Rightarrow> kernel \<Rightarrow> kernel" where
  "clear_flag i f = upd_object (OTimer i) (\<lambda>ob. ob\<lparr>o_flag := o_flag ob AND NOT f\<rparr>)"

text \<open>\<^verbatim>\<open>rt_list_remove(&(timer->list))\<close>.\<close>

definition unlink_timer :: "timer_id \<Rightarrow> kernel \<Rightarrow> kernel" where
  "unlink_timer i k = k\<lparr>k_timer_list := removeAll i (k_timer_list k)\<rparr>"

definition rt_timer_init_fields :: "timer_id \<Rightarrow> timeout_func \<Rightarrow> ptr \<Rightarrow> u32 \<Rightarrow> u8 \<Rightarrow> kernel \<Rightarrow> kernel" where
  "rt_timer_init_fields i timeout parameter time flag k =
     (let k1 = upd_object (OTimer i) (\<lambda>ob. ob\<lparr>o_flag := flag\<rparr>) k;
          k2 = clear_flag i RT_TIMER_FLAG_ACTIVATED k1
      in upd_timer i (\<lambda>_. \<lparr>tm_timeout_func = timeout, tm_parameter = parameter,
                            tm_init_tick = time, tm_timeout_tick = 0\<rparr>) k2)"

definition rt_timer_list_next_timeout :: "kernel \<Rightarrow> u32" where
  "rt_timer_list_next_timeout k =
     (case k_timer_list k of [] \<Rightarrow> RT_TICK_MAX | i # _ \<Rightarrow> tm_timeout_tick (k_timers k i))"

definition rt_timer_init ::
  "timer_id \<Rightarrow> cstr \<Rightarrow> timeout_func \<Rightarrow> ptr \<Rightarrow> u32 \<Rightarrow> u8 \<Rightarrow> kernel \<Rightarrow> kernel" where
  "rt_timer_init i name timeout parameter time flag k =
     rt_timer_init_fields i timeout parameter time flag
       (rt_object_init (OTimer i) RT_Object_Class_Timer name k)"

definition rt_timer_detach :: "timer_id \<Rightarrow> kernel \<Rightarrow> kernel" where
  "rt_timer_detach i k = rt_object_detach (OTimer i) (unlink_timer i k)"

definition rt_timer_start :: "timer_id \<Rightarrow> kernel \<Rightarrow> (rt_err \<times> kernel) option" where
  "rt_timer_start i k =
     (if activated k i then Some (-RT_ERROR, k)
      else do {
        rt_assert (tm_init_tick (k_timers k i) < RT_TICK_HALF);
        let k1 = upd_timer i (\<lambda>tm. tm\<lparr>tm_timeout_tick := k_tick k + tm_init_tick tm\<rparr>) k;
        let k2 = k1\<lparr>k_timer_list :=
                     insert_by (\<lambda>t. tm_timeout_tick (k_timers k1 t) - tm_timeout_tick (k_timers k1 i) < RT_TICK_HALF)
                       i (k_timer_list k1)\<rparr>;
        Some (RT_EOK, set_flag i RT_TIMER_FLAG_ACTIVATED k2) })"

definition rt_timer_stop :: "timer_id \<Rightarrow> kernel \<Rightarrow> rt_err \<times> kernel" where
  "rt_timer_stop i k =
     (if \<not> activated k i then (-RT_ERROR, k)
      else (RT_EOK, clear_flag i RT_TIMER_FLAG_ACTIVATED (unlink_timer i k)))"

text \<open>The result is the value at \<^verbatim>\<open>*arg\<close> after the call, and the state.\<close>

definition rt_timer_control :: "timer_id \<Rightarrow> u8 \<Rightarrow> u32 \<Rightarrow> kernel \<Rightarrow> u32 \<times> kernel" where
  "rt_timer_control i cmd arg k =
     (if cmd = RT_TIMER_CTRL_GET_TIME then (tm_init_tick (k_timers k i), k)
      else if cmd = RT_TIMER_CTRL_SET_TIME then (arg, upd_timer i (\<lambda>tm. tm\<lparr>tm_init_tick := arg\<rparr>) k)
      else if cmd = RT_TIMER_CTRL_SET_ONESHOT then (arg, clear_flag i RT_TIMER_FLAG_PERIODIC k)
      else if cmd = RT_TIMER_CTRL_SET_PERIODIC then (arg, set_flag i RT_TIMER_FLAG_PERIODIC k)
      else (arg, k))"

text \<open>The body of the loop of \<^verbatim>\<open>rt_timer_check\<close> for an expired timer, and the loop.\<close>

type_synonym callback = "timeout_func \<Rightarrow> ptr \<Rightarrow> kernel \<Rightarrow> kernel option"

definition rt_timer_expire :: "callback \<Rightarrow> timer_id \<Rightarrow> kernel \<Rightarrow> kernel option" where
  "rt_timer_expire call i k =
     do { let k1 = unlink_timer i k;
          k2 \<leftarrow> call (tm_timeout_func (k_timers k1 i)) (tm_parameter (k_timers k1 i)) k1;
          if periodic k2 i \<and> activated k2 i
          then do { (_, k3) \<leftarrow> rt_timer_start i (clear_flag i RT_TIMER_FLAG_ACTIVATED k2); Some k3 }
          else Some (clear_flag i RT_TIMER_FLAG_ACTIVATED k2) }"

partial_function (option) rt_timer_check_loop :: "callback \<Rightarrow> u32 \<Rightarrow> kernel \<Rightarrow> kernel option" where
  "rt_timer_check_loop call current_tick k =
     (case k_timer_list k of
        [] \<Rightarrow> Some k
      | i # _ \<Rightarrow>
          if current_tick - tm_timeout_tick (k_timers k i) < RT_TICK_HALF
          then do { k1 \<leftarrow> rt_timer_expire call i k; rt_timer_check_loop call (k_tick k1) k1 }
          else Some k)"

definition rt_timer_check :: "callback \<Rightarrow> kernel \<Rightarrow> kernel option" where
  "rt_timer_check call k = rt_timer_check_loop call (k_tick k) k"

definition rt_timer_next_timeout_tick :: "kernel \<Rightarrow> u32" where
  "rt_timer_next_timeout_tick k = rt_timer_list_next_timeout k"

section \<open>Flags\<close>

lemma flag_bits:
  "(f OR 1) AND 1 \<noteq> (0 :: u8)" "(f AND NOT 1) AND 1 = (0 :: u8)"
  "(f OR 1) AND 2 = f AND (2 :: u8)" "(f AND NOT 1) AND 2 = f AND (2 :: u8)"
  "(f AND -2) AND 1 = (0 :: u8)" "(f AND -2) AND 2 = f AND (2 :: u8)"
proof -
  have "bit ((f OR 1) AND 1) 0" by (simp add: bit_and_iff bit_or_iff)
  then show "(f OR 1) AND 1 \<noteq> (0 :: u8)" by (metis bit_0_eq bot_apply bot_bool_def)
  show "(f AND NOT 1) AND 1 = (0 :: u8)" by (simp add: and.assoc)
  have 1: "(1 :: u8) AND 2 = 0" "NOT 1 AND (2 :: u8) = 2" by simp_all
  show "(f OR 1) AND 2 = f AND (2 :: u8)" by (simp only: bit.conj_disj_distrib2 1 or.right_neutral)
  show "(f AND NOT 1) AND 2 = f AND (2 :: u8)" by (simp only: and.assoc 1)
  show "(f AND -2) AND 1 = (0 :: u8)" by (simp add: and.assoc)
  show "(f AND -2) AND 2 = f AND (2 :: u8)" by (simp add: and.assoc)
qed

lemma set_flag_frame [simp]:
  "k_threads (set_flag i f k) = k_threads k" "k_tlists (set_flag i f k) = k_tlists k"
  "k_ready_group (set_flag i f k) = k_ready_group k" "k_current (set_flag i f k) = k_current k"
  "k_current_priority (set_flag i f k) = k_current_priority k"
  "k_lock_nest (set_flag i f k) = k_lock_nest k"
  "k_interrupt_nest (set_flag i f k) = k_interrupt_nest k" "k_tick (set_flag i f k) = k_tick k"
  "k_timers (set_flag i f k) = k_timers k" "k_timer_list (set_flag i f k) = k_timer_list k"
  "k_container (set_flag i f k) = k_container k" "k_sems (set_flag i f k) = k_sems k"
  "k_mutexes (set_flag i f k) = k_mutexes k" "k_events (set_flag i f k) = k_events k"
  "k_mailboxes (set_flag i f k) = k_mailboxes k" "k_mqs (set_flag i f k) = k_mqs k"
  "k_mempools (set_flag i f k) = k_mempools k" "k_words (set_flag i f k) = k_words k"
  "k_heap (set_flag i f k) = k_heap k"
  by (simp_all add: set_flag_def)

lemma clear_flag_frame [simp]:
  "k_threads (clear_flag i f k) = k_threads k" "k_tlists (clear_flag i f k) = k_tlists k"
  "k_ready_group (clear_flag i f k) = k_ready_group k" "k_current (clear_flag i f k) = k_current k"
  "k_current_priority (clear_flag i f k) = k_current_priority k"
  "k_lock_nest (clear_flag i f k) = k_lock_nest k"
  "k_interrupt_nest (clear_flag i f k) = k_interrupt_nest k" "k_tick (clear_flag i f k) = k_tick k"
  "k_timers (clear_flag i f k) = k_timers k" "k_timer_list (clear_flag i f k) = k_timer_list k"
  "k_container (clear_flag i f k) = k_container k" "k_sems (clear_flag i f k) = k_sems k"
  "k_mutexes (clear_flag i f k) = k_mutexes k" "k_events (clear_flag i f k) = k_events k"
  "k_mailboxes (clear_flag i f k) = k_mailboxes k" "k_mqs (clear_flag i f k) = k_mqs k"
  "k_mempools (clear_flag i f k) = k_mempools k" "k_words (clear_flag i f k) = k_words k"
  "k_heap (clear_flag i f k) = k_heap k"
  by (simp_all add: clear_flag_def)

lemma unlink_timer_frame [simp]:
  "k_threads (unlink_timer i k) = k_threads k" "k_tlists (unlink_timer i k) = k_tlists k"
  "k_ready_group (unlink_timer i k) = k_ready_group k" "k_current (unlink_timer i k) = k_current k"
  "k_current_priority (unlink_timer i k) = k_current_priority k"
  "k_lock_nest (unlink_timer i k) = k_lock_nest k"
  "k_interrupt_nest (unlink_timer i k) = k_interrupt_nest k" "k_tick (unlink_timer i k) = k_tick k"
  "k_timers (unlink_timer i k) = k_timers k" "k_objects (unlink_timer i k) = k_objects k"
  "k_container (unlink_timer i k) = k_container k" "k_sems (unlink_timer i k) = k_sems k"
  "k_mutexes (unlink_timer i k) = k_mutexes k" "k_events (unlink_timer i k) = k_events k"
  "k_mailboxes (unlink_timer i k) = k_mailboxes k" "k_mqs (unlink_timer i k) = k_mqs k"
  "k_mempools (unlink_timer i k) = k_mempools k" "k_words (unlink_timer i k) = k_words k"
  "k_heap (unlink_timer i k) = k_heap k"
  "k_timer_list (unlink_timer i k) = removeAll i (k_timer_list k)"
  by (simp_all add: unlink_timer_def)

lemma timer_detach_frame [simp]:
  "k_threads (rt_timer_detach i k) = k_threads k" "k_tlists (rt_timer_detach i k) = k_tlists k"
  "k_ready_group (rt_timer_detach i k) = k_ready_group k"
  "k_current (rt_timer_detach i k) = k_current k"
  "k_current_priority (rt_timer_detach i k) = k_current_priority k"
  "k_lock_nest (rt_timer_detach i k) = k_lock_nest k"
  "k_interrupt_nest (rt_timer_detach i k) = k_interrupt_nest k"
  "k_tick (rt_timer_detach i k) = k_tick k" "k_timers (rt_timer_detach i k) = k_timers k"
  "k_objects (rt_timer_detach i k) = k_objects k" "k_sems (rt_timer_detach i k) = k_sems k"
  "k_mutexes (rt_timer_detach i k) = k_mutexes k" "k_events (rt_timer_detach i k) = k_events k"
  "k_mailboxes (rt_timer_detach i k) = k_mailboxes k" "k_mqs (rt_timer_detach i k) = k_mqs k"
  "k_mempools (rt_timer_detach i k) = k_mempools k" "k_words (rt_timer_detach i k) = k_words k"
  "k_heap (rt_timer_detach i k) = k_heap k"
  "k_timer_list (rt_timer_detach i k) = removeAll i (k_timer_list k)"
  "k_container (rt_timer_detach i k) = st_remove (OTimer i) (k_container k)"
  by (simp_all add: rt_timer_detach_def)

lemma set_flag_activated [simp]:
  "activated (set_flag i RT_TIMER_FLAG_ACTIVATED k) j \<longleftrightarrow> j = i \<or> activated k j"
  "periodic (set_flag i RT_TIMER_FLAG_ACTIVATED k) j \<longleftrightarrow> periodic k j"
  by (auto simp: activated_def periodic_def set_flag_def upd_object_def flag_bits)

lemma clear_flag_activated [simp]:
  "activated (clear_flag i RT_TIMER_FLAG_ACTIVATED k) j \<longleftrightarrow> j \<noteq> i \<and> activated k j"
  "periodic (clear_flag i RT_TIMER_FLAG_ACTIVATED k) j \<longleftrightarrow> periodic k j"
  by (auto simp: activated_def periodic_def clear_flag_def upd_object_def flag_bits)

lemma activated_upd_timer [simp]:
  "activated (upd_timer i f k) j \<longleftrightarrow> activated k j" "periodic (upd_timer i f k) j \<longleftrightarrow> periodic k j"
  by (auto simp: activated_def periodic_def upd_timer_def)

lemma activated_unlink [simp]:
  "activated (unlink_timer i k) j \<longleftrightarrow> activated k j" "periodic (unlink_timer i k) j \<longleftrightarrow> periodic k j"
  by (auto simp: activated_def periodic_def unlink_timer_def)

lemma activated_cong: "k_objects k' = k_objects k \<Longrightarrow> activated k' = activated k"
  and periodic_cong: "k_objects k' = k_objects k \<Longrightarrow> periodic k' = periodic k"
  by (auto simp: activated_def periodic_def fun_eq_iff)

section \<open>The ordered list\<close>

text \<open>\<open>delta b k i\<close> is the distance of the expiry of timer \<open>i\<close> from the instant \<open>b\<close>.\<close>

definition delta :: "u32 \<Rightarrow> kernel \<Rightarrow> timer_id \<Rightarrow> nat" where
  "delta b k i = unat (tm_timeout_tick (k_timers k i) - b)"

definition timers_ok :: "u32 \<Rightarrow> kernel \<Rightarrow> bool" where
  "timers_ok b k \<longleftrightarrow> distinct (k_timer_list k) \<and> sorted_by (delta b k) (k_timer_list k) \<and>
     (\<forall>i\<in>set (k_timer_list k). activated k i)"

definition within :: "u32 \<Rightarrow> nat \<Rightarrow> kernel \<Rightarrow> bool" where
  "within b B k \<longleftrightarrow> (\<forall>i\<in>set (k_timer_list k). delta b k i \<le> B)"

abbreviation HALF :: nat where "HALF \<equiv> unat RT_TICK_HALF"

lemma timers_ok_cong:
  assumes "k_timer_list k' = k_timer_list k"
    and "\<And>i. i \<in> set (k_timer_list k) \<Longrightarrow> tm_timeout_tick (k_timers k' i) = tm_timeout_tick (k_timers k i) \<and> activated k' i = activated k i"
  shows "timers_ok b k' \<longleftrightarrow> timers_ok b k" "within b B k' \<longleftrightarrow> within b B k"
proof -
  have d: "delta b k' i = delta b k i" if "i \<in> set (k_timer_list k)" for i
    using assms(2)[OF that] by (simp add: delta_def)
  then show "within b B k' \<longleftrightarrow> within b B k" by (simp add: within_def assms(1))
  show "timers_ok b k' \<longleftrightarrow> timers_ok b k"
    using assms sorted_by_cong[of "k_timer_list k" "delta b k'" "delta b k", OF d] by (auto simp: timers_ok_def)
qed

lemma timers_ok_unlink: "timers_ok b k \<Longrightarrow> timers_ok b (unlink_timer i k)"
  and within_unlink: "within b B k \<Longrightarrow> within b B (unlink_timer i k)"
  by (auto simp: timers_ok_def within_def delta_def sorted_wrt_removeAll distinct_removeAll)

lemma within_mono: "within b B k \<Longrightarrow> B \<le> B' \<Longrightarrow> within b B' k"
  by (auto simp: within_def)

lemma timers_clear_unlinked:
  "i \<notin> set (k_timer_list k) \<Longrightarrow> timers_ok b (clear_flag i RT_TIMER_FLAG_ACTIVATED k) \<longleftrightarrow> timers_ok b k"
  "within b B (clear_flag i RT_TIMER_FLAG_ACTIVATED k) \<longleftrightarrow> within b B k"
  by (rule timers_ok_cong, simp, fastforce) (simp add: within_def delta_def)

text \<open>Starting a timer.\<close>

definition started :: "timer_id \<Rightarrow> kernel \<Rightarrow> kernel" where
  "started i k = snd (the (rt_timer_start i k))"

lemma rt_timer_start_active: "activated k i \<Longrightarrow> rt_timer_start i k = Some (-RT_ERROR, k)"
  by (simp add: rt_timer_start_def)

lemma rt_timer_start_eq:
  "\<not> activated k i \<Longrightarrow> tm_init_tick (k_timers k i) < RT_TICK_HALF \<Longrightarrow>
   rt_timer_start i k = Some (RT_EOK, started i k)"
  by (simp add: started_def rt_timer_start_def Let_def)

lemma started_frame:
  assumes "\<not> activated k i" "tm_init_tick (k_timers k i) < RT_TICK_HALF"
  shows
  "k_threads (started i k) = k_threads k" "k_tlists (started i k) = k_tlists k"
  "k_ready_group (started i k) = k_ready_group k" "k_current (started i k) = k_current k"
  "k_current_priority (started i k) = k_current_priority k" "k_lock_nest (started i k) = k_lock_nest k"
  "k_interrupt_nest (started i k) = k_interrupt_nest k" "k_tick (started i k) = k_tick k"
  "k_container (started i k) = k_container k" "k_sems (started i k) = k_sems k"
  "k_mutexes (started i k) = k_mutexes k" "k_events (started i k) = k_events k"
  "k_mailboxes (started i k) = k_mailboxes k" "k_mqs (started i k) = k_mqs k"
  "k_mempools (started i k) = k_mempools k" "k_words (started i k) = k_words k"
  "k_heap (started i k) = k_heap k"
  using assms by (simp_all add: started_def rt_timer_start_def Let_def)

lemma started_timer:
  assumes "\<not> activated k i" "tm_init_tick (k_timers k i) < RT_TICK_HALF"
  shows "set (k_timer_list (started i k)) = insert i (set (k_timer_list k))"
    and "k_timers (started i k) = (k_timers k)(i := (k_timers k i)\<lparr>tm_timeout_tick := k_tick k + tm_init_tick (k_timers k i)\<rparr>)"
    and "activated (started i k) j \<longleftrightarrow> j = i \<or> activated k j"
    and "periodic (started i k) j \<longleftrightarrow> periodic k j"
  using assms
  by (simp_all add: started_def rt_timer_start_def Let_def activated_cong[of "upd_timer i f k" k for f]
      periodic_cong[of "upd_timer i f k" k for f] cong: activated_cong)
    (auto simp: activated_def periodic_def)

lemma started_ok:
  assumes ok: "timers_ok b k" "within b HALF k"
    and i: "\<not> activated k i" "tm_init_tick (k_timers k i) < RT_TICK_HALF"
    and b: "k_tick k = b \<and> within b (HALF - 1) k \<or> k_tick k = b + 1"
  shows "timers_ok b (started i k)" "within b (if k_tick k = b then HALF - 1 else HALF) (started i k)"
    "delta b (started i k) i = unat (k_tick k - b) + unat (tm_init_tick (k_timers k i))"
proof -
  let ?n = "k_tick k + tm_init_tick (k_timers k i)" and ?e = "k_tick k - b"
  let ?it = "tm_init_tick (k_timers k i)"
  have ni: "i \<notin> set (k_timer_list k)" using ok(1) i(1) by (auto simp: timers_ok_def)
  have e: "?e = 0 \<or> ?e = 1" using b by auto
  have n: "?n - b = ?e + ?it" by simp
  have it: "unat ?it < HALF" using i(2) by (simp add: word_less_nat_alt)
  have un: "unat (?n - b) = unat ?e + unat ?it"
    unfolding n using e it by (intro unat_add_lem[THEN iffD1]) auto
  have d: "delta b (started i k) j = (if j = i then unat ?e + unat ?it else delta b k j)" for j
    using un by (simp add: delta_def started_timer[OF i])
  then show "delta b (started i k) i = unat ?e + unat ?it" by simp
  have bound: "unat (?n - b) \<le> HALF" using un e it by auto
  have key: "tm_timeout_tick (k_timers k j) - ?n < RT_TICK_HALF \<longleftrightarrow> unat (?n - b) \<le> delta b k j"
    if j: "j \<in> set (k_timer_list k)" for j
  proof -
    have "delta b k j \<le> HALF" "?e = 0 \<Longrightarrow> delta b k j < HALF"
      using j ok(2) b by (auto simp: within_def)
    then have "(tm_timeout_tick (k_timers k j) - b) - (?n - b) < RT_TICK_HALF \<longleftrightarrow> unat (?n - b) \<le> delta b k j"
      using bound e un unfolding delta_def
      by (intro tick_before_iff) (auto simp: unat_eq_zero[symmetric] simp del: unat_eq_zero)
    moreover have "(tm_timeout_tick (k_timers k j) - b) - (?n - b) = tm_timeout_tick (k_timers k j) - ?n"
      by (simp add: algebra_simps)
    ultimately show ?thesis by metis
  qed
  have l: "k_timer_list (started i k) =
      insert_by (\<lambda>j. tm_timeout_tick (((k_timers k)(i := (k_timers k i)\<lparr>tm_timeout_tick := ?n\<rparr>)) j) - ?n < RT_TICK_HALF)
        i (k_timer_list k)"
    using i by (simp add: started_def rt_timer_start_def Let_def)
  have "sorted_by (delta b (started i k)) (k_timer_list (started i k))"
    unfolding l
  proof (rule sorted_insert_by)
    show "sorted_by (delta b (started i k)) (k_timer_list k)"
      using ok(1) ni sorted_by_cong[of "k_timer_list k" "delta b (started i k)" "delta b k"]
      by (metis d timers_ok_def)
    show "tm_timeout_tick (((k_timers k)(i := (k_timers k i)\<lparr>tm_timeout_tick := ?n\<rparr>)) j) - ?n < RT_TICK_HALF
        \<longleftrightarrow> delta b (started i k) i \<le> delta b (started i k) j" if "j \<in> set (k_timer_list k)" for j
      using that ni key[OF that] un by (auto simp: d)
  qed
  then show "timers_ok b (started i k)"
    using ok(1) ni by (auto simp: timers_ok_def started_timer[OF i] l)
  show "within b (if k_tick k = b then HALF - 1 else HALF) (started i k)"
    using b it ok(2) by (auto simp: within_def started_timer[OF i] d)
qed

lemma timers_ok_stop:
  assumes "timers_ok b k" "within b B k"
  shows "timers_ok b (snd (rt_timer_stop i k))" "within b B (snd (rt_timer_stop i k))"
    "i \<notin> set (k_timer_list (snd (rt_timer_stop i k)))" "\<not> activated (snd (rt_timer_stop i k)) i"
proof -
  have u: "timers_ok b (unlink_timer i k)" "within b B (unlink_timer i k)"
    using assms by (auto intro: timers_ok_unlink within_unlink)
  show "timers_ok b (snd (rt_timer_stop i k))" "within b B (snd (rt_timer_stop i k))"
    using assms u by (auto simp: rt_timer_stop_def timers_clear_unlinked)
  show "i \<notin> set (k_timer_list (snd (rt_timer_stop i k)))" "\<not> activated (snd (rt_timer_stop i k)) i"
    using assms by (auto simp: rt_timer_stop_def timers_ok_def)
qed

text \<open>The next expiry the kernel reports is the earliest of the list.\<close>

lemma next_timeout_least:
  assumes "timers_ok b k" "i \<in> set (k_timer_list k)"
  shows "unat (rt_timer_next_timeout_tick k - b) \<le> delta b k i"
    "\<exists>j\<in>set (k_timer_list k). rt_timer_next_timeout_tick k = tm_timeout_tick (k_timers k j)"
  using assms
  by (auto simp: rt_timer_next_timeout_tick_def rt_timer_list_next_timeout_def timers_ok_def delta_def
      split: list.splits)

section \<open>The timer check\<close>

text \<open>One tick after the instant \<open>b\<close>, the expired timers are those at distance at most one.\<close>

definition expired :: "u32 \<Rightarrow> kernel \<Rightarrow> timer_id set" where
  "expired b k = {i \<in> set (k_timer_list k). delta b k i \<le> 1}"

lemma finite_expired [simp]: "finite (expired b k)"
  by (simp add: expired_def)

lemma expired_test:
  assumes "within b HALF k" "i \<in> set (k_timer_list k)"
  shows "(b + 1) - tm_timeout_tick (k_timers k i) < RT_TICK_HALF \<longleftrightarrow> delta b k i \<le> 1"
proof -
  have "unat (tm_timeout_tick (k_timers k i) - b) \<le> HALF" using assms by (auto simp: within_def delta_def)
  then have "1 - (tm_timeout_tick (k_timers k i) - b) < RT_TICK_HALF \<longleftrightarrow> delta b k i \<le> 1"
    unfolding delta_def by (rule tick_expired_iff)
  moreover have "1 - (tm_timeout_tick (k_timers k i) - b) = (b + 1) - tm_timeout_tick (k_timers k i)" by simp
  ultimately show ?thesis by simp
qed

text \<open>Moving the origin by one tick once nothing is expired.\<close>

lemma delta_Suc: "0 < delta b k i \<Longrightarrow> delta (b + 1) k i = delta b k i - 1"
proof -
  let ?x = "tm_timeout_tick (k_timers k i) - b"
  assume "0 < delta b k i"
  then have "unat (?x - 1) = unat ?x - 1"
    by (intro unat_minus_one) (auto simp: delta_def)
  moreover have "?x - 1 = tm_timeout_tick (k_timers k i) - (b + 1)" by simp
  ultimately show ?thesis unfolding delta_def by metis
qed

lemma timers_advance:
  assumes ok: "timers_ok b k" "within b HALF k" and none: "expired b k = {}"
  shows "timers_ok (b + 1) k" "within (b + 1) (HALF - 1) k" "\<And>i. i \<in> set (k_timer_list k) \<Longrightarrow> 0 < delta (b + 1) k i"
proof -
  have d: "1 < delta b k i" if "i \<in> set (k_timer_list k)" for i
    using none that by (auto simp: expired_def not_le)
  then have s: "delta (b + 1) k i = delta b k i - 1" if "i \<in> set (k_timer_list k)" for i
    using delta_Suc[of b k i] that by force
  show "0 < delta (b + 1) k i" if "i \<in> set (k_timer_list k)" for i using s[OF that] d[OF that] by simp
  show "within (b + 1) (HALF - 1) k" using ok(2) by (auto simp: within_def s)
  have "sorted_by (\<lambda>i. delta b k i - 1) (k_timer_list k)"
    using ok(1) by (auto simp: timers_ok_def elim: sorted_wrt_mono_rel[rotated])
  then have "sorted_by (delta (b + 1) k) (k_timer_list k)"
    using sorted_by_cong[of "k_timer_list k" "delta (b + 1) k" "\<lambda>i. delta b k i - 1"] s by simp
  with ok(1) show "timers_ok (b + 1) k" by (simp add: timers_ok_def)
qed

text \<open>
  What the loop relies on in a time-out function: called for the timer at the head of the list, which
  has been taken off, it returns; it leaves the list in order and the tick alone, starts nothing that
  expires at once, does not start the timer it is called for, and it keeps the invariant \<open>K\<close> of its
  owner, once the timer is off or, if it is periodic, running again with a period of at least a tick.
\<close>

definition timers_inv :: "u32 \<Rightarrow> kernel \<Rightarrow> bool" where
  "timers_inv b k \<longleftrightarrow> timers_ok b k \<and> within b HALF k \<and> k_tick k = b + 1"

locale timeout_functions =
  fixes call :: callback and K :: "kernel \<Rightarrow> bool"
  assumes call_returns:
    "\<lbrakk>K k; timers_inv b k; k_timer_list k = i # is; delta b k i \<le> 1\<rbrakk> \<Longrightarrow>
     returns (call (tm_timeout_func (k_timers k i)) (tm_parameter (k_timers k i)) (unlink_timer i k))
       (\<lambda>k'. timers_inv b k' \<and> i \<notin> set (k_timer_list k') \<and> expired b k' \<subseteq> expired b (unlink_timer i k) \<and>
         (if periodic k' i \<and> activated k' i
          then 0 < tm_init_tick (k_timers k' i) \<and> tm_init_tick (k_timers k' i) < RT_TICK_HALF \<and>
               K (started i (clear_flag i RT_TIMER_FLAG_ACTIVATED k'))
          else K (clear_flag i RT_TIMER_FLAG_ACTIVATED k')))"
begin

lemma restart:
  assumes inv: "timers_inv b k" and i: "i \<notin> set (k_timer_list k)"
    and t: "0 < tm_init_tick (k_timers k i)" "tm_init_tick (k_timers k i) < RT_TICK_HALF"
  defines "k' \<equiv> started i (clear_flag i RT_TIMER_FLAG_ACTIVATED k)"
  shows "timers_inv b k'" "expired b k' = expired b k"
proof -
  let ?c = "clear_flag i RT_TIMER_FLAG_ACTIVATED k"
  have c: "timers_ok b ?c" "within b HALF ?c" "k_tick ?c = b + 1" "\<not> activated ?c i"
    "tm_init_tick (k_timers ?c i) < RT_TICK_HALF"
    using inv i t by (auto simp: timers_inv_def timers_clear_unlinked)
  note st = started_ok[OF c(1,2,4,5) disjI2[OF c(3)]]
  have 1: "k_tick ?c \<noteq> b" using c(3) by simp
  show "timers_inv b k'"
    using st(1,2) 1 c(3) started_frame[OF c(4,5)] by (simp add: timers_inv_def k'_def)
  have "1 < delta b k' i"
    using st(3) c(3) t(1) by (simp add: k'_def word_less_nat_alt)
  moreover have "delta b k' j = delta b k j" if "j \<noteq> i" for j
    using that by (simp add: k'_def delta_def started_timer[OF c(4,5)])
  moreover have "set (k_timer_list k') = insert i (set (k_timer_list k))"
    by (simp add: k'_def started_timer[OF c(4,5)])
  ultimately show "expired b k' = expired b k"
    using i by (auto simp: expired_def) fastforce+
qed

lemma expire_returns:
  assumes K: "K k" and inv: "timers_inv b k" and hd: "k_timer_list k = i # is" and d: "delta b k i \<le> 1"
  shows "returns (rt_timer_expire call i k) (\<lambda>k'. K k' \<and> timers_inv b k' \<and> expired b k' \<subset> expired b k)"
proof -
  have less: "expired b (unlink_timer i k) \<subset> expired b k"
    using hd d by (auto simp: expired_def delta_def)
  show ?thesis
    unfolding rt_timer_expire_def Let_def returns_bind unlink_timer_frame
  proof (rule returns_mono[OF call_returns[OF assms]], elim conjE, goal_cases)
    case (1 k')
    let ?c = "clear_flag i RT_TIMER_FLAG_ACTIVATED k'"
    show ?case
    proof (cases "periodic k' i \<and> activated k' i")
      case True
      note st = restart[OF 1(1,2)]
      have "rt_timer_start i ?c = Some (RT_EOK, started i ?c)"
        using 1 True by (intro rt_timer_start_eq) simp_all
      then show ?thesis using 1 True st less by auto
    next
      case False
      have "expired b ?c = expired b k'" by (simp add: expired_def delta_def)
      moreover have "timers_inv b ?c" using 1 by (simp add: timers_inv_def timers_clear_unlinked)
      ultimately show ?thesis using 1 False less by auto
    qed
  qed
qed

lemma check_loop_returns:
  assumes "K k" "timers_inv b k"
  shows "returns (rt_timer_check_loop call (b + 1) k) (\<lambda>k'. K k' \<and> timers_inv b k' \<and> expired b k' = {})"
  using assms
proof (induction "card (expired b k)" arbitrary: k rule: less_induct)
  case less
  show ?case
  proof (cases "k_timer_list k")
    case Nil
    then show ?thesis using less.prems by (simp add: rt_timer_check_loop.simps[of call _ k] expired_def)
  next
    case (Cons i "is")
    have test: "(b + 1) - tm_timeout_tick (k_timers k i) < RT_TICK_HALF \<longleftrightarrow> delta b k i \<le> 1"
      using less.prems Cons by (intro expired_test) (simp_all add: timers_inv_def)
    show ?thesis
    proof (cases "delta b k i \<le> 1")
      case True
      have "returns (rt_timer_expire call i k)
          (\<lambda>k1. returns (rt_timer_check_loop call (k_tick k1) k1) (\<lambda>k'. K k' \<and> timers_inv b k' \<and> expired b k' = {}))"
      proof (rule returns_mono[OF expire_returns[OF less.prems Cons True]], elim conjE)
        fix k1 assume k1: "K k1" "timers_inv b k1" "expired b k1 \<subset> expired b k"
        then show "returns (rt_timer_check_loop call (k_tick k1) k1) (\<lambda>k'. K k' \<and> timers_inv b k' \<and> expired b k' = {})"
          using less.hyps[OF psubset_card_mono[OF finite_expired k1(3)] k1(1,2)] by (simp add: timers_inv_def)
      qed
      then show ?thesis using Cons test True by (subst rt_timer_check_loop.simps) simp
    next
      case False
      then have "expired b k = {}"
        using less.prems Cons by (fastforce simp: expired_def timers_inv_def timers_ok_def)
      then show ?thesis using Cons test False less.prems by (subst rt_timer_check_loop.simps) simp
    qed
  qed
qed

text \<open>The check returns, and afterwards every timer left lies in the future.\<close>

lemma check_returns:
  assumes "K k" "timers_ok b k" "within b HALF k" "k_tick k = b + 1"
  shows "returns (rt_timer_check call k) (\<lambda>k'. K k' \<and> k_tick k' = b + 1 \<and> timers_ok (b + 1) k' \<and>
           within (b + 1) (HALF - 1) k' \<and> (\<forall>i\<in>set (k_timer_list k'). 0 < delta (b + 1) k' i))"
proof -
  have "timers_inv b k" using assms by (simp add: timers_inv_def)
  from check_loop_returns[OF assms(1) this] show ?thesis
    unfolding rt_timer_check_def assms(4)
    by (rule returns_mono) (use timers_advance in \<open>simp add: timers_inv_def del: unat_numeral\<close>)
qed

end

end
