(* ===== verification/Thread.thy ===== *)
theory Thread
  imports Timer
begin

unbundle bit_operations_syntax

text \<open>
  Threads, \<^verbatim>\<open>src/thread.c\<close>, and the initial stack frame of \<^verbatim>\<open>libcpu/arm/cortex-m3/cpuport.c\<close>.  The part
  of a call that runs after \<^verbatim>\<open>rt_schedule\<close> has switched the caller away is a function of its own
  (\<open>_resumed\<close>), which runs when the caller is current again.
\<close>

section \<open>The code\<close>

text \<open>\<^verbatim>\<open>rt_hw_stack_init\<close>: the initial stack pointer, and the words it stores, by address.\<close>

definition rt_hw_stack_init :: "u32 \<Rightarrow> u32 \<Rightarrow> u32 \<Rightarrow> u32 \<Rightarrow> u32 \<times> (u32 \<times> u32) list" where
  "rt_hw_stack_init tentry parameter stack_addr texit =
     (let vals = [0x01000000, tentry, texit, 0, 0, 0, 0, parameter, 0, 0, 0, 0, 0, 0, 0, 0];
          addrs = map (\<lambda>i. stack_addr - of_nat (4 * i)) [0..<16]
      in (last addrs, zip addrs vals))"

text \<open>\<open>texit\<close> is the address of \<^verbatim>\<open>rt_thread_exit\<close>, the return address of every thread.\<close>

definition rt_thread_init_fields ::
  "u32 \<Rightarrow> tid \<Rightarrow> ptr \<Rightarrow> ptr \<Rightarrow> u32 \<Rightarrow> u32 \<Rightarrow> u8 \<Rightarrow> u32 \<Rightarrow> kernel \<Rightarrow> kernel option" where
  "rt_thread_init_fields texit t entry parameter stack_start stack_size priority tick k =
     do { let k1 = upd_thread t (\<lambda>th. th\<lparr>t_entry := entry, t_parameter := parameter,
                     t_stack_addr := stack_start, t_stack_size := ucast stack_size\<rparr>) k;
          let k2 = upd_thread t (\<lambda>th. th\<lparr>t_sp := fst (rt_hw_stack_init (of_nat (t_entry th)) (of_nat (t_parameter th))
                     (t_stack_addr th + ucast (t_stack_size th) - 4) texit)\<rparr>) k1;
          rt_assert (priority < 32);
          let k3 = upd_thread t (\<lambda>th. th\<lparr>t_init_priority := priority, t_current_priority := priority,
                     t_init_tick := tick, t_remaining_tick := tick, t_error := RT_EOK,
                     t_stat := RT_THREAD_INIT, t_cleanup := None, t_user_data := 0\<rparr>) k2;
          Some (rt_timer_init (Thread_Timer t) (o_name (k_objects k3 (OThread t)))
                  Rt_thread_timeout t 0 RT_TIMER_FLAG_ONE_SHOT k3) }"

definition rt_thread_init ::
  "u32 \<Rightarrow> tid \<Rightarrow> cstr \<Rightarrow> ptr \<Rightarrow> ptr \<Rightarrow> u32 \<Rightarrow> u32 \<Rightarrow> u8 \<Rightarrow> u32 \<Rightarrow> kernel \<Rightarrow> kernel option" where
  "rt_thread_init texit t name entry parameter stack_start stack_size priority tick k =
     do { rt_assert (stack_start \<noteq> 0);
          rt_thread_init_fields texit t entry parameter stack_start stack_size priority tick
            (rt_object_init (OThread t) RT_Object_Class_Thread name k) }"

definition rt_thread_self :: "kernel \<Rightarrow> tid option" where
  "rt_thread_self k = k_current k"

definition rt_thread_suspend :: "tid \<Rightarrow> kernel \<Rightarrow> rt_err \<times> kernel" where
  "rt_thread_suspend t k =
     (if stat k t \<noteq> RT_THREAD_READY then (-RT_ERROR, k)
      else (RT_EOK, rt_schedule_remove_thread t (upd_thread t (\<lambda>th. th\<lparr>t_stat := RT_THREAD_SUSPEND\<rparr>) k)))"

definition rt_thread_resume :: "tid \<Rightarrow> kernel \<Rightarrow> rt_err \<times> kernel" where
  "rt_thread_resume t k =
     (if stat k t \<noteq> RT_THREAD_SUSPEND then (-RT_ERROR, k)
      else (let k1 = upd_tlists (st_remove t) k;
                k2 = unlink_timer (Thread_Timer t) k1;
                k3 = clear_flag (Thread_Timer t) RT_TIMER_FLAG_ACTIVATED k2
            in (RT_EOK, rt_schedule_insert_thread t k3)))"

definition rt_thread_startup :: "tid \<Rightarrow> kernel \<Rightarrow> kernel option" where
  "rt_thread_startup t k =
     do { rt_assert (stat k t = RT_THREAD_INIT);
          let k1 = upd_thread t (\<lambda>th. th\<lparr>t_current_priority := t_init_priority th\<rparr>) k;
          let k2 = upd_thread t (\<lambda>th. th\<lparr>t_number_mask := push_bit (unat (t_current_priority th)) 1\<rparr>) k1;
          let k3 = upd_thread t (\<lambda>th. th\<lparr>t_stat := RT_THREAD_SUSPEND\<rparr>) k2;
          let k4 = snd (rt_thread_resume t k3);
          if rt_thread_self k4 \<noteq> None then rt_schedule k4 else Some k4 }"

definition rt_thread_exit :: "kernel \<Rightarrow> kernel option" where
  "rt_thread_exit k =
     do { t \<leftarrow> k_current k;
          let k1 = rt_schedule_remove_thread t k;
          let k2 = upd_thread t (\<lambda>th. th\<lparr>t_stat := RT_THREAD_CLOSE\<rparr>) k1;
          let k3 = unlink_timer (Thread_Timer t) k2;
          let k4 = rt_object_detach (OTimer (Thread_Timer t)) k3;
          let k5 = (if rt_object_is_systemobject (OThread t) k4 \<and> t_cleanup (thread k4 t) = None
                    then rt_object_detach (OThread t) k4
                    else upd_tlists (st_push Defunct t) k4);
          rt_schedule k5 }"

definition rt_thread_detach :: "tid \<Rightarrow> kernel \<Rightarrow> kernel" where
  "rt_thread_detach t k =
     (let k1 = rt_schedule_remove_thread t k;
          k2 = rt_timer_detach (Thread_Timer t) k1;
          k3 = upd_thread t (\<lambda>th. th\<lparr>t_stat := RT_THREAD_CLOSE\<rparr>) k2;
          k4 = rt_object_detach (OThread t) k3
      in if t_cleanup (thread k4 t) \<noteq> None then upd_tlists (st_push Defunct t) k4 else k4)"

definition rt_thread_delete :: "tid \<Rightarrow> kernel \<Rightarrow> kernel" where
  "rt_thread_delete t k =
     (let k1 = rt_schedule_remove_thread t k;
          k2 = rt_timer_detach (Thread_Timer t) k1;
          k3 = upd_thread t (\<lambda>th. th\<lparr>t_stat := RT_THREAD_CLOSE\<rparr>) k2
      in upd_tlists (st_push Defunct t) k3)"

text \<open>The test \<^verbatim>\<open>thread->tlist.next != thread->tlist.prev\<close> says that the thread is not alone in its
  list (lemma \<open>neighbours_differ\<close> of theory \<open>Rt_List\<close>).\<close>

definition rt_thread_yield :: "kernel \<Rightarrow> kernel option" where
  "rt_thread_yield k =
     do { t \<leftarrow> k_current k;
          if stat k t = RT_THREAD_READY \<and> t \<in> set (ready k (prio k t)) \<and> 1 < length (ready k (prio k t))
          then rt_schedule (upd_tlists (\<lambda>L. st_append (Ready (prio k t)) t (st_remove t L)) k)
          else Some k }"

definition rt_thread_sleep_resumed :: "tid \<Rightarrow> kernel \<Rightarrow> kernel" where
  "rt_thread_sleep_resumed t k =
     (if t_error (thread k t) = -RT_ETIMEOUT then upd_thread t (\<lambda>th. th\<lparr>t_error := RT_EOK\<rparr>) k else k)"

definition rt_thread_sleep :: "u32 \<Rightarrow> kernel \<Rightarrow> (rt_err outcome \<times> kernel) option" where
  "rt_thread_sleep tick k =
     do { t \<leftarrow> k_current k;
          let k1 = snd (rt_thread_suspend t k);
          let k2 = snd (rt_timer_control (Thread_Timer t) RT_TIMER_CTRL_SET_TIME tick k1);
          (_, k3) \<leftarrow> rt_timer_start (Thread_Timer t) k2;
          k4 \<leftarrow> rt_schedule k3;
          if k_current k4 = Some t then Some (Done RT_EOK, rt_thread_sleep_resumed t k4)
          else Some (Blocked, k4) }"

definition rt_thread_delay :: "u32 \<Rightarrow> kernel \<Rightarrow> (rt_err outcome \<times> kernel) option" where
  "rt_thread_delay tick k = rt_thread_sleep tick k"

abbreviation RT_THREAD_CTRL_STARTUP :: u8 where "RT_THREAD_CTRL_STARTUP \<equiv> 0"
abbreviation RT_THREAD_CTRL_CLOSE :: u8 where "RT_THREAD_CTRL_CLOSE \<equiv> 1"
abbreviation RT_THREAD_CTRL_CHANGE_PRIORITY :: u8 where "RT_THREAD_CTRL_CHANGE_PRIORITY \<equiv> 2"

text \<open>The two assignments that change the priority of a thread.\<close>

definition set_priority :: "tid \<Rightarrow> u8 \<Rightarrow> kernel \<Rightarrow> kernel" where
  "set_priority t p = upd_thread t (\<lambda>th. th\<lparr>t_current_priority := p, t_number_mask := push_bit (unat p) 1\<rparr>)"

definition rt_thread_control :: "tid \<Rightarrow> u8 \<Rightarrow> u8 \<Rightarrow> kernel \<Rightarrow> kernel option" where
  "rt_thread_control t cmd arg k =
     (if cmd = RT_THREAD_CTRL_CHANGE_PRIORITY then
        Some (if stat k t = RT_THREAD_READY
              then rt_schedule_insert_thread t (set_priority t arg (rt_schedule_remove_thread t k))
              else set_priority t arg k)
      else if cmd = RT_THREAD_CTRL_STARTUP then rt_thread_startup t k
      else if cmd = RT_THREAD_CTRL_CLOSE then Some (rt_thread_delete t k)
      else Some k)"

definition rt_thread_timeout :: "tid \<Rightarrow> kernel \<Rightarrow> kernel option" where
  "rt_thread_timeout t k =
     do { rt_assert (stat k t = RT_THREAD_SUSPEND);
          let k1 = upd_thread t (\<lambda>th. th\<lparr>t_error := -RT_ETIMEOUT\<rparr>) k;
          let k2 = upd_tlists (st_remove t) k1;
          rt_schedule (rt_schedule_insert_thread t k2) }"

definition rt_thread_find :: "cstr \<Rightarrow> kernel \<Rightarrow> (obj option \<times> kernel) option" where
  "rt_thread_find name k =
     (if rt_thread_self k \<noteq> None
      then do { let k1 = rt_enter_critical k;
                k2 \<leftarrow> rt_exit_critical k1;
                Some (find_name name RT_Object_Class_Thread k1, k2) }
      else Some (find_name name RT_Object_Class_Thread k, k))"

text \<open>The function a timer calls: the kernel's own, or one of the application.\<close>

definition timeout_call :: "(ptr \<Rightarrow> ptr \<Rightarrow> kernel \<Rightarrow> kernel option) \<Rightarrow> callback" where
  "timeout_call ucb f p k =
     (case f of Rt_thread_timeout \<Rightarrow> rt_thread_timeout p k | User_timeout a \<Rightarrow> ucb a p k)"

section \<open>The kernel invariant\<close>

text \<open>The timer of a thread: it calls \<^verbatim>\<open>rt_thread_timeout\<close> for the thread, is running only while the
  thread is suspended, and can be started while the thread is ready.\<close>

definition thread_timer :: "kernel \<Rightarrow> tid \<Rightarrow> bool" where
  "thread_timer k t \<longleftrightarrow> tm_timeout_func (k_timers k (Thread_Timer t)) = Rt_thread_timeout \<and>
     tm_parameter (k_timers k (Thread_Timer t)) = t \<and> \<not> periodic k (Thread_Timer t)"

definition tt_ok :: "kernel \<Rightarrow> tid \<Rightarrow> bool" where
  "tt_ok k t \<longleftrightarrow>
     (Thread_Timer t \<in> set (k_timer_list k) \<longrightarrow> stat k t = RT_THREAD_SUSPEND) \<and>
     (stat k t = RT_THREAD_READY \<or> stat k t = RT_THREAD_INIT \<longrightarrow> \<not> activated k (Thread_Timer t)) \<and>
     (stat k t = RT_THREAD_READY \<or> stat k t = RT_THREAD_SUSPEND \<or> stat k t = RT_THREAD_INIT \<longrightarrow> thread_timer k t)"

definition user_timers_ok :: "kernel \<Rightarrow> bool" where
  "user_timers_ok k \<longleftrightarrow>
     (\<forall>i. periodic k i \<longrightarrow> 0 < tm_init_tick (k_timers k i) \<and> tm_init_tick (k_timers k i) < RT_TICK_HALF) \<and>
     (\<forall>p. Timer p \<in> set (k_timer_list k) \<longrightarrow> (\<exists>a. tm_timeout_func (k_timers k (Timer p)) = User_timeout a))"

text \<open>The invariant of threads and timers; \<open>b\<close> is the origin of time and \<open>B\<close> the distance the timers
  lie within.  Between two calls the origin is the current tick.\<close>

definition core_inv :: "kernel \<Rightarrow> bool" where
  "core_inv k \<longleftrightarrow> sched_inv k \<and> stacks_ok k \<and> (\<forall>t. tt_ok k t) \<and> user_timers_ok k"

definition kinv :: "u32 \<Rightarrow> nat \<Rightarrow> kernel \<Rightarrow> bool" where
  "kinv b B k \<longleftrightarrow> core_inv k \<and> timers_ok b k \<and> within b B k"

abbreviation kernel_inv :: "kernel \<Rightarrow> bool" where
  "kernel_inv k \<equiv> kinv (k_tick k) (HALF - 1) k"

lemma kinvD:
  assumes "kinv b B k"
  shows "sched_inv k" "stacks_ok k" "\<And>t. tt_ok k t" "user_timers_ok k" "timers_ok b k" "within b B k"
  using assms by (simp_all add: kinv_def core_inv_def)

lemma kinvI:
  "\<lbrakk>sched_inv k; stacks_ok k; \<And>t. tt_ok k t; user_timers_ok k; timers_ok b k; within b B k\<rbrakk> \<Longrightarrow> kinv b B k"
  by (simp add: kinv_def core_inv_def)

text \<open>What the invariant reads.\<close>

definition same_threads :: "kernel \<Rightarrow> kernel \<Rightarrow> bool" where
  "same_threads k' k \<longleftrightarrow> k_tlists k' = k_tlists k \<and> k_ready_group k' = k_ready_group k \<and>
     (\<forall>t. stat k' t = stat k t \<and> prio k' t = prio k t \<and> t_number_mask (thread k' t) = t_number_mask (thread k t) \<and>
          rt_scheduler_stack_check (thread k' t) = rt_scheduler_stack_check (thread k t))"

definition same_timers :: "kernel \<Rightarrow> kernel \<Rightarrow> bool" where
  "same_timers k' k \<longleftrightarrow> k_timers k' = k_timers k \<and> k_timer_list k' = k_timer_list k \<and>
     (\<forall>i. o_flag (k_objects k' (OTimer i)) = o_flag (k_objects k (OTimer i)))"

lemma same_timers_flags:
  "same_timers k' k \<Longrightarrow> activated k' i = activated k i" "same_timers k' k \<Longrightarrow> periodic k' i = periodic k i"
  by (simp_all add: same_timers_def activated_def periodic_def)

lemma timers_same:
  assumes "same_timers k' k"
  shows "timers_ok b k' = timers_ok b k" "within b B k' = within b B k" "user_timers_ok k' = user_timers_ok k"
    "thread_timer k' t = thread_timer k t"
  using assms same_timers_flags[OF assms] timers_ok_cong[of k' k]
  by (simp_all add: same_timers_def user_timers_ok_def thread_timer_def)

lemma kinv_cong:
  assumes "same_threads k' k" "same_timers k' k"
  shows "kinv b B k' \<longleftrightarrow> kinv b B k"
proof -
  have "sched_inv k' = sched_inv k" by (rule sinv_cong) (use assms in \<open>auto simp: same_threads_def\<close>)
  moreover have "stacks_ok k' = stacks_ok k" using assms(1) by (simp add: stacks_ok_def same_threads_def)
  moreover have "tt_ok k' t = tt_ok k t" for t
    using assms same_timers_flags[OF assms(2)] timers_same(4)[OF assms(2)]
    by (simp add: tt_ok_def same_threads_def same_timers_def)
  ultimately show ?thesis using timers_same[OF assms(2)] by (simp add: kinv_def core_inv_def)
qed

lemma kinv_switch [simp]: "kinv b B (switch_to p c k) \<longleftrightarrow> kinv b B k"
  by (rule kinv_cong) (simp_all add: same_threads_def same_timers_def)

lemma kinv_update [simp]:
  "kinv b B (k\<lparr>k_sems := x1\<rparr>) \<longleftrightarrow> kinv b B k" "kinv b B (k\<lparr>k_mutexes := x2\<rparr>) \<longleftrightarrow> kinv b B k"
  "kinv b B (k\<lparr>k_events := x3\<rparr>) \<longleftrightarrow> kinv b B k" "kinv b B (k\<lparr>k_mailboxes := x4\<rparr>) \<longleftrightarrow> kinv b B k"
  "kinv b B (k\<lparr>k_mqs := x5\<rparr>) \<longleftrightarrow> kinv b B k" "kinv b B (k\<lparr>k_mempools := x6\<rparr>) \<longleftrightarrow> kinv b B k"
  "kinv b B (k\<lparr>k_words := x7\<rparr>) \<longleftrightarrow> kinv b B k" "kinv b B (k\<lparr>k_heap := x8\<rparr>) \<longleftrightarrow> kinv b B k"
  "kinv b B (k\<lparr>k_container := x9\<rparr>) \<longleftrightarrow> kinv b B k" "kinv b B (k\<lparr>k_tick := x10\<rparr>) \<longleftrightarrow> kinv b B k"
  "kinv b B (k\<lparr>k_lock_nest := x11\<rparr>) \<longleftrightarrow> kinv b B k" "kinv b B (k\<lparr>k_interrupt_nest := x12\<rparr>) \<longleftrightarrow> kinv b B k"
  by (rule kinv_cong; simp add: same_threads_def same_timers_def)+

lemma kinv_detach [simp]: "kinv b B (rt_object_detach x k) \<longleftrightarrow> kinv b B k"
  by (rule kinv_cong) (simp_all add: same_threads_def same_timers_def)

section \<open>Suspending and resuming\<close>

definition runnable :: "kernel \<Rightarrow> bool" where
  "runnable k \<longleftrightarrow> (\<exists>t. stat k t = RT_THREAD_READY) \<and> k_current k \<noteq> None"

lemma can_schedule_iff: "kinv b B k \<Longrightarrow> can_schedule k \<longleftrightarrow> runnable k"
  by (auto simp: can_schedule_def runnable_def dest: kinvD)

lemma runnable_switch [simp]: "runnable (switch_to p (Some c) k) \<longleftrightarrow> (\<exists>t. stat k t = RT_THREAD_READY)"
  by (simp add: runnable_def)

text \<open>A reschedule keeps everything and leaves the thread on the processor that should run.\<close>

definition scheduled :: "kernel \<Rightarrow> kernel \<Rightarrow> bool" where
  "scheduled k k' \<longleftrightarrow> (\<exists>p c. k' = switch_to p (Some c) k \<and>
     (if k_lock_nest k = 0 then next_to_run k c else k_current k = Some c))"

lemma schedule_scheduled: "sched_inv k \<Longrightarrow> can_schedule k \<Longrightarrow> returns (rt_schedule k) (scheduled k)"
  using rt_schedule_returns[of k] by (simp add: scheduled_def[abs_def])

lemma schedule_returns:
  assumes "kinv b B k" "runnable k"
  shows "returns (rt_schedule k) (\<lambda>k'. kinv b B k' \<and> runnable k' \<and> scheduled k k')"
proof -
  have "returns (rt_schedule k) (scheduled k)"
    using schedule_scheduled assms can_schedule_iff[OF assms(1)] kinvD(1)[OF assms(1)] by simp
  then show ?thesis
    by (rule returns_mono) (use assms in \<open>auto simp: scheduled_def runnable_def\<close>)
qed

lemma scheduled_frame:
  assumes "scheduled k k'"
  shows
  "k_threads (k') = k_threads k" "k_tlists (k') = k_tlists k" "k_ready_group (k') = k_ready_group k"
  "k_lock_nest (k') = k_lock_nest k" "k_interrupt_nest (k') = k_interrupt_nest k"
  "k_tick (k') = k_tick k" "k_timers (k') = k_timers k" "k_timer_list (k') = k_timer_list k"
  "k_objects (k') = k_objects k" "k_container (k') = k_container k" "k_sems (k') = k_sems k"
  "k_mutexes (k') = k_mutexes k" "k_events (k') = k_events k" "k_mailboxes (k') = k_mailboxes k"
  "k_mqs (k') = k_mqs k" "k_mempools (k') = k_mempools k" "k_words (k') = k_words k"
  "k_heap (k') = k_heap k"
  using assms by (auto simp: scheduled_def)

lemma unlink_thread_hole:
  assumes inv: "sched_inv k" and st: "stat k t \<noteq> RT_THREAD_READY"
  shows "sinv (- {t}) (upd_tlists (st_remove t) k)"
proof -
  have r: "removeAll t (ready k p) = ready k p" for p
    using sched_inv_ready_iff[OF inv] st by simp
  have "thread_ok (upd_tlists (st_remove t) k) u" if "u \<noteq> t" for u
    using sinv_thread[OF inv, of u] that by (simp add: thread_ok_def)
  then show ?thesis
    using store_wf_remove[OF sinv_wf[OF inv], of t] sinv_group[OF inv] r
    by (auto simp: sinv_def group_ok_def st_remove_def simp del: store_wf_remove)
qed

lemma tt_ok_other:
  assumes "tt_ok k u" "stat k' u = stat k u" "set (k_timer_list k') \<subseteq> set (k_timer_list k)"
    "activated k' (Thread_Timer u) = activated k (Thread_Timer u)" "thread_timer k' u = thread_timer k u"
  shows "tt_ok k' u"
  using assms by (auto simp: tt_ok_def)

lemma user_timers_subset:
  assumes "user_timers_ok k" "set (k_timer_list k') \<subseteq> set (k_timer_list k)" "k_timers k' = k_timers k"
    "periodic k' = periodic k"
  shows "user_timers_ok k'"
  using assms unfolding user_timers_ok_def by auto

lemma suspend_frame [simp]:
  "k_current (snd (rt_thread_suspend t k)) = k_current k"
  "k_current_priority (snd (rt_thread_suspend t k)) = k_current_priority k"
  "k_lock_nest (snd (rt_thread_suspend t k)) = k_lock_nest k"
  "k_interrupt_nest (snd (rt_thread_suspend t k)) = k_interrupt_nest k"
  "k_tick (snd (rt_thread_suspend t k)) = k_tick k"
  "k_timers (snd (rt_thread_suspend t k)) = k_timers k"
  "k_timer_list (snd (rt_thread_suspend t k)) = k_timer_list k"
  "k_objects (snd (rt_thread_suspend t k)) = k_objects k"
  "k_container (snd (rt_thread_suspend t k)) = k_container k"
  "k_sems (snd (rt_thread_suspend t k)) = k_sems k"
  "k_mutexes (snd (rt_thread_suspend t k)) = k_mutexes k"
  "k_events (snd (rt_thread_suspend t k)) = k_events k"
  "k_mailboxes (snd (rt_thread_suspend t k)) = k_mailboxes k"
  "k_mqs (snd (rt_thread_suspend t k)) = k_mqs k"
  "k_mempools (snd (rt_thread_suspend t k)) = k_mempools k"
  "k_words (snd (rt_thread_suspend t k)) = k_words k" "k_heap (snd (rt_thread_suspend t k)) = k_heap k"
  by (simp_all add: rt_thread_suspend_def)

lemma suspend_threads:
  "k_threads (snd (rt_thread_suspend t k)) =
     (if stat k t = RT_THREAD_READY then (k_threads k)(t := (k_threads k t)\<lparr>t_stat := RT_THREAD_SUSPEND\<rparr>) else k_threads k)"
  by (simp add: rt_thread_suspend_def)

lemma suspend_sched:
  assumes inv: "sched_inv k" and st: "stat k t = RT_THREAD_READY"
  shows "sinv (- {t}) (snd (rt_thread_suspend t k))" "sched_inv (snd (rt_thread_suspend t k))"
    "mask_ok (thread (snd (rt_thread_suspend t k)) t)"
proof -
  let ?u = "upd_thread t (\<lambda>th. th\<lparr>t_stat := RT_THREAD_SUSPEND\<rparr>)"
  have m: "mask_ok (thread k t)" using inv st by (simp add: sched_inv_mask)
  have eq: "snd (rt_thread_suspend t k) = ?u (rt_schedule_remove_thread t k)"
    using st by (simp add: rt_thread_suspend_def rt_schedule_remove_thread_def upd_defs Let_def)
  show 1: "sinv (- {t}) (snd (rt_thread_suspend t k))"
    unfolding eq sinv_hole_upd_thread by (rule remove_thread_hole[OF inv m])
  show m': "mask_ok (thread (snd (rt_thread_suspend t k)) t)"
    using m st by (simp add: suspend_threads mask_ok_def)
  show "sched_inv (snd (rt_thread_suspend t k))"
    by (rule sinv_fill[OF 1]) (use m' st in \<open>auto simp: suspend_threads\<close>)
qed

lemma check_upd_stat [simp]:
  "rt_scheduler_stack_check (th\<lparr>t_stat := s\<rparr>) = rt_scheduler_stack_check th"
  "rt_scheduler_stack_check (th\<lparr>t_error := e\<rparr>) = rt_scheduler_stack_check th"
  "rt_scheduler_stack_check (th\<lparr>t_current_priority := p\<rparr>) = rt_scheduler_stack_check th"
  "rt_scheduler_stack_check (th\<lparr>t_number_mask := m\<rparr>) = rt_scheduler_stack_check th"
  "rt_scheduler_stack_check (th\<lparr>t_event_set := v\<rparr>) = rt_scheduler_stack_check th"
  "rt_scheduler_stack_check (th\<lparr>t_event_info := i\<rparr>) = rt_scheduler_stack_check th"
  "rt_scheduler_stack_check (th\<lparr>t_remaining_tick := r\<rparr>) = rt_scheduler_stack_check th"
  by (simp_all add: rt_scheduler_stack_check_def)

lemma suspend_kinv:
  assumes inv: "kinv b B k"
  shows "kinv b B (snd (rt_thread_suspend t k))"
proof (cases "stat k t = RT_THREAD_READY")
  case True
  let ?k = "snd (rt_thread_suspend t k)"
  have st: "same_timers ?k k" by (simp add: same_timers_def)
  show ?thesis
  proof (rule kinvI)
    show "sched_inv ?k" using suspend_sched(2)[OF kinvD(1)[OF inv] True] .
    show "stacks_ok ?k" using kinvD(2)[OF inv] True by (simp add: stacks_ok_def suspend_threads)
    show "tt_ok ?k u" for u
      using kinvD(3)[OF inv, of u] True timers_same(4)[OF st, of u] same_timers_flags[OF st]
      by (auto simp: tt_ok_def suspend_threads)
  qed (use kinvD[OF inv] timers_same[OF st] in auto)
qed (use inv in \<open>simp add: rt_thread_suspend_def\<close>)

lemma resume_frame [simp]:
  "k_current (snd (rt_thread_resume t k)) = k_current k"
  "k_current_priority (snd (rt_thread_resume t k)) = k_current_priority k"
  "k_lock_nest (snd (rt_thread_resume t k)) = k_lock_nest k"
  "k_interrupt_nest (snd (rt_thread_resume t k)) = k_interrupt_nest k"
  "k_tick (snd (rt_thread_resume t k)) = k_tick k" "k_timers (snd (rt_thread_resume t k)) = k_timers k"
  "k_container (snd (rt_thread_resume t k)) = k_container k"
  "k_sems (snd (rt_thread_resume t k)) = k_sems k"
  "k_mutexes (snd (rt_thread_resume t k)) = k_mutexes k"
  "k_events (snd (rt_thread_resume t k)) = k_events k"
  "k_mailboxes (snd (rt_thread_resume t k)) = k_mailboxes k"
  "k_mqs (snd (rt_thread_resume t k)) = k_mqs k"
  "k_mempools (snd (rt_thread_resume t k)) = k_mempools k"
  "k_words (snd (rt_thread_resume t k)) = k_words k" "k_heap (snd (rt_thread_resume t k)) = k_heap k"
  by (simp_all add: rt_thread_resume_def Let_def)

lemma resume_eq:
  assumes "stat k t = RT_THREAD_SUSPEND"
  shows "fst (rt_thread_resume t k) = RT_EOK"
    "k_threads (snd (rt_thread_resume t k)) = (k_threads k)(t := (k_threads k t)\<lparr>t_stat := RT_THREAD_READY\<rparr>)"
    "k_tlists (snd (rt_thread_resume t k)) = st_append (Ready (prio k t)) t (st_remove t (k_tlists k))"
    "k_timer_list (snd (rt_thread_resume t k)) = removeAll (Thread_Timer t) (k_timer_list k)"
    "activated (snd (rt_thread_resume t k)) i \<longleftrightarrow> i \<noteq> Thread_Timer t \<and> activated k i"
    "periodic (snd (rt_thread_resume t k)) i \<longleftrightarrow> periodic k i"
    "o_name (k_objects (snd (rt_thread_resume t k)) x) = o_name (k_objects k x)"
    "o_type (k_objects (snd (rt_thread_resume t k)) x) = o_type (k_objects k x)"
    "(\<And>j. x \<noteq> OTimer j) \<Longrightarrow> k_objects (snd (rt_thread_resume t k)) x = k_objects k x"
  using assms activated_cong[of "rt_schedule_insert_thread t k'" k' for k'] periodic_cong[of "rt_schedule_insert_thread t k'" k' for k']
  by (simp_all add: rt_thread_resume_def Let_def del: st_remove_apply)
    (auto simp: activated_def periodic_def clear_flag_def flag_bits)

lemma resume_kinv:
  assumes inv: "kinv b B k"
  shows "kinv b B (snd (rt_thread_resume t k))"
proof (cases "stat k t = RT_THREAD_SUSPEND")
  case True
  let ?k = "snd (rt_thread_resume t k)" and ?h = "upd_tlists (st_remove t) k"
  let ?h2 = "clear_flag (Thread_Timer t) RT_TIMER_FLAG_ACTIVATED (unlink_timer (Thread_Timer t) ?h)"
  have m: "mask_ok (thread k t)" using inv True by (simp add: sched_inv_mask kinvD)
  have "sinv (- {t}) ?h" using inv True by (intro unlink_thread_hole) (simp_all add: kinvD)
  then have h2: "sinv (- {t}) ?h2" by (simp add: clear_flag_def unlink_timer_def)
  note r = resume_eq[OF True]
  have tm: "timers_ok b (unlink_timer (Thread_Timer t) k)" "within b B (unlink_timer (Thread_Timer t) k)"
    using kinvD[OF inv] by (auto intro: timers_ok_unlink within_unlink)
  show ?thesis
  proof (rule kinvI)
    show "sched_inv ?k"
      using insert_thread_inv[OF h2] m True by (simp add: rt_thread_resume_def Let_def)
    show "stacks_ok ?k" using kinvD(2)[OF inv] True by (simp add: stacks_ok_def r)
    show "tt_ok ?k u" for u
    proof (cases "u = t")
      case True
      then show ?thesis using kinvD(3)[OF inv, of t] \<open>stat k t = RT_THREAD_SUSPEND\<close>
        by (auto simp: tt_ok_def thread_timer_def r)
    next
      case False
      then show ?thesis
        by (intro tt_ok_other[OF kinvD(3)[OF inv]]) (auto simp: r thread_timer_def)
    qed
    show "user_timers_ok ?k"
      by (rule user_timers_subset[OF kinvD(4)[OF inv]]) (auto simp: r)
    show "timers_ok b ?k" "within b B ?k"
      using tm timers_ok_cong[of ?k "unlink_timer (Thread_Timer t) k"] by (auto simp: r)
  qed
qed (use inv in \<open>simp add: rt_thread_resume_def\<close>)

lemma resume_runnable: "runnable k \<Longrightarrow> runnable (snd (rt_thread_resume t k))"
  by (cases "stat k t = RT_THREAD_SUSPEND") (auto simp: runnable_def resume_eq rt_thread_resume_def)

section \<open>Timers of threads and of the application\<close>

definition may_start :: "kernel \<Rightarrow> timer_id \<Rightarrow> bool" where
  "may_start k i \<longleftrightarrow> (case i of Thread_Timer t \<Rightarrow> stat k t = RT_THREAD_SUSPEND
      | Timer p \<Rightarrow> \<exists>a. tm_timeout_func (k_timers k (Timer p)) = User_timeout a)"

lemma started_core:
  assumes inv: "core_inv k" and i: "\<not> activated k i" "tm_init_tick (k_timers k i) < RT_TICK_HALF"
    and may: "may_start k i"
  shows "core_inv (started i k)"
proof -
  note f = started_frame[OF i] and s = started_timer[OF i]
  have "sched_inv (started i k) = sched_inv k" by (rule sinv_cong) (simp_all add: f)
  moreover have "stacks_ok (started i k) = stacks_ok k" by (rule stacks_ok_cong) (simp add: f)
  moreover have "tt_ok (started i k) t" for t
  proof -
    have "tt_ok k t" using inv by (simp add: core_inv_def)
    then show ?thesis using may by (auto simp: tt_ok_def thread_timer_def f s may_start_def)
  qed
  moreover have "user_timers_ok (started i k)"
    using inv may by (auto simp: core_inv_def user_timers_ok_def s may_start_def)
  ultimately show ?thesis using inv by (simp add: core_inv_def)
qed

lemma started_kinv:
  assumes inv: "kernel_inv k" and i: "\<not> activated k i" "tm_init_tick (k_timers k i) < RT_TICK_HALF"
    and may: "may_start k i"
  shows "kernel_inv (started i k)"
proof -
  have w: "within (k_tick k) HALF k" using kinvD(6)[OF inv] by (rule within_mono) simp
  have "k_tick k = k_tick k \<and> within (k_tick k) (HALF - 1) k" using kinvD(6)[OF inv] by simp
  note st = started_ok[OF kinvD(5)[OF inv] w i disjI1[OF this]]
  have "core_inv (started i k)"
    using inv i may by (intro started_core) (simp_all add: kinv_def)
  then show ?thesis using st(1,2) by (simp add: kinv_def started_frame[OF i])
qed

lemma core_clear_user:
  assumes "core_inv k" "i = Timer p"
  shows "core_inv (clear_flag i RT_TIMER_FLAG_ACTIVATED k)"
proof -
  let ?k = "clear_flag i RT_TIMER_FLAG_ACTIVATED k"
  have "sched_inv ?k = sched_inv k" by (rule sinv_cong) simp_all
  moreover have "stacks_ok ?k = stacks_ok k" by (rule stacks_ok_cong) simp
  moreover have "tt_ok ?k t = tt_ok k t" for t using assms(2) by (simp add: tt_ok_def thread_timer_def)
  ultimately show ?thesis using assms(1) by (simp add: core_inv_def user_timers_ok_def)
qed

text \<open>A thread whose wait has timed out.\<close>

definition timed_out :: "tid \<Rightarrow> kernel \<Rightarrow> kernel" where
  "timed_out t k =
     rt_schedule_insert_thread t (upd_tlists (st_remove t) (upd_thread t (\<lambda>th. th\<lparr>t_error := -RT_ETIMEOUT\<rparr>) k))"

lemma timed_out_frame [simp]:
  "k_current (timed_out t k) = k_current k" "k_current_priority (timed_out t k) = k_current_priority k"
  "k_lock_nest (timed_out t k) = k_lock_nest k" "k_interrupt_nest (timed_out t k) = k_interrupt_nest k"
  "k_tick (timed_out t k) = k_tick k" "k_timers (timed_out t k) = k_timers k"
  "k_timer_list (timed_out t k) = k_timer_list k" "k_objects (timed_out t k) = k_objects k"
  "k_container (timed_out t k) = k_container k" "k_sems (timed_out t k) = k_sems k"
  "k_mutexes (timed_out t k) = k_mutexes k" "k_events (timed_out t k) = k_events k"
  "k_mailboxes (timed_out t k) = k_mailboxes k" "k_mqs (timed_out t k) = k_mqs k"
  "k_mempools (timed_out t k) = k_mempools k" "k_words (timed_out t k) = k_words k"
  "k_heap (timed_out t k) = k_heap k"
  "k_threads (timed_out t k) = (k_threads k)(t := (k_threads k t)\<lparr>t_error := -RT_ETIMEOUT, t_stat := RT_THREAD_READY\<rparr>)"
  by (simp_all add: timed_out_def)

lemma timed_out_sched:
  assumes inv: "sched_inv k" and st: "stat k t = RT_THREAD_SUSPEND"
  shows "sched_inv (timed_out t k)"
proof -
  let ?k = "upd_thread t (\<lambda>th. th\<lparr>t_error := -RT_ETIMEOUT\<rparr>) k"
  have "sched_inv ?k" using inv by (subst sinv_cong) auto
  moreover have "stat ?k t \<noteq> RT_THREAD_READY" using st by simp
  ultimately have "sinv (- {t}) (upd_tlists (st_remove t) ?k)" by (rule unlink_thread_hole)
  moreover have "mask_ok (thread (upd_tlists (st_remove t) ?k) t)"
    using inv st sched_inv_mask[OF inv, of t] by (simp add: mask_ok_def)
  ultimately show ?thesis unfolding timed_out_def by (rule insert_thread_inv)
qed

lemma thread_timeout_returns:
  assumes inv: "sched_inv k" "stacks_ok k" "k_current k \<noteq> None" and st: "stat k t = RT_THREAD_SUSPEND"
  shows "returns (rt_thread_timeout t k) (scheduled (timed_out t k))"
proof -
  have "can_schedule (timed_out t k)"
    using inv st by (auto simp: can_schedule_def stacks_ok_def)
  moreover have "rt_thread_timeout t k = rt_schedule (timed_out t k)"
    using st by (simp add: rt_thread_timeout_def timed_out_def)
  ultimately show ?thesis using schedule_scheduled[OF timed_out_sched[OF inv(1) st]] by simp
qed

text \<open>The thread is ready and its timer stopped: the invariant holds again.\<close>

lemma timed_out_core:
  assumes inv: "core_inv k" and t: "stat k t = RT_THREAD_SUSPEND"
  shows "core_inv (clear_flag (Thread_Timer t) RT_TIMER_FLAG_ACTIVATED
           (switch_to p c (timed_out t (unlink_timer (Thread_Timer t) k))))" (is "core_inv ?k")
proof -
  let ?u = "unlink_timer (Thread_Timer t) k"
  have act: "activated (timed_out t ?u) = activated k" "periodic (timed_out t ?u) = periodic k"
    by (rule activated_cong periodic_cong; simp)+
  have act': "activated (switch_to p c k') = activated k'" "periodic (switch_to p c k') = periodic k'" for k'
    by (rule activated_cong periodic_cong; simp)+
  have "sched_inv ?u" using inv by (simp add: core_inv_def unlink_timer_def)
  then have "sched_inv (timed_out t ?u)" using t by (intro timed_out_sched) simp_all
  then have "sched_inv ?k" by (simp add: clear_flag_def)
  moreover have "stacks_ok ?k" using inv t by (auto simp: core_inv_def stacks_ok_def)
  moreover have "tt_ok ?k u" for u
  proof -
    have "tt_ok k u" using inv by (simp add: core_inv_def)
    then show ?thesis using t by (auto simp: tt_ok_def thread_timer_def act act')
  qed
  moreover have "user_timers_ok ?k"
    using inv by (auto simp: core_inv_def user_timers_ok_def act act')
  ultimately show ?thesis by (simp add: core_inv_def)
qed

section \<open>Time-out functions\<close>

text \<open>What is asked of the time-out functions of the application: called with its timer off the list, the
  function returns, keeps the invariant, does not start its own timer or one that expires at once,
  and leaves its own function pointer alone.\<close>

definition ucb_ok :: "(ptr \<Rightarrow> ptr \<Rightarrow> kernel \<Rightarrow> kernel option) \<Rightarrow> bool" where
  "ucb_ok ucb \<longleftrightarrow> (\<forall>a p k b q. core_inv k \<and> runnable k \<and> timers_inv b k \<and> Timer q \<notin> set (k_timer_list k) \<longrightarrow>
     returns (ucb a p k) (\<lambda>k'. core_inv k' \<and> runnable k' \<and> timers_inv b k' \<and> Timer q \<notin> set (k_timer_list k') \<and>
       expired b k' \<subseteq> expired b k \<and>
       tm_timeout_func (k_timers k' (Timer q)) = tm_timeout_func (k_timers k (Timer q))))"

lemma ucb_ok_skip: "ucb_ok (\<lambda>a p k. Some k)"
  by (simp add: ucb_ok_def)

lemma timers_inv_unlink: "timers_inv b k \<Longrightarrow> timers_inv b (unlink_timer i k)"
  by (simp add: timers_inv_def timers_ok_unlink within_unlink)

lemma core_unlink:
  assumes "core_inv k" shows "core_inv (unlink_timer i k)"
proof -
  have "sched_inv (unlink_timer i k)" using assms by (simp add: core_inv_def unlink_timer_def)
  moreover have "stacks_ok (unlink_timer i k) = stacks_ok k" by (rule stacks_ok_cong) simp
  moreover have "tt_ok (unlink_timer i k) t" for t
  proof -
    have "tt_ok k t" using assms by (simp add: core_inv_def)
    then show ?thesis by (rule tt_ok_other) (auto simp: thread_timer_def)
  qed
  moreover have "user_timers_ok (unlink_timer i k)"
  proof -
    have "user_timers_ok k" using assms by (simp add: core_inv_def)
    then show ?thesis by (rule user_timers_subset) (auto intro: periodic_cong)
  qed
  ultimately show ?thesis using assms by (simp add: core_inv_def)
qed

lemma timeout_call_thread:
  assumes inv: "core_inv k" "runnable k" "timers_inv b k" and hd: "k_timer_list k = Thread_Timer t # is"
  defines "i \<equiv> Thread_Timer t"
  shows "returns (timeout_call ucb (tm_timeout_func (k_timers k i)) (tm_parameter (k_timers k i)) (unlink_timer i k))
     (\<lambda>k'. timers_inv b k' \<and> i \<notin> set (k_timer_list k') \<and> expired b k' \<subseteq> expired b (unlink_timer i k) \<and>
        \<not> periodic k' i \<and> core_inv (clear_flag i RT_TIMER_FLAG_ACTIVATED k') \<and> runnable k')"
proof -
  have tt: "tt_ok k t" using inv by (simp add: core_inv_def)
  then have st: "stat k t = RT_THREAD_SUSPEND" and tm: "thread_timer k t"
    using hd by (simp_all add: tt_ok_def)
  let ?u = "unlink_timer i k"
  have u: "core_inv ?u" "timers_inv b ?u" "stat ?u t = RT_THREAD_SUSPEND"
    using inv st by (simp_all add: core_unlink timers_inv_unlink)
  have call: "timeout_call ucb (tm_timeout_func (k_timers k i)) (tm_parameter (k_timers k i)) ?u = rt_thread_timeout t ?u"
    using tm by (simp add: timeout_call_def thread_timer_def i_def)
  have "returns (rt_thread_timeout t ?u) (scheduled (timed_out t ?u))"
    using u inv by (intro thread_timeout_returns) (auto simp: core_inv_def runnable_def)
  then show ?thesis
    unfolding call
  proof (rule returns_mono)
    fix k' assume "scheduled (timed_out t ?u) k'"
    then obtain p c where k': "k' = switch_to p (Some c) (timed_out t ?u)" by (auto simp: scheduled_def)
    have same: "same_timers k' ?u" by (simp add: k' same_timers_def)
    then have "timers_inv b k'" using u(2) timers_same[OF same] by (simp add: timers_inv_def k')
    moreover have "i \<notin> set (k_timer_list k')" by (simp add: k')
    moreover have "expired b k' = expired b ?u" by (simp add: expired_def delta_def k')
    moreover have "\<not> periodic k' i" using same_timers_flags(2)[OF same] tm by (simp add: thread_timer_def i_def)
    moreover have "core_inv (clear_flag i RT_TIMER_FLAG_ACTIVATED k')"
      unfolding k' i_def by (rule timed_out_core[OF inv(1) st])
    moreover have "runnable k'" by (auto simp: k')
    ultimately show "timers_inv b k' \<and> i \<notin> set (k_timer_list k') \<and> expired b k' \<subseteq> expired b ?u \<and>
        \<not> periodic k' i \<and> core_inv (clear_flag i RT_TIMER_FLAG_ACTIVATED k') \<and> runnable k'" by simp
  qed
qed

lemma timeout_call_user:
  assumes inv: "core_inv k" "runnable k" "timers_inv b k" and ok: "ucb_ok ucb" and hd: "k_timer_list k = Timer q # is"
  defines "i \<equiv> Timer q"
  shows "returns (timeout_call ucb (tm_timeout_func (k_timers k i)) (tm_parameter (k_timers k i)) (unlink_timer i k))
     (\<lambda>k'. timers_inv b k' \<and> i \<notin> set (k_timer_list k') \<and> expired b k' \<subseteq> expired b (unlink_timer i k) \<and>
        core_inv k' \<and> runnable k' \<and> may_start k' i)"
proof -
  obtain a where a: "tm_timeout_func (k_timers k i) = User_timeout a"
    using inv hd by (auto simp: core_inv_def user_timers_ok_def i_def)
  have u: "core_inv (unlink_timer i k)" "runnable (unlink_timer i k)" "timers_inv b (unlink_timer i k)"
    "Timer q \<notin> set (k_timer_list (unlink_timer i k))"
    using inv by (simp_all add: core_unlink timers_inv_unlink runnable_def i_def)
  then have "returns (ucb a (tm_parameter (k_timers k i)) (unlink_timer i k))
      (\<lambda>k'. core_inv k' \<and> runnable k' \<and> timers_inv b k' \<and> Timer q \<notin> set (k_timer_list k') \<and>
       expired b k' \<subseteq> expired b (unlink_timer i k) \<and>
       tm_timeout_func (k_timers k' (Timer q)) = tm_timeout_func (k_timers (unlink_timer i k) (Timer q)))"
    using ok unfolding ucb_ok_def by blast
  then show ?thesis
    unfolding a timeout_call_def timeout_func.case by (rule returns_mono) (use a in \<open>auto simp: i_def may_start_def\<close>)
qed

lemma restart_user_core:
  assumes "core_inv k" "i = Timer q" "may_start k i" "tm_init_tick (k_timers k i) < RT_TICK_HALF"
  shows "core_inv (started i (clear_flag i RT_TIMER_FLAG_ACTIVATED k))"
  using assms by (intro started_core core_clear_user) (auto simp: may_start_def)

interpretation kernel_timeouts: timeout_functions "timeout_call ucb"
  "\<lambda>k. core_inv k \<and> runnable k \<and> ucb_ok ucb" for ucb
proof (unfold_locales, goal_cases)
  case (1 k b i "is")
  then have inv: "core_inv k" "runnable k" "timers_inv b k" and ok: "ucb_ok ucb" by simp_all
  show ?case
  proof (cases i)
    case (Thread_Timer t)
    from timeout_call_thread[OF inv, of t "is" ucb] 1(3) show ?thesis
      unfolding Thread_Timer by (auto simp: ok runnable_def elim!: returns_mono)
  next
    case (Timer q)
    have "returns (timeout_call ucb (tm_timeout_func (k_timers k i)) (tm_parameter (k_timers k i)) (unlink_timer i k))
     (\<lambda>k'. timers_inv b k' \<and> i \<notin> set (k_timer_list k') \<and> expired b k' \<subseteq> expired b (unlink_timer i k) \<and>
        core_inv k' \<and> runnable k' \<and> may_start k' i)"
      using timeout_call_user[OF inv ok, of q "is"] 1(3) by (simp add: Timer)
    then show ?thesis
    proof (rule returns_mono, elim conjE)
      fix k' assume k': "core_inv k'" "runnable k'" "timers_inv b k'" "i \<notin> set (k_timer_list k')"
        "expired b k' \<subseteq> expired b (unlink_timer i k)" "may_start k' i"
      let ?c = "clear_flag i RT_TIMER_FLAG_ACTIVATED k'"
      have per: "periodic k' i \<Longrightarrow> 0 < tm_init_tick (k_timers k' i) \<and> tm_init_tick (k_timers k' i) < RT_TICK_HALF"
        using k'(1) by (auto simp: core_inv_def user_timers_ok_def)
      have c: "core_inv ?c" by (rule core_clear_user[OF k'(1) Timer])
      have st: "core_inv (started i ?c) \<and> runnable (started i ?c)" if "periodic k' i"
        using restart_user_core[OF k'(1) Timer k'(6)] per[OF that] k'(2) started_frame[of ?c i]
        by (simp add: runnable_def)
      show "timers_inv b k' \<and> i \<notin> set (k_timer_list k') \<and> expired b k' \<subseteq> expired b (unlink_timer i k) \<and>
        (if periodic k' i \<and> activated k' i
         then 0 < tm_init_tick (k_timers k' i) \<and> tm_init_tick (k_timers k' i) < RT_TICK_HALF \<and>
              core_inv (started i ?c) \<and> runnable (started i ?c) \<and> ucb_ok ucb
         else core_inv ?c \<and> runnable ?c \<and> ucb_ok ucb)"
        using k' per st c ok by (simp add: runnable_def)
    qed
  qed
qed

section \<open>Yielding\<close>

lemma sinv_same_sets:
  assumes "sched_inv k" "store_wf L" "\<And>h. set (L h) = set (k_tlists k h)"
  shows "sched_inv (k\<lparr>k_tlists := L\<rparr>)"
proof -
  have "L h = [] \<longleftrightarrow> k_tlists k h = []" for h using assms(3)[of h] by (metis set_empty)
  then show ?thesis using assms by (auto simp: sinv_def group_ok_def thread_ok_def)
qed

text \<open>The round-robin step: the running thread moves behind the other ready threads of its priority.\<close>

definition rotated :: "tid \<Rightarrow> kernel \<Rightarrow> kernel" where
  "rotated t k = upd_tlists (\<lambda>L. st_append (Ready (prio k t)) t (st_remove t L)) k"

lemma rotated_kinv:
  assumes inv: "kinv b B k" and t: "t \<in> set (ready k (prio k t))"
  shows "kinv b B (rotated t k)"
proof -
  let ?L = "st_append (Ready (prio k t)) t (st_remove t (k_tlists k))"
  have "store_wf ?L" using seq_list.rep_move[of "k_tlists k"] sinv_wf[OF kinvD(1)[OF inv]] by metis
  moreover have "set (?L h) = set (k_tlists k h)" for h
  proof (cases "h = Ready (prio k t)")
    case True
    then show ?thesis using t by (auto simp: st_append_def)
  next
    case False
    then have "t \<notin> set (k_tlists k h)"
      using t store_wf_unique[OF sinv_wf[OF kinvD(1)[OF inv]]] by metis
    then show ?thesis using False by (simp add: st_append_def)
  qed
  ultimately have "sched_inv (k\<lparr>k_tlists := ?L\<rparr>)" by (rule sinv_same_sets[OF kinvD(1)[OF inv]])
  then have "sched_inv (rotated t k)" by (simp add: rotated_def upd_tlists_def)
  moreover have same: "same_timers (rotated t k) k" by (simp add: rotated_def same_timers_def)
  moreover have "stacks_ok (rotated t k)" using kinvD(2)[OF inv] by (simp add: stacks_ok_def rotated_def)
  moreover have "tt_ok (rotated t k) u" for u
  proof -
    have "tt_ok k u" using inv by (rule kinvD)
    then show ?thesis by (rule tt_ok_other) (use same_timers_flags[OF same] timers_same(4)[OF same] in \<open>simp_all add: rotated_def\<close>)
  qed
  ultimately show ?thesis using kinvD[OF inv] timers_same[OF same] by (simp add: kinv_def core_inv_def)
qed

lemma yield_returns:
  assumes inv: "kinv b B k" and run: "runnable k"
  shows "returns (rt_thread_yield k) (\<lambda>k'. kinv b B k' \<and> runnable k' \<and> k_tick k' = k_tick k \<and> k_threads k' = k_threads k)"
proof -
  obtain t where c: "k_current k = Some t" using run by (auto simp: runnable_def)
  show ?thesis
  proof (cases "stat k t = RT_THREAD_READY \<and> t \<in> set (ready k (prio k t)) \<and> 1 < length (ready k (prio k t))")
    case True
    have "kinv b B (rotated t k)" using True inv by (simp add: rotated_kinv)
    moreover have "runnable (rotated t k)" using run by (simp add: runnable_def rotated_def)
    ultimately have "returns (rt_schedule (rotated t k)) (\<lambda>k'. kinv b B k' \<and> runnable k' \<and> scheduled (rotated t k) k')"
      by (rule schedule_returns)
    moreover have "rt_thread_yield k = rt_schedule (rotated t k)"
      unfolding rt_thread_yield_def c rotated_def using True by simp
    ultimately show ?thesis
      by (auto simp: scheduled_frame rotated_def elim!: returns_mono)
  next
    case False
    then have "rt_thread_yield k = Some k" unfolding rt_thread_yield_def c by auto
    then show ?thesis using inv run by simp
  qed
qed

end
