(* ===== verification/Thread_Ops.thy ===== *)
theory Thread_Ops
  imports Thread
begin

unbundle bit_operations_syntax

text \<open>
  The life of a thread: initialisation, start-up, sleeping, change of priority and the three ways it
  ends, each with its effect and with the proof that it keeps the kernel invariant.
\<close>

section \<open>Ending a thread\<close>

text \<open>The common part of \<^verbatim>\<open>rt_thread_exit\<close>, \<^verbatim>\<open>rt_thread_detach\<close> and \<^verbatim>\<open>rt_thread_delete\<close>.\<close>

definition closed :: "tid \<Rightarrow> kernel \<Rightarrow> kernel" where
  "closed t k = upd_thread t (\<lambda>th. th\<lparr>t_stat := RT_THREAD_CLOSE\<rparr>)
     (unlink_timer (Thread_Timer t) (rt_schedule_remove_thread t k))"

lemma closed_threads [simp]:
  "k_threads (closed t k) = (k_threads k)(t := (k_threads k t)\<lparr>t_stat := RT_THREAD_CLOSE\<rparr>)"
  "k_current (closed t k) = k_current k" "k_tick (closed t k) = k_tick k"
  "k_timer_list (closed t k) = removeAll (Thread_Timer t) (k_timer_list k)"
  by (simp_all add: closed_def)

lemma closed_hole:
  assumes "sched_inv k" "mask_ok (thread k t)"
  shows "sinv (- {t}) (closed t k)"
  using remove_thread_hole[OF assms] by (simp add: closed_def unlink_timer_def)

lemma closed_rest:
  assumes inv: "kinv b B k" and ut: "k_tlists k' = L" "k' = (closed t k)\<lparr>k_tlists := L\<rparr>" and sch: "sched_inv k'"
  shows "kinv b B k'"
proof -
  have u: "timers_ok b (unlink_timer (Thread_Timer t) k)" "within b B (unlink_timer (Thread_Timer t) k)"
    using kinvD[OF inv] by (auto intro: timers_ok_unlink within_unlink)
  have same: "same_timers k' (unlink_timer (Thread_Timer t) k)"
    by (simp add: ut(2) closed_def same_timers_def)
  have st: "stat k' u = (if u = t then RT_THREAD_CLOSE else stat k u)" for u by (simp add: ut(2))
  show ?thesis
  proof (rule kinvI[OF sch])
    show "stacks_ok k'" using kinvD(2)[OF inv] by (auto simp: stacks_ok_def ut(2))
    show "tt_ok k' u" for u
    proof (cases "u = t")
      case True
      then show ?thesis by (simp add: tt_ok_def ut(2))
    next
      case False
      then show ?thesis
        by (intro tt_ok_other[OF kinvD(3)[OF inv]])
          (use same_timers_flags[OF same] timers_same(4)[OF same] in \<open>auto simp: ut(2) thread_timer_def\<close>)
    qed
    have "user_timers_ok (unlink_timer (Thread_Timer t) k)"
      using kinvD(4)[OF inv] by (rule user_timers_subset) (auto intro: periodic_cong)
    then show "user_timers_ok k'" "timers_ok b k'" "within b B k'" using u timers_same[OF same] by simp_all
  qed
qed

lemma closed_kinv:
  assumes inv: "kinv b B k" and m: "mask_ok (thread k t)"
  shows "kinv b B (closed t k)" "kinv b B (upd_tlists (st_push Defunct t) (closed t k))"
proof -
  note hole = closed_hole[OF kinvD(1)[OF inv] m]
  have "sched_inv (closed t k)" by (rule sinv_fill[OF hole]) simp_all
  then show "kinv b B (closed t k)" by (intro closed_rest[OF inv refl, where t = t]) simp_all
  have "sched_inv ((closed t k)\<lparr>k_tlists := (k_tlists (closed t k))(Defunct := t # k_tlists (closed t k) Defunct)\<rparr>)"
    using unlinkedD[OF hole_unlinked[OF hole], of Defunct] sinv_wf[OF hole]
    by (intro sinv_fill_queue[OF hole]) (simp_all add: store_wf_distinct)
  then have "sched_inv (upd_tlists (st_push Defunct t) (closed t k))" by (simp add: upd_tlists_def st_push_def)
  then show "kinv b B (upd_tlists (st_push Defunct t) (closed t k))"
    by (intro closed_rest[OF inv refl, where t = t]) (simp_all add: upd_tlists_def)
qed

lemma kinv_same_as:
  assumes "kinv b B k" "same_threads k' k" "same_timers k' k" shows "kinv b B k'"
  using assms kinv_cong by blast

lemma detach_kinv:
  assumes "kinv b B k" "mask_ok (thread k t)"
  shows "kinv b B (rt_thread_detach t k)"
proof (cases "t_cleanup (thread k t) = None")
  case True
  show ?thesis
    by (rule kinv_same_as[OF closed_kinv(1)[OF assms]])
      (use True in \<open>simp_all add: rt_thread_detach_def closed_def same_threads_def same_timers_def Let_def rt_schedule_remove_thread_def\<close>)
next
  case False
  show ?thesis
    by (rule kinv_same_as[OF closed_kinv(2)[OF assms]])
      (use False in \<open>auto simp: rt_thread_detach_def closed_def same_threads_def same_timers_def Let_def rt_schedule_remove_thread_def\<close>)
qed

lemma delete_kinv:
  assumes "kinv b B k" "mask_ok (thread k t)"
  shows "kinv b B (rt_thread_delete t k)"
  by (rule kinv_same_as[OF closed_kinv(2)[OF assms]])
    (simp_all add: rt_thread_delete_def closed_def same_threads_def same_timers_def Let_def rt_schedule_remove_thread_def)

text \<open>\<^verbatim>\<open>rt_thread_exit\<close> up to its schedule.\<close>

definition exited :: "tid \<Rightarrow> kernel \<Rightarrow> kernel" where
  "exited t k =
     (let k4 = rt_object_detach (OTimer (Thread_Timer t)) (unlink_timer (Thread_Timer t)
                 (upd_thread t (\<lambda>th. th\<lparr>t_stat := RT_THREAD_CLOSE\<rparr>) (rt_schedule_remove_thread t k)))
      in if rt_object_is_systemobject (OThread t) k4 \<and> t_cleanup (thread k4 t) = None
         then rt_object_detach (OThread t) k4 else upd_tlists (st_push Defunct t) k4)"

lemma rt_thread_exit_eq: "k_current k = Some t \<Longrightarrow> rt_thread_exit k = rt_schedule (exited t k)"
  by (simp add: rt_thread_exit_def exited_def Let_def)

lemma exited_threads [simp]:
  "k_threads (exited t k) = (k_threads k)(t := (k_threads k t)\<lparr>t_stat := RT_THREAD_CLOSE\<rparr>)"
  "k_current (exited t k) = k_current k" "k_tick (exited t k) = k_tick k" "k_lock_nest (exited t k) = k_lock_nest k"
  by (simp_all add: exited_def Let_def)

lemma exited_kinv:
  assumes inv: "kinv b B k" and m: "mask_ok (thread k t)"
  shows "kinv b B (exited t k)"
proof (cases "rt_object_is_systemobject (OThread t) k \<and> t_cleanup (thread k t) = None")
  case True
  then show ?thesis
    by (intro kinv_same_as[OF closed_kinv(1)[OF inv m]])
      (simp_all add: exited_def closed_def same_threads_def same_timers_def Let_def rt_object_is_systemobject_def rt_schedule_remove_thread_def)
next
  case False
  then show ?thesis
    by (intro kinv_same_as[OF closed_kinv(2)[OF inv m]])
      (auto simp: exited_def closed_def same_threads_def same_timers_def Let_def rt_object_is_systemobject_def rt_schedule_remove_thread_def)
qed

lemma exit_returns:
  assumes inv: "kinv b B k" and t: "k_current k = Some t" "stat k t = RT_THREAD_READY"
    and other: "stat k u = RT_THREAD_READY" "u \<noteq> t"
  shows "returns (rt_thread_exit k) (\<lambda>k'. kinv b B k' \<and> runnable k' \<and> scheduled (exited t k) k')"
proof -
  have "mask_ok (thread k t)" using t kinvD(1)[OF inv] by (simp add: sched_inv_mask)
  then have "kinv b B (exited t k)" by (rule exited_kinv[OF inv])
  moreover have "runnable (exited t k)" using t other by (auto simp: runnable_def)
  ultimately show ?thesis using schedule_returns rt_thread_exit_eq[OF t(1)] by simp
qed

section \<open>Waiting with a time-out\<close>

text \<open>The two calls by which every blocking operation arms the timer of the caller.\<close>

definition arm_timer :: "tid \<Rightarrow> u32 \<Rightarrow> kernel \<Rightarrow> kernel option" where
  "arm_timer t time k =
     do { let k1 = snd (rt_timer_control (Thread_Timer t) RT_TIMER_CTRL_SET_TIME time k);
          (_, k2) \<leftarrow> rt_timer_start (Thread_Timer t) k1;
          Some k2 }"

definition armed :: "tid \<Rightarrow> u32 \<Rightarrow> kernel \<Rightarrow> kernel" where
  "armed t time k = started (Thread_Timer t) (upd_timer (Thread_Timer t) (\<lambda>tm. tm\<lparr>tm_init_tick := time\<rparr>) k)"

lemma arm_timer_eq:
  assumes "\<not> activated k (Thread_Timer t)" "time < RT_TICK_HALF"
  shows "arm_timer t time k = Some (armed t time k)"
  using assms by (simp add: arm_timer_def armed_def rt_timer_control_def rt_timer_start_eq)

lemma set_time_kinv:
  assumes inv: "kinv b B k" and na: "\<not> activated k (Thread_Timer t)" and tm: "thread_timer k t"
  shows "kinv b B (upd_timer (Thread_Timer t) (\<lambda>x. x\<lparr>tm_init_tick := time\<rparr>) k)" (is "kinv b B ?k")
proof (rule kinvI)
  show "sched_inv ?k" using kinvD(1)[OF inv] by simp
  show "stacks_ok ?k" using kinvD(2)[OF inv] by (simp add: stacks_ok_def)
  show "tt_ok ?k u" for u
    by (rule tt_ok_other[OF kinvD(3)[OF inv]]) (simp_all add: thread_timer_def)
  show "user_timers_ok ?k"
    using kinvD(4)[OF inv] tm by (auto simp: user_timers_ok_def thread_timer_def)
  show "timers_ok b ?k" "within b B ?k"
    using kinvD(5,6)[OF inv] timers_ok_cong[of ?k k] by simp_all
qed

lemma armed_frame:
  assumes "\<not> activated k (Thread_Timer t)" "time < RT_TICK_HALF"
  shows
  "k_threads (armed t time k) = k_threads k" "k_tlists (armed t time k) = k_tlists k"
  "k_ready_group (armed t time k) = k_ready_group k" "k_current (armed t time k) = k_current k"
  "k_current_priority (armed t time k) = k_current_priority k"
  "k_lock_nest (armed t time k) = k_lock_nest k"
  "k_interrupt_nest (armed t time k) = k_interrupt_nest k" "k_tick (armed t time k) = k_tick k"
  "k_container (armed t time k) = k_container k" "k_sems (armed t time k) = k_sems k"
  "k_mutexes (armed t time k) = k_mutexes k" "k_events (armed t time k) = k_events k"
  "k_mailboxes (armed t time k) = k_mailboxes k" "k_mqs (armed t time k) = k_mqs k"
  "k_mempools (armed t time k) = k_mempools k" "k_words (armed t time k) = k_words k"
  "k_heap (armed t time k) = k_heap k"
    "Thread_Timer t \<in> set (k_timer_list (armed t time k))"
    "tm_timeout_tick (k_timers (armed t time k) (Thread_Timer t)) = k_tick k + time"
  using assms started_frame[of "upd_timer (Thread_Timer t) (\<lambda>x. x\<lparr>tm_init_tick := time\<rparr>) k" "Thread_Timer t"]
    started_timer[of "upd_timer (Thread_Timer t) (\<lambda>x. x\<lparr>tm_init_tick := time\<rparr>) k" "Thread_Timer t"]
  by (simp_all add: armed_def)

lemma armed_objects:
  assumes "\<not> activated k (Thread_Timer t)" "time < RT_TICK_HALF" "\<And>i. x \<noteq> OTimer i"
  shows "k_objects (armed t time k) x = k_objects k x"
  using assms by (simp add: armed_def started_def rt_timer_start_def Let_def set_flag_def)

lemma armed_kinv:
  assumes inv: "kernel_inv k" and na: "\<not> activated k (Thread_Timer t)" and st: "stat k t = RT_THREAD_SUSPEND"
    and time: "time < RT_TICK_HALF"
  shows "kernel_inv (armed t time k)"
proof -
  let ?k = "upd_timer (Thread_Timer t) (\<lambda>x. x\<lparr>tm_init_tick := time\<rparr>) k"
  have "thread_timer k t" using kinvD(3)[OF inv, of t] st by (simp add: tt_ok_def)
  then have "kernel_inv ?k" using set_time_kinv[OF inv na] by simp
  then show ?thesis
    unfolding armed_def using na st time by (intro started_kinv) (simp_all add: may_start_def)
qed

text \<open>The caller suspended and, with a time-out, its timer running: it is not the thread that runs next.\<close>

lemma not_next: "stat k t \<noteq> RT_THREAD_READY \<Longrightarrow> \<not> next_to_run k t"
  by (simp add: next_to_run_def)

lemma scheduled_away:
  assumes "scheduled k k'" "stat k t \<noteq> RT_THREAD_READY" "k_lock_nest k = 0"
  shows "k_current k' \<noteq> Some t" "\<exists>c. k_current k' = Some c \<and> next_to_run k c"
  using assms by (auto simp: scheduled_def dest: not_next)

lemma suspended_self:
  assumes inv: "kinv b B k" and t: "stat k t = RT_THREAD_READY"
  defines "k' \<equiv> snd (rt_thread_suspend t k)"
  shows "kinv b B k'" "stat k' t = RT_THREAD_SUSPEND" "\<not> activated k' (Thread_Timer t)"
    "\<And>u. u \<noteq> t \<Longrightarrow> thread k' u = thread k u"
proof -
  show "kinv b B k'" unfolding k'_def by (rule suspend_kinv[OF inv])
  have "\<not> activated k (Thread_Timer t)" using kinvD(3)[OF inv, of t] t by (simp add: tt_ok_def)
  then show "\<not> activated k' (Thread_Timer t)" by (simp add: k'_def activated_def)
qed (use t in \<open>simp_all add: k'_def suspend_threads\<close>)

lemma sleep_returns:
  assumes inv: "kernel_inv k" and t: "k_current k = Some t" "stat k t = RT_THREAD_READY"
    and other: "stat k u = RT_THREAD_READY" "u \<noteq> t" and tick: "tick < RT_TICK_HALF" and unlocked: "k_lock_nest k = 0"
  shows "returns (rt_thread_sleep tick k) (\<lambda>(r, k'). r = Blocked \<and> kernel_inv k' \<and> runnable k' \<and>
     stat k' t = RT_THREAD_SUSPEND \<and> Thread_Timer t \<in> set (k_timer_list k') \<and>
     tm_timeout_tick (k_timers k' (Thread_Timer t)) = k_tick k + tick \<and>
     (\<exists>c. k_current k' = Some c \<and> c \<noteq> t \<and> next_to_run k' c))"
proof -
  let ?s = "snd (rt_thread_suspend t k)"
  let ?a = "armed t tick ?s"
  note s = suspended_self[OF inv t(2)]
  note a = armed_frame[OF s(3) tick]
  have arm: "rt_timer_start (Thread_Timer t) (snd (rt_timer_control (Thread_Timer t) RT_TIMER_CTRL_SET_TIME tick ?s))
      = Some (RT_EOK, ?a)"
    using s(3) tick by (simp add: armed_def rt_timer_control_def rt_timer_start_eq)
  have k: "kernel_inv ?a" using armed_kinv[OF _ s(3) s(2) tick] s(1) by (simp add: a)
  have "stat ?s u = RT_THREAD_READY" using other s(4)[OF other(2)] by simp
  then have run: "runnable ?a" using t by (auto simp: runnable_def a)
  have st: "stat ?a t = RT_THREAD_SUSPEND" using s(2) by (simp add: a)
  have lock: "k_lock_nest ?a = 0" using unlocked by (simp add: a)
  have "returns (rt_schedule ?a) (\<lambda>k4. returns
      (if k_current k4 = Some t then Some (Done RT_EOK, rt_thread_sleep_resumed t k4) else Some (Blocked, k4))
      (\<lambda>(r, k'). r = Blocked \<and> kernel_inv k' \<and> runnable k' \<and> stat k' t = RT_THREAD_SUSPEND \<and>
        Thread_Timer t \<in> set (k_timer_list k') \<and> tm_timeout_tick (k_timers k' (Thread_Timer t)) = k_tick k + tick \<and>
        (\<exists>c. k_current k' = Some c \<and> c \<noteq> t \<and> next_to_run k' c)))"
  proof (rule returns_mono[OF schedule_returns[OF k run]], elim conjE)
    fix k4 assume k4: "kinv (k_tick ?a) (HALF - 1) k4" "runnable k4" "scheduled ?a k4"
    note f = scheduled_frame[OF k4(3)] and aw = scheduled_away[OF k4(3) _ lock, of t]
    have "next_to_run k4 c = next_to_run ?a c" for c by (simp add: next_to_run_def f)
    then show "returns
      (if k_current k4 = Some t then Some (Done RT_EOK, rt_thread_sleep_resumed t k4) else Some (Blocked, k4))
      (\<lambda>(r, k'). r = Blocked \<and> kernel_inv k' \<and> runnable k' \<and> stat k' t = RT_THREAD_SUSPEND \<and>
        Thread_Timer t \<in> set (k_timer_list k') \<and> tm_timeout_tick (k_timers k' (Thread_Timer t)) = k_tick k + tick \<and>
        (\<exists>c. k_current k' = Some c \<and> c \<noteq> t \<and> next_to_run k' c))"
      using k4 aw st by (auto simp: f a)
  qed
  then show ?thesis
    unfolding rt_thread_sleep_def t(1) by (simp add: arm)
qed

text \<open>What holds of a call that may block its caller \<open>t\<close>: it is the running thread, somebody else can run
  (the idle thread always can), and the scheduler is not locked.\<close>

definition may_block :: "tid \<Rightarrow> kernel \<Rightarrow> bool" where
  "may_block t k \<longleftrightarrow> k_current k = Some t \<and> stat k t = RT_THREAD_READY \<and>
     (\<exists>u. u \<noteq> t \<and> stat k u = RT_THREAD_READY) \<and> k_lock_nest k = 0"

section \<open>Initialisation and start-up\<close>

text \<open>The stack pointer of a new thread lies one context frame below the top of its stack, and all the
  words of the frame are inside the stack.\<close>

lemma stack_init_sp: "fst (rt_hw_stack_init e p a x) = a - 60"
  by (simp add: rt_hw_stack_init_def Let_def last_map)

lemma stack_init_addrs:
  "map fst (snd (rt_hw_stack_init e p a x)) = map (\<lambda>i. a - of_nat (4 * i)) [0..<16]"
  by (simp add: rt_hw_stack_init_def Let_def)

lemma new_stack_check:
  fixes start :: u32 and size :: u16
  assumes "64 < unat size" "unat start + unat size < 2 ^ 32"
  shows "rt_scheduler_stack_check (th\<lparr>t_sp := start + ucast size - 4 - 60, t_stack_addr := start, t_stack_size := size\<rparr>)"
proof -
  have us: "unat (ucast size :: u32) = unat size"
    by simp
  then have top: "unat (start + ucast size) = unat start + unat size"
    using assms(2) by (simp add: unat_word_ariths)
  have "start + ucast size - 4 - 60 = start + ucast size - 64" by simp
  moreover have "(64 :: u32) \<le> start + ucast size" using assms top by (simp add: word_le_nat_alt)
  ultimately have "unat (start + ucast size - 4 - 60) = unat start + unat size - 64"
    using top by (simp add: unat_sub)
  then show ?thesis
    using assms top us by (auto simp: rt_scheduler_stack_check_def word_le_nat_alt word_less_nat_alt)
qed

text \<open>A thread that is not in use: on no list, and its timer off.\<close>

definition unused :: "kernel \<Rightarrow> tid \<Rightarrow> bool" where
  "unused k t \<longleftrightarrow> unlinked t (k_tlists k) \<and> Thread_Timer t \<notin> set (k_timer_list k) \<and>
     stat k t \<noteq> RT_THREAD_READY \<and> stat k t \<noteq> RT_THREAD_SUSPEND"

definition inited :: "u32 \<Rightarrow> tid \<Rightarrow> cstr \<Rightarrow> ptr \<Rightarrow> ptr \<Rightarrow> u32 \<Rightarrow> u32 \<Rightarrow> u8 \<Rightarrow> u32 \<Rightarrow> kernel \<Rightarrow> kernel" where
  "inited texit t name entry parameter stack_start stack_size priority tick k =
     the (rt_thread_init texit t name entry parameter stack_start stack_size priority tick k)"

lemma rt_thread_init_eq:
  assumes "stack_start \<noteq> 0" "priority < 32"
  shows "rt_thread_init texit t name e pa stack_start stack_size priority tick k =
     Some (inited texit t name e pa stack_start stack_size priority tick k)"
  using assms by (simp add: inited_def rt_thread_init_def rt_thread_init_fields_def Let_def)

lemma inited_fields:
  fixes k texit t name e pa stack_size tick
  assumes "stack_start \<noteq> 0" "priority < 32"
  defines "k' \<equiv> inited texit t name e pa stack_start stack_size priority tick k"
  shows "stat k' t = RT_THREAD_INIT" "t_init_priority (thread k' t) = priority" "u \<noteq> t \<Longrightarrow> thread k' u = thread k u"
    "t_sp (thread k' t) = stack_start + ucast (ucast stack_size :: u16) - 4 - 60"
    "t_stack_addr (thread k' t) = stack_start" "t_stack_size (thread k' t) = ucast stack_size"
    "k_tlists k' = k_tlists k" "k_timer_list k' = k_timer_list k" "k_ready_group k' = k_ready_group k"
    "k_tick k' = k_tick k" "k_current k' = k_current k"
    "k_timers k' = (k_timers k)(Thread_Timer t := \<lparr>tm_timeout_func = Rt_thread_timeout, tm_parameter = t,
        tm_init_tick = 0, tm_timeout_tick = 0\<rparr>)"
    "i \<noteq> Thread_Timer t \<Longrightarrow> timer_flag k' i = timer_flag k i" "timer_flag k' (Thread_Timer t) = 0"
  using assms
  by (simp_all add: inited_def rt_thread_init_def rt_thread_init_fields_def Let_def rt_timer_init_def
      rt_timer_init_fields_def clear_flag_def stack_init_sp)

lemma inited_kinv:
  assumes inv: "kinv b B k" and un: "unused k t" and arg: "stack_start \<noteq> 0" "priority < 32"
  shows "kinv b B (inited texit t name e pa stack_start stack_size priority tick k)" (is "kinv b B ?k")
proof -
  note f = inited_fields[OF arg, where k = k and t = t and texit = texit and name = name and e = e
      and pa = pa and stack_size = stack_size and tick = tick]
  have thr: "stat ?k u = (if u = t then RT_THREAD_INIT else stat k u)" for u using f(1,3) by auto
  have flags: "activated ?k i \<longleftrightarrow> i \<noteq> Thread_Timer t \<and> activated k i" "periodic ?k i \<longleftrightarrow> i \<noteq> Thread_Timer t \<and> periodic k i" for i
    using f(13)[of i] f(14) by (cases "i = Thread_Timer t"; simp add: activated_def periodic_def)+
  have sub: "sinv (- {t}) k"
    using kinvD(1)[OF inv] un by (auto simp: sinv_def unused_def unlinked_def)
  have "sinv (- {t}) ?k \<longleftrightarrow> sinv (- {t}) k" by (rule sinv_cong) (auto simp: f)
  with sub have "sinv (- {t}) ?k" by simp
  then have "sched_inv ?k" by (rule sinv_fill) (simp_all add: thr)
  moreover have "stacks_ok ?k" using kinvD(2)[OF inv] by (auto simp: stacks_ok_def thr f(3))
  moreover have "tt_ok ?k u" for u
    using kinvD(3)[OF inv, of u] un by (auto simp: tt_ok_def thread_timer_def flags thr f(8,12) unused_def)
  moreover have "user_timers_ok ?k"
    using kinvD(4)[OF inv] by (auto simp: user_timers_ok_def flags f(8,12))
  moreover have "timers_ok b ?k \<longleftrightarrow> timers_ok b k" "within b B ?k \<longleftrightarrow> within b B k"
    by (rule timers_ok_cong; use un in \<open>auto simp: f(8,12) flags unused_def\<close>)+
  ultimately show ?thesis using kinvD[OF inv] by (simp add: kinv_def core_inv_def)
qed

text \<open>Starting the thread up makes it ready at its initial priority and lets the scheduler choose.\<close>

definition started_up :: "tid \<Rightarrow> kernel \<Rightarrow> kernel" where
  "started_up t k = snd (rt_thread_resume t (upd_thread t (\<lambda>th. th\<lparr>t_current_priority := t_init_priority th,
     t_number_mask := push_bit (unat (t_init_priority th)) 1, t_stat := RT_THREAD_SUSPEND\<rparr>) k))"

lemma rt_thread_startup_eq:
  assumes "stat k t = RT_THREAD_INIT"
  shows "rt_thread_startup t k =
     (if k_current k = None then Some (started_up t k) else rt_schedule (started_up t k))"
  using assms by (simp add: rt_thread_startup_def started_up_def rt_thread_self_def upd_thread_def)

lemma started_up_kinv:
  assumes inv: "kinv b B k" and st: "stat k t = RT_THREAD_INIT" and pr: "t_init_priority (thread k t) < 32"
    and chk: "rt_scheduler_stack_check (thread k t)"
  shows "kinv b B (started_up t k)" "stat (started_up t k) t = RT_THREAD_READY"
    "prio (started_up t k) t = t_init_priority (thread k t)"
proof -
  let ?k = "upd_thread t (\<lambda>th. th\<lparr>t_current_priority := t_init_priority th,
     t_number_mask := push_bit (unat (t_init_priority th)) 1, t_stat := RT_THREAD_SUSPEND\<rparr>) k"
  have unl: "unlinked t (k_tlists k)"
    unfolding unlinked_def
  proof (rule allI, rule notI)
    fix h assume "t \<in> set (k_tlists k h)"
    then have "stat_fits h (stat k t)" using sinv_thread[OF kinvD(1)[OF inv], of t] by (simp add: thread_ok_def)
    then show False using st by (cases h) auto
  qed
  have same: "same_timers ?k k" by (simp add: same_timers_def)
  have "sinv (- {t}) k" using kinvD(1)[OF inv] unl by (auto simp: sinv_def unlinked_def)
  then have "sinv (- {t}) ?k" by simp
  then have "sched_inv ?k" using pr by (intro sinv_fill[of t]) (simp_all add: mask_ok_def prio_mask_def)
  moreover have "stacks_ok ?k" using kinvD(2)[OF inv] chk by (auto simp: stacks_ok_def)
  moreover have "tt_ok ?k u" for u
    using kinvD(3)[OF inv, of u] st same_timers_flags[OF same] timers_same(4)[OF same] by (auto simp: tt_ok_def)
  ultimately have "kinv b B ?k" using kinvD[OF inv] timers_same[OF same] by (simp add: kinv_def core_inv_def)
  then show "kinv b B (started_up t k)" unfolding started_up_def by (rule resume_kinv)
qed (simp_all add: started_up_def resume_eq)

lemma startup_tick: "stat k t = RT_THREAD_INIT \<Longrightarrow> rt_thread_startup t k = Some k' \<Longrightarrow> k_tick k' = k_tick k"
  using rt_schedule_Some[of "started_up t k" k']
  by (auto simp: rt_thread_startup_eq started_up_def split: if_splits)

lemma startup_returns:
  assumes inv: "kinv b B k" and st: "stat k t = RT_THREAD_INIT" and pr: "t_init_priority (thread k t) < 32"
    and chk: "rt_scheduler_stack_check (thread k t)"
  shows "returns (rt_thread_startup t k) (\<lambda>k'. kinv b B k' \<and> stat k' t = RT_THREAD_READY \<and>
     prio k' t = t_init_priority (thread k t) \<and> (if k_current k = None then k_current k' = None else scheduled (started_up t k) k'))"
proof (cases "k_current k")
  case None
  then show ?thesis using started_up_kinv[OF assms] by (simp add: rt_thread_startup_eq st) (simp add: started_up_def)
next
  case (Some c)
  have "k_current (started_up t k) = Some c" by (simp add: started_up_def Some)
  then have "runnable (started_up t k)" using started_up_kinv(2)[OF assms] by (auto simp: runnable_def)
  from schedule_returns[OF started_up_kinv(1)[OF assms] this] show ?thesis
    using Some started_up_kinv(2,3)[OF assms]
    by (auto simp: rt_thread_startup_eq st scheduled_frame elim!: returns_mono)
qed

section \<open>Changing the priority\<close>

lemma set_priority_hole [simp]: "sinv (- {t}) (set_priority t p k) \<longleftrightarrow> sinv (- {t}) k"
  by (simp add: set_priority_def)

definition reprioritised :: "tid \<Rightarrow> u8 \<Rightarrow> kernel \<Rightarrow> kernel" where
  "reprioritised t p k =
     (if stat k t = RT_THREAD_READY
      then rt_schedule_insert_thread t (set_priority t p (rt_schedule_remove_thread t k)) else set_priority t p k)"

lemma change_priority_eq: "rt_thread_control t RT_THREAD_CTRL_CHANGE_PRIORITY p k = Some (reprioritised t p k)"
  by (simp add: rt_thread_control_def reprioritised_def)

lemma reprioritised_frame [simp]:
  "k_current (reprioritised t p k) = k_current k"
  "k_current_priority (reprioritised t p k) = k_current_priority k"
  "k_lock_nest (reprioritised t p k) = k_lock_nest k"
  "k_interrupt_nest (reprioritised t p k) = k_interrupt_nest k"
  "k_tick (reprioritised t p k) = k_tick k" "k_timers (reprioritised t p k) = k_timers k"
  "k_timer_list (reprioritised t p k) = k_timer_list k" "k_objects (reprioritised t p k) = k_objects k"
  "k_container (reprioritised t p k) = k_container k" "k_sems (reprioritised t p k) = k_sems k"
  "k_mutexes (reprioritised t p k) = k_mutexes k" "k_events (reprioritised t p k) = k_events k"
  "k_mailboxes (reprioritised t p k) = k_mailboxes k" "k_mqs (reprioritised t p k) = k_mqs k"
  "k_mempools (reprioritised t p k) = k_mempools k" "k_words (reprioritised t p k) = k_words k"
  "k_heap (reprioritised t p k) = k_heap k"
  by (simp_all add: reprioritised_def set_priority_def)

lemma reprioritised_threads:
  "k_threads (reprioritised t p k) =
     (k_threads k)(t := (k_threads k t)\<lparr>t_current_priority := p, t_number_mask := push_bit (unat p) 1\<rparr>)"
  by (cases "k_threads k t") (simp add: reprioritised_def set_priority_def)

lemma reprioritised_stat [simp]: "stat (reprioritised t p k) u = stat k u"
  by (simp add: reprioritised_threads)

lemma reprioritised_queue:
  assumes "sched_inv k" "\<And>q. h \<noteq> Ready q" shows "k_tlists (reprioritised t p k) h = k_tlists k h"
proof (cases "stat k t = RT_THREAD_READY")
  case True
  have "t \<notin> set (k_tlists k h)"
  proof
    assume "t \<in> set (k_tlists k h)"
    then have "stat_fits h RT_THREAD_READY" using sinv_thread[OF assms(1), of t] True by (simp add: thread_ok_def)
    then show False using assms(2) by (cases h) auto
  qed
  then show ?thesis using True assms(2) by (simp add: reprioritised_def set_priority_def st_append_def)
qed (simp add: reprioritised_def set_priority_def)

lemma reprioritised_kinv:
  assumes inv: "kinv b B k" and p: "p < 32"
  shows "kinv b B (reprioritised t p k)" (is "kinv b B ?k")
proof -
  have sched: "sched_inv ?k"
  proof (cases "stat k t = RT_THREAD_READY")
    case True
    have "mask_ok (thread k t)" using True kinvD(1)[OF inv] by (simp add: sched_inv_mask)
    then have "sinv (- {t}) (set_priority t p (rt_schedule_remove_thread t k))"
      using remove_thread_hole kinvD(1)[OF inv] by simp
    then have "sched_inv (rt_schedule_insert_thread t (set_priority t p (rt_schedule_remove_thread t k)))"
      by (rule insert_thread_inv) (simp add: set_priority_def mask_ok_def prio_mask_def p)
    with True show ?thesis by (simp add: reprioritised_def)
  next
    case False
    have ns: "t \<notin> set (ready k q)" for q using False kinvD(1)[OF inv] by (simp add: sched_inv_ready_iff)
    have "thread_ok (set_priority t p k) u" for u
      using sinv_thread[OF kinvD(1)[OF inv], of u] False ns p
      by (auto simp: thread_ok_def set_priority_def mask_ok_def prio_mask_def)
    then have "sched_inv (set_priority t p k)"
      using kinvD(1)[OF inv] by (simp add: sinv_def group_ok_def) (simp add: set_priority_def)
    then show ?thesis using False by (simp add: reprioritised_def)
  qed
  have same: "same_timers ?k k" by (simp add: same_timers_def)
  have "stacks_ok ?k" using kinvD(2)[OF inv] by (auto simp: stacks_ok_def reprioritised_threads)
  moreover have "tt_ok ?k u" for u
    using kinvD(3)[OF inv, of u] same_timers_flags[OF same] timers_same(4)[OF same] by (simp add: tt_ok_def)
  ultimately show ?thesis using sched kinvD[OF inv] timers_same[OF same] by (simp add: kinv_def core_inv_def)
qed

end
