(* ===== verification/Clock.thy ===== *)
theory Clock
  imports Thread_Ops
begin

unbundle bit_operations_syntax

text \<open>
  The tick of the system, \<^verbatim>\<open>src/clock.c\<close>, and the nesting of interrupts, \<^verbatim>\<open>src/irq.c\<close>.
\<close>

section \<open>The code\<close>

definition rt_tick_get :: "kernel \<Rightarrow> u32" where
  "rt_tick_get k = k_tick k"

definition rt_tick_set :: "u32 \<Rightarrow> kernel \<Rightarrow> kernel" where
  "rt_tick_set tick k = k\<lparr>k_tick := tick\<rparr>"

text \<open>\<open>ucb\<close> stands for the time-out functions of the application.\<close>

text \<open>The part in front of the timers: the tick is counted, and the slice of the running thread.\<close>

definition tick_slice :: "kernel \<Rightarrow> kernel option" where
  "tick_slice k =
     do { let k1 = k\<lparr>k_tick := k_tick k + 1\<rparr>;
          t \<leftarrow> rt_thread_self k1;
          let k2 = upd_thread t (\<lambda>th. th\<lparr>t_remaining_tick := t_remaining_tick th - 1\<rparr>) k1;
          if t_remaining_tick (thread k2 t) = 0
          then rt_thread_yield (upd_thread t (\<lambda>th. th\<lparr>t_remaining_tick := t_init_tick th\<rparr>) k2)
          else Some k2 }"

definition rt_tick_increase :: "(ptr \<Rightarrow> ptr \<Rightarrow> kernel \<Rightarrow> kernel option) \<Rightarrow> kernel \<Rightarrow> kernel option" where
  "rt_tick_increase ucb k = do { k1 \<leftarrow> tick_slice k; rt_timer_check (timeout_call ucb) k1 }"

definition rt_tick_from_millisecond :: "u32 \<Rightarrow> u32" where
  "rt_tick_from_millisecond ms = (1000 * ms + 999) div 1000"

definition rt_interrupt_enter :: "kernel \<Rightarrow> kernel" where
  "rt_interrupt_enter k = k\<lparr>k_interrupt_nest := k_interrupt_nest k + 1\<rparr>"

definition rt_interrupt_leave :: "kernel \<Rightarrow> kernel" where
  "rt_interrupt_leave k = k\<lparr>k_interrupt_nest := k_interrupt_nest k - 1\<rparr>"

definition rt_interrupt_get_nest :: "kernel \<Rightarrow> u8" where
  "rt_interrupt_get_nest k = k_interrupt_nest k"

section \<open>A tick\<close>

text \<open>Counting the slice of the running thread down does not concern the invariant.\<close>

lemma kinv_remaining [simp]: "kinv b B (upd_thread t (\<lambda>th. th\<lparr>t_remaining_tick := f th\<rparr>) k) \<longleftrightarrow> kinv b B k"
  by (rule kinv_cong) (simp_all add: same_threads_def same_timers_def)

lemma runnable_remaining [simp]: "runnable (upd_thread t (\<lambda>th. th\<lparr>t_remaining_tick := f th\<rparr>) k) \<longleftrightarrow> runnable k"
proof -
  have "stat (upd_thread t (\<lambda>th. th\<lparr>t_remaining_tick := f th\<rparr>) k) u = stat k u" for u by simp
  then show ?thesis by (simp add: runnable_def del: upd_thread_frame(20))
qed

lemma tick_slice_returns:
  assumes inv: "kernel_inv k" and run: "runnable k"
  shows "returns (tick_slice k) (\<lambda>k'. core_inv k' \<and> runnable k' \<and> timers_ok (k_tick k) k' \<and> within (k_tick k) HALF k' \<and>
     k_tick k' = k_tick k + 1)"
proof -
  let ?b = "k_tick k"
  obtain t where c: "k_current k = Some t" using run by (auto simp: runnable_def)
  let ?k1 = "k\<lparr>k_tick := ?b + 1\<rparr>"
  let ?k2 = "upd_thread t (\<lambda>th. th\<lparr>t_remaining_tick := t_remaining_tick th - 1\<rparr>) ?k1"
  let ?y = "upd_thread t (\<lambda>th. th\<lparr>t_remaining_tick := t_init_tick th\<rparr>) ?k2"
  let ?Q = "\<lambda>k'. kinv ?b HALF k' \<and> runnable k' \<and> k_tick k' = ?b + 1"
  have w: "kinv ?b HALF k"
    using inv within_mono[of ?b "HALF - 1" k HALF] by (simp add: kinv_def)
  have run1: "runnable ?k1" using run by (simp add: runnable_def)
  have "kinv ?b HALF ?y" "runnable ?y" using w run1 by simp_all
  then have y: "returns (rt_thread_yield ?y) ?Q" by (rule returns_mono[OF yield_returns]) auto
  have "?Q ?k2" using w run1 by simp
  then have "returns (tick_slice k) ?Q" using y by (simp add: tick_slice_def rt_thread_self_def c Let_def)
  then show ?thesis by (rule returns_mono) (simp add: kinv_def)
qed

lemma tick_returns:
  assumes inv: "kernel_inv k" and run: "runnable k" and ok: "ucb_ok ucb"
  shows "returns (rt_tick_increase ucb k) (\<lambda>k'. kernel_inv k' \<and> runnable k' \<and> k_tick k' = k_tick k + 1 \<and>
           (\<forall>i\<in>set (k_timer_list k'). 0 < delta (k_tick k') k' i))"
  unfolding rt_tick_increase_def returns_bind
  by (rule returns_mono[OF tick_slice_returns[OF inv run]], rule returns_mono[OF kernel_timeouts.check_returns])
    (use ok in \<open>auto simp: kinv_def\<close>)

text \<open>Converting milliseconds is exact at 1000 ticks per second as long as the product does not wrap.\<close>

lemma tick_from_millisecond_exact:
  assumes "unat ms \<le> 4294966"
  shows "rt_tick_from_millisecond ms = ms"
proof -
  have "unat (1000 * ms + 999) = 1000 * unat ms + 999"
    using assms by (simp add: unat_word_ariths)
  then have "unat (rt_tick_from_millisecond ms) = (1000 * unat ms + 999) div 1000"
    by (simp add: rt_tick_from_millisecond_def unat_div)
  also have "\<dots> = unat ms" by simp
  finally show ?thesis by (rule word_unat_eq_iff[THEN iffD2])
qed

lemma interrupt_balanced: "rt_interrupt_leave (rt_interrupt_enter k) = k"
  by (simp add: rt_interrupt_leave_def rt_interrupt_enter_def)

end
