(* ===== verification/Demo_State.thy ===== *)
theory Demo_State
  imports Clock
begin

unbundle bit_operations_syntax

text \<open>
  A small system at work, on which the theorems of the development are exercised: the idle thread (1)
  at priority 31, a running thread (2) at priority 10, a thread (3) at priority 5 that waits on
  semaphore 7 with a time-out, and a periodic timer of the application.  Thread 4 has been initialised
  and not started.
\<close>

definition demo_thread :: "thread_stat \<Rightarrow> u8 \<Rightarrow> rt_thread" where
  "demo_thread s p = \<lparr>t_sp = 0x10000100, t_entry = 0, t_parameter = 0, t_stack_addr = 0x10000000,
     t_stack_size = 1024, t_error = RT_EOK, t_stat = s, t_current_priority = p, t_init_priority = p,
     t_number_mask = prio_mask p, t_event_set = 0, t_event_info = 0, t_init_tick = 20, t_remaining_tick = 20,
     t_cleanup = None, t_user_data = 0\<rparr>"

definition demo_threads :: "tid \<Rightarrow> rt_thread" where
  "demo_threads t =
     (if t = 1 then demo_thread RT_THREAD_READY 31 else if t = 2 then demo_thread RT_THREAD_READY 10
      else if t = 3 then demo_thread RT_THREAD_SUSPEND 5 else if t = 4 then demo_thread RT_THREAD_INIT 8
      else demo_thread RT_THREAD_CLOSE 0)"

definition demo_tlists :: "(thead, tid) lstore" where
  "demo_tlists h = (if h = Ready 31 then [1] else if h = Ready 10 then [2] else if h = Sem_Q 7 then [3] else [])"

definition demo_timers :: "timer_id \<Rightarrow> rt_timer" where
  "demo_timers i = (case i of
     Thread_Timer t \<Rightarrow> \<lparr>tm_timeout_func = Rt_thread_timeout, tm_parameter = t, tm_init_tick = 0, tm_timeout_tick = 5\<rparr>
   | Timer p \<Rightarrow> \<lparr>tm_timeout_func = User_timeout 100, tm_parameter = 0, tm_init_tick = 10, tm_timeout_tick = 9\<rparr>)"

definition demo_objects :: "obj \<Rightarrow> rt_object" where
  "demo_objects x = \<lparr>o_name = [], o_type = 0,
     o_flag = (if x = OTimer (Thread_Timer 3) then 1 else if x = OTimer (Timer 50) then 3 else 0)\<rparr>"

definition demo_heap :: heap where
  "demo_heap = \<lparr>h_mem = (\<lambda>_. \<lparr>hm_magic = 0, hm_used = 0, hm_next = 0, hm_prev = 0\<rparr>), h_ptr = 0, h_end = 0,
     h_lfree = 0, h_size = 0, h_used_mem = 0, h_max_mem = 0\<rparr>"

definition demo :: kernel where
  "demo = \<lparr>k_threads = demo_threads, k_tlists = demo_tlists, k_ready_group = prio_mask 31 OR prio_mask 10,
     k_current = Some 2, k_current_priority = 10, k_lock_nest = 0, k_interrupt_nest = 0, k_tick = 4,
     k_timers = demo_timers, k_timer_list = [Thread_Timer 3, Timer 50], k_objects = demo_objects,
     k_container = (\<lambda>_. []), k_sems = (\<lambda>_. \<lparr>s_value = 0\<rparr>),
     k_mutexes = (\<lambda>_. \<lparr>m_value = 1, m_original_priority = 0xff, m_hold = 0, m_owner = None\<rparr>),
     k_events = (\<lambda>_. \<lparr>e_set = 0\<rparr>),
     k_mailboxes = (\<lambda>_. \<lparr>mb_pool_addr = 0, mb_msg_pool = [0, 0], mb_size = 2, mb_entry = 0, mb_in_offset = 0, mb_out_offset = 0\<rparr>),
     k_mqs = (\<lambda>_. \<lparr>mq_pool_addr = 0, mq_msg_size = 4, mq_max_msgs = 2, mq_entry = 0, mq_head = None, mq_tail = None,
       mq_free = Some 0, mq_next = (\<lambda>b. if b = 0 then Some 1 else None), mq_data = (\<lambda>_. [0, 0, 0, 0])\<rparr>),
     k_mempools = (\<lambda>_. \<lparr>mp_start_address = 0, mp_size = 0, mp_block_size = 0, mp_block_list = 0,
       mp_block_total_count = 0, mp_block_free_count = 0, mp_suspend_thread_count = 0\<rparr>),
     k_words = (\<lambda>_. 0), k_heap = demo_heap\<rparr>"

lemma demo_fields [simp]:
  "k_threads demo = demo_threads" "k_tlists demo = demo_tlists" "k_ready_group demo = prio_mask 31 OR prio_mask 10"
  "k_current demo = Some 2" "k_lock_nest demo = 0" "k_interrupt_nest demo = 0" "k_tick demo = 4"
  "k_timers demo = demo_timers" "k_timer_list demo = [Thread_Timer 3, Timer 50]" "k_objects demo = demo_objects"
  "k_container demo = (\<lambda>_. [])"
  by (simp_all add: demo_def)

lemma demo_stat [simp]:
  "t_stat (demo_threads t) = (if t = 1 \<or> t = 2 then RT_THREAD_READY else if t = 3 then RT_THREAD_SUSPEND
     else if t = 4 then RT_THREAD_INIT else RT_THREAD_CLOSE)"
  by (simp add: demo_threads_def demo_thread_def)

lemma demo_prio [simp]:
  "t_current_priority (demo_threads t) = (if t = 1 then 31 else if t = 2 then 10 else if t = 3 then 5
     else if t = 4 then 8 else 0)"
  "t_init_priority (demo_threads t) = t_current_priority (demo_threads t)"
  "t_number_mask (demo_threads t) = prio_mask (t_current_priority (demo_threads t))"
  by (simp_all add: demo_threads_def demo_thread_def)

lemma demo_stack [simp]: "rt_scheduler_stack_check (demo_threads t)"
  by (simp add: demo_threads_def demo_thread_def rt_scheduler_stack_check_def)

lemma demo_flags [simp]:
  "activated demo i \<longleftrightarrow> i = Thread_Timer 3 \<or> i = Timer 50" "periodic demo i \<longleftrightarrow> i = Timer 50"
  by (auto simp: activated_def periodic_def demo_objects_def)

lemma demo_sched_inv: "sched_inv demo"
proof -
  have "store_wf demo_tlists" by (auto simp: store_wf_def demo_tlists_def)
  moreover have "group_ok demo" by (auto simp: group_ok_def demo_tlists_def bit_or_prio bit_prio_mask)
  moreover have "thread_ok demo t" for t
  proof -
    consider "t = 1" | "t = 2" | "t = 3" | "t \<noteq> 1 \<and> t \<noteq> 2 \<and> t \<noteq> 3" by blast
    then show ?thesis
      by cases (auto simp: thread_ok_def mask_ok_def demo_tlists_def split: if_splits)
  qed
  ultimately show ?thesis by (simp add: sinv_def)
qed

lemma demo_kernel_inv: "kernel_inv demo"
proof (rule kinvI)
  show "stacks_ok demo" by (simp add: stacks_ok_def)
  show "tt_ok demo t" for t by (auto simp: tt_ok_def thread_timer_def demo_timers_def)
  show "user_timers_ok demo" by (auto simp: user_timers_ok_def demo_timers_def)
  show "timers_ok (k_tick demo) demo" by (simp add: timers_ok_def delta_def demo_timers_def)
  show "within (k_tick demo) (HALF - 1) demo" by (simp add: within_def delta_def demo_timers_def)
qed (rule demo_sched_inv)

lemma demo_runnable: "runnable demo"
  by (auto simp: runnable_def intro: exI[of _ 1])

lemma demo_can_schedule: "can_schedule demo"
  using demo_kernel_inv demo_runnable can_schedule_iff by blast

lemma demo_may_block: "may_block 2 demo"
  by (auto simp: may_block_def intro: exI[of _ 1])

end
