(* ===== verification/Kernel_Props.thy ===== *)
theory Kernel_Props
  imports Demo_State
begin

unbundle bit_operations_syntax

text \<open>
  The properties of lists, scheduler, objects, timers, threads and the tick, stated over the code and
  exercised on the system of theory \<open>Demo_State\<close>.
\<close>

section \<open>Lists\<close>

text \<open>C8: The pointer operations of \<^verbatim>\<open>rtservice.h\<close> act as operations on sequences: inserting a node that is
  in no list before the head node appends it, inserting it after the head node prepends it, and removing
  any node takes it out of its list; in each case all rings stay intact.\<close>

theorem list_code_refines:
  assumes "lrep s L" "unlinked n L"
  shows "lrep (rt_list_insert_before (Head h) (Node n) s) (L(h := L h @ [n])) \<and>
     lrep (rt_list_insert_after (Head h) (Node n) s) (L(h := n # L h)) \<and>
     (\<forall>m. lrep (rt_list_remove (Node m) s) (\<lambda>h'. removeAll m (L h'))) \<and>
     (rt_list_isempty (Head h) s \<longleftrightarrow> L h = [])"
  using ptr_list.rep_append[OF assms, of h] ptr_list.rep_push[OF assms, of h] ptr_list.rep_remove[OF assms(1)]
    ptr_list.rep_isempty[OF assms(1)]
  by (simp add: st_append_def st_push_def st_remove_def)

definition empty_lists :: "(nat, nat) lheap" where
  "empty_lists = \<lparr>l_next = (\<lambda>a. a), l_prev = (\<lambda>a. a)\<rparr>"

lemma empty_lists_rep: "lrep empty_lists (\<lambda>_. [])"
  by (simp add: lrep_def store_wf_def empty_lists_def)

theorem list_code_refines_witness:
  "lrep (rt_list_insert_before (Head 0) (Node 1) empty_lists) ((\<lambda>_. [])(0 := [1])) \<and> rt_list_isempty (Head 0) empty_lists"
proof -
  have "unlinked (1::nat) (\<lambda>_::nat. [])" by (simp add: unlinked_def)
  from list_code_refines[OF empty_lists_rep this, of 0] show ?thesis by simp
qed

text \<open>C9: The search loop of \<^verbatim>\<open>rt_timer_start\<close> and of the priority case of \<^verbatim>\<open>rt_ipc_list_suspend\<close> ends on
  every ring and inserts the node in front of the first member that satisfies the test, or at the end.\<close>

theorem ordered_insertion_refines:
  assumes "lrep s L" "unlinked n L"
  shows "\<exists>s'. list_insert_by P h n s = Some s' \<and>
     lrep s' (L(h := takeWhile (\<lambda>x. \<not> P x) (L h) @ n # dropWhile (\<lambda>x. \<not> P x) (L h)))"
  using list_insert_by_rep[OF assms, of P h] by (auto simp: returns_def st_insert_by_def insert_by_split)

theorem ordered_insertion_refines_witness:
  "\<exists>s'. list_insert_by (\<lambda>x. 5 < x) 0 1 empty_lists = Some s' \<and> lrep s' ((\<lambda>_. [])(0 := [1]))"
proof -
  have "unlinked (1::nat) (\<lambda>_::nat. [])" by (simp add: unlinked_def)
  from ordered_insertion_refines[OF empty_lists_rep this, of "\<lambda>x. 5 < x" 0] show ?thesis by simp
qed

section \<open>The scheduler\<close>

text \<open>C5: The table look-up in the ready group finds the number of its lowest bit, the highest priority that
  has a ready thread.\<close>

theorem bitmap_search_lowest:
  assumes "g \<noteq> 0"
  shows "highest_ready_priority g = (LEAST p. bit g p)"
proof (rule Least_equality[symmetric])
  show "bit g (highest_ready_priority g)" using highest_ready_priority_lowest[OF assms] by simp
  show "highest_ready_priority g \<le> p" if "bit g p" for p
    using highest_ready_priority_lowest[OF assms] that by (meson not_le)
qed

theorem bitmap_search_lowest_witness:
  "highest_ready_priority (0x80000500 :: u32) = (LEAST p. bit (0x80000500 :: u32) p)"
  by (rule bitmap_search_lowest) simp

text \<open>C1: With the scheduler unlocked, \<^verbatim>\<open>rt_schedule\<close> returns with the processor given to a ready thread of
  the highest priority that has one, the first of its queue, and changes nothing else.\<close>

theorem schedule_picks_highest:
  assumes "sched_inv k" "can_schedule k" "k_lock_nest k = 0"
  shows "\<exists>t p. rt_schedule k = Some (k\<lparr>k_current_priority := p, k_current := Some t\<rparr>) \<and>
     stat k t = RT_THREAD_READY \<and> t = hd (ready k (prio k t)) \<and>
     (\<forall>u. stat k u = RT_THREAD_READY \<longrightarrow> prio k t \<le> prio k u)"
  using rt_schedule_returns[OF assms(1,2)] assms(3)
  by (auto simp: returns_def switch_to_def next_to_run_def)

theorem schedule_picks_highest_witness:
  "\<exists>t p. rt_schedule demo = Some (demo\<lparr>k_current_priority := p, k_current := Some t\<rparr>) \<and>
     stat demo t = RT_THREAD_READY \<and> t = hd (ready demo (prio demo t)) \<and>
     (\<forall>u. stat demo u = RT_THREAD_READY \<longrightarrow> prio demo t \<le> prio demo u)"
  by (rule schedule_picks_highest[OF demo_sched_inv demo_can_schedule demo_fields(5)])

text \<open>Taking a ready or suspended thread off its list and making it ready at a new priority below 32
  keeps the ready queues, the ready group and the masks consistent, and no thread changes its state.\<close>

theorem change_priority_consistent:
  assumes "kernel_inv k" "p < 32"
  shows "returns (rt_thread_control t RT_THREAD_CTRL_CHANGE_PRIORITY p k) (\<lambda>k'. kernel_inv k' \<and> prio k' t = p \<and>
     (\<forall>u. stat k' u = stat k u \<and> (u \<noteq> t \<longrightarrow> prio k' u = prio k u)) \<and>
     (stat k t = RT_THREAD_READY \<longrightarrow> t = last (ready k' p)))"
  using reprioritised_kinv[OF assms, of t]
  by (simp add: change_priority_eq reprioritised_threads)
    (simp add: reprioritised_def set_priority_def st_append_def)

theorem change_priority_consistent_witness:
  "returns (rt_thread_control 2 RT_THREAD_CTRL_CHANGE_PRIORITY 20 demo) (\<lambda>k'. kernel_inv k' \<and> prio k' 2 = 20 \<and>
     (\<forall>u. stat k' u = stat demo u \<and> (u \<noteq> 2 \<longrightarrow> prio k' u = prio demo u)) \<and>
     (stat demo 2 = RT_THREAD_READY \<longrightarrow> 2 = last (ready k' 20)))"
  by (rule change_priority_consistent[OF demo_kernel_inv]) simp

text \<open>C10: \<^verbatim>\<open>rt_thread_yield\<close> of a thread that shares its priority moves it behind the others, so that the next
  of the queue runs: round robin.\<close>

theorem yield_round_robin:
  assumes "kernel_inv k" "runnable k" "k_lock_nest k = 0" "k_current k = Some t" "next_to_run k t"
    "ready k (prio k t) = t # u # us"
  shows "returns (rt_thread_yield k) (\<lambda>k'. kernel_inv k' \<and> ready k' (prio k t) = u # us @ [t] \<and> k_current k' = Some u)"
proof -
  let ?p = "prio k t"
  have d: "t \<notin> set (u # us)" using store_wf_distinct[OF sinv_wf[OF kinvD(1)[OF assms(1)]], of "Ready ?p"] assms(6) by simp
  have t: "stat k t = RT_THREAD_READY" using assms(5) by (simp add: next_to_run_def)
  have eq: "rt_thread_yield k = rt_schedule (rotated t k)"
    unfolding rt_thread_yield_def assms(4) rotated_def using t assms(6) by simp
  have r: "kinv (k_tick k) (HALF - 1) (rotated t k)" "runnable (rotated t k)"
    using rotated_kinv[OF assms(1), of t] assms(2,6) by (auto simp: runnable_def rotated_def)
  have q: "ready (rotated t k) ?p = u # us @ [t]" using d assms(6) by (simp add: rotated_def st_append_def)
  have "u \<in> set (ready k ?p)" using assms(6) by simp
  then have u: "stat k u = RT_THREAD_READY" "prio k u = ?p"
    using sched_inv_ready_iff[OF kinvD(1)[OF assms(1)]] by auto
  have nx: "next_to_run (rotated t k) u"
    using assms(5) u q by (simp add: next_to_run_def rotated_def)
  show ?thesis
    unfolding eq
  proof (rule returns_mono[OF schedule_returns[OF r]], elim conjE)
    fix k' assume k': "kinv (k_tick k) (HALF - 1) k'" "scheduled (rotated t k) k'"
    then have "k_current k' = Some u"
      using next_to_run_unique[OF kinvD(1)[OF r(1)] nx] assms(3) by (auto simp: scheduled_def rotated_def)
    then show "kernel_inv k' \<and> ready k' ?p = u # us @ [t] \<and> k_current k' = Some u"
      using k'(1) q scheduled_frame[OF k'(2)] by (simp add: rotated_def)
  qed
qed

definition demo_shared :: kernel where
  "demo_shared = demo\<lparr>k_threads := demo_threads(5 := demo_thread RT_THREAD_READY 10),
     k_tlists := demo_tlists(Ready 10 := [2, 5])\<rparr>"

lemma demo_shared_inv: "kernel_inv demo_shared"
proof (rule kinvI)
  have d5: "stat demo_shared 5 = RT_THREAD_READY" "prio demo_shared 5 = 10" "mask_ok (thread demo_shared 5)"
    "rt_scheduler_stack_check (thread demo_shared 5)"
    by (simp_all add: demo_shared_def demo_thread_def mask_ok_def rt_scheduler_stack_check_def)
  have same: "thread demo_shared t = demo_threads t" if "t \<noteq> 5" for t using that by (simp add: demo_shared_def)
  have timers: "same_timers demo_shared demo" by (simp add: same_timers_def demo_shared_def)
  note flags = same_timers_flags[OF timers] and tim = timers_same[OF timers]
  show "stacks_ok demo_shared"
    using d5(4) same by (auto simp: stacks_ok_def) (metis demo_stack)+
  show "tt_ok demo_shared t" for t
    using kinvD(3)[OF demo_kernel_inv, of t] d5 same[of t] flags tim(4)[of t]
    by (cases "t = 5") (auto simp: tt_ok_def demo_shared_def thread_timer_def demo_timers_def)
  show "user_timers_ok demo_shared" "timers_ok (k_tick demo_shared) demo_shared"
    "within (k_tick demo_shared) (HALF - 1) demo_shared"
    using kinvD[OF demo_kernel_inv] tim by (simp_all add: demo_shared_def)
  have "store_wf (k_tlists demo_shared)" by (auto simp: store_wf_def demo_shared_def demo_tlists_def)
  moreover have "group_ok demo_shared"
    by (auto simp: group_ok_def demo_shared_def demo_tlists_def bit_or_prio bit_prio_mask)
  moreover have "thread_ok demo_shared t" for t
  proof (cases "t = 5")
    case True
    then show ?thesis using d5 by (auto simp: thread_ok_def demo_shared_def demo_tlists_def split: if_splits)
  next
    case False
    have "t \<in> set (k_tlists demo_shared h) \<longleftrightarrow> t \<in> set (demo_tlists h)" for h
      using False by (auto simp: demo_shared_def demo_tlists_def)
    then show ?thesis using sinv_thread[OF demo_sched_inv, of t] same[OF False] by (simp add: thread_ok_def)
  qed
  ultimately show "sched_inv demo_shared" by (simp add: sinv_def)
qed

theorem yield_round_robin_witness:
  "returns (rt_thread_yield demo_shared)
     (\<lambda>k'. kernel_inv k' \<and> ready k' (prio demo_shared 2) = 5 # [] @ [2] \<and> k_current k' = Some 5)"
proof (rule yield_round_robin[OF demo_shared_inv])
  show "runnable demo_shared" by (auto simp: runnable_def demo_shared_def intro: exI[of _ 1])
  show "next_to_run demo_shared 2" by (auto simp: next_to_run_def demo_shared_def demo_tlists_def demo_thread_def)
qed (simp_all add: demo_shared_def demo_tlists_def)

section \<open>Objects\<close>

text \<open>An object can be found by its name as soon as it is initialised, by any string that agrees with the
  name in the first \<^verbatim>\<open>RT_NAME_MAX\<close> characters, and is not found once it is detached.\<close>

theorem object_find_by_name:
  assumes "sched_inv k" "can_schedule k" "k_interrupt_nest k = 0" "c < RT_Object_Class_Unknown"
    "visible name RT_NAME_MAX = visible name' RT_NAME_MAX"
  shows "returns (rt_object_find (Some name') c (rt_object_init x c name k)) (\<lambda>(r, k'). r = Some x) \<and>
     returns (rt_object_find (Some name') c (rt_object_detach x (rt_object_init x c name k))) (\<lambda>(r, k'). r \<noteq> Some x)"
proof -
  let ?k = "rt_object_init x c name k" let ?d = "rt_object_detach x ?k"
  have "can_schedule ?k" "can_schedule ?d" using assms(2) by (simp_all add: can_schedule_def stacks_ok_def)
  then have "returns (rt_object_find (Some name') c ?k) (\<lambda>(r, k'). r = find_name name' c ?k \<and> sched_inv k' \<and>
      k_threads k' = k_threads ?k \<and> k_tlists k' = k_tlists ?k)"
    "returns (rt_object_find (Some name') c ?d) (\<lambda>(r, k'). r = find_name name' c ?d \<and> sched_inv k' \<and>
      k_threads k' = k_threads ?d \<and> k_tlists k' = k_tlists ?d)"
    using rt_object_find_returns[of ?k c name'] rt_object_find_returns[of ?d c name'] assms(1,3,4) by simp_all
  then show ?thesis
    using find_name_init[OF assms(5)] find_name_detach by (auto elim!: returns_mono)
qed

theorem object_find_by_name_witness:
  "returns (rt_object_find (Some [115, 101, 109]) 1 (rt_object_init (OSem 7) 1 [115, 101, 109] demo)) (\<lambda>(r, k'). r = Some (OSem 7)) \<and>
   returns (rt_object_find (Some [115, 101, 109]) 1 (rt_object_detach (OSem 7) (rt_object_init (OSem 7) 1 [115, 101, 109] demo)))
     (\<lambda>(r, k'). r \<noteq> Some (OSem 7))"
  by (rule object_find_by_name[OF demo_sched_inv demo_can_schedule]) simp_all

section \<open>Timers and the tick\<close>

text \<open>C6: Starting a stopped timer with a period below half the range of the tick counter succeeds, puts it into
  the list for the tick that lies its period ahead, and keeps the list ordered by expiry although the
  counter wraps.\<close>

theorem timer_start_ordered:
  assumes "kernel_inv k" "\<not> activated k i" "tm_init_tick (k_timers k i) < RT_TICK_HALF" "may_start k i"
  shows "returns (rt_timer_start i k) (\<lambda>(r, k'). r = RT_EOK \<and> kernel_inv k' \<and> activated k' i \<and>
     set (k_timer_list k') = insert i (set (k_timer_list k)) \<and> sorted_by (delta (k_tick k) k') (k_timer_list k') \<and>
     tm_timeout_tick (k_timers k' i) = k_tick k + tm_init_tick (k_timers k i))"
  using started_kinv[OF assms] kinvD(5)[OF started_kinv[OF assms]]
  by (simp add: rt_timer_start_eq[OF assms(2,3)] started_timer[OF assms(2,3)] started_frame[OF assms(2,3)] timers_ok_def)

theorem timer_start_ordered_witness:
  "returns (rt_timer_start (Timer 60) demo) (\<lambda>(r, k'). r = RT_EOK \<and> kernel_inv k' \<and> activated k' (Timer 60) \<and>
     set (k_timer_list k') = insert (Timer 60) (set (k_timer_list demo)) \<and> sorted_by (delta (k_tick demo) k') (k_timer_list k') \<and>
     tm_timeout_tick (k_timers k' (Timer 60)) = k_tick demo + tm_init_tick (k_timers demo (Timer 60)))"
  by (rule timer_start_ordered[OF demo_kernel_inv]) (simp_all add: may_start_def demo_timers_def)

text \<open>C4: The tick interrupt returns: the loop over the expired timers ends, the kernel invariant holds again,
  the tick has advanced by one, and every timer still in the list expires in the future.  It is asked of
  the time-out functions of the application (\<open>ucb\<close>) that they return and keep the invariant.\<close>

theorem tick_keeps_invariant:
  assumes "kernel_inv k" "runnable k" "ucb_ok ucb"
  shows "returns (rt_tick_increase ucb k) (\<lambda>k'. kernel_inv k' \<and> runnable k' \<and> k_tick k' = k_tick k + 1 \<and>
     (\<forall>i\<in>set (k_timer_list k'). 0 < unat (tm_timeout_tick (k_timers k' i) - k_tick k')))"
  using tick_returns[OF assms] by (simp add: delta_def)

theorem tick_keeps_invariant_witness:
  "returns (rt_tick_increase (\<lambda>a p k. Some k) demo) (\<lambda>k'. kernel_inv k' \<and> runnable k' \<and> k_tick k' = k_tick demo + 1 \<and>
     (\<forall>i\<in>set (k_timer_list k'). 0 < unat (tm_timeout_tick (k_timers k' i) - k_tick k')))"
  by (rule tick_keeps_invariant[OF demo_kernel_inv demo_runnable ucb_ok_skip])

text \<open>C7: When the timer of a waiting thread expires, the thread is ready, with the error code of a time-out,
  off every wait queue, and its timer is stopped; the rest of the invariant holds.\<close>

theorem wait_times_out:
  assumes "core_inv k" "runnable k" "timers_inv b k" "k_timer_list k = Thread_Timer t # is" "delta b k (Thread_Timer t) \<le> 1"
  shows "returns (rt_timer_expire (timeout_call ucb) (Thread_Timer t) k) (\<lambda>k'. core_inv k' \<and> stat k' t = RT_THREAD_READY \<and>
     t_error (thread k' t) = -RT_ETIMEOUT \<and> \<not> activated k' (Thread_Timer t) \<and> k_timer_list k' = is)"
proof -
  let ?u = "unlink_timer (Thread_Timer t) k"
  have tt: "stat k t = RT_THREAD_SUSPEND" "thread_timer k t"
    using assms(1,4) by (auto simp: core_inv_def tt_ok_def)
  have call: "timeout_call ucb (tm_timeout_func (k_timers k (Thread_Timer t))) (tm_parameter (k_timers k (Thread_Timer t))) ?u
      = rt_thread_timeout t ?u"
    using tt(2) by (simp add: timeout_call_def thread_timer_def)
  have "returns (rt_thread_timeout t ?u) (scheduled (timed_out t ?u))"
    using core_unlink[OF assms(1), of "Thread_Timer t"] assms(2) tt(1)
    by (intro thread_timeout_returns) (auto simp: core_inv_def runnable_def)
  then show ?thesis
    unfolding rt_timer_expire_def Let_def unlink_timer_frame call returns_bind
  proof (rule returns_mono)
    fix k' assume "scheduled (timed_out t ?u) k'"
    then obtain p c where k': "k' = switch_to p (Some c) (timed_out t ?u)" by (auto simp: scheduled_def)
    have np: "\<not> periodic k' (Thread_Timer t)"
      using tt(2) same_timers_flags(2)[of k' ?u] by (simp add: thread_timer_def k' same_timers_def)
    have "distinct (k_timer_list k)" using assms(3) by (simp add: timers_inv_def timers_ok_def)
    then show "returns (if periodic k' (Thread_Timer t) \<and> activated k' (Thread_Timer t)
        then do { (_, k3) \<leftarrow> rt_timer_start (Thread_Timer t) (clear_flag (Thread_Timer t) RT_TIMER_FLAG_ACTIVATED k'); Some k3 }
        else Some (clear_flag (Thread_Timer t) RT_TIMER_FLAG_ACTIVATED k'))
      (\<lambda>k'. core_inv k' \<and> stat k' t = RT_THREAD_READY \<and> t_error (thread k' t) = -RT_ETIMEOUT \<and>
        \<not> activated k' (Thread_Timer t) \<and> k_timer_list k' = is)"
      using np timed_out_core[OF assms(1) tt(1), of p "Some c"] assms(4) by (simp add: k')
  qed
qed

theorem wait_times_out_witness:
  "returns (rt_timer_expire (timeout_call (\<lambda>a p k. Some k)) (Thread_Timer 3) (demo\<lparr>k_tick := 5\<rparr>))
     (\<lambda>k'. core_inv k' \<and> stat k' 3 = RT_THREAD_READY \<and>
     t_error (thread k' 3) = -RT_ETIMEOUT \<and> \<not> activated k' (Thread_Timer 3) \<and> k_timer_list k' = [Timer 50])"
proof (rule wait_times_out)
  show "core_inv (demo\<lparr>k_tick := 5\<rparr>)"
  proof -
    have "kinv (k_tick demo) (HALF - 1) (demo\<lparr>k_tick := 5\<rparr>)" using demo_kernel_inv by (simp del: demo_fields)
    then show ?thesis by (simp add: kinv_def)
  qed
  show "runnable (demo\<lparr>k_tick := 5\<rparr>)" using demo_runnable by (simp add: runnable_def)
  show "timers_inv 4 (demo\<lparr>k_tick := 5\<rparr>)"
    by (simp add: timers_inv_def timers_ok_def within_def delta_def demo_timers_def activated_def demo_objects_def)
qed (simp_all add: delta_def demo_timers_def)

section \<open>Threads\<close>

text \<open>A thread initialised with a priority below 32 and a stack that holds more than one context frame can be
  started: it is ready at that priority, the invariant holds and the scheduler has run if the system
  was running.\<close>

theorem thread_init_startup:
  assumes "kernel_inv k" "unused k t" "stack_start \<noteq> 0" "priority < 32"
    "64 < unat (ucast stack_size :: u16)" "unat stack_start + unat (ucast stack_size :: u16) < 2 ^ 32"
  shows "returns (do { k1 \<leftarrow> rt_thread_init texit t name entry parameter stack_start stack_size priority tick k;
                       rt_thread_startup t k1 })
     (\<lambda>k'. kernel_inv k' \<and> stat k' t = RT_THREAD_READY \<and> prio k' t = priority \<and> t \<in> set (ready k' priority) \<and>
        (k_current k \<noteq> None \<longrightarrow> k_lock_nest k' = 0 \<longrightarrow> (\<exists>c. k_current k' = Some c \<and> next_to_run k' c)))"
proof -
  let ?k1 = "inited texit t name entry parameter stack_start stack_size priority tick k"
  note f = inited_fields[OF assms(3,4), where k = k and t = t and texit = texit and name = name and e = entry
      and pa = parameter and stack_size = stack_size and tick = tick]
  have k1: "kinv (k_tick k) (HALF - 1) ?k1" by (rule inited_kinv[OF assms(1-4)])
  have "rt_scheduler_stack_check (thread ?k1 t)"
    using new_stack_check[OF assms(5,6), of "thread ?k1 t"] f(4-6) by (simp add: rt_scheduler_stack_check_def)
  from startup_returns[OF k1 f(1) _ this] have "returns (rt_thread_startup t ?k1) (\<lambda>k'. kinv (k_tick k) (HALF - 1) k' \<and>
      stat k' t = RT_THREAD_READY \<and> prio k' t = priority \<and>
      (if k_current k = None then k_current k' = None else scheduled (started_up t ?k1) k') \<and> k_tick k' = k_tick k)"
    using f(2,11) assms(4) startup_tick[OF f(1)] f(10) by (auto simp: returns_def)
  then show ?thesis
    unfolding rt_thread_init_eq[OF assms(3,4)] bind.bind_lunit
  proof (rule returns_mono, elim conjE)
    fix k' assume k': "kinv (k_tick k) (HALF - 1) k'" "stat k' t = RT_THREAD_READY" "prio k' t = priority"
      "if k_current k = None then k_current k' = None else scheduled (started_up t ?k1) k'" "k_tick k' = k_tick k"
    have "t \<in> set (ready k' priority)" using sched_inv_ready_iff[OF kinvD(1)[OF k'(1)]] k'(2,3) by blast
    moreover have "\<exists>c. k_current k' = Some c \<and> next_to_run k' c" if "k_current k \<noteq> None" "k_lock_nest k' = 0"
      using k'(4) that by (auto simp: scheduled_def next_to_run_def)
    ultimately show "kernel_inv k' \<and> stat k' t = RT_THREAD_READY \<and> prio k' t = priority \<and> t \<in> set (ready k' priority) \<and>
        (k_current k \<noteq> None \<longrightarrow> k_lock_nest k' = 0 \<longrightarrow> (\<exists>c. k_current k' = Some c \<and> next_to_run k' c))"
      using k' by simp
  qed
qed

theorem thread_init_startup_witness:
  "returns (do { k1 \<leftarrow> rt_thread_init 0 9 [97] 1 2 0x10001000 512 3 10 demo; rt_thread_startup 9 k1 })
     (\<lambda>k'. kernel_inv k' \<and> stat k' 9 = RT_THREAD_READY \<and> prio k' 9 = 3 \<and> 9 \<in> set (ready k' 3) \<and>
        (k_current demo \<noteq> None \<longrightarrow> k_lock_nest k' = 0 \<longrightarrow> (\<exists>c. k_current k' = Some c \<and> next_to_run k' c)))"
proof (rule thread_init_startup[OF demo_kernel_inv])
  show "unused demo 9" by (auto simp: unused_def unlinked_def demo_tlists_def)
qed simp_all

text \<open>\<^verbatim>\<open>rt_thread_sleep\<close> takes the caller off the processor: it is suspended with its timer set for the tick
  asked for, the invariant holds, and the thread that should run does.\<close>

theorem sleep_blocks_caller:
  assumes "kernel_inv k" "may_block t k" "tick < RT_TICK_HALF"
  shows "returns (rt_thread_sleep tick k) (\<lambda>(r, k'). r = Blocked \<and> kernel_inv k' \<and> stat k' t = RT_THREAD_SUSPEND \<and>
     Thread_Timer t \<in> set (k_timer_list k') \<and> tm_timeout_tick (k_timers k' (Thread_Timer t)) = k_tick k + tick \<and>
     (\<exists>c. k_current k' = Some c \<and> c \<noteq> t \<and> next_to_run k' c))"
proof -
  obtain u where "k_current k = Some t" "stat k t = RT_THREAD_READY" "stat k u = RT_THREAD_READY" "u \<noteq> t" "k_lock_nest k = 0"
    using assms(2) by (auto simp: may_block_def)
  from sleep_returns[OF assms(1) this(1-4) assms(3) this(5)] show ?thesis by (auto elim!: returns_mono)
qed

theorem sleep_blocks_caller_witness:
  "returns (rt_thread_sleep 100 demo) (\<lambda>(r, k'). r = Blocked \<and> kernel_inv k' \<and> stat k' 2 = RT_THREAD_SUSPEND \<and>
     Thread_Timer 2 \<in> set (k_timer_list k') \<and> tm_timeout_tick (k_timers k' (Thread_Timer 2)) = k_tick demo + 100 \<and>
     (\<exists>c. k_current k' = Some c \<and> c \<noteq> 2 \<and> next_to_run k' c))"
  by (rule sleep_blocks_caller[OF demo_kernel_inv demo_may_block]) simp

text \<open>C11: A thread that ends by \<^verbatim>\<open>rt_thread_exit\<close> is closed, out of the ready queues and off the timer list, and
  another thread runs; it is on the defunct list just when its object is dynamic or has a cleanup
  function.\<close>

theorem thread_exit_closes:
  assumes "kernel_inv k" "may_block t k"
  shows "returns (rt_thread_exit k) (\<lambda>k'. kernel_inv k' \<and> stat k' t = RT_THREAD_CLOSE \<and>
     Thread_Timer t \<notin> set (k_timer_list k') \<and> (\<forall>p. t \<notin> set (ready k' p)) \<and>
     (t \<in> set (k_tlists k' Defunct) \<longleftrightarrow> \<not> (rt_object_is_systemobject (OThread t) k \<and> t_cleanup (thread k t) = None)) \<and>
     (\<exists>c. k_current k' = Some c \<and> c \<noteq> t \<and> next_to_run k' c))"
proof -
  obtain u where t: "k_current k = Some t" "stat k t = RT_THREAD_READY" and u: "stat k u = RT_THREAD_READY" "u \<noteq> t"
    and lock: "k_lock_nest k = 0" using assms(2) by (auto simp: may_block_def)
  have e: "stat (exited t k) t = RT_THREAD_CLOSE" "k_lock_nest (exited t k) = 0"
    "Thread_Timer t \<notin> set (k_timer_list (exited t k))" using lock by (simp_all add: exited_def Let_def)
  have df: "t \<in> set (k_tlists (exited t k) Defunct) \<longleftrightarrow> \<not> (rt_object_is_systemobject (OThread t) k \<and> t_cleanup (thread k t) = None)"
    by (simp add: exited_def Let_def rt_object_is_systemobject_def st_push_def)
  show ?thesis
  proof (rule returns_mono[OF exit_returns[OF assms(1) t u]], elim conjE)
    fix k' assume k': "kinv (k_tick k) (HALF - 1) k'" "scheduled (exited t k) k'"
    note f = scheduled_frame[OF k'(2)] and a = scheduled_away[OF k'(2), of t]
    have "stat k' t = RT_THREAD_CLOSE" using e by (simp add: f)
    then have "t \<notin> set (ready k' p)" for p using sched_inv_ready_iff[OF kinvD(1)[OF k'(1)]] by simp
    moreover have "next_to_run k' c = next_to_run (exited t k) c" for c by (simp add: next_to_run_def f del: exited_threads)
    ultimately show "kernel_inv k' \<and> stat k' t = RT_THREAD_CLOSE \<and> Thread_Timer t \<notin> set (k_timer_list k') \<and>
       (\<forall>p. t \<notin> set (ready k' p)) \<and>
       (t \<in> set (k_tlists k' Defunct) \<longleftrightarrow> \<not> (rt_object_is_systemobject (OThread t) k \<and> t_cleanup (thread k t) = None)) \<and>
       (\<exists>c. k_current k' = Some c \<and> c \<noteq> t \<and> next_to_run k' c)"
      using k'(1) e df a by (auto simp: f simp del: exited_threads(1))
  qed
qed

theorem thread_exit_closes_witness:
  "returns (rt_thread_exit demo) (\<lambda>k'. kernel_inv k' \<and> stat k' 2 = RT_THREAD_CLOSE \<and>
     Thread_Timer 2 \<notin> set (k_timer_list k') \<and> (\<forall>p. 2 \<notin> set (ready k' p)) \<and>
     (2 \<in> set (k_tlists k' Defunct) \<longleftrightarrow> \<not> (rt_object_is_systemobject (OThread 2) demo \<and> t_cleanup (thread demo 2) = None)) \<and>
     (\<exists>c. k_current k' = Some c \<and> c \<noteq> 2 \<and> next_to_run k' c))"
  by (rule thread_exit_closes[OF demo_kernel_inv demo_may_block])

end
