(* ===== verification/Ipc_List.thy ===== *)
theory Ipc_List
  imports Demo_State
begin

unbundle bit_operations_syntax

text \<open>
  The wait queues that all IPC objects share: the inline functions at the head of \<^verbatim>\<open>src/ipc.c\<close>, and the
  sequence of calls by which a blocking operation puts its caller to sleep.
\<close>

section \<open>The code\<close>

abbreviation RT_IPC_FLAG_FIFO :: u8 where "RT_IPC_FLAG_FIFO \<equiv> 0"
abbreviation RT_IPC_FLAG_PRIO :: u8 where "RT_IPC_FLAG_PRIO \<equiv> 1"
abbreviation RT_IPC_CMD_RESET :: u8 where "RT_IPC_CMD_RESET \<equiv> 1"
abbreviation RT_WAITING_FOREVER :: u32 where "RT_WAITING_FOREVER \<equiv> - 1"

definition rt_ipc_object_init :: "thead \<Rightarrow> kernel \<Rightarrow> kernel" where
  "rt_ipc_object_init h k = upd_tlists (\<lambda>L. L(h := [])) k"

definition rt_ipc_list_suspend :: "thead \<Rightarrow> tid \<Rightarrow> u8 \<Rightarrow> kernel \<Rightarrow> kernel" where
  "rt_ipc_list_suspend h t flag k =
     (let k1 = snd (rt_thread_suspend t k)
      in if flag = RT_IPC_FLAG_FIFO then upd_tlists (st_append h t) k1
         else if flag = RT_IPC_FLAG_PRIO
         then upd_tlists (st_insert_by (\<lambda>s. prio k1 t < prio k1 s) h t) k1
         else k1)"

definition rt_ipc_list_resume :: "thead \<Rightarrow> kernel \<Rightarrow> kernel option" where
  "rt_ipc_list_resume h k =
     (case k_tlists k h of [] \<Rightarrow> None | t # _ \<Rightarrow> Some (snd (rt_thread_resume t k)))"

partial_function (option) rt_ipc_list_resume_all :: "thead \<Rightarrow> kernel \<Rightarrow> kernel option" where
  "rt_ipc_list_resume_all h k =
     (case k_tlists k h of
        [] \<Rightarrow> Some k
      | t # _ \<Rightarrow> rt_ipc_list_resume_all h
                   (snd (rt_thread_resume t (upd_thread t (\<lambda>th. th\<lparr>t_error := -RT_ERROR\<rparr>) k))))"

text \<open>\<^verbatim>\<open>rt_ipc_list_suspend\<close>, the start of the timer when \<^verbatim>\<open>time > 0\<close>, and \<^verbatim>\<open>rt_schedule\<close>: every
  blocking operation runs these in a row.  The time is a signed number of ticks.\<close>

definition block_rest :: "tid \<Rightarrow> u32 \<Rightarrow> kernel \<Rightarrow> kernel option" where
  "block_rest t time k =
     do { k1 \<leftarrow> (if 0 < sint time then arm_timer t time k else Some k);
          rt_schedule k1 }"

definition ipc_block :: "thead \<Rightarrow> tid \<Rightarrow> u8 \<Rightarrow> u32 \<Rightarrow> kernel \<Rightarrow> kernel option" where
  "ipc_block h t flag time k = block_rest t time (rt_ipc_list_suspend h t flag k)"

section \<open>Suspending on a queue\<close>

definition wait_queue :: "thead \<Rightarrow> bool" where
  "wait_queue h \<longleftrightarrow> (case h of Ready _ \<Rightarrow> False | Defunct \<Rightarrow> False | _ \<Rightarrow> True)"

lemma wait_queue_simps [simp]:
  "wait_queue (Sem_Q s)" "wait_queue (Mutex_Q s)" "wait_queue (Event_Q s)" "wait_queue (Mb_Recv_Q s)"
  "wait_queue (Mb_Send_Q s)" "wait_queue (Mq_Q s)" "wait_queue (Mp_Q s)" "\<not> wait_queue (Ready p)" "\<not> wait_queue Defunct"
  "wait_queue (Comp_Q s)" "wait_queue (Dq_Push_Q s)" "wait_queue (Dq_Pop_Q s)" "wait_queue (Pipe_Read_Q s)" "wait_queue (Pipe_Write_Q s)"
  by (simp_all add: wait_queue_def)

lemma wait_queue_fits: "wait_queue h \<Longrightarrow> stat_fits h s \<longleftrightarrow> s = RT_THREAD_SUSPEND"
  by (cases h) (auto simp: wait_queue_def)

lemma waiter_suspended: "sched_inv k \<Longrightarrow> wait_queue h \<Longrightarrow> t \<in> set (k_tlists k h) \<Longrightarrow> stat k t = RT_THREAD_SUSPEND"
  using sinv_thread[of UNIV k t] wait_queue_fits by (auto simp: thread_ok_def)

lemma ready_not_waiting: "sched_inv k \<Longrightarrow> wait_queue h \<Longrightarrow> stat k t = RT_THREAD_READY \<Longrightarrow> t \<notin> set (k_tlists k h)"
  using waiter_suspended by fastforce

definition flag_ok :: "u8 \<Rightarrow> bool" where
  "flag_ok flag \<longleftrightarrow> flag = RT_IPC_FLAG_FIFO \<or> flag = RT_IPC_FLAG_PRIO"

lemma flag_ok_simps [simp]: "flag_ok RT_IPC_FLAG_FIFO" "flag_ok RT_IPC_FLAG_PRIO"
  by (simp_all add: flag_ok_def)

text \<open>Where the new waiter goes: behind all others, or behind those of its own or a higher priority.\<close>

definition enqueue :: "u8 \<Rightarrow> (tid \<Rightarrow> u8) \<Rightarrow> tid \<Rightarrow> tid list \<Rightarrow> tid list" where
  "enqueue flag pr t ts = (if flag = RT_IPC_FLAG_PRIO then insert_by (\<lambda>s. pr t < pr s) t ts else ts @ [t])"

lemma set_enqueue [simp]: "set (enqueue flag pr t ts) = insert t (set ts)"
  by (auto simp: enqueue_def)

lemma distinct_enqueue [simp]: "distinct (enqueue flag pr t ts) \<longleftrightarrow> t \<notin> set ts \<and> distinct ts"
  by (auto simp: enqueue_def)

lemma enqueue_sorted: "sorted_by pr ts \<Longrightarrow> sorted_by pr (enqueue RT_IPC_FLAG_PRIO pr t ts)"
proof (induction ts)
  case (Cons s ts)
  then show ?case by (auto simp: enqueue_def)
qed (simp add: enqueue_def)

text \<open>The state after \<^verbatim>\<open>rt_thread_suspend\<close> and the insertion into queue \<open>h\<close>, which then is \<open>q\<close>.\<close>

definition queued :: "thead \<Rightarrow> tid \<Rightarrow> tid list \<Rightarrow> kernel \<Rightarrow> kernel" where
  "queued h t q k = (let s = snd (rt_thread_suspend t k) in s\<lparr>k_tlists := (k_tlists s)(h := q)\<rparr>)"

lemma queued_fields:
  assumes "stat k t = RT_THREAD_READY"
  shows "k_threads (queued h t q k) = (k_threads k)(t := (k_threads k t)\<lparr>t_stat := RT_THREAD_SUSPEND\<rparr>)"
    "k_tlists (queued h t q k) = (st_remove t (k_tlists k))(h := q)"
  using assms by (simp_all add: queued_def Let_def suspend_threads rt_thread_suspend_def del: st_remove_apply)

lemma queued_frame [simp]:
  "k_current (queued h t q k) = k_current k" "k_current_priority (queued h t q k) = k_current_priority k"
  "k_lock_nest (queued h t q k) = k_lock_nest k" "k_interrupt_nest (queued h t q k) = k_interrupt_nest k"
  "k_tick (queued h t q k) = k_tick k" "k_timers (queued h t q k) = k_timers k"
  "k_timer_list (queued h t q k) = k_timer_list k" "k_objects (queued h t q k) = k_objects k"
  "k_container (queued h t q k) = k_container k" "k_sems (queued h t q k) = k_sems k"
  "k_mutexes (queued h t q k) = k_mutexes k" "k_events (queued h t q k) = k_events k"
  "k_mailboxes (queued h t q k) = k_mailboxes k" "k_mqs (queued h t q k) = k_mqs k"
  "k_mempools (queued h t q k) = k_mempools k" "k_words (queued h t q k) = k_words k"
  "k_heap (queued h t q k) = k_heap k"
  by (simp_all add: queued_def Let_def)

text \<open>A place in the queue of a waiting thread: its members are the old ones and the newcomer.\<close>

definition joins :: "tid \<Rightarrow> tid list \<Rightarrow> tid list \<Rightarrow> bool" where
  "joins t ts q \<longleftrightarrow> set q = insert t (set ts) \<and> distinct q"

lemma queued_sched:
  assumes inv: "sched_inv k" and h: "wait_queue h" and t: "stat k t = RT_THREAD_READY" and q: "joins t (k_tlists k h) q"
  shows "sched_inv (queued h t q k)"
proof -
  let ?s = "snd (rt_thread_suspend t k)"
  note hole = suspend_sched(1)[OF inv t] and mask = suspend_sched(3)[OF inv t]
  have st: "stat ?s t = RT_THREAD_SUSPEND" using t by (simp add: suspend_threads)
  have L: "k_tlists ?s = st_remove t (k_tlists k)" using t by (simp add: rt_thread_suspend_def del: st_remove_apply)
  have nin: "t \<notin> set (k_tlists k h)" by (rule ready_not_waiting[OF inv h t])
  show ?thesis
    unfolding queued_def Let_def
  proof (rule sinv_fill_queue[OF hole])
    show "stat_fits h (stat ?s t)" using h st by (simp add: wait_queue_fits)
    show "\<forall>p. h \<noteq> Ready p" using h by auto
    show "set q = insert t (set (k_tlists ?s h))" "distinct q" using nin q by (auto simp: L joins_def)
  qed (use mask in simp)
qed

lemma queued_kinv:
  assumes inv: "kinv b B k" and h: "wait_queue h" and t: "stat k t = RT_THREAD_READY" and q: "joins t (k_tlists k h) q"
  shows "kinv b B (queued h t q k)"
proof -
  let ?k = "queued h t q k" and ?s = "snd (rt_thread_suspend t k)"
  have s: "kinv b B ?s" by (rule suspend_kinv[OF inv])
  have same: "same_timers ?k ?s" by (simp add: same_timers_def)
  have thr: "k_threads ?k = k_threads ?s" by (simp add: queued_def Let_def)
  have "sched_inv ?k" by (rule queued_sched[OF kinvD(1)[OF inv] h t q])
  moreover have "stacks_ok ?k" using kinvD(2)[OF s] by (simp add: stacks_ok_def thr)
  moreover have "tt_ok ?k u" for u
    using kinvD(3)[OF s, of u] same_timers_flags[OF same] timers_same(4)[OF same] by (simp add: tt_ok_def thr)
  ultimately show ?thesis using kinvD[OF s] timers_same[OF same] by (simp add: kinv_def core_inv_def)
qed

lemma list_suspend_queued:
  assumes inv: "sched_inv k" and h: "wait_queue h" and t: "stat k t = RT_THREAD_READY" and flag: "flag_ok flag"
  shows "rt_ipc_list_suspend h t flag k = queued h t (enqueue flag (t_current_priority \<circ> k_threads k) t (k_tlists k h)) k"
    "joins t (k_tlists k h) (enqueue flag (t_current_priority \<circ> k_threads k) t (k_tlists k h))"
proof -
  have f: "flag = 0 \<or> flag = 1" using flag by (simp add: flag_ok_def)
  have p: "prio (snd (rt_thread_suspend t k)) u = prio k u" for u by (simp add: suspend_threads)
  have nin: "t \<notin> set (k_tlists k h)" by (rule ready_not_waiting[OF inv h t])
  then have r: "k_tlists (snd (rt_thread_suspend t k)) h = k_tlists k h" using t by (simp add: rt_thread_suspend_def)
  show "rt_ipc_list_suspend h t flag k = queued h t (enqueue flag (t_current_priority \<circ> k_threads k) t (k_tlists k h)) k"
    using f by (auto simp: rt_ipc_list_suspend_def queued_def Let_def upd_tlists_def st_append_def st_insert_by_def
        enqueue_def comp_def p r simp del: suspend_frame)
  show "joins t (k_tlists k h) (enqueue flag (t_current_priority \<circ> k_threads k) t (k_tlists k h))"
    using nin store_wf_distinct[OF sinv_wf[OF inv]] by (simp add: joins_def)
qed

section \<open>Blocking\<close>

text \<open>A time-out the timers accept.\<close>

definition time_ok :: "u32 \<Rightarrow> bool" where
  "time_ok time \<longleftrightarrow> (0 < sint time \<longrightarrow> time < RT_TICK_HALF)"

text \<open>The part of the state that scheduling does not touch.\<close>

definition same_objs :: "kernel \<Rightarrow> kernel \<Rightarrow> bool" where
  "same_objs k' k \<longleftrightarrow>
     k_sems k' = k_sems k \<and> k_mutexes k' = k_mutexes k \<and> k_events k' = k_events k \<and> k_mailboxes k' = k_mailboxes k \<and>
     k_mqs k' = k_mqs k \<and> k_mempools k' = k_mempools k \<and> k_words k' = k_words k \<and> k_heap k' = k_heap k \<and>
     k_container k' = k_container k \<and> k_tick k' = k_tick k \<and> k_lock_nest k' = k_lock_nest k \<and>
     k_interrupt_nest k' = k_interrupt_nest k \<and>
     (\<forall>x. (\<forall>i. x \<noteq> OTimer i) \<longrightarrow> k_objects k' x = k_objects k x)"

lemma same_objs_refl [simp]: "same_objs k k"
  by (simp add: same_objs_def)

lemma same_objs_trans: "same_objs k3 k2 \<Longrightarrow> same_objs k2 k1 \<Longrightarrow> same_objs k3 k1"
  by (simp add: same_objs_def)

lemma scheduled_objs: "scheduled k k' \<Longrightarrow> same_objs k' k"
  by (simp add: same_objs_def scheduled_frame)

text \<open>What the caller leaves behind: it waits on queue \<open>h\<close>, where its priority or its arrival puts it, with
  its timer set when a time-out was given; the other queues, the other threads and all objects are as
  they were, and the thread that should run is running.\<close>

definition waiting_at :: "thead \<Rightarrow> tid \<Rightarrow> tid list \<Rightarrow> u32 \<Rightarrow> kernel \<Rightarrow> kernel \<Rightarrow> bool" where
  "waiting_at h t q time k k' \<longleftrightarrow>
     k_threads k' = (k_threads k)(t := (k_threads k t)\<lparr>t_stat := RT_THREAD_SUSPEND\<rparr>) \<and>
     k_tlists k' = (st_remove t (k_tlists k))(h := q) \<and>
     (0 < sint time \<longrightarrow> Thread_Timer t \<in> set (k_timer_list k') \<and>
        tm_timeout_tick (k_timers k' (Thread_Timer t)) = k_tick k + time) \<and>
     (sint time \<le> 0 \<longrightarrow> Thread_Timer t \<notin> set (k_timer_list k')) \<and>
     same_objs k' k \<and> (\<exists>c. k_current k' = Some c \<and> c \<noteq> t \<and> next_to_run k' c)"

definition waiting :: "thead \<Rightarrow> tid \<Rightarrow> u8 \<Rightarrow> u32 \<Rightarrow> kernel \<Rightarrow> kernel \<Rightarrow> bool" where
  "waiting h t flag time k k' \<longleftrightarrow>
     waiting_at h t (enqueue flag (t_current_priority \<circ> k_threads k) t (k_tlists k h)) time k k'"

lemmas waiting_defs = waiting_def waiting_at_def

lemma waiting_away: "waiting h t flag time k k' \<Longrightarrow> k_current k' \<noteq> Some t"
  by (auto simp: waiting_defs)

lemma block_rest_returns:
  assumes inv: "kernel_inv k" and h: "wait_queue h" and blk: "may_block t k" and qs: "joins t (k_tlists k h) qs"
    and time: "time_ok time"
  shows "returns (block_rest t time (queued h t qs k)) (\<lambda>k'. kernel_inv k' \<and> runnable k' \<and> waiting_at h t qs time k k')"
proof -
  let ?q = "queued h t qs k"
  from blk obtain u where c: "k_current k = Some t" and t: "stat k t = RT_THREAD_READY" and u: "u \<noteq> t"
    "stat k u = RT_THREAD_READY" and lock: "k_lock_nest k = 0" by (auto simp: may_block_def)
  have q: "kernel_inv ?q" using queued_kinv[OF inv h t qs] by simp
  note thr = queued_fields(1)[OF t, of h qs]
  have na: "\<not> activated k (Thread_Timer t)" using kinvD(3)[OF inv, of t] t by (simp add: tt_ok_def)
  then have naq: "\<not> activated ?q (Thread_Timer t)" by (simp add: activated_def)
  let ?w = "if 0 < sint time then armed t time ?q else ?q"
  have arm: "(if 0 < sint time then arm_timer t time ?q else Some ?q) = Some ?w"
    using naq time arm_timer_eq[of ?q t time] by (simp add: time_ok_def)
  have w: "kernel_inv ?w"
    using q armed_kinv[OF q naq] time thr armed_frame[OF naq] by (simp add: time_ok_def)
  have fr: "k_threads ?w = k_threads ?q" "k_tlists ?w = k_tlists ?q" "k_current ?w = k_current k" "k_lock_nest ?w = k_lock_nest k"
    "k_tick ?w = k_tick k"
    using time armed_frame[OF naq] by (simp_all add: time_ok_def)
  have ob: "same_objs ?w k"
    using time armed_frame[OF naq] armed_objects[OF naq] by (auto simp: time_ok_def same_objs_def)
  have tm: "0 < sint time \<longrightarrow> Thread_Timer t \<in> set (k_timer_list ?w) \<and>
        tm_timeout_tick (k_timers ?w (Thread_Timer t)) = k_tick k + time"
    "sint time \<le> 0 \<longrightarrow> Thread_Timer t \<notin> set (k_timer_list ?w)"
    using time armed_frame[OF naq] na kinvD(5)[OF inv] by (auto simp: time_ok_def timers_ok_def)
  have run: "runnable ?w" using u c by (auto simp: runnable_def fr thr intro!: exI[of _ u])
  have st: "stat ?w t \<noteq> RT_THREAD_READY" "k_lock_nest ?w = 0" by (simp_all add: fr thr lock)
  have "returns (rt_schedule ?w) (\<lambda>k'. kernel_inv k' \<and> runnable k' \<and> waiting_at h t qs time k k')"
  proof (rule returns_mono[OF schedule_returns[OF w run]], elim conjE)
    fix k' assume k': "kinv (k_tick ?w) (HALF - 1) k'" "runnable k'" "scheduled ?w k'"
    note f = scheduled_frame[OF k'(3)] and aw = scheduled_away[OF k'(3) st]
    have "next_to_run k' d = next_to_run ?w d" for d by (simp add: next_to_run_def f)
    then have "waiting_at h t qs time k k'"
      using aw tm same_objs_trans[OF scheduled_objs[OF k'(3)] ob]
      by (auto simp: waiting_at_def f fr thr queued_fields(2)[OF t])
    then show "kernel_inv k' \<and> runnable k' \<and> waiting_at h t qs time k k'" using k' by (simp add: f fr)
  qed
  then show ?thesis unfolding block_rest_def Let_def by (simp add: arm)
qed

lemma ipc_block_returns:
  assumes "kernel_inv k" "wait_queue h" "may_block t k" "flag_ok flag" "time_ok time"
  shows "returns (ipc_block h t flag time k) (\<lambda>k'. kernel_inv k' \<and> runnable k' \<and> waiting h t flag time k k')"
proof -
  have t: "stat k t = RT_THREAD_READY" using assms(3) by (auto simp: may_block_def)
  note q = list_suspend_queued[OF kinvD(1)[OF assms(1)] assms(2) t assms(4)]
  show ?thesis
    unfolding ipc_block_def q(1) waiting_def by (rule block_rest_returns[OF assms(1-3) q(2) assms(5)])
qed

section \<open>Resuming\<close>

lemma kinv_error [simp]: "kinv b B (upd_thread t (\<lambda>th. th\<lparr>t_error := f th\<rparr>) k) \<longleftrightarrow> kinv b B k"
  by (rule kinv_cong) (simp_all add: same_threads_def same_timers_def)

lemma runnable_error [simp]: "runnable (upd_thread t (\<lambda>th. th\<lparr>t_error := f th\<rparr>) k) \<longleftrightarrow> runnable k"
proof -
  have "stat (upd_thread t (\<lambda>th. th\<lparr>t_error := f th\<rparr>) k) u = stat k u" for u by simp
  then show ?thesis by (simp add: runnable_def del: upd_thread_frame(20))
qed

lemma same_objs_error [simp]: "same_objs (upd_thread t f k) k"
  by (simp add: same_objs_def)

lemma same_objs_resume [simp]: "same_objs (snd (rt_thread_resume t k)) k"
  by (cases "stat k t = RT_THREAD_SUSPEND")
    (simp_all add: same_objs_def resume_eq, simp_all add: rt_thread_resume_def)

text \<open>The head of a wait queue becomes ready, behind the others of its priority; no other queue and no
  other thread changes.\<close>

lemma list_resume_returns:
  assumes inv: "kinv b B k" and h: "wait_queue h" and q: "k_tlists k h = t # ts"
  defines "k' \<equiv> snd (rt_thread_resume t k)"
  shows "rt_ipc_list_resume h k = Some k'" "kinv b B k'" "stat k' t = RT_THREAD_READY"
    "k_threads k' = (k_threads k)(t := (k_threads k t)\<lparr>t_stat := RT_THREAD_READY\<rparr>)"
    "k_tlists k' h = ts" "\<And>h'. wait_queue h' \<Longrightarrow> h' \<noteq> h \<Longrightarrow> k_tlists k' h' = k_tlists k h'"
    "same_objs k' k" "k_current k' = k_current k"
proof -
  have st: "stat k t = RT_THREAD_SUSPEND"
    using waiter_suspended[OF kinvD(1)[OF inv] h, of t] q by simp
  note r = resume_eq[OF st]
  have wf: "store_wf (k_tlists k)" by (rule sinv_wf[OF kinvD(1)[OF inv]])
  show "rt_ipc_list_resume h k = Some k'" by (simp add: rt_ipc_list_resume_def q k'_def)
  show "kinv b B k'" unfolding k'_def by (rule resume_kinv[OF inv])
  show "k_threads k' = (k_threads k)(t := (k_threads k t)\<lparr>t_stat := RT_THREAD_READY\<rparr>)" by (simp add: k'_def r)
  then show "stat k' t = RT_THREAD_READY" by simp
  have nin: "t \<notin> set ts" using store_wf_distinct[OF wf, of h] q by simp
  show "k_tlists k' h = ts" using h q nin by (auto simp: k'_def r st_append_def)
  show "k_tlists k' h' = k_tlists k h'" if "wait_queue h'" "h' \<noteq> h" for h'
  proof -
    have "t \<notin> set (k_tlists k h')" using store_wf_unique[OF wf, of t h h'] q that by auto
    then show ?thesis using that by (auto simp: k'_def r st_append_def)
  qed
qed (simp_all add: k'_def)

definition woken_all :: "thead \<Rightarrow> kernel \<Rightarrow> kernel \<Rightarrow> bool" where
  "woken_all h k k' \<longleftrightarrow>
     k_threads k' = (\<lambda>u. if u \<in> set (k_tlists k h) then (k_threads k u)\<lparr>t_error := -RT_ERROR, t_stat := RT_THREAD_READY\<rparr>
                         else k_threads k u) \<and>
     k_tlists k' h = [] \<and> (\<forall>h'. wait_queue h' \<and> h' \<noteq> h \<longrightarrow> k_tlists k' h' = k_tlists k h') \<and>
     same_objs k' k \<and> k_current k' = k_current k"

lemma list_resume_all_returns:
  assumes "kinv b B k" "wait_queue h"
  shows "returns (rt_ipc_list_resume_all h k) (\<lambda>k'. kinv b B k' \<and> woken_all h k k')"
  using assms(1)
proof (induction "k_tlists k h" arbitrary: k)
  case Nil
  then show ?case by (subst rt_ipc_list_resume_all.simps) (simp add: woken_all_def Nil.hyps[symmetric])
next
  case (Cons t ts)
  let ?e = "upd_thread t (\<lambda>th. th\<lparr>t_error := -RT_ERROR\<rparr>) k"
  let ?k = "snd (rt_thread_resume t ?e)"
  have "kinv b B ?e" "k_tlists ?e h = t # ts" using Cons by simp_all
  note r = list_resume_returns[OF this(1) assms(2) this(2)]
  have nin: "t \<notin> set ts"
    using store_wf_distinct[OF sinv_wf[OF kinvD(1)[OF Cons.prems]], of h] Cons.hyps(2)[symmetric] by simp
  have "woken_all h k k'" if w: "woken_all h ?k k'" for k'
  proof -
    have "same_objs k' k"
      using w same_objs_trans[OF _ same_objs_trans[OF r(7) same_objs_error]] by (simp add: woken_all_def)
    moreover have "k_threads k' = (\<lambda>u. if u \<in> set (k_tlists k h)
        then (k_threads k u)\<lparr>t_error := -RT_ERROR, t_stat := RT_THREAD_READY\<rparr> else k_threads k u)"
      using w nin unfolding woken_all_def r(4,5) Cons.hyps(2)[symmetric] by (auto simp: fun_eq_iff)
    ultimately show ?thesis using w r(6,8) by (simp add: woken_all_def)
  qed
  then show ?case
    using Cons.hyps(1)[OF r(5)[symmetric] r(2)] Cons.hyps(2)[symmetric]
    by (subst rt_ipc_list_resume_all.simps) (auto elim!: returns_mono)
qed

text \<open>Waking the head of a queue and rescheduling: how every operation hands a resource over.\<close>

definition woken :: "thead \<Rightarrow> tid \<Rightarrow> kernel \<Rightarrow> kernel \<Rightarrow> bool" where
  "woken h t k k' \<longleftrightarrow> same_objs k' k \<and>
     k_threads k' = (k_threads k)(t := (k_threads k t)\<lparr>t_stat := RT_THREAD_READY\<rparr>) \<and>
     k_tlists k' h = tl (k_tlists k h) \<and> (\<forall>h'. wait_queue h' \<and> h' \<noteq> h \<longrightarrow> k_tlists k' h' = k_tlists k h') \<and>
     (if k_lock_nest k = 0 then \<exists>c. k_current k' = Some c \<and> next_to_run k' c else k_current k' = k_current k)"

lemma resume_schedule_returns:
  assumes inv: "kinv b B k" and cur: "k_current k \<noteq> None" and h: "wait_queue h" and q: "k_tlists k h = t # ts"
  shows "returns (Option.bind (rt_ipc_list_resume h k) rt_schedule) (\<lambda>k'. kinv b B k' \<and> runnable k' \<and> woken h t k k')"
proof -
  note r = list_resume_returns[OF inv h q]
  let ?k = "snd (rt_thread_resume t k)"
  have run: "runnable ?k" using cur r(3) by (auto simp: runnable_def r(8))
  have eq: "Option.bind (rt_ipc_list_resume h k) rt_schedule = rt_schedule ?k" by (simp add: r(1))
  show ?thesis
    unfolding eq
  proof (rule returns_mono[OF schedule_returns[OF r(2) run]], elim conjE)
    fix k' assume k': "kinv b B k'" "runnable k'" "scheduled ?k k'"
    note f = scheduled_frame[OF k'(3)]
    have "same_objs k' k" by (rule same_objs_trans[OF scheduled_objs[OF k'(3)] r(7)])
    moreover have "if k_lock_nest k = 0 then \<exists>c. k_current k' = Some c \<and> next_to_run k' c else k_current k' = k_current k"
      using k'(3) r(8) by (auto simp: scheduled_def next_to_run_def)
    ultimately show "kinv b B k' \<and> runnable k' \<and> woken h t k k'"
      using k'(1,2) r(4-6) by (simp add: woken_def f q)
  qed
qed

text \<open>What a successful operation does to the queue \<open>h\<close> of those it can serve: its head, if there is one,
  becomes ready and the scheduler runs.\<close>

definition served :: "thead \<Rightarrow> kernel \<Rightarrow> kernel \<Rightarrow> bool" where
  "served h k k' \<longleftrightarrow> k_tlists k' h = tl (k_tlists k h) \<and>
     (k_tlists k h \<noteq> [] \<longrightarrow> stat k' (hd (k_tlists k h)) = RT_THREAD_READY)"

lemma serve_returns:
  assumes inv: "kinv b B k" and run: "runnable k" and h: "wait_queue h"
  shows "returns (if k_tlists k h \<noteq> []
      then do { k2 \<leftarrow> rt_ipc_list_resume h k; k3 \<leftarrow> rt_schedule k2; Some (r, k3) } else Some (r, k))
     (\<lambda>(r', k'). r' = r \<and> kinv b B k' \<and> runnable k' \<and> same_objs k' k \<and> served h k k')"
proof (cases "k_tlists k h")
  case Nil
  then show ?thesis using inv run by (simp add: served_def)
next
  case (Cons t ts)
  have cur: "k_current k \<noteq> None" using run by (simp add: runnable_def)
  have "returns (Option.bind (rt_ipc_list_resume h k) rt_schedule)
      (\<lambda>k'. kinv b B k' \<and> runnable k' \<and> same_objs k' k \<and> served h k k')"
    by (rule returns_mono[OF resume_schedule_returns[OF inv cur h Cons]]) (simp add: woken_def served_def Cons)
  then show ?thesis using Cons by simp
qed

end
