(* ===== verification/Semaphore.thy ===== *)
theory Semaphore
  imports Ipc_List
begin

unbundle bit_operations_syntax

text \<open>
  Semaphores, from \<^verbatim>\<open>src/ipc.c\<close>.  A call that blocks gives \<open>Blocked\<close>; what it returns when its caller
  runs again is the function \<open>rt_sem_take_resumed\<close> of the state at that moment.
\<close>

section \<open>The code\<close>

definition upd_sem :: "ptr \<Rightarrow> (rt_semaphore \<Rightarrow> rt_semaphore) \<Rightarrow> kernel \<Rightarrow> kernel" where
  "upd_sem s f k = k\<lparr>k_sems := (k_sems k)(s := f (k_sems k s))\<rparr>"

definition set_obj_flag :: "obj \<Rightarrow> u8 \<Rightarrow> kernel \<Rightarrow> kernel" where
  "set_obj_flag x flag = upd_object x (\<lambda>ob. ob\<lparr>o_flag := flag\<rparr>)"

definition rt_sem_init :: "ptr \<Rightarrow> cstr \<Rightarrow> u32 \<Rightarrow> u8 \<Rightarrow> kernel \<Rightarrow> kernel" where
  "rt_sem_init s name value flag k =
     (let k1 = rt_object_init (OSem s) RT_Object_Class_Semaphore name k;
          k2 = rt_ipc_object_init (Sem_Q s) k1;
          k3 = upd_sem s (\<lambda>sem. sem\<lparr>s_value := ucast value\<rparr>) k2
      in set_obj_flag (OSem s) flag k3)"

definition rt_sem_detach :: "ptr \<Rightarrow> kernel \<Rightarrow> kernel option" where
  "rt_sem_detach s k =
     do { k1 \<leftarrow> rt_ipc_list_resume_all (Sem_Q s) k;
          Some (rt_object_detach (OSem s) k1) }"

definition rt_sem_take_resumed :: "tid \<Rightarrow> kernel \<Rightarrow> rt_err" where
  "rt_sem_take_resumed t k = t_error (thread k t)"

definition rt_sem_take :: "ptr \<Rightarrow> u32 \<Rightarrow> kernel \<Rightarrow> (rt_err outcome \<times> kernel) option" where
  "rt_sem_take s time k =
     (if 0 < s_value (k_sems k s) then
        Some (Done RT_EOK, upd_sem s (\<lambda>sem. sem\<lparr>s_value := s_value sem - 1\<rparr>) k)
      else if time = 0 then Some (Done (-RT_ETIMEOUT), k)
      else do {
        rt_assert (k_interrupt_nest k = 0);
        t \<leftarrow> rt_thread_self k;
        let k1 = upd_thread t (\<lambda>th. th\<lparr>t_error := RT_EOK\<rparr>) k;
        k2 \<leftarrow> ipc_block (Sem_Q s) t (o_flag (k_objects k1 (OSem s))) time k1;
        if k_current k2 = Some t then Some (Done (rt_sem_take_resumed t k2), k2) else Some (Blocked, k2) })"

definition rt_sem_trytake :: "ptr \<Rightarrow> kernel \<Rightarrow> (rt_err outcome \<times> kernel) option" where
  "rt_sem_trytake s k = rt_sem_take s 0 k"

definition rt_sem_release :: "ptr \<Rightarrow> kernel \<Rightarrow> kernel option" where
  "rt_sem_release s k =
     (if k_tlists k (Sem_Q s) \<noteq> [] then
        do { k1 \<leftarrow> rt_ipc_list_resume (Sem_Q s) k; rt_schedule k1 }
      else Some (upd_sem s (\<lambda>sem. sem\<lparr>s_value := s_value sem + 1\<rparr>) k))"

definition rt_sem_control :: "ptr \<Rightarrow> u8 \<Rightarrow> u32 \<Rightarrow> kernel \<Rightarrow> (rt_err \<times> kernel) option" where
  "rt_sem_control s cmd arg k =
     (if cmd = RT_IPC_CMD_RESET then
        do { k1 \<leftarrow> rt_ipc_list_resume_all (Sem_Q s) k;
             k2 \<leftarrow> rt_schedule (upd_sem s (\<lambda>sem. sem\<lparr>s_value := ucast arg\<rparr>) k1);
             Some (RT_EOK, k2) }
      else Some (-RT_ERROR, k))"

section \<open>The invariant\<close>

text \<open>Nobody waits on a semaphore that could be taken.\<close>

definition sems_ok :: "kernel \<Rightarrow> bool" where
  "sems_ok k \<longleftrightarrow> (\<forall>s. s_value (k_sems k s) \<noteq> 0 \<longrightarrow> k_tlists k (Sem_Q s) = [])"

lemma upd_sem_fields [simp]:
  "k_sems (upd_sem s f k) = (k_sems k)(s := f (k_sems k s))" "k_threads (upd_sem s f k) = k_threads k"
  "k_tlists (upd_sem s f k) = k_tlists k" "k_current (upd_sem s f k) = k_current k" "k_tick (upd_sem s f k) = k_tick k"
  "k_lock_nest (upd_sem s f k) = k_lock_nest k" "kinv b B (upd_sem s f k) \<longleftrightarrow> kinv b B k"
  "runnable (upd_sem s f k) \<longleftrightarrow> runnable k"
  by (simp_all add: upd_sem_def runnable_def)

lemma sems_ok_shrink:
  assumes "sems_ok k" "k_sems k' = k_sems k" "\<And>s. k_tlists k (Sem_Q s) = [] \<Longrightarrow> k_tlists k' (Sem_Q s) = []"
  shows "sems_ok k'"
  using assms by (simp add: sems_ok_def)

lemma waiting_sems_ok:
  assumes ok: "sems_ok k" and w: "waiting h t flag time k k'"
    and h: "\<And>s. h = Sem_Q s \<Longrightarrow> s_value (k_sems k s) = 0"
  shows "sems_ok k'"
  unfolding sems_ok_def
proof (intro allI impI)
  fix s assume "s_value (k_sems k' s) \<noteq> 0"
  then have v: "s_value (k_sems k s) \<noteq> 0" using w by (simp add: waiting_defs same_objs_def)
  then have "h \<noteq> Sem_Q s" "k_tlists k (Sem_Q s) = []" using h ok by (auto simp: sems_ok_def)
  then show "k_tlists k' (Sem_Q s) = []" using w by (simp add: waiting_defs)
qed

section \<open>Taking and releasing\<close>

lemma sem_take_available:
  "s_value (k_sems k s) \<noteq> 0 \<Longrightarrow>
   rt_sem_take s time k = Some (Done RT_EOK, upd_sem s (\<lambda>sem. sem\<lparr>s_value := s_value sem - 1\<rparr>) k)"
  by (simp add: rt_sem_take_def word_neq_0_conv)

lemma may_block_error [simp]: "may_block t (upd_thread t (\<lambda>th. th\<lparr>t_error := f th\<rparr>) k) \<longleftrightarrow> may_block t k"
  by (auto simp: may_block_def)

lemma sem_take_blocks:
  assumes inv: "kernel_inv k" and v: "s_value (k_sems k s) = 0" and time: "time \<noteq> 0" "time_ok time"
    and irq: "k_interrupt_nest k = 0" and blk: "may_block t k" and flag: "flag_ok (o_flag (k_objects k (OSem s)))"
  defines "k1 \<equiv> upd_thread t (\<lambda>th. th\<lparr>t_error := RT_EOK\<rparr>) k"
  shows "returns (rt_sem_take s time k) (\<lambda>(r, k'). r = Blocked \<and> kernel_inv k' \<and> runnable k' \<and>
           waiting (Sem_Q s) t (o_flag (k_objects k (OSem s))) time k1 k')"
proof -
  have c: "k_current k = Some t" using blk by (simp add: may_block_def)
  have "kernel_inv k1" "may_block t k1" using inv blk by (simp_all add: k1_def)
  from ipc_block_returns[OF this(1) _ this(2) flag time(2), of "Sem_Q s"]
  have "returns (ipc_block (Sem_Q s) t (o_flag (k_objects k (OSem s))) time k1)
     (\<lambda>k'. kernel_inv k' \<and> runnable k' \<and> waiting (Sem_Q s) t (o_flag (k_objects k (OSem s))) time k1 k')" by simp
  then show ?thesis
    unfolding rt_sem_take_def rt_thread_self_def c Let_def k1_def[symmetric] using v time(1) irq
    by (auto simp: k1_def waiting_defs elim!: returns_mono)
qed

lemma sem_release_wakes:
  assumes inv: "kernel_inv k" and cur: "k_current k \<noteq> None" and q: "k_tlists k (Sem_Q s) = t # ts"
  shows "returns (rt_sem_release s k) (\<lambda>k'. kernel_inv k' \<and> runnable k' \<and> woken (Sem_Q s) t k k')"
proof -
  have eq: "rt_sem_release s k = Option.bind (rt_ipc_list_resume (Sem_Q s) k) rt_schedule"
    using q by (simp add: rt_sem_release_def)
  show ?thesis unfolding eq
    by (rule returns_mono[OF resume_schedule_returns[OF inv cur wait_queue_simps(1) q]])
      (simp add: woken_def same_objs_def)
qed

lemma sem_release_counts:
  "k_tlists k (Sem_Q s) = [] \<Longrightarrow>
   rt_sem_release s k = Some (upd_sem s (\<lambda>sem. sem\<lparr>s_value := s_value sem + 1\<rparr>) k)"
  by (simp add: rt_sem_release_def)

lemma sem_control_reset:
  assumes inv: "kernel_inv k" and run: "runnable k"
  shows "returns (rt_sem_control s RT_IPC_CMD_RESET v k) (\<lambda>(r, k'). r = RT_EOK \<and> kernel_inv k' \<and> runnable k' \<and>
     s_value (k_sems k' s) = ucast v \<and> k_tlists k' (Sem_Q s) = [] \<and>
     (\<forall>t\<in>set (k_tlists k (Sem_Q s)). stat k' t = RT_THREAD_READY \<and> t_error (thread k' t) = -RT_ERROR))"
proof -
  have "returns (rt_ipc_list_resume_all (Sem_Q s) k) (\<lambda>k1. returns
      (rt_schedule (upd_sem s (\<lambda>sem. sem\<lparr>s_value := ucast v\<rparr>) k1))
      (\<lambda>k'. kernel_inv k' \<and> runnable k' \<and> s_value (k_sems k' s) = ucast v \<and> k_tlists k' (Sem_Q s) = [] \<and>
     (\<forall>t\<in>set (k_tlists k (Sem_Q s)). stat k' t = RT_THREAD_READY \<and> t_error (thread k' t) = -RT_ERROR)))"
  proof (rule returns_mono[OF list_resume_all_returns[OF inv]], simp, elim conjE)
    fix k1 assume k1: "kinv (k_tick k) (HALF - 1) k1" "woken_all (Sem_Q s) k k1"
    let ?k = "upd_sem s (\<lambda>sem. sem\<lparr>s_value := ucast v\<rparr>) k1"
    have "kinv (k_tick k) (HALF - 1) ?k" using k1 by simp
    moreover have "runnable ?k" using run k1(2) by (auto simp: runnable_def woken_all_def)
    ultimately have "returns (rt_schedule ?k) (\<lambda>k'. kinv (k_tick k) (HALF - 1) k' \<and> runnable k' \<and> scheduled ?k k')"
      by (rule schedule_returns)
    then show "returns (rt_schedule ?k)
      (\<lambda>k'. kernel_inv k' \<and> runnable k' \<and> s_value (k_sems k' s) = ucast v \<and> k_tlists k' (Sem_Q s) = [] \<and>
     (\<forall>t\<in>set (k_tlists k (Sem_Q s)). stat k' t = RT_THREAD_READY \<and> t_error (thread k' t) = -RT_ERROR))"
      using k1(2) by (auto simp: scheduled_frame woken_all_def same_objs_def elim!: returns_mono)
  qed
  then show ?thesis by (simp add: rt_sem_control_def)
qed

end
