(* ===== verification/Mutex.thy ===== *)
theory Mutex
  imports Semaphore
begin

unbundle bit_operations_syntax

text \<open>
  Mutexes with priority inheritance, from \<^verbatim>\<open>src/ipc.c\<close>.
\<close>

section \<open>The code\<close>

definition upd_mutex :: "ptr \<Rightarrow> (rt_mutex \<Rightarrow> rt_mutex) \<Rightarrow> kernel \<Rightarrow> kernel" where
  "upd_mutex m f k = k\<lparr>k_mutexes := (k_mutexes k)(m := f (k_mutexes k m))\<rparr>"

definition rt_mutex_init :: "ptr \<Rightarrow> cstr \<Rightarrow> u8 \<Rightarrow> kernel \<Rightarrow> kernel" where
  "rt_mutex_init m name flag k =
     (let k1 = rt_object_init (OMutex m) RT_Object_Class_Mutex name k;
          k2 = rt_ipc_object_init (Mutex_Q m) k1;
          k3 = upd_mutex m (\<lambda>_. \<lparr>m_value = 1, m_original_priority = 0xff, m_hold = 0, m_owner = None\<rparr>) k2
      in set_obj_flag (OMutex m) flag k3)"

definition rt_mutex_detach :: "ptr \<Rightarrow> kernel \<Rightarrow> kernel option" where
  "rt_mutex_detach m k =
     do { k1 \<leftarrow> rt_ipc_list_resume_all (Mutex_Q m) k;
          Some (rt_object_detach (OMutex m) k1) }"

definition rt_mutex_take_resumed :: "tid \<Rightarrow> kernel \<Rightarrow> rt_err" where
  "rt_mutex_take_resumed t k = t_error (thread k t)"

definition rt_mutex_take :: "ptr \<Rightarrow> u32 \<Rightarrow> kernel \<Rightarrow> (rt_err outcome \<times> kernel) option" where
  "rt_mutex_take m time k =
     do { rt_assert (k_interrupt_nest k = 0);
          t \<leftarrow> rt_thread_self k;
          let k1 = upd_thread t (\<lambda>th. th\<lparr>t_error := RT_EOK\<rparr>) k;
          if m_owner (k_mutexes k1 m) = Some t then
            Some (Done RT_EOK, upd_mutex m (\<lambda>mx. mx\<lparr>m_hold := m_hold mx + 1\<rparr>) k1)
          else if 0 < m_value (k_mutexes k1 m) then
            Some (Done RT_EOK, upd_mutex m (\<lambda>mx. mx\<lparr>m_value := m_value mx - 1, m_owner := Some t,
                     m_original_priority := prio k1 t, m_hold := m_hold mx + 1\<rparr>) k1)
          else if time = 0 then
            Some (Done (-RT_ETIMEOUT), upd_thread t (\<lambda>th. th\<lparr>t_error := -RT_ETIMEOUT\<rparr>) k1)
          else do {
            owner \<leftarrow> m_owner (k_mutexes k1 m);
            k2 \<leftarrow> (if prio k1 t < prio k1 owner
                   then rt_thread_control owner RT_THREAD_CTRL_CHANGE_PRIORITY (prio k1 t) k1 else Some k1);
            k3 \<leftarrow> ipc_block (Mutex_Q m) t (o_flag (k_objects k2 (OMutex m))) time k2;
            if k_current k3 = Some t then Some (Done (rt_mutex_take_resumed t k3), k3) else Some (Blocked, k3) } }"

definition rt_mutex_release :: "ptr \<Rightarrow> kernel \<Rightarrow> (rt_err \<times> kernel) option" where
  "rt_mutex_release m k =
     do { t \<leftarrow> rt_thread_self k;
          if m_owner (k_mutexes k m) \<noteq> Some t then
            Some (-RT_ERROR, upd_thread t (\<lambda>th. th\<lparr>t_error := -RT_ERROR\<rparr>) k)
          else do {
            let k1 = upd_mutex m (\<lambda>mx. mx\<lparr>m_hold := m_hold mx - 1\<rparr>) k;
            if m_hold (k_mutexes k1 m) = 0 then do {
              k2 \<leftarrow> (if m_original_priority (k_mutexes k1 m) \<noteq> prio k1 t
                     then rt_thread_control t RT_THREAD_CTRL_CHANGE_PRIORITY (m_original_priority (k_mutexes k1 m)) k1
                     else Some k1);
              (case k_tlists k2 (Mutex_Q m) of
                 w # _ \<Rightarrow> do {
                   let k3 = upd_mutex m (\<lambda>mx. mx\<lparr>m_owner := Some w, m_original_priority := prio k2 w,
                              m_hold := m_hold mx + 1\<rparr>) k2;
                   k4 \<leftarrow> rt_ipc_list_resume (Mutex_Q m) k3;
                   k5 \<leftarrow> rt_schedule k4;
                   Some (RT_EOK, k5) }
               | [] \<Rightarrow> Some (RT_EOK, upd_mutex m (\<lambda>mx. mx\<lparr>m_value := m_value mx + 1, m_owner := None,
                              m_original_priority := 0xff\<rparr>) k2)) }
            else Some (RT_EOK, k1) } }"

definition rt_mutex_control :: "ptr \<Rightarrow> u8 \<Rightarrow> u32 \<Rightarrow> kernel \<Rightarrow> rt_err \<times> kernel" where
  "rt_mutex_control m cmd arg k = (-RT_ERROR, k)"

section \<open>The invariant\<close>

text \<open>A mutex is free, or held by an owner that has a priority to return to; threads wait only for a
  mutex that is held, and never for one they hold.\<close>

definition mutex_ok :: "kernel \<Rightarrow> ptr \<Rightarrow> bool" where
  "mutex_ok k m \<longleftrightarrow> (let mx = k_mutexes k m in
     (case m_owner mx of
        None \<Rightarrow> m_value mx = 1 \<and> m_hold mx = 0 \<and> k_tlists k (Mutex_Q m) = []
      | Some t \<Rightarrow> m_value mx = 0 \<and> m_hold mx \<noteq> 0 \<and> m_original_priority mx < 32 \<and> t \<notin> set (k_tlists k (Mutex_Q m))))"

lemma upd_mutex_fields [simp]:
  "k_mutexes (upd_mutex m f k) = (k_mutexes k)(m := f (k_mutexes k m))" "k_threads (upd_mutex m f k) = k_threads k"
  "k_tlists (upd_mutex m f k) = k_tlists k" "k_current (upd_mutex m f k) = k_current k" "k_tick (upd_mutex m f k) = k_tick k"
  "k_lock_nest (upd_mutex m f k) = k_lock_nest k" "kinv b B (upd_mutex m f k) \<longleftrightarrow> kinv b B k"
  "runnable (upd_mutex m f k) \<longleftrightarrow> runnable k" "k_interrupt_nest (upd_mutex m f k) = k_interrupt_nest k"
  "k_objects (upd_mutex m f k) = k_objects k"
  by (simp_all add: upd_mutex_def runnable_def)

section \<open>Taking\<close>

lemma take_free:
  assumes ok: "mutex_ok k m" and free: "m_owner (k_mutexes k m) = None"
    and irq: "k_interrupt_nest k = 0" and c: "k_current k = Some t" and p: "prio k t < 32"
  shows "returns (rt_mutex_take m time k) (\<lambda>(r, k'). r = Done RT_EOK \<and> m_owner (k_mutexes k' m) = Some t \<and>
     m_hold (k_mutexes k' m) = 1 \<and> mutex_ok k' m \<and> m_original_priority (k_mutexes k' m) = prio k t \<and> k_tlists k' = k_tlists k)"
  using assms by (simp add: rt_mutex_take_def rt_thread_self_def mutex_ok_def Let_def)

lemma take_recursive:
  assumes ok: "mutex_ok k m" and own: "m_owner (k_mutexes k m) = Some t" and h: "m_hold (k_mutexes k m) \<noteq> 255"
    and irq: "k_interrupt_nest k = 0" and c: "k_current k = Some t"
  shows "returns (rt_mutex_take m time k) (\<lambda>(r, k'). r = Done RT_EOK \<and> m_owner (k_mutexes k' m) = Some t \<and>
     m_hold (k_mutexes k' m) = m_hold (k_mutexes k m) + 1 \<and> mutex_ok k' m \<and> k_tlists k' = k_tlists k)"
proof -
  have "m_hold (k_mutexes k m) + 1 \<noteq> 0"
  proof
    assume "m_hold (k_mutexes k m) + 1 = 0"
    then have "m_hold (k_mutexes k m) = - 1" by (simp add: eq_neg_iff_add_eq_0)
    with h show False by simp
  qed
  then show ?thesis using assms by (simp add: rt_mutex_take_def rt_thread_self_def mutex_ok_def Let_def)
qed

text \<open>A caller that has to wait lends its priority to the owner.\<close>

lemma same_objs_reprioritised [simp]: "same_objs (reprioritised t p k) k"
  by (simp add: same_objs_def)

definition inherit :: "ptr \<Rightarrow> tid \<Rightarrow> tid \<Rightarrow> kernel \<Rightarrow> kernel" where
  "inherit m t owner k = (if prio k t < prio k owner then reprioritised owner (prio k t) k else k)"

lemma inherit_prio: "owner \<noteq> t \<Longrightarrow> prio (inherit m t owner k) owner = min (prio k owner) (prio k t)"
  by (auto simp: inherit_def reprioritised_threads min_def)

lemma inherit_kinv: "kinv b B k \<Longrightarrow> prio k t < 32 \<Longrightarrow> kinv b B (inherit m t owner k)"
  by (simp add: inherit_def reprioritised_kinv)

lemma inherit_fields:
  "owner \<noteq> t \<Longrightarrow> u \<noteq> owner \<Longrightarrow> thread (inherit m t owner k) u = thread k u"
  "stat (inherit m t owner k) u = stat k u" "same_objs (inherit m t owner k) k"
  "k_current (inherit m t owner k) = k_current k" "k_lock_nest (inherit m t owner k) = k_lock_nest k"
  "k_objects (inherit m t owner k) = k_objects k" "k_tick (inherit m t owner k) = k_tick k"
  by (simp_all add: inherit_def reprioritised_threads)

lemma take_held_eq:
  assumes own: "m_owner (k_mutexes k m) = Some owner" "owner \<noteq> t" and v: "m_value (k_mutexes k m) = 0"
    and irq: "k_interrupt_nest k = 0" and c: "k_current k = Some t" and time: "time \<noteq> 0"
  defines "k1 \<equiv> upd_thread t (\<lambda>th. th\<lparr>t_error := RT_EOK\<rparr>) k"
  shows "rt_mutex_take m time k =
     Option.bind (ipc_block (Mutex_Q m) t (o_flag (k_objects k (OMutex m))) time (inherit m t owner k1))
       (\<lambda>k3. if k_current k3 = Some t then Some (Done (rt_mutex_take_resumed t k3), k3) else Some (Blocked, k3))"
proof (cases "prio k1 t < prio k1 owner")
  case True
  then show ?thesis
    using own v irq c time unfolding rt_mutex_take_def rt_thread_self_def c Let_def k1_def[symmetric] inherit_def
    by (simp add: change_priority_eq) (simp add: k1_def)
next
  case False
  then show ?thesis
    using own v irq c time unfolding rt_mutex_take_def rt_thread_self_def c Let_def k1_def[symmetric] inherit_def
    by simp (simp add: k1_def)
qed

lemma take_blocks:
  assumes inv: "kernel_inv k" and ok: "mutex_ok k m" and own: "m_owner (k_mutexes k m) = Some owner" "owner \<noteq> t"
    and irq: "k_interrupt_nest k = 0" and blk: "may_block t k" and time: "time \<noteq> 0" "time_ok time"
    and flag: "flag_ok (o_flag (k_objects k (OMutex m)))"
  shows "returns (rt_mutex_take m time k) (\<lambda>(r, k'). r = Blocked \<and> kernel_inv k' \<and> runnable k' \<and> mutex_ok k' m \<and>
     m_owner (k_mutexes k' m) = Some owner \<and> prio k' owner = min (prio k owner) (prio k t) \<and>
     stat k' t = RT_THREAD_SUSPEND \<and> set (k_tlists k' (Mutex_Q m)) = insert t (set (k_tlists k (Mutex_Q m))))"
proof -
  let ?k1 = "upd_thread t (\<lambda>th. th\<lparr>t_error := RT_EOK\<rparr>) k" let ?i = "inherit m t owner ?k1"
  have c: "k_current k = Some t" and t: "stat k t = RT_THREAD_READY" using blk by (simp_all add: may_block_def)
  have v: "m_value (k_mutexes k m) = 0" using ok own by (simp add: mutex_ok_def Let_def)
  have k1: "kernel_inv ?k1" "prio ?k1 t < 32" "prio ?k1 t = prio k t" "prio ?k1 owner = prio k owner"
    using inv sched_inv_mask[OF kinvD(1)[OF inv], of t] t by (simp_all add: mask_ok_def)
  have i: "kernel_inv ?i" using inherit_kinv[OF k1(1,2)] by (simp add: inherit_fields)
  have mb: "may_block t ?i" using blk by (auto simp: may_block_def inherit_fields)
  have q: "k_tlists ?i (Mutex_Q m) = k_tlists k (Mutex_Q m)"
    using reprioritised_queue[OF kinvD(1)[OF k1(1)], of "Mutex_Q m"] by (simp add: inherit_def)
  have mx: "k_mutexes ?i = k_mutexes k" using inherit_fields(3)[of m t owner ?k1] by (simp add: same_objs_def)
  have "returns (ipc_block (Mutex_Q m) t (o_flag (k_objects k (OMutex m))) time ?i)
     (\<lambda>k3. kernel_inv k3 \<and> runnable k3 \<and> waiting (Mutex_Q m) t (o_flag (k_objects k (OMutex m))) time ?i k3)"
    by (rule ipc_block_returns[OF i wait_queue_simps(2) mb flag time(2)])
  then show ?thesis
    unfolding take_held_eq[OF own v irq c time(1)] returns_bind
  proof (rule returns_mono, elim conjE)
    fix k3 assume k3: "kernel_inv k3" "runnable k3" "waiting (Mutex_Q m) t (o_flag (k_objects k (OMutex m))) time ?i k3"
    then have w: "k_current k3 \<noteq> Some t" "k_mutexes k3 = k_mutexes k" "prio k3 owner = prio ?i owner"
      "stat k3 t = RT_THREAD_SUSPEND" "set (k_tlists k3 (Mutex_Q m)) = insert t (set (k_tlists k (Mutex_Q m)))"
      using mx q own(2) by (auto simp: waiting_defs same_objs_def)
    have "mutex_ok k3 m" using ok own w(2,5) by (simp add: mutex_ok_def Let_def)
    moreover have "prio k3 owner = min (prio k owner) (prio k t)"
      using w(3) inherit_prio[OF own(2), of m ?k1] k1(3,4) by simp
    ultimately show "returns (if k_current k3 = Some t then Some (Done (rt_mutex_take_resumed t k3), k3) else Some (Blocked, k3))
      (\<lambda>(r, k'). r = Blocked \<and> kernel_inv k' \<and> runnable k' \<and> mutex_ok k' m \<and> m_owner (k_mutexes k' m) = Some owner \<and>
       prio k' owner = min (prio k owner) (prio k t) \<and> stat k' t = RT_THREAD_SUSPEND \<and>
       set (k_tlists k' (Mutex_Q m)) = insert t (set (k_tlists k (Mutex_Q m))))"
      using k3(1,2) w own by simp
  qed
qed

section \<open>Releasing\<close>

lemma release_not_owner:
  assumes "k_current k = Some t" "m_owner (k_mutexes k m) \<noteq> Some t"
  shows "rt_mutex_release m k = Some (-RT_ERROR, upd_thread t (\<lambda>th. th\<lparr>t_error := -RT_ERROR\<rparr>) k)"
  using assms by (simp add: rt_mutex_release_def rt_thread_self_def)

lemma release_nested:
  assumes "mutex_ok k m" "k_current k = Some t" "m_owner (k_mutexes k m) = Some t" "m_hold (k_mutexes k m) \<noteq> 1"
  shows "returns (rt_mutex_release m k) (\<lambda>(r, k'). r = RT_EOK \<and> mutex_ok k' m \<and> m_owner (k_mutexes k' m) = Some t \<and>
     m_hold (k_mutexes k' m) = m_hold (k_mutexes k m) - 1 \<and> k_threads k' = k_threads k \<and> k_tlists k' = k_tlists k)"
  using assms by (simp add: rt_mutex_release_def rt_thread_self_def mutex_ok_def Let_def)

text \<open>The last release: the priority that was borrowed goes back, and the mutex to the first waiter.\<close>

definition restored :: "ptr \<Rightarrow> tid \<Rightarrow> kernel \<Rightarrow> kernel" where
  "restored m t k = (let k1 = upd_mutex m (\<lambda>mx. mx\<lparr>m_hold := m_hold mx - 1\<rparr>) k; p = m_original_priority (k_mutexes k m)
     in if p \<noteq> prio k t then reprioritised t p k1 else k1)"

lemma restored_fields:
  "k_mutexes (restored m t k) = (k_mutexes k)(m := (k_mutexes k m)\<lparr>m_hold := m_hold (k_mutexes k m) - 1\<rparr>)"
  "prio (restored m t k) t = m_original_priority (k_mutexes k m)" "u \<noteq> t \<Longrightarrow> thread (restored m t k) u = thread k u"
  "k_current (restored m t k) = k_current k" "stat (restored m t k) u = stat k u" "k_tick (restored m t k) = k_tick k"
  "k_lock_nest (restored m t k) = k_lock_nest k"
  by (simp_all add: restored_def reprioritised_threads Let_def)

lemma restored_queue: "kinv b B k \<Longrightarrow> k_tlists (restored m t k) (Mutex_Q m') = k_tlists k (Mutex_Q m')"
  using reprioritised_queue[of "upd_mutex m (\<lambda>mx. mx\<lparr>m_hold := m_hold mx - 1\<rparr>) k" "Mutex_Q m'"] kinvD(1)[of b B]
  by (simp add: restored_def Let_def upd_mutex_def)

lemma restored_kinv: "kinv b B k \<Longrightarrow> m_original_priority (k_mutexes k m) < 32 \<Longrightarrow> kinv b B (restored m t k)"
  by (simp add: restored_def Let_def reprioritised_kinv)

lemma release_last_eq:
  assumes "k_current k = Some t" "m_owner (k_mutexes k m) = Some t" "m_hold (k_mutexes k m) = 1"
  defines "k2 \<equiv> restored m t k"
  shows "rt_mutex_release m k = (case k_tlists k2 (Mutex_Q m) of
      w # _ \<Rightarrow> Option.bind (Option.bind (rt_ipc_list_resume (Mutex_Q m)
          (upd_mutex m (\<lambda>mx. mx\<lparr>m_owner := Some w, m_original_priority := prio k2 w, m_hold := m_hold mx + 1\<rparr>) k2))
          rt_schedule) (\<lambda>k5. Some (RT_EOK, k5))
    | [] \<Rightarrow> Some (RT_EOK, upd_mutex m (\<lambda>mx. mx\<lparr>m_value := m_value mx + 1, m_owner := None, m_original_priority := 0xff\<rparr>) k2))"
proof (cases "m_original_priority (k_mutexes k m) = prio k t")
  case True
  then show ?thesis using assms by (simp add: rt_mutex_release_def rt_thread_self_def Let_def restored_def split: list.split)
next
  case False
  then show ?thesis using assms
    by (simp add: rt_mutex_release_def rt_thread_self_def Let_def restored_def change_priority_eq split: list.split)
qed

lemma release_last:
  assumes inv: "kernel_inv k" and run: "runnable k" and ok: "mutex_ok k m" and c: "k_current k = Some t"
    and own: "m_owner (k_mutexes k m) = Some t" and h: "m_hold (k_mutexes k m) = 1"
  shows "returns (rt_mutex_release m k) (\<lambda>(r, k'). r = RT_EOK \<and> kernel_inv k' \<and> runnable k' \<and> mutex_ok k' m \<and>
     prio k' t = m_original_priority (k_mutexes k m) \<and> k_tlists k' (Mutex_Q m) = tl (k_tlists k (Mutex_Q m)) \<and>
     (case k_tlists k (Mutex_Q m) of [] \<Rightarrow> m_owner (k_mutexes k' m) = None
      | w # _ \<Rightarrow> m_owner (k_mutexes k' m) = Some w \<and> m_hold (k_mutexes k' m) = 1 \<and> stat k' w = RT_THREAD_READY))"
proof -
  let ?k2 = "restored m t k"
  have p: "m_original_priority (k_mutexes k m) < 32" "m_value (k_mutexes k m) = 0" "t \<notin> set (k_tlists k (Mutex_Q m))"
    using ok own by (simp_all add: mutex_ok_def Let_def)
  have k2: "kinv (k_tick k) (HALF - 1) ?k2" by (rule restored_kinv[OF inv p(1)])
  have run2: "runnable ?k2" using run by (simp add: runnable_def restored_fields)
  note q = restored_queue[OF inv, of m t m] and eq = release_last_eq[OF c own h] and f = restored_fields[where m = m and t = t and k = k]
  show ?thesis
  proof (cases "k_tlists k (Mutex_Q m)")
    case Nil
    have "mutex_ok (upd_mutex m (\<lambda>mx. mx\<lparr>m_value := m_value mx + 1, m_owner := None, m_original_priority := 0xff\<rparr>) ?k2) m"
      using Nil p h by (simp add: mutex_ok_def Let_def f q)
    then show ?thesis using Nil k2 run2 by (simp add: eq q f)
  next
    case (Cons w ws)
    let ?k3 = "upd_mutex m (\<lambda>mx. mx\<lparr>m_owner := Some w, m_original_priority := prio ?k2 w, m_hold := m_hold mx + 1\<rparr>) ?k2"
    have w: "w \<noteq> t" "w \<notin> set ws" using p(3) Cons store_wf_distinct[OF sinv_wf[OF kinvD(1)[OF inv]], of "Mutex_Q m"] by auto
    have "stat k w = RT_THREAD_SUSPEND" using waiter_suspended[OF kinvD(1)[OF inv], of "Mutex_Q m" w] Cons by simp
    then have pw: "prio k w < 32" using sched_inv_mask[OF kinvD(1)[OF inv], of w] by (simp add: mask_ok_def)
    have k3: "kinv (k_tick k) (HALF - 1) ?k3" "k_current ?k3 \<noteq> None" "k_tlists ?k3 (Mutex_Q m) = w # ws"
      using k2 c Cons by (simp_all add: f q)
    have "returns (Option.bind (rt_ipc_list_resume (Mutex_Q m) ?k3) rt_schedule)
        (\<lambda>k'. kinv (k_tick k) (HALF - 1) k' \<and> runnable k' \<and> woken (Mutex_Q m) w ?k3 k')"
      by (rule resume_schedule_returns[OF k3(1,2) wait_queue_simps(2) k3(3)])
    then have "returns (Option.bind (rt_ipc_list_resume (Mutex_Q m) ?k3) rt_schedule) (\<lambda>k'. kernel_inv k' \<and> runnable k' \<and>
        mutex_ok k' m \<and> prio k' t = m_original_priority (k_mutexes k m) \<and> k_tlists k' (Mutex_Q m) = ws \<and>
        m_owner (k_mutexes k' m) = Some w \<and> m_hold (k_mutexes k' m) = 1 \<and> stat k' w = RT_THREAD_READY)"
    proof (rule returns_mono, elim conjE)
      fix k' assume k': "kinv (k_tick k) (HALF - 1) k'" "runnable k'" "woken (Mutex_Q m) w ?k3 k'"
      from k'(3) have e: "k_mutexes k' = k_mutexes ?k3" "k_tick k' = k_tick k" "k_tlists k' (Mutex_Q m) = ws"
        "stat k' w = RT_THREAD_READY" "prio k' t = prio ?k3 t"
        using k3(3) w(1) by (auto simp: woken_def same_objs_def f)
      have "mutex_ok k' m" using p w h pw by (simp add: mutex_ok_def Let_def e f)
      then show "kernel_inv k' \<and> runnable k' \<and> mutex_ok k' m \<and> prio k' t = m_original_priority (k_mutexes k m) \<and>
        k_tlists k' (Mutex_Q m) = ws \<and> m_owner (k_mutexes k' m) = Some w \<and> m_hold (k_mutexes k' m) = 1 \<and> stat k' w = RT_THREAD_READY"
        using k' h by (simp add: e f)
    qed
    then show ?thesis
      unfolding eq q Cons list.case by (simp only: returns_bind[of "Option.bind a b" for a b] returns_Some case_prod_conv simp_thms list.sel)
  qed
qed

end
