(* ===== verification/Event.thy ===== *)
theory Event
  imports Semaphore
begin

unbundle bit_operations_syntax

text \<open>
  Event sets, from \<^verbatim>\<open>src/ipc.c\<close>: threads wait for all (AND) or some (OR) of a set of flags.
\<close>

section \<open>The code\<close>

abbreviation RT_EVENT_FLAG_AND :: u8 where "RT_EVENT_FLAG_AND \<equiv> 1"
abbreviation RT_EVENT_FLAG_OR :: u8 where "RT_EVENT_FLAG_OR \<equiv> 2"
abbreviation RT_EVENT_FLAG_CLEAR :: u8 where "RT_EVENT_FLAG_CLEAR \<equiv> 4"

definition upd_event :: "ptr \<Rightarrow> (rt_event \<Rightarrow> rt_event) \<Rightarrow> kernel \<Rightarrow> kernel" where
  "upd_event e f k = k\<lparr>k_events := (k_events k)(e := f (k_events k e))\<rparr>"

definition rt_event_init :: "ptr \<Rightarrow> cstr \<Rightarrow> u8 \<Rightarrow> kernel \<Rightarrow> kernel" where
  "rt_event_init e name flag k =
     (let k1 = rt_object_init (OEvent e) RT_Object_Class_Event name k;
          k2 = set_obj_flag (OEvent e) flag k1;
          k3 = rt_ipc_object_init (Event_Q e) k2
      in upd_event e (\<lambda>ev. ev\<lparr>e_set := 0\<rparr>) k3)"

definition rt_event_detach :: "ptr \<Rightarrow> kernel \<Rightarrow> kernel option" where
  "rt_event_detach e k =
     do { k1 \<leftarrow> rt_ipc_list_resume_all (Event_Q e) k;
          Some (rt_object_detach (OEvent e) k1) }"

text \<open>The body of the loop of \<^verbatim>\<open>rt_event_send\<close> for one waiting thread: whether it is resumed, and the
  state afterwards.\<close>

definition event_deliver :: "ptr \<Rightarrow> tid \<Rightarrow> kernel \<Rightarrow> bool \<times> kernel" where
  "event_deliver e t k =
     (let info = t_event_info (thread k t);
          tset = t_event_set (thread k t);
          eset = e_set (k_events k e);
          (status, k1) =
            (if info AND RT_EVENT_FLAG_AND \<noteq> 0 then (tset AND eset = tset, k)
             else if info AND RT_EVENT_FLAG_OR \<noteq> 0 then
               (if tset AND eset \<noteq> 0 then (True, upd_thread t (\<lambda>th. th\<lparr>t_event_set := tset AND eset\<rparr>) k) else (False, k))
             else (False, k))
      in if status then
           (let k2 = (if info AND RT_EVENT_FLAG_CLEAR \<noteq> 0
                      then upd_event e (\<lambda>ev. ev\<lparr>e_set := e_set ev AND NOT (t_event_set (thread k1 t))\<rparr>) k1 else k1)
            in (True, snd (rt_thread_resume t k2)))
         else (False, k1))"

text \<open>The loop takes the successor of a node before the thread is resumed, so that it visits the list
  as it was at the start.\<close>

fun event_scan :: "ptr \<Rightarrow> tid list \<Rightarrow> bool \<times> kernel \<Rightarrow> bool \<times> kernel" where
  "event_scan e [] (need, k) = (need, k)"
| "event_scan e (t # ts) (need, k) =
     (let (r, k1) = event_deliver e t k in event_scan e ts (need \<or> r, k1))"

definition rt_event_send :: "ptr \<Rightarrow> u32 \<Rightarrow> kernel \<Rightarrow> (rt_err \<times> kernel) option" where
  "rt_event_send e evset k =
     (if evset = 0 then Some (-RT_ERROR, k)
      else do {
        let k1 = upd_event e (\<lambda>ev. ev\<lparr>e_set := e_set ev OR evset\<rparr>) k;
        let (need_schedule, k2) = event_scan e (k_tlists k1 (Event_Q e)) (False, k1);
        if need_schedule then do { k3 \<leftarrow> rt_schedule k2; Some (RT_EOK, k3) } else Some (RT_EOK, k2) })"

text \<open>The result of a receive is the error and what was stored at \<^verbatim>\<open>*recved\<close>, if anything was.\<close>

definition rt_event_recv_resumed :: "tid \<Rightarrow> kernel \<Rightarrow> rt_err \<times> u32 option" where
  "rt_event_recv_resumed t k =
     (if t_error (thread k t) \<noteq> RT_EOK then (t_error (thread k t), None)
      else (t_error (thread k t), Some (t_event_set (thread k t))))"

definition rt_event_recv ::
  "ptr \<Rightarrow> u32 \<Rightarrow> u8 \<Rightarrow> u32 \<Rightarrow> kernel \<Rightarrow> ((rt_err \<times> u32 option) outcome \<times> kernel) option" where
  "rt_event_recv e evset option timeout k =
     do { rt_assert (k_interrupt_nest k = 0);
          if evset = 0 then Some (Done (-RT_ERROR, None), k)
          else do {
            t \<leftarrow> rt_thread_self k;
            let k1 = upd_thread t (\<lambda>th. th\<lparr>t_error := RT_EOK\<rparr>) k;
            let eset = e_set (k_events k1 e);
            let status = (if option AND RT_EVENT_FLAG_AND \<noteq> 0 then eset AND evset = evset
                          else if option AND RT_EVENT_FLAG_OR \<noteq> 0 then eset AND evset \<noteq> 0 else False);
            if status then
              Some (Done (RT_EOK, Some (eset AND evset)),
                    if option AND RT_EVENT_FLAG_CLEAR \<noteq> 0
                    then upd_event e (\<lambda>ev. ev\<lparr>e_set := e_set ev AND NOT evset\<rparr>) k1 else k1)
            else if timeout = 0 then
              Some (Done (-RT_ETIMEOUT, None), upd_thread t (\<lambda>th. th\<lparr>t_error := -RT_ETIMEOUT\<rparr>) k1)
            else do {
              let k2 = upd_thread t (\<lambda>th. th\<lparr>t_event_set := evset, t_event_info := option\<rparr>) k1;
              k3 \<leftarrow> ipc_block (Event_Q e) t (o_flag (k_objects k2 (OEvent e))) timeout k2;
              if k_current k3 = Some t then Some (Done (rt_event_recv_resumed t k3), k3) else Some (Blocked, k3) } } }"

definition rt_event_control :: "ptr \<Rightarrow> u8 \<Rightarrow> u32 \<Rightarrow> kernel \<Rightarrow> (rt_err \<times> kernel) option" where
  "rt_event_control e cmd arg k =
     (if cmd = RT_IPC_CMD_RESET then
        do { k1 \<leftarrow> rt_ipc_list_resume_all (Event_Q e) k;
             k2 \<leftarrow> rt_schedule (upd_event e (\<lambda>ev. ev\<lparr>e_set := 0\<rparr>) k1);
             Some (RT_EOK, k2) }
      else Some (-RT_ERROR, k))"

section \<open>Matching\<close>

definition event_match :: "u8 \<Rightarrow> u32 \<Rightarrow> u32 \<Rightarrow> bool" where
  "event_match info tset eset \<longleftrightarrow>
     (if info AND RT_EVENT_FLAG_AND \<noteq> 0 then tset AND eset = tset
      else info AND RT_EVENT_FLAG_OR \<noteq> 0 \<and> tset AND eset \<noteq> 0)"

lemma event_match_mono:
  assumes "event_match info tset eset'" "eset' AND eset = eset'"
  shows "event_match info tset eset"
proof -
  have sub: "bit eset' n \<Longrightarrow> bit eset n" for n using assms(2) by (metis bit_and_iff)
  have "tset AND eset = tset" if "tset AND eset' = tset"
  proof (rule bit_eqI)
    fix n show "bit (tset AND eset) n = bit tset n" using that sub by (metis bit_and_iff)
  qed
  moreover have "tset AND eset \<noteq> 0" if "tset AND eset' \<noteq> 0"
  proof -
    from that obtain n where "bit (tset AND eset') n" by (metis bit_eqI bit_0_eq bot_apply bot_bool_def)
    then have "bit (tset AND eset) n" using sub by (simp add: bit_and_iff)
    then show ?thesis by (metis bit_0_eq bot_apply bot_bool_def)
  qed
  ultimately show ?thesis using assms(1) by (auto simp: event_match_def split: if_splits)
qed

lemma upd_event_fields [simp]:
  "k_events (upd_event m f k) = (k_events k)(m := f (k_events k m))" "k_threads (upd_event m f k) = k_threads k"
  "k_tlists (upd_event m f k) = k_tlists k" "k_current (upd_event m f k) = k_current k" "k_tick (upd_event m f k) = k_tick k"
  "k_lock_nest (upd_event m f k) = k_lock_nest k" "kinv b B (upd_event m f k) \<longleftrightarrow> kinv b B k"
  "runnable (upd_event m f k) \<longleftrightarrow> runnable k" "k_interrupt_nest (upd_event m f k) = k_interrupt_nest k"
  "k_objects (upd_event m f k) = k_objects k"
  by (simp_all add: upd_event_def runnable_def)

lemma kinv_event_set [simp]:
  "kinv b B (upd_thread t (\<lambda>th. th\<lparr>t_event_set := f th\<rparr>) k) \<longleftrightarrow> kinv b B k"
  "kinv b B (upd_thread t (\<lambda>th. th\<lparr>t_event_set := f th, t_event_info := g th\<rparr>) k) \<longleftrightarrow> kinv b B k"
  by (rule kinv_cong; simp add: same_threads_def same_timers_def)+

section \<open>Sending\<close>

text \<open>One waiter: it is resumed if its condition holds, and is left alone otherwise.\<close>

lemma deliver_no_match:
  "\<not> event_match (t_event_info (thread k t)) (t_event_set (thread k t)) (e_set (k_events k e)) \<Longrightarrow>
   event_deliver e t k = (False, k)"
  by (auto simp: event_deliver_def event_match_def Let_def split: if_splits)

definition delivered :: "ptr \<Rightarrow> tid \<Rightarrow> kernel \<Rightarrow> kernel" where
  "delivered e t k = snd (event_deliver e t k)"

lemma deliver_match:
  assumes inv: "kinv b B k" and q: "k_tlists k (Event_Q e) = xs @ t # ys"
    and m: "event_match (t_event_info (thread k t)) (t_event_set (thread k t)) (e_set (k_events k e))"
  shows "event_deliver e t k = (True, delivered e t k)" "kinv b B (delivered e t k)"
    "stat (delivered e t k) t = RT_THREAD_READY" "k_tlists (delivered e t k) (Event_Q e) = xs @ ys"
    "u \<noteq> t \<Longrightarrow> thread (delivered e t k) u = thread k u" "k_current (delivered e t k) = k_current k"
    "k_tick (delivered e t k) = k_tick k"
    "e_set (k_events (delivered e t k) e) AND e_set (k_events k e) = e_set (k_events (delivered e t k) e)"
proof -
  let ?k1 = "if t_event_info (thread k t) AND RT_EVENT_FLAG_AND \<noteq> 0 then k
     else upd_thread t (\<lambda>th. th\<lparr>t_event_set := t_event_set (thread k t) AND e_set (k_events k e)\<rparr>) k"
  let ?k2 = "if t_event_info (thread k t) AND RT_EVENT_FLAG_CLEAR \<noteq> 0
     then upd_event e (\<lambda>ev. ev\<lparr>e_set := e_set ev AND NOT (t_event_set (thread ?k1 t))\<rparr>) ?k1 else ?k1"
  have eq: "event_deliver e t k = (True, snd (rt_thread_resume t ?k2))"
    using m by (auto simp: event_deliver_def event_match_def Let_def split: if_splits)
  then have d: "delivered e t k = snd (rt_thread_resume t ?k2)" by (simp add: delivered_def)
  show "event_deliver e t k = (True, delivered e t k)" using eq d by simp
  have "kinv b B ?k2" using inv by simp
  then show "kinv b B (delivered e t k)" unfolding d by (rule resume_kinv)
  have "stat k t = RT_THREAD_SUSPEND" using waiter_suspended[OF kinvD(1)[OF inv], of "Event_Q e" t] q by simp
  then have st: "stat ?k2 t = RT_THREAD_SUSPEND" by simp
  note r = resume_eq[OF st]
  show "stat (delivered e t k) t = RT_THREAD_READY" by (simp add: d r)
  have "distinct (xs @ t # ys)" using store_wf_distinct[OF sinv_wf[OF kinvD(1)[OF inv]], of "Event_Q e"] q by simp
  then show "k_tlists (delivered e t k) (Event_Q e) = xs @ ys" using q by (simp add: d r st_append_def)
  show "u \<noteq> t \<Longrightarrow> thread (delivered e t k) u = thread k u" by (simp add: d r)
  show "k_current (delivered e t k) = k_current k" "k_tick (delivered e t k) = k_tick k" by (simp_all add: d)
  have "e_set (k_events ?k2 e) AND e_set (k_events k e) = e_set (k_events ?k2 e)"
    by (simp add: and.assoc and.commute and.left_commute)
  then show "e_set (k_events (delivered e t k) e) AND e_set (k_events k e) = e_set (k_events (delivered e t k) e)"
    by (simp add: d)
qed

text \<open>The scan of the rest \<open>ys\<close> of the queue, whose part \<open>xs\<close> in front has been left waiting.\<close>

definition unmatched :: "ptr \<Rightarrow> kernel \<Rightarrow> tid \<Rightarrow> bool" where
  "unmatched e k t \<longleftrightarrow> \<not> event_match (t_event_info (thread k t)) (t_event_set (thread k t)) (e_set (k_events k e))"

lemma event_scan_inv:
  assumes "kinv b B k" "k_tlists k (Event_Q e) = xs @ ys" "\<forall>t\<in>set xs. unmatched e k t"
    "event_scan e ys (need, k) = (need', k')"
  shows "kinv b B k' \<and> k_current k' = k_current k \<and> k_tick k' = k_tick k \<and>
     set (k_tlists k' (Event_Q e)) \<subseteq> set (xs @ ys) \<and> set xs \<subseteq> set (k_tlists k' (Event_Q e)) \<and> (\<forall>t\<in>set (k_tlists k' (Event_Q e)). unmatched e k' t) \<and>
     (\<forall>t\<in>set ys. t \<notin> set (k_tlists k' (Event_Q e)) \<longrightarrow> stat k' t = RT_THREAD_READY) \<and>
     (\<forall>t. stat k t = RT_THREAD_READY \<longrightarrow> stat k' t = RT_THREAD_READY)"
  using assms
proof (induction ys arbitrary: xs k need)
  case Nil
  then show ?case by simp
next
  case (Cons t ys)
  show ?case
  proof (cases "unmatched e k t")
    case True
    then have "event_scan e ys (need, k) = (need', k')"
      using Cons.prems(4) deliver_no_match[of k t e] by (simp add: unmatched_def)
    moreover have "k_tlists k (Event_Q e) = (xs @ [t]) @ ys" "\<forall>u\<in>set (xs @ [t]). unmatched e k u"
      using Cons.prems(2,3) True by auto
    ultimately have ih: "kinv b B k' \<and> k_current k' = k_current k \<and> k_tick k' = k_tick k \<and>
       set (k_tlists k' (Event_Q e)) \<subseteq> set ((xs @ [t]) @ ys) \<and> set (xs @ [t]) \<subseteq> set (k_tlists k' (Event_Q e)) \<and> (\<forall>t\<in>set (k_tlists k' (Event_Q e)). unmatched e k' t) \<and>
       (\<forall>t\<in>set ys. t \<notin> set (k_tlists k' (Event_Q e)) \<longrightarrow> stat k' t = RT_THREAD_READY) \<and>
       (\<forall>t. stat k t = RT_THREAD_READY \<longrightarrow> stat k' t = RT_THREAD_READY)"
      using Cons.IH[OF Cons.prems(1)] by blast
    then show ?thesis by auto
  next
    case False
    then have m: "event_match (t_event_info (thread k t)) (t_event_set (thread k t)) (e_set (k_events k e))"
      by (simp add: unmatched_def)
    note d = deliver_match[OF Cons.prems(1,2) m]
    have scan: "event_scan e ys (True, delivered e t k) = (need', k')" using Cons.prems(4) by (simp add: d(1))
    have dist: "t \<notin> set (xs @ ys)"
      using store_wf_distinct[OF sinv_wf[OF kinvD(1)[OF Cons.prems(1)]], of "Event_Q e"] Cons.prems(2) by simp
    have un: "\<forall>u\<in>set xs. unmatched e (delivered e t k) u"
    proof
      fix u assume u: "u \<in> set xs"
      then have "u \<noteq> t" using dist by auto
      then have "thread (delivered e t k) u = thread k u" by (rule d(5))
      moreover have "unmatched e k u" using Cons.prems(3) u by simp
      ultimately show "unmatched e (delivered e t k) u"
        unfolding unmatched_def using event_match_mono[OF _ d(8)] by metis
    qed
    note ih = Cons.IH[OF d(2) d(4) un scan]
    have "stat (delivered e t k) u = RT_THREAD_READY" if "stat k u = RT_THREAD_READY" for u
      using that d(3) d(5)[of u] by (cases "u = t") simp_all
    then show ?thesis using ih d(3) d(6,7) by auto
  qed
qed

lemma event_send_returns:
  assumes inv: "kernel_inv k" and run: "runnable k" and s: "evset \<noteq> 0"
  shows "returns (rt_event_send e evset k) (\<lambda>(r, k'). r = RT_EOK \<and> kernel_inv k' \<and> runnable k' \<and>
     (\<forall>t\<in>set (k_tlists k' (Event_Q e)). unmatched e k' t) \<and>
     (\<forall>t\<in>set (k_tlists k (Event_Q e)). t \<notin> set (k_tlists k' (Event_Q e)) \<longrightarrow> stat k' t = RT_THREAD_READY))"
proof -
  let ?k1 = "upd_event e (\<lambda>ev. ev\<lparr>e_set := e_set ev OR evset\<rparr>) k"
  obtain need k2 where sc: "event_scan e (k_tlists k (Event_Q e)) (False, ?k1) = (need, k2)" by fastforce
  have k1: "kinv (k_tick k) (HALF - 1) ?k1" using inv by simp
  have "k_tlists ?k1 (Event_Q e) = [] @ k_tlists k (Event_Q e)" by simp
  from event_scan_inv[OF k1 this _ sc] have k2: "kinv (k_tick k) (HALF - 1) k2" "k_current k2 = k_current k" "k_tick k2 = k_tick k"
    "\<forall>t\<in>set (k_tlists k2 (Event_Q e)). unmatched e k2 t"
    "\<forall>t\<in>set (k_tlists k (Event_Q e)). t \<notin> set (k_tlists k2 (Event_Q e)) \<longrightarrow> stat k2 t = RT_THREAD_READY"
    "\<forall>t. stat k t = RT_THREAD_READY \<longrightarrow> stat k2 t = RT_THREAD_READY" by auto
  have run2: "runnable k2" using run k2(2,6) by (auto simp: runnable_def)
  show ?thesis
  proof (cases need)
    case True
    have "returns (rt_schedule k2) (\<lambda>k'. kernel_inv k' \<and> runnable k' \<and> (\<forall>t\<in>set (k_tlists k' (Event_Q e)). unmatched e k' t) \<and>
     (\<forall>t\<in>set (k_tlists k (Event_Q e)). t \<notin> set (k_tlists k' (Event_Q e)) \<longrightarrow> stat k' t = RT_THREAD_READY))"
      by (rule returns_mono[OF schedule_returns[OF k2(1) run2]])
        (use k2 in \<open>auto simp: scheduled_frame unmatched_def\<close>)
    then show ?thesis using s sc True by (simp add: rt_event_send_def Let_def)
  next
    case False
    then show ?thesis using s sc k2 run2 by (simp add: rt_event_send_def Let_def)
  qed
qed

end
