(* ===== verification/Fifo_Spec.thy ===== *)
theory Fifo_Spec
  imports RT_Prelude
begin

text \<open>
  The contract of a bounded first-in first-out store: what the mailbox, the message queue and the ring
  buffer promise to their users.  \<open>contents\<close> is the abstract value of the concrete store, and \<open>valid\<close>
  says which values fit it.
\<close>

text \<open>Taking \<open>n\<close> values out, one after the other.\<close>

fun get_n :: "('s \<Rightarrow> 'a \<times> 's) \<Rightarrow> nat \<Rightarrow> 's \<Rightarrow> 'a list \<times> 's" where
  "get_n get 0 s = ([], s)"
| "get_n get (Suc n) s = (let (v, s1) = get s; (vs, s2) = get_n get n s1 in (v # vs, s2))"

locale fifo =
  fixes inv :: "'s \<Rightarrow> bool"
    and contents :: "'s \<Rightarrow> 'a list"
    and cap :: "'s \<Rightarrow> nat"
    and valid :: "'s \<Rightarrow> 'a \<Rightarrow> bool"
    and put :: "'a \<Rightarrow> 's \<Rightarrow> 's"
    and get :: "'s \<Rightarrow> 'a \<times> 's"
  assumes put_ok: "inv s \<Longrightarrow> valid s v \<Longrightarrow> length (contents s) < cap s \<Longrightarrow>
      inv (put v s) \<and> contents (put v s) = contents s @ [v] \<and> cap (put v s) = cap s \<and> valid (put v s) = valid s"
    and get_ok: "inv s \<Longrightarrow> contents s = v # vs \<Longrightarrow>
      fst (get s) = v \<and> inv (snd (get s)) \<and> contents (snd (get s)) = vs \<and> cap (snd (get s)) = cap s"
begin

lemma put_all:
  "inv s \<Longrightarrow> \<forall>v\<in>set vs. valid s v \<Longrightarrow> length (contents s) + length vs \<le> cap s \<Longrightarrow>
   inv (fold put vs s) \<and> contents (fold put vs s) = contents s @ vs \<and> cap (fold put vs s) = cap s"
proof (induction vs arbitrary: s)
  case (Cons v vs)
  then have p: "inv (put v s)" "contents (put v s) = contents s @ [v]" "cap (put v s) = cap s" "valid (put v s) = valid s"
    using put_ok[of s v] by simp_all
  then show ?case using Cons.IH[of "put v s"] Cons.prems by simp
qed simp

lemma get_all:
  "inv s \<Longrightarrow> n \<le> length (contents s) \<Longrightarrow>
   fst (get_n get n s) = take n (contents s) \<and> inv (snd (get_n get n s)) \<and> contents (snd (get_n get n s)) = drop n (contents s)"
proof (induction n arbitrary: s)
  case (Suc n)
  then obtain v vs where c: "contents s = v # vs" by (cases "contents s") auto
  note g = get_ok[OF Suc.prems(1) c]
  then have "fst (get_n get n (snd (get s))) = take n vs \<and> inv (snd (get_n get n (snd (get s)))) \<and>
      contents (snd (get_n get n (snd (get s)))) = drop n vs"
    using Suc.IH[of "snd (get s)"] Suc.prems(2) c by simp
  then show ?case using g c by (simp add: case_prod_unfold Let_def)
qed simp

text \<open>What is put into an empty store comes out again, in the same order, and leaves it empty.\<close>

lemma round_trip:
  assumes "inv s" "contents s = []" "\<forall>v\<in>set vs. valid s v" "length vs \<le> cap s"
  shows "fst (get_n get (length vs) (fold put vs s)) = vs \<and> contents (snd (get_n get (length vs) (fold put vs s))) = []"
  using put_all[of s vs] get_all[of "fold put vs s" "length vs"] assms by simp

end

end
