(* ===== verification/Mailbox.thy ===== *)
theory Mailbox
  imports Semaphore Fifo_Spec
begin

unbundle bit_operations_syntax

text \<open>
  Mailboxes, from \<^verbatim>\<open>src/ipc.c\<close>: a ring of words with a queue of waiting receivers and one of waiting
  senders.
\<close>

section \<open>The code\<close>

definition upd_mb :: "ptr \<Rightarrow> (rt_mailbox \<Rightarrow> rt_mailbox) \<Rightarrow> kernel \<Rightarrow> kernel" where
  "upd_mb m f k = k\<lparr>k_mailboxes := (k_mailboxes k)(m := f (k_mailboxes k m))\<rparr>"

definition rt_mb_init :: "ptr \<Rightarrow> cstr \<Rightarrow> u32 \<Rightarrow> u32 list \<Rightarrow> u32 \<Rightarrow> u8 \<Rightarrow> kernel \<Rightarrow> kernel" where
  "rt_mb_init m name addr msgpool sz flag k =
     (let k1 = rt_object_init (OMailBox m) RT_Object_Class_MailBox name k;
          k2 = set_obj_flag (OMailBox m) flag k1;
          k3 = rt_ipc_object_init (Mb_Recv_Q m) k2;
          k4 = upd_mb m (\<lambda>_. \<lparr>mb_pool_addr = addr, mb_msg_pool = msgpool, mb_size = ucast sz, mb_entry = 0,
                              mb_in_offset = 0, mb_out_offset = 0\<rparr>) k3
      in rt_ipc_object_init (Mb_Send_Q m) k4)"

definition rt_mb_detach :: "ptr \<Rightarrow> kernel \<Rightarrow> kernel option" where
  "rt_mb_detach m k =
     do { k1 \<leftarrow> rt_ipc_list_resume_all (Mb_Recv_Q m) k;
          k2 \<leftarrow> rt_ipc_list_resume_all (Mb_Send_Q m) k1;
          Some (rt_object_detach (OMailBox m) k2) }"

text \<open>The assignments that store a mail, and those that fetch one.\<close>

definition mb_put :: "u32 \<Rightarrow> rt_mailbox \<Rightarrow> rt_mailbox" where
  "mb_put value mb =
     (let mb1 = mb\<lparr>mb_msg_pool := (mb_msg_pool mb)[unat (mb_in_offset mb) := value]\<rparr>;
          mb2 = mb1\<lparr>mb_in_offset := mb_in_offset mb1 + 1\<rparr>;
          mb3 = (if mb_in_offset mb2 \<ge> mb_size mb2 then mb2\<lparr>mb_in_offset := 0\<rparr> else mb2)
      in mb3\<lparr>mb_entry := mb_entry mb3 + 1\<rparr>)"

definition mb_get :: "rt_mailbox \<Rightarrow> u32 \<times> rt_mailbox" where
  "mb_get mb =
     (let value = mb_msg_pool mb ! unat (mb_out_offset mb);
          mb2 = mb\<lparr>mb_out_offset := mb_out_offset mb + 1\<rparr>;
          mb3 = (if mb_out_offset mb2 \<ge> mb_size mb2 then mb2\<lparr>mb_out_offset := 0\<rparr> else mb2)
      in (value, mb3\<lparr>mb_entry := mb_entry mb3 - 1\<rparr>))"

text \<open>What is left of a time-out after the wait that began at tick \<open>start\<close>.\<close>

definition timeout_left :: "u32 \<Rightarrow> u32 \<Rightarrow> u32 \<Rightarrow> u32" where
  "timeout_left timeout start now =
     (if 0 < sint timeout then
        (let timeout' = timeout - (now - start) in if sint timeout' < 0 then 0 else timeout')
      else timeout)"

text \<open>The part of a send behind its loop.\<close>

definition mb_deposit :: "ptr \<Rightarrow> u32 \<Rightarrow> kernel \<Rightarrow> (rt_err outcome \<times> kernel) option" where
  "mb_deposit m value k =
     (let k1 = upd_mb m (mb_put value) k
      in if k_tlists k1 (Mb_Recv_Q m) \<noteq> [] then
           do { k2 \<leftarrow> rt_ipc_list_resume (Mb_Recv_Q m) k1; k3 \<leftarrow> rt_schedule k2; Some (Done RT_EOK, k3) }
         else Some (Done RT_EOK, k1))"

text \<open>The loop.  When \<^verbatim>\<open>rt_schedule\<close> leaves the caller on the processor (the scheduler is locked) the
  loop goes on at once.\<close>

partial_function (option) mb_send_loop ::
  "ptr \<Rightarrow> u32 \<Rightarrow> u32 \<Rightarrow> tid option \<Rightarrow> kernel \<Rightarrow> (rt_err outcome \<times> kernel) option" where
  "mb_send_loop m value timeout self k =
     (if mb_entry (k_mailboxes k m) = mb_size (k_mailboxes k m) then
        do { t \<leftarrow> self;
             let k1 = upd_thread t (\<lambda>th. th\<lparr>t_error := RT_EOK\<rparr>) k;
             if timeout = 0 then Some (Done (-RT_EFULL), k1)
             else do {
               rt_assert (k_interrupt_nest k1 = 0);
               k2 \<leftarrow> ipc_block (Mb_Send_Q m) t (o_flag (k_objects k1 (OMailBox m))) timeout k1;
               if k_current k2 \<noteq> Some t then Some (Blocked, k2)
               else if t_error (thread k2 t) \<noteq> RT_EOK then Some (Done (t_error (thread k2 t)), k2)
               else mb_send_loop m value (timeout_left timeout (k_tick k1) (k_tick k2)) self k2 } }
      else mb_deposit m value k)"

definition rt_mb_send_wait :: "ptr \<Rightarrow> u32 \<Rightarrow> u32 \<Rightarrow> kernel \<Rightarrow> (rt_err outcome \<times> kernel) option" where
  "rt_mb_send_wait m value timeout k =
     (if mb_entry (k_mailboxes k m) = mb_size (k_mailboxes k m) \<and> timeout = 0 then Some (Done (-RT_EFULL), k)
      else mb_send_loop m value timeout (rt_thread_self k) k)"

text \<open>The rest of a send that waited since tick \<open>start\<close>.\<close>

definition rt_mb_send_wait_resumed ::
  "ptr \<Rightarrow> u32 \<Rightarrow> u32 \<Rightarrow> u32 \<Rightarrow> tid \<Rightarrow> kernel \<Rightarrow> (rt_err outcome \<times> kernel) option" where
  "rt_mb_send_wait_resumed m value timeout start t k =
     (if t_error (thread k t) \<noteq> RT_EOK then Some (Done (t_error (thread k t)), k)
      else mb_send_loop m value (timeout_left timeout start (k_tick k)) (Some t) k)"

definition rt_mb_send :: "ptr \<Rightarrow> u32 \<Rightarrow> kernel \<Rightarrow> (rt_err outcome \<times> kernel) option" where
  "rt_mb_send m value k = rt_mb_send_wait m value 0 k"

text \<open>Receiving; the result is the error and the mail stored at \<^verbatim>\<open>*value\<close>.\<close>

type_synonym mb_result = "(rt_err \<times> u32 option) outcome"

definition mb_fetch :: "ptr \<Rightarrow> kernel \<Rightarrow> (mb_result \<times> kernel) option" where
  "mb_fetch m k =
     (let value = fst (mb_get (k_mailboxes k m)); k1 = upd_mb m (\<lambda>mb. snd (mb_get mb)) k
      in if k_tlists k1 (Mb_Send_Q m) \<noteq> [] then
           do { k2 \<leftarrow> rt_ipc_list_resume (Mb_Send_Q m) k1; k3 \<leftarrow> rt_schedule k2;
                Some (Done (RT_EOK, Some value), k3) }
         else Some (Done (RT_EOK, Some value), k1))"

partial_function (option) mb_recv_loop ::
  "ptr \<Rightarrow> u32 \<Rightarrow> tid option \<Rightarrow> kernel \<Rightarrow> (mb_result \<times> kernel) option" where
  "mb_recv_loop m timeout self k =
     (if mb_entry (k_mailboxes k m) = 0 then
        do { t \<leftarrow> self;
             let k1 = upd_thread t (\<lambda>th. th\<lparr>t_error := RT_EOK\<rparr>) k;
             if timeout = 0 then
               Some (Done (-RT_ETIMEOUT, None), upd_thread t (\<lambda>th. th\<lparr>t_error := -RT_ETIMEOUT\<rparr>) k1)
             else do {
               rt_assert (k_interrupt_nest k1 = 0);
               k2 \<leftarrow> ipc_block (Mb_Recv_Q m) t (o_flag (k_objects k1 (OMailBox m))) timeout k1;
               if k_current k2 \<noteq> Some t then Some (Blocked, k2)
               else if t_error (thread k2 t) \<noteq> RT_EOK then Some (Done (t_error (thread k2 t), None), k2)
               else mb_recv_loop m (timeout_left timeout (k_tick k1) (k_tick k2)) self k2 } }
      else mb_fetch m k)"

definition rt_mb_recv :: "ptr \<Rightarrow> u32 \<Rightarrow> kernel \<Rightarrow> (mb_result \<times> kernel) option" where
  "rt_mb_recv m timeout k =
     (if mb_entry (k_mailboxes k m) = 0 \<and> timeout = 0 then Some (Done (-RT_ETIMEOUT, None), k)
      else mb_recv_loop m timeout (rt_thread_self k) k)"

definition rt_mb_recv_resumed :: "ptr \<Rightarrow> u32 \<Rightarrow> u32 \<Rightarrow> tid \<Rightarrow> kernel \<Rightarrow> (mb_result \<times> kernel) option" where
  "rt_mb_recv_resumed m timeout start t k =
     (if t_error (thread k t) \<noteq> RT_EOK then Some (Done (t_error (thread k t), None), k)
      else mb_recv_loop m (timeout_left timeout start (k_tick k)) (Some t) k)"

definition rt_mb_control :: "ptr \<Rightarrow> u8 \<Rightarrow> u32 \<Rightarrow> kernel \<Rightarrow> (rt_err \<times> kernel) option" where
  "rt_mb_control m cmd arg k =
     (if cmd = RT_IPC_CMD_RESET then
        do { k1 \<leftarrow> rt_ipc_list_resume_all (Mb_Recv_Q m) k;
             k2 \<leftarrow> rt_ipc_list_resume_all (Mb_Send_Q m) k1;
             k3 \<leftarrow> rt_schedule (upd_mb m (\<lambda>mb. mb\<lparr>mb_entry := 0, mb_in_offset := 0, mb_out_offset := 0\<rparr>) k2);
             Some (RT_EOK, k3) }
      else Some (-RT_ERROR, k))"

section \<open>The ring\<close>

definition mb_ok :: "rt_mailbox \<Rightarrow> bool" where
  "mb_ok mb \<longleftrightarrow> 0 < mb_size mb \<and> unat (mb_size mb) \<le> length (mb_msg_pool mb) \<and> mb_entry mb \<le> mb_size mb \<and>
     mb_in_offset mb < mb_size mb \<and> mb_out_offset mb < mb_size mb \<and>
     unat (mb_in_offset mb) = (unat (mb_out_offset mb) + unat (mb_entry mb)) mod unat (mb_size mb)"

definition mb_contents :: "rt_mailbox \<Rightarrow> u32 list" where
  "mb_contents mb = map (\<lambda>i. mb_msg_pool mb ! ((unat (mb_out_offset mb) + i) mod unat (mb_size mb))) [0..<unat (mb_entry mb)]"

text \<open>Stepping an offset round the ring.\<close>

lemma ring_step:
  fixes x n :: u16
  assumes "x < n"
  shows "unat (if n \<le> x + 1 then 0 else x + 1) = Suc (unat x) mod unat n"
    "(if n \<le> x + 1 then 0 else x + 1) < n"
proof -
  have n: "unat x < unat n" using assms by (simp add: word_less_nat_alt)
  have "unat x + 1 < 2 ^ 16" using n unsigned_less[of n, where 'a = nat] by simp
  then have s: "unat (x + 1) = Suc (unat x)" by (simp add: unat_word_ariths)
  show "unat (if n \<le> x + 1 then 0 else x + 1) = Suc (unat x) mod unat n"
    using n s by (auto simp: word_le_nat_alt not_le le_Suc_eq)
  show "(if n \<le> x + 1 then 0 else x + 1) < n"
    using n s by (auto simp: word_le_nat_alt word_less_nat_alt)
qed

lemma ring_index_inj:
  assumes "i < n" "j < n" "(a + i) mod n = (a + j) mod (n :: nat)"
  shows "i = j"
proof (rule ccontr)
  assume "i \<noteq> j"
  have "int n dvd (int a + int i) - (int a + int j)"
    using assms(3) by (metis mod_eq_dvd_iff of_nat_add of_nat_mod)
  then have "int n dvd int i - int j" by simp
  with \<open>i \<noteq> j\<close> have "\<bar>int n\<bar> \<le> \<bar>int i - int j\<bar>" by (intro dvd_imp_le_int) simp_all
  with assms(1,2) show False by linarith
qed

lemma mb_put_ok:
  assumes ok: "mb_ok mb" and room: "mb_entry mb \<noteq> mb_size mb"
  shows "mb_ok (mb_put v mb) \<and> mb_contents (mb_put v mb) = mb_contents mb @ [v] \<and> mb_size (mb_put v mb) = mb_size mb"
proof -
  let ?n = "unat (mb_size mb)" and ?e = "unat (mb_entry mb)" and ?o = "unat (mb_out_offset mb)"
  let ?in = "unat (mb_in_offset mb)" and ?pool = "mb_msg_pool mb"
  have io: "mb_in_offset mb < mb_size mb" using ok by (simp add: mb_ok_def)
  have "mb_entry mb < mb_size mb" using ok room by (auto simp: mb_ok_def)
  then have e: "?e < ?n" by (simp add: word_less_nat_alt)
  then have se: "unat (mb_entry mb + 1) = Suc ?e"
    using unsigned_less[of "mb_size mb", where 'a = nat] by (simp add: unat_word_ariths)
  have inx: "?in = (?o + ?e) mod ?n" "?n \<le> length ?pool" "?in < ?n"
    using ok by (simp_all add: mb_ok_def word_less_nat_alt)
  let ?in' = "if mb_size mb \<le> mb_in_offset mb + 1 then 0 else mb_in_offset mb + 1"
  have put: "mb_put v mb = mb\<lparr>mb_msg_pool := ?pool[?in := v], mb_in_offset := ?in', mb_entry := mb_entry mb + 1\<rparr>"
    by (simp add: mb_put_def Let_def)
  have ok': "mb_ok (mb_put v mb)"
    using ok ring_step[OF io] se e inx unfolding put mb_ok_def
    by (simp add: word_le_nat_alt mod_Suc_eq)
  have old: "?pool[?in := v] ! ((?o + i) mod ?n) = ?pool ! ((?o + i) mod ?n)" if "i < ?e" for i
  proof -
    have "(?o + i) mod ?n \<noteq> ?in" using ring_index_inj[of i ?n ?e ?o] that e inx(1) by auto
    then show ?thesis by simp
  qed
  have new: "?pool[?in := v] ! ((?o + ?e) mod ?n) = v" using inx by (metis nth_list_update_eq order.strict_trans2)
  have "mb_contents (mb_put v mb) = map (\<lambda>i. ?pool[?in := v] ! ((?o + i) mod ?n)) [0..<Suc ?e]"
    unfolding put mb_contents_def by (simp add: se)
  also have "\<dots> = mb_contents mb @ [v]" using old new by (simp add: mb_contents_def)
  finally show ?thesis using ok' by (simp add: put)
qed

lemma mb_get_ok:
  assumes ok: "mb_ok mb" and some: "mb_entry mb \<noteq> 0"
  shows "mb_contents mb = fst (mb_get mb) # mb_contents (snd (mb_get mb)) \<and> mb_ok (snd (mb_get mb)) \<and>
     mb_size (snd (mb_get mb)) = mb_size mb"
proof -
  let ?n = "unat (mb_size mb)" and ?e = "unat (mb_entry mb)" and ?o = "unat (mb_out_offset mb)"
  have oo: "mb_out_offset mb < mb_size mb" using ok by (simp add: mb_ok_def)
  let ?out' = "if mb_size mb \<le> mb_out_offset mb + 1 then 0 else mb_out_offset mb + 1"
  have get: "mb_get mb = (mb_msg_pool mb ! ?o, mb\<lparr>mb_out_offset := ?out', mb_entry := mb_entry mb - 1\<rparr>)"
    by (simp add: mb_get_def Let_def)
  have e: "0 < ?e" using some by (simp add: unat_gt_0)
  have se: "unat (mb_entry mb - 1) = ?e - 1" using some by (simp add: unat_minus_one)
  have bounds: "?o < ?n" "?e \<le> ?n" using ok by (simp_all add: mb_ok_def word_less_nat_alt word_le_nat_alt)
  have step: "unat ?out' = Suc ?o mod ?n" "?out' < mb_size mb" by (rule ring_step[OF oo])+
  have shift: "(Suc ?o mod ?n + i) mod ?n = (?o + Suc i) mod ?n" for i by (simp add: mod_add_left_eq)
  have "?e - Suc 0 \<le> ?n" using bounds(2) by simp
  then have "mb_ok (snd (mb_get mb))"
    using ok step e se shift[of "?e - 1"] unfolding get snd_conv mb_ok_def by (simp add: word_le_nat_alt)
  moreover have "mb_contents (snd (mb_get mb)) = map (\<lambda>i. mb_msg_pool mb ! ((?o + Suc i) mod ?n)) [0..<?e - 1]"
    unfolding get snd_conv mb_contents_def by (simp add: step(1) se shift)
  moreover have "mb_contents mb = mb_msg_pool mb ! ?o # map (\<lambda>i. mb_msg_pool mb ! ((?o + Suc i) mod ?n)) [0..<?e - 1]"
  proof -
    have "[0..<?e] = 0 # map Suc [0..<?e - 1]" using e by (simp add: map_Suc_upt upt_conv_Cons)
    then show ?thesis using bounds by (simp add: mb_contents_def comp_def)
  qed
  ultimately show ?thesis by (simp add: get)
qed

lemma length_mb_contents [simp]: "length (mb_contents mb) = unat (mb_entry mb)"
  by (simp add: mb_contents_def)

interpretation mb_fifo: fifo mb_ok mb_contents "\<lambda>mb. unat (mb_size mb)" "\<lambda>_ _. True" mb_put mb_get
proof (unfold_locales, goal_cases)
  case (1 mb v)
  then have "mb_entry mb \<noteq> mb_size mb" by auto
  then show ?case using mb_put_ok[OF 1(1)] by simp
next
  case (2 mb v vs)
  then have "mb_entry mb \<noteq> 0" using length_mb_contents[of mb] by auto
  then show ?case using mb_get_ok[OF 2(1)] 2(2) by simp
qed

section \<open>Sending and receiving\<close>

lemma upd_mb_fields [simp]:
  "k_mailboxes (upd_mb m f k) = (k_mailboxes k)(m := f (k_mailboxes k m))" "k_threads (upd_mb m f k) = k_threads k"
  "k_tlists (upd_mb m f k) = k_tlists k" "k_current (upd_mb m f k) = k_current k" "k_tick (upd_mb m f k) = k_tick k"
  "k_lock_nest (upd_mb m f k) = k_lock_nest k" "kinv b B (upd_mb m f k) \<longleftrightarrow> kinv b B k"
  "runnable (upd_mb m f k) \<longleftrightarrow> runnable k"
  by (simp_all add: upd_mb_def runnable_def)

lemma mb_finish:
  assumes inv: "kernel_inv k" and run: "runnable k" and h: "wait_queue h"
  shows "returns (if k_tlists (upd_mb m f k) h \<noteq> []
      then do { k2 \<leftarrow> rt_ipc_list_resume h (upd_mb m f k); k3 \<leftarrow> rt_schedule k2; Some (r, k3) }
      else Some (r, upd_mb m f k))
     (\<lambda>(r', k'). r' = r \<and> kernel_inv k' \<and> runnable k' \<and> k_mailboxes k' = k_mailboxes (upd_mb m f k) \<and> served h k k')"
proof -
  have "kinv (k_tick k) (HALF - 1) (upd_mb m f k)" "runnable (upd_mb m f k)" using inv run by simp_all
  from serve_returns[OF this h, of r] show ?thesis
    by (rule returns_mono) (auto simp: same_objs_def served_def)
qed

lemma mb_deposit_returns:
  assumes inv: "kernel_inv k" and run: "runnable k" and ok: "mb_ok (k_mailboxes k m)"
    and room: "mb_entry (k_mailboxes k m) \<noteq> mb_size (k_mailboxes k m)"
  shows "returns (mb_deposit m v k) (\<lambda>(r, k'). r = Done RT_EOK \<and> kernel_inv k' \<and> runnable k' \<and>
     mb_ok (k_mailboxes k' m) \<and> mb_contents (k_mailboxes k' m) = mb_contents (k_mailboxes k m) @ [v] \<and> served (Mb_Recv_Q m) k k')"
  unfolding mb_deposit_def Let_def
  by (rule returns_mono[OF mb_finish[OF inv run wait_queue_simps(4)]]) (use mb_put_ok[OF ok room, of v] in auto)

lemma mb_send_room:
  assumes "kernel_inv k" "runnable k" "mb_ok (k_mailboxes k m)"
    "mb_entry (k_mailboxes k m) \<noteq> mb_size (k_mailboxes k m)"
  shows "returns (rt_mb_send_wait m v timeout k) (\<lambda>(r, k'). r = Done RT_EOK \<and> kernel_inv k' \<and> runnable k' \<and>
     mb_ok (k_mailboxes k' m) \<and> mb_contents (k_mailboxes k' m) = mb_contents (k_mailboxes k m) @ [v] \<and> served (Mb_Recv_Q m) k k')"
  using mb_deposit_returns[OF assms, of v] assms(4) by (simp add: rt_mb_send_wait_def mb_send_loop.simps)

lemma mb_fetch_returns:
  assumes inv: "kernel_inv k" and run: "runnable k" and ok: "mb_ok (k_mailboxes k m)"
    and some: "mb_contents (k_mailboxes k m) = v # vs"
  shows "returns (mb_fetch m k) (\<lambda>(r, k'). r = Done (RT_EOK, Some v) \<and> kernel_inv k' \<and> runnable k' \<and>
     mb_ok (k_mailboxes k' m) \<and> mb_contents (k_mailboxes k' m) = vs \<and> served (Mb_Send_Q m) k k')"
proof -
  note g = mb_fifo.get_ok[OF ok some]
  show ?thesis
    unfolding mb_fetch_def Let_def
    by (rule returns_mono[OF mb_finish[OF inv run wait_queue_simps(5)]]) (use g in auto)
qed

lemma mb_recv_some:
  assumes "kernel_inv k" "runnable k" "mb_ok (k_mailboxes k m)" "mb_contents (k_mailboxes k m) = v # vs"
  shows "returns (rt_mb_recv m timeout k) (\<lambda>(r, k'). r = Done (RT_EOK, Some v) \<and> kernel_inv k' \<and> runnable k' \<and>
     mb_ok (k_mailboxes k' m) \<and> mb_contents (k_mailboxes k' m) = vs \<and> served (Mb_Send_Q m) k k')"
proof -
  have "mb_entry (k_mailboxes k m) \<noteq> 0" using assms(4) length_mb_contents[of "k_mailboxes k m"] by auto
  then show ?thesis using mb_fetch_returns[OF assms] by (simp add: rt_mb_recv_def mb_recv_loop.simps)
qed

lemma mb_send_blocks:
  assumes inv: "kernel_inv k" and full: "mb_entry (k_mailboxes k m) = mb_size (k_mailboxes k m)"
    and time: "timeout \<noteq> 0" "time_ok timeout" and irq: "k_interrupt_nest k = 0" and blk: "may_block t k"
    and flag: "flag_ok (o_flag (k_objects k (OMailBox m)))"
  shows "returns (rt_mb_send_wait m v timeout k) (\<lambda>(r, k'). r = Blocked \<and> kernel_inv k' \<and> runnable k' \<and>
     waiting (Mb_Send_Q m) t (o_flag (k_objects k (OMailBox m))) timeout (upd_thread t (\<lambda>th. th\<lparr>t_error := RT_EOK\<rparr>) k) k')"
proof -
  let ?k1 = "upd_thread t (\<lambda>th. th\<lparr>t_error := RT_EOK\<rparr>) k"
  have c: "k_current k = Some t" using blk by (simp add: may_block_def)
  have "kernel_inv ?k1" "may_block t ?k1" using inv blk by simp_all
  note b = ipc_block_returns[OF this(1) wait_queue_simps(5) this(2) flag time(2)]
  show ?thesis
    unfolding rt_mb_send_wait_def rt_thread_self_def c using full time(1) irq b[of m]
    by (subst mb_send_loop.simps) (auto simp: Let_def dest: waiting_away elim!: returns_mono)
qed

lemma mb_recv_blocks:
  assumes inv: "kernel_inv k" and empty: "mb_entry (k_mailboxes k m) = 0"
    and time: "timeout \<noteq> 0" "time_ok timeout" and irq: "k_interrupt_nest k = 0" and blk: "may_block t k"
    and flag: "flag_ok (o_flag (k_objects k (OMailBox m)))"
  shows "returns (rt_mb_recv m timeout k) (\<lambda>(r, k'). r = Blocked \<and> kernel_inv k' \<and> runnable k' \<and>
     waiting (Mb_Recv_Q m) t (o_flag (k_objects k (OMailBox m))) timeout (upd_thread t (\<lambda>th. th\<lparr>t_error := RT_EOK\<rparr>) k) k')"
proof -
  let ?k1 = "upd_thread t (\<lambda>th. th\<lparr>t_error := RT_EOK\<rparr>) k"
  have c: "k_current k = Some t" using blk by (simp add: may_block_def)
  have "kernel_inv ?k1" "may_block t ?k1" using inv blk by simp_all
  note b = ipc_block_returns[OF this(1) wait_queue_simps(4) this(2) flag time(2)]
  show ?thesis
    unfolding rt_mb_recv_def rt_thread_self_def c using empty time(1) irq b[of m]
    by (subst mb_recv_loop.simps) (auto simp: Let_def dest: waiting_away elim!: returns_mono)
qed

text \<open>What remains of a time-out never grows and is never negative, as long as the wait was shorter than
  the time-out or than the range of the counter allows.\<close>

lemma timeout_left_spent:
  assumes "0 < sint timeout" "unat (now - start) \<le> unat timeout"
  shows "unat (timeout_left timeout start now) = unat timeout - unat (now - start)"
proof -
  have le: "now - start \<le> timeout" using assms(2) by (simp add: word_le_nat_alt)
  then have u: "unat (timeout - (now - start)) = unat timeout - unat (now - start)" by (simp add: unat_sub)
  moreover have "unat timeout < 2 ^ 31" using assms(1) sint_nonneg_iff[of timeout] by linarith
  ultimately have "0 \<le> sint (timeout - (now - start))"
    unfolding sint_nonneg_iff by (metis diff_le_self order.strict_trans1)
  then show ?thesis using assms(1) u by (simp add: timeout_left_def Let_def)
qed

end
