(* ===== verification/Message_Queue.thy ===== *)
theory Message_Queue
  imports Mailbox
begin

unbundle bit_operations_syntax

text \<open>
  Message queues, from \<^verbatim>\<open>src/ipc.c\<close>: the blocks of a pool are linked either in the queue of messages or
  in the list of free blocks.  A block is its number in the pool; its \<open>next\<close> pointer and its data are
  the maps \<open>mq_next\<close> and \<open>mq_data\<close>.
\<close>

section \<open>The code\<close>

definition upd_mq :: "ptr \<Rightarrow> (rt_messagequeue \<Rightarrow> rt_messagequeue) \<Rightarrow> kernel \<Rightarrow> kernel" where
  "upd_mq m f k = k\<lparr>k_mqs := (k_mqs k)(m := f (k_mqs k m))\<rparr>"

text \<open>The loop of \<^verbatim>\<open>rt_mq_init\<close> and \<^verbatim>\<open>rt_mq_create\<close> that links the blocks up to \<open>n\<close> into the free list.\<close>

fun mq_link_free :: "nat \<Rightarrow> rt_messagequeue \<Rightarrow> rt_messagequeue" where
  "mq_link_free 0 mq = mq"
| "mq_link_free (Suc n) mq =
     (let mq1 = mq_link_free n mq
      in mq1\<lparr>mq_next := (mq_next mq1)(n := mq_free mq1), mq_free := Some n\<rparr>)"

text \<open>\<open>addr\<close> is the address of the pool, \<open>pool\<close> the memory found there, as the data of its blocks.\<close>

definition rt_mq_init ::
  "ptr \<Rightarrow> cstr \<Rightarrow> u32 \<Rightarrow> (nat \<Rightarrow> u8 list) \<Rightarrow> u32 \<Rightarrow> u32 \<Rightarrow> u8 \<Rightarrow> kernel \<Rightarrow> kernel" where
  "rt_mq_init m name addr pool msg_size pool_size flag k =
     (let k1 = rt_object_init (OMessageQueue m) RT_Object_Class_MessageQueue name k;
          k2 = set_obj_flag (OMessageQueue m) flag k1;
          k3 = rt_ipc_object_init (Mq_Q m) k2;
          sz = ucast (rt_align msg_size) :: u16;
          n = ucast (pool_size div (ucast sz + 4)) :: u16
      in upd_mq m (\<lambda>mq. (mq_link_free (unat n)
             \<lparr>mq_pool_addr = addr, mq_msg_size = sz, mq_max_msgs = n, mq_entry = mq_entry mq, mq_head = None, mq_tail = None,
              mq_free = None, mq_next = mq_next mq, mq_data = pool\<rparr>)\<lparr>mq_entry := 0\<rparr>) k3)"

definition rt_mq_detach :: "ptr \<Rightarrow> kernel \<Rightarrow> kernel option" where
  "rt_mq_detach m k =
     do { k1 \<leftarrow> rt_ipc_list_resume_all (Mq_Q m) k;
          Some (rt_object_detach (OMessageQueue m) k1) }"

text \<open>The parts of the operations: taking a free block, \<^verbatim>\<open>rt_memcpy\<close> of \<open>n\<close> bytes into a block, linking a
  block at the tail or at the head, unlinking the head, and giving a block back.\<close>

definition mq_alloc :: "rt_messagequeue \<Rightarrow> (nat \<times> rt_messagequeue) option" where
  "mq_alloc mq = (case mq_free mq of None \<Rightarrow> None | Some b \<Rightarrow> Some (b, mq\<lparr>mq_free := mq_next mq b\<rparr>))"

definition mq_copy :: "nat \<Rightarrow> u8 list \<Rightarrow> nat \<Rightarrow> rt_messagequeue \<Rightarrow> rt_messagequeue" where
  "mq_copy b buffer n mq = mq\<lparr>mq_data := (mq_data mq)(b := take n buffer @ drop n (mq_data mq b))\<rparr>"

definition mq_set_next :: "nat \<Rightarrow> nat option \<Rightarrow> rt_messagequeue \<Rightarrow> rt_messagequeue" where
  "mq_set_next b p mq = mq\<lparr>mq_next := (mq_next mq)(b := p)\<rparr>"

definition mq_link_tail :: "nat \<Rightarrow> rt_messagequeue \<Rightarrow> rt_messagequeue" where
  "mq_link_tail b mq =
     (let mq1 = (case mq_tail mq of Some l \<Rightarrow> mq_set_next l (Some b) mq | None \<Rightarrow> mq);
          mq2 = mq1\<lparr>mq_tail := Some b\<rparr>;
          mq3 = (if mq_head mq2 = None then mq2\<lparr>mq_head := Some b\<rparr> else mq2)
      in mq3\<lparr>mq_entry := mq_entry mq3 + 1\<rparr>)"

definition mq_link_head :: "nat \<Rightarrow> rt_messagequeue \<Rightarrow> rt_messagequeue" where
  "mq_link_head b mq =
     (let mq1 = mq_set_next b (mq_head mq) mq;
          mq2 = mq1\<lparr>mq_head := Some b\<rparr>;
          mq3 = (if mq_tail mq2 = None then mq2\<lparr>mq_tail := Some b\<rparr> else mq2)
      in mq3\<lparr>mq_entry := mq_entry mq3 + 1\<rparr>)"

definition mq_unlink :: "rt_messagequeue \<Rightarrow> (nat \<times> rt_messagequeue) option" where
  "mq_unlink mq =
     (case mq_head mq of
        None \<Rightarrow> None
      | Some b \<Rightarrow>
          let mq1 = mq\<lparr>mq_head := mq_next mq b\<rparr>;
              mq2 = (if mq_tail mq1 = Some b then mq1\<lparr>mq_tail := None\<rparr> else mq1)
          in Some (b, mq2\<lparr>mq_entry := mq_entry mq2 - 1\<rparr>))"

definition mq_give :: "nat \<Rightarrow> rt_messagequeue \<Rightarrow> rt_messagequeue" where
  "mq_give b mq = (mq_set_next b (mq_free mq) mq)\<lparr>mq_free := Some b\<rparr>"

definition rt_mq_send :: "ptr \<Rightarrow> u8 list \<Rightarrow> u32 \<Rightarrow> kernel \<Rightarrow> (rt_err \<times> kernel) option" where
  "rt_mq_send m buffer sz k =
     do { rt_assert (sz \<noteq> 0);
          if sz > ucast (mq_msg_size (k_mqs k m)) then Some (-RT_ERROR, k)
          else (case mq_alloc (k_mqs k m) of
                  None \<Rightarrow> Some (-RT_EFULL, k)
                | Some (b, mq1) \<Rightarrow>
                    let mq2 = mq_set_next b None mq1;
                        mq3 = mq_copy b buffer (unat sz) mq2;
                        k1 = upd_mq m (\<lambda>_. mq_link_tail b mq3) k
                    in if k_tlists k1 (Mq_Q m) \<noteq> [] then
                         do { k2 \<leftarrow> rt_ipc_list_resume (Mq_Q m) k1; k3 \<leftarrow> rt_schedule k2; Some (RT_EOK, k3) }
                       else Some (RT_EOK, k1)) }"

definition rt_mq_urgent :: "ptr \<Rightarrow> u8 list \<Rightarrow> u32 \<Rightarrow> kernel \<Rightarrow> (rt_err \<times> kernel) option" where
  "rt_mq_urgent m buffer sz k =
     do { rt_assert (sz \<noteq> 0);
          if sz > ucast (mq_msg_size (k_mqs k m)) then Some (-RT_ERROR, k)
          else (case mq_alloc (k_mqs k m) of
                  None \<Rightarrow> Some (-RT_EFULL, k)
                | Some (b, mq1) \<Rightarrow>
                    let mq3 = mq_copy b buffer (unat sz) mq1;
                        k1 = upd_mq m (\<lambda>_. mq_link_head b mq3) k
                    in if k_tlists k1 (Mq_Q m) \<noteq> [] then
                         do { k2 \<leftarrow> rt_ipc_list_resume (Mq_Q m) k1; k3 \<leftarrow> rt_schedule k2; Some (RT_EOK, k3) }
                       else Some (RT_EOK, k1)) }"

text \<open>Receiving; the result is the error and the bytes copied to \<^verbatim>\<open>buffer\<close>.\<close>

type_synonym mq_result = "(rt_err \<times> u8 list option) outcome"

definition mq_fetch :: "ptr \<Rightarrow> u32 \<Rightarrow> kernel \<Rightarrow> (mq_result \<times> kernel) option" where
  "mq_fetch m sz k =
     do { (b, mq1) \<leftarrow> mq_unlink (k_mqs k m);
          let n = (if sz > ucast (mq_msg_size mq1) then unat (mq_msg_size mq1) else unat sz);
          Some (Done (RT_EOK, Some (take n (mq_data mq1 b))), upd_mq m (\<lambda>_. mq_give b mq1) k) }"

partial_function (option) mq_recv_loop ::
  "ptr \<Rightarrow> u32 \<Rightarrow> u32 \<Rightarrow> tid option \<Rightarrow> kernel \<Rightarrow> (mq_result \<times> kernel) option" where
  "mq_recv_loop m sz timeout self k =
     (if mq_entry (k_mqs k m) = 0 then
        do { rt_assert (k_interrupt_nest k = 0);
             t \<leftarrow> self;
             let k1 = upd_thread t (\<lambda>th. th\<lparr>t_error := RT_EOK\<rparr>) k;
             if timeout = 0 then
               Some (Done (-RT_ETIMEOUT, None), upd_thread t (\<lambda>th. th\<lparr>t_error := -RT_ETIMEOUT\<rparr>) k1)
             else do {
               k2 \<leftarrow> ipc_block (Mq_Q m) t (o_flag (k_objects k1 (OMessageQueue m))) timeout k1;
               if k_current k2 \<noteq> Some t then Some (Blocked, k2)
               else if t_error (thread k2 t) \<noteq> RT_EOK then Some (Done (t_error (thread k2 t), None), k2)
               else mq_recv_loop m sz (timeout_left timeout (k_tick k1) (k_tick k2)) self k2 } }
      else mq_fetch m sz k)"

definition rt_mq_recv :: "ptr \<Rightarrow> u32 \<Rightarrow> u32 \<Rightarrow> kernel \<Rightarrow> (mq_result \<times> kernel) option" where
  "rt_mq_recv m sz timeout k =
     do { rt_assert (sz \<noteq> 0);
          if mq_entry (k_mqs k m) = 0 \<and> timeout = 0 then Some (Done (-RT_ETIMEOUT, None), k)
          else mq_recv_loop m sz timeout (rt_thread_self k) k }"

definition rt_mq_recv_resumed :: "ptr \<Rightarrow> u32 \<Rightarrow> u32 \<Rightarrow> u32 \<Rightarrow> tid \<Rightarrow> kernel \<Rightarrow> (mq_result \<times> kernel) option" where
  "rt_mq_recv_resumed m sz timeout start t k =
     (if t_error (thread k t) \<noteq> RT_EOK then Some (Done (t_error (thread k t), None), k)
      else mq_recv_loop m sz (timeout_left timeout start (k_tick k)) (Some t) k)"

text \<open>The loop of \<^verbatim>\<open>rt_mq_control\<close> that gives all queued blocks back.\<close>

partial_function (option) mq_drain :: "rt_messagequeue \<Rightarrow> rt_messagequeue option" where
  "mq_drain mq =
     (case mq_head mq of
        None \<Rightarrow> Some mq
      | Some b \<Rightarrow>
          let mq1 = mq\<lparr>mq_head := mq_next mq b\<rparr>;
              mq2 = (if mq_tail mq1 = Some b then mq1\<lparr>mq_tail := None\<rparr> else mq1)
          in mq_drain (mq_give b mq2))"

definition rt_mq_control :: "ptr \<Rightarrow> u8 \<Rightarrow> u32 \<Rightarrow> kernel \<Rightarrow> (rt_err \<times> kernel) option" where
  "rt_mq_control m cmd arg k =
     (if cmd = RT_IPC_CMD_RESET then
        do { k1 \<leftarrow> rt_ipc_list_resume_all (Mq_Q m) k;
             mq \<leftarrow> mq_drain (k_mqs k1 m);
             k2 \<leftarrow> rt_schedule (upd_mq m (\<lambda>_. mq\<lparr>mq_entry := 0\<rparr>) k1);
             Some (RT_EOK, k2) }
      else Some (-RT_ERROR, k))"

section \<open>The two lists\<close>

text \<open>Following \<open>next\<close> from \<open>p\<close> visits exactly the blocks \<open>xs\<close>.\<close>

fun mq_path :: "(nat \<Rightarrow> nat option) \<Rightarrow> nat option \<Rightarrow> nat list \<Rightarrow> bool" where
  "mq_path nxt p [] \<longleftrightarrow> p = None"
| "mq_path nxt p (x # xs) \<longleftrightarrow> p = Some x \<and> mq_path nxt (nxt x) xs"

lemma mq_path_upd: "b \<notin> set xs \<Longrightarrow> mq_path (nxt(b := q)) p xs \<longleftrightarrow> mq_path nxt p xs"
  by (induction xs arbitrary: p) auto

lemma mq_path_snoc:
  "mq_path nxt p xs \<Longrightarrow> b \<notin> set xs \<Longrightarrow> xs \<noteq> [] \<Longrightarrow> distinct xs \<Longrightarrow> nxt b = None \<Longrightarrow>
   mq_path (nxt(last xs := Some b)) p (xs @ [b])"
proof (induction xs arbitrary: p)
  case (Cons x xs)
  show ?case
  proof (cases "xs = []")
    case True
    then show ?thesis using Cons.prems by auto
  next
    case False
    then have "last xs \<noteq> x" using Cons.prems by (metis last_in_set distinct.simps(2))
    then show ?thesis using Cons.IH[of "nxt x"] Cons.prems False by simp
  qed
qed simp

lemma mq_path_unique: "mq_path nxt p xs \<Longrightarrow> mq_path nxt p ys \<Longrightarrow> xs = ys"
proof (induction xs arbitrary: p ys)
  case Nil
  then show ?case by (cases ys) auto
next
  case (Cons x xs)
  then show ?case by (cases ys) auto
qed

text \<open>The queue holds the blocks \<open>qs\<close> in order and the free list the blocks \<open>fs\<close>; together they are all
  the blocks of the pool.\<close>

definition mq_rep :: "rt_messagequeue \<Rightarrow> nat list \<Rightarrow> nat list \<Rightarrow> bool" where
  "mq_rep mq qs fs \<longleftrightarrow> mq_path (mq_next mq) (mq_head mq) qs \<and> mq_path (mq_next mq) (mq_free mq) fs \<and>
     distinct (qs @ fs) \<and> length (qs @ fs) = unat (mq_max_msgs mq) \<and>
     mq_tail mq = (if qs = [] then None else Some (last qs)) \<and> unat (mq_entry mq) = length qs \<and>
     (\<forall>b\<in>set (qs @ fs). length (mq_data mq b) = unat (mq_msg_size mq))"

lemma mq_rep_unique: "mq_rep mq qs fs \<Longrightarrow> mq_rep mq qs' fs' \<Longrightarrow> qs = qs' \<and> fs = fs'"
  by (auto simp: mq_rep_def dest: mq_path_unique)

fun mq_walk :: "nat \<Rightarrow> (nat \<Rightarrow> nat option) \<Rightarrow> nat option \<Rightarrow> nat list" where
  "mq_walk 0 nxt p = []"
| "mq_walk (Suc n) nxt p = (case p of None \<Rightarrow> [] | Some b \<Rightarrow> b # mq_walk n nxt (nxt b))"

lemma mq_walk_path: "mq_path nxt p xs \<Longrightarrow> length xs \<le> n \<Longrightarrow> mq_walk n nxt p = xs"
proof (induction n arbitrary: p xs)
  case (Suc n)
  then show ?case by (cases xs) auto
qed simp

definition mq_contents :: "rt_messagequeue \<Rightarrow> u8 list list" where
  "mq_contents mq = map (mq_data mq) (mq_walk (unat (mq_max_msgs mq)) (mq_next mq) (mq_head mq))"

definition mq_ok :: "rt_messagequeue \<Rightarrow> bool" where
  "mq_ok mq \<longleftrightarrow> (\<exists>qs fs. mq_rep mq qs fs)"

lemma mq_okI: "mq_rep mq qs fs \<Longrightarrow> mq_ok mq"
  by (auto simp: mq_ok_def)

lemma mq_contents_rep: "mq_rep mq qs fs \<Longrightarrow> mq_contents mq = map (mq_data mq) qs"
  using mq_walk_path[of "mq_next mq" "mq_head mq" qs "unat (mq_max_msgs mq)"]
  by (simp add: mq_contents_def mq_rep_def)

lemma mq_rep_free: "mq_rep mq qs fs \<Longrightarrow> mq_free mq = None \<longleftrightarrow> fs = []"
  by (cases fs) (auto simp: mq_rep_def)

section \<open>Initialisation\<close>

lemma mq_link_free_rep:
  "mq_path (mq_next (mq_link_free n mq)) (mq_free (mq_link_free n mq)) (rev [0..<n])" if "mq_free mq = None" for mq
  using that
proof (induction n)
  case (Suc n)
  let ?m = "mq_link_free n mq"
  have "mq_path ((mq_next ?m)(n := mq_free ?m)) (mq_free ?m) (rev [0..<n])"
    using Suc by (subst mq_path_upd) auto
  then show ?case by (simp add: Let_def fun_upd_def)
qed simp

lemma mq_link_free_fields [simp]:
  "mq_head (mq_link_free n mq) = mq_head mq" "mq_tail (mq_link_free n mq) = mq_tail mq"
  "mq_max_msgs (mq_link_free n mq) = mq_max_msgs mq" "mq_msg_size (mq_link_free n mq) = mq_msg_size mq"
  "mq_data (mq_link_free n mq) = mq_data mq" "mq_entry (mq_link_free n mq) = mq_entry mq"
  by (induction n) (simp_all add: Let_def)

lemma mq_init_rep:
  assumes "mq_free mq = None" "mq_head mq = None" "mq_tail mq = None"
    "\<forall>b<unat (mq_max_msgs mq). length (mq_data mq b) = unat (mq_msg_size mq)"
  shows "mq_rep ((mq_link_free (unat (mq_max_msgs mq)) mq)\<lparr>mq_entry := 0\<rparr>) [] (rev [0..<unat (mq_max_msgs mq)])"
  using mq_link_free_rep[OF assms(1)] assms by (simp add: mq_rep_def)

section \<open>Sending\<close>

text \<open>A send takes the first free block, fills it and puts it last; an urgent send puts it first.\<close>

definition mq_filled :: "nat \<Rightarrow> u8 list \<Rightarrow> u8 list \<Rightarrow> u8 list" where
  "mq_filled n buffer old = take n buffer @ drop n old"

lemma length_mq_filled: "n \<le> length buffer \<Longrightarrow> n \<le> length old \<Longrightarrow> length (mq_filled n buffer old) = length old"
  by (simp add: mq_filled_def)

lemma mq_alloc_rep:
  assumes "mq_rep mq qs (b # fs)" shows "mq_alloc mq = Some (b, mq\<lparr>mq_free := mq_next mq b\<rparr>)"
  using assms by (simp add: mq_alloc_def mq_rep_def)

lemma mq_entry_Suc:
  assumes "mq_rep mq qs (b # fs)" shows "unat (mq_entry mq + 1) = Suc (length qs)"
proof -
  have "unat (mq_entry mq) + 1 < 2 ^ 16"
    using assms unsigned_less[of "mq_max_msgs mq", where 'a = nat] by (simp add: mq_rep_def)
  then show ?thesis using assms by (simp add: mq_rep_def unat_word_ariths)
qed

lemma mq_link_tail_rep:
  assumes rep: "mq_rep mq qs (b # fs)" and n: "n \<le> unat (mq_msg_size mq)" "n \<le> length buffer"
  defines "mq' \<equiv> mq_link_tail b (mq_copy b buffer n (mq_set_next b None (mq\<lparr>mq_free := mq_next mq b\<rparr>)))"
  shows "mq_rep mq' (qs @ [b]) fs" "map (mq_data mq') (qs @ [b]) = map (mq_data mq) qs @ [mq_filled n buffer (mq_data mq b)]"
    "mq_max_msgs mq' = mq_max_msgs mq" "mq_msg_size mq' = mq_msg_size mq"
proof -
  let ?nx = "(mq_next mq)(b := None)" let ?d = "(mq_data mq)(b := mq_filled n buffer (mq_data mq b))"
  have r: "mq_path (mq_next mq) (mq_head mq) qs" "mq_path (mq_next mq) (mq_next mq b) fs" "distinct (qs @ b # fs)"
    "mq_tail mq = (if qs = [] then None else Some (last qs))" "length (mq_data mq b) = unat (mq_msg_size mq)"
    using rep by (auto simp: mq_rep_def)
  have q: "mq_path ?nx (mq_head mq) qs" and f: "mq_path ?nx (mq_next mq b) fs" using r by (auto simp: mq_path_upd)
  have dl: "length (?d c) = unat (mq_msg_size mq)" if "c \<in> set (qs @ b # fs)" for c
    using that rep n r(5) length_mq_filled[of n buffer "mq_data mq b"] by (auto simp: mq_rep_def)
  note e = mq_entry_Suc[OF rep]
  have mq': "mq' = mq\<lparr>mq_free := mq_next mq b, mq_data := ?d, mq_tail := Some b, mq_entry := mq_entry mq + 1,
      mq_next := (if qs = [] then ?nx else ?nx(last qs := Some b)), mq_head := (if qs = [] then Some b else mq_head mq)\<rparr>"
    using r(1,4) by (cases qs) (auto simp: mq'_def mq_link_tail_def mq_copy_def mq_set_next_def mq_filled_def Let_def)
  have "mq_path (mq_next mq') (mq_head mq') (qs @ [b])"
  proof (cases "qs = []")
    case False
    then have "mq_path (?nx(last qs := Some b)) (mq_head mq) (qs @ [b])"
      using q r(3) by (intro mq_path_snoc) auto
    then show ?thesis using False by (simp add: mq')
  qed (simp add: mq')
  moreover have "mq_path (mq_next mq') (mq_free mq') fs"
  proof (cases "qs = []")
    case False
    then have "last qs \<notin> set fs" using r(3) by (auto dest: last_in_set)
    then show ?thesis using f False by (simp add: mq' mq_path_upd)
  qed (use f in \<open>simp add: mq'\<close>)
  ultimately show "mq_rep mq' (qs @ [b]) fs"
    using rep e dl by (auto simp: mq_rep_def mq')
  show "map (mq_data mq') (qs @ [b]) = map (mq_data mq) qs @ [mq_filled n buffer (mq_data mq b)]"
    using r(3) by (auto simp: mq')
  show "mq_max_msgs mq' = mq_max_msgs mq" "mq_msg_size mq' = mq_msg_size mq" by (simp_all add: mq')
qed

lemma mq_link_head_rep:
  assumes rep: "mq_rep mq qs (b # fs)" and n: "n \<le> unat (mq_msg_size mq)" "n \<le> length buffer"
  defines "mq' \<equiv> mq_link_head b (mq_copy b buffer n (mq\<lparr>mq_free := mq_next mq b\<rparr>))"
  shows "mq_rep mq' (b # qs) fs" "map (mq_data mq') (b # qs) = mq_filled n buffer (mq_data mq b) # map (mq_data mq) qs"
proof -
  let ?nx = "(mq_next mq)(b := mq_head mq)" let ?d = "(mq_data mq)(b := mq_filled n buffer (mq_data mq b))"
  have r: "mq_path (mq_next mq) (mq_head mq) qs" "mq_path (mq_next mq) (mq_next mq b) fs" "distinct (qs @ b # fs)"
    "mq_tail mq = (if qs = [] then None else Some (last qs))" "length (mq_data mq b) = unat (mq_msg_size mq)"
    using rep by (auto simp: mq_rep_def)
  have q: "mq_path ?nx (mq_head mq) qs" and f: "mq_path ?nx (mq_next mq b) fs" using r by (auto simp: mq_path_upd)
  have dl: "length (?d c) = unat (mq_msg_size mq)" if "c \<in> set (qs @ b # fs)" for c
    using that rep n r(5) length_mq_filled[of n buffer "mq_data mq b"] by (auto simp: mq_rep_def)
  have mq': "mq' = mq\<lparr>mq_free := mq_next mq b, mq_data := ?d, mq_tail := Some (if qs = [] then b else last qs),
      mq_entry := mq_entry mq + 1, mq_next := ?nx, mq_head := Some b\<rparr>"
    using r(4) by (auto simp: mq'_def mq_link_head_def mq_copy_def mq_set_next_def mq_filled_def Let_def)
  show "mq_rep mq' (b # qs) fs"
    using rep mq_entry_Suc[OF rep] dl q f by (auto simp: mq_rep_def mq')
  show "map (mq_data mq') (b # qs) = mq_filled n buffer (mq_data mq b) # map (mq_data mq) qs"
    using r(3) by (auto simp: mq')
qed

section \<open>Receiving\<close>

lemma mq_unlink_rep:
  assumes rep: "mq_rep mq (b # qs) fs"
  defines "mq1 \<equiv> mq\<lparr>mq_head := mq_next mq b, mq_tail := (if qs = [] then None else mq_tail mq), mq_entry := mq_entry mq - 1\<rparr>"
  shows "mq_unlink mq = Some (b, mq1)" "mq_rep (mq_give b mq1) qs (b # fs)"
    "map (mq_data (mq_give b mq1)) qs = map (mq_data mq) qs"
proof -
  have r: "mq_head mq = Some b" "mq_path (mq_next mq) (mq_next mq b) qs" "mq_path (mq_next mq) (mq_free mq) fs"
    "distinct (b # qs @ fs)" "mq_tail mq = Some (last (b # qs))" "unat (mq_entry mq) = Suc (length qs)"
    using rep by (auto simp: mq_rep_def)
  have "last qs \<noteq> b" if "qs \<noteq> []" using r(4) that by (auto dest: last_in_set)
  then show "mq_unlink mq = Some (b, mq1)" using r by (auto simp: mq_unlink_def mq1_def Let_def)
  have "mq_entry mq \<noteq> 0" using r(6) by auto
  then have e: "unat (mq_entry mq - 1) = length qs" using r(6) by (simp add: unat_minus_one)
  have "mq_path ((mq_next mq)(b := mq_free mq)) (mq_next mq b) qs" "mq_path ((mq_next mq)(b := mq_free mq)) (mq_free mq) fs"
    using r(2-4) by (auto simp: mq_path_upd)
  then show "mq_rep (mq_give b mq1) qs (b # fs)"
    using rep e r(5) by (auto simp: mq_rep_def mq1_def mq_give_def mq_set_next_def)
  show "map (mq_data (mq_give b mq1)) qs = map (mq_data mq) qs" by (simp add: mq_give_def mq_set_next_def mq1_def)
qed

text \<open>As a first-in first-out store of whole messages.\<close>

definition mq_put :: "u8 list \<Rightarrow> rt_messagequeue \<Rightarrow> rt_messagequeue" where
  "mq_put buffer mq = (case mq_alloc mq of None \<Rightarrow> mq
     | Some (b, mq1) \<Rightarrow> mq_link_tail b (mq_copy b buffer (length buffer) (mq_set_next b None mq1)))"

definition mq_get :: "rt_messagequeue \<Rightarrow> u8 list \<times> rt_messagequeue" where
  "mq_get mq = (case mq_unlink mq of None \<Rightarrow> ([], mq) | Some (b, mq1) \<Rightarrow> (mq_data mq1 b, mq_give b mq1))"

interpretation mq_fifo: fifo mq_ok mq_contents "\<lambda>mq. unat (mq_max_msgs mq)"
  "\<lambda>mq v. length v = unat (mq_msg_size mq)" mq_put mq_get
proof (unfold_locales, goal_cases)
  case (1 mq v)
  then obtain qs fs where rep: "mq_rep mq qs fs" by (auto simp: mq_ok_def)
  have "length qs + length fs = unat (mq_max_msgs mq)" using rep by (simp add: mq_rep_def)
  then obtain b fs' where fs: "fs = b # fs'" using 1(3) mq_contents_rep[OF rep] by (cases fs) auto
  note r = mq_link_tail_rep[of mq qs b fs' "length v" v] and a = mq_alloc_rep[of mq qs b fs']
  have p: "mq_put v mq = mq_link_tail b (mq_copy b v (length v) (mq_set_next b None (mq\<lparr>mq_free := mq_next mq b\<rparr>)))"
    using rep fs a by (simp add: mq_put_def)
  have "length (mq_data mq b) = length v" using rep fs 1(2) by (simp add: mq_rep_def)
  then have "mq_filled (length v) v (mq_data mq b) = v" by (simp add: mq_filled_def)
  moreover have "mq_rep (mq_put v mq) (qs @ [b]) fs'" "map (mq_data (mq_put v mq)) (qs @ [b]) = map (mq_data mq) qs @ [mq_filled (length v) v (mq_data mq b)]"
    "mq_max_msgs (mq_put v mq) = mq_max_msgs mq" "mq_msg_size (mq_put v mq) = mq_msg_size mq"
    using r rep fs 1(2) unfolding p by simp_all
  ultimately show ?case using mq_contents_rep[OF rep] mq_contents_rep by (metis mq_ok_def)
next
  case (2 mq v vs)
  then obtain qs fs where rep: "mq_rep mq qs fs" by (auto simp: mq_ok_def)
  then obtain b qs' where qs: "qs = b # qs'" using 2(2) mq_contents_rep[OF rep] by (cases qs) auto
  note u = mq_unlink_rep[OF rep[unfolded qs]]
  let ?m1 = "mq\<lparr>mq_head := mq_next mq b, mq_tail := (if qs' = [] then None else mq_tail mq), mq_entry := mq_entry mq - 1\<rparr>"
  have g: "mq_get mq = (mq_data mq b, mq_give b ?m1)" using u(1) by (simp add: mq_get_def)
  have "mq_contents (mq_give b ?m1) = vs" "v = mq_data mq b"
    using mq_contents_rep[OF u(2)] u(3) mq_contents_rep[OF rep] 2(2) qs by simp_all
  moreover have "mq_ok (mq_give b ?m1)" using u(2) unfolding mq_ok_def by blast
  moreover have "mq_max_msgs (mq_give b ?m1) = mq_max_msgs mq" by (simp add: mq_give_def mq_set_next_def)
  ultimately show ?case by (simp add: g)
qed

section \<open>The kernel operations\<close>

lemma upd_mq_fields [simp]:
  "k_mqs (upd_mq m f k) = (k_mqs k)(m := f (k_mqs k m))" "k_threads (upd_mq m f k) = k_threads k"
  "k_tlists (upd_mq m f k) = k_tlists k" "k_current (upd_mq m f k) = k_current k" "k_tick (upd_mq m f k) = k_tick k"
  "k_lock_nest (upd_mq m f k) = k_lock_nest k" "kinv b B (upd_mq m f k) \<longleftrightarrow> kinv b B k"
  "runnable (upd_mq m f k) \<longleftrightarrow> runnable k"
  by (simp_all add: upd_mq_def runnable_def)

lemma mq_finish:
  assumes inv: "kernel_inv k" and run: "runnable k"
  shows "returns (if k_tlists (upd_mq m f k) (Mq_Q m) \<noteq> []
      then do { k2 \<leftarrow> rt_ipc_list_resume (Mq_Q m) (upd_mq m f k); k3 \<leftarrow> rt_schedule k2; Some (RT_EOK, k3) }
      else Some (RT_EOK, upd_mq m f k))
     (\<lambda>(r', k'). r' = RT_EOK \<and> kernel_inv k' \<and> runnable k' \<and> k_mqs k' m = f (k_mqs k m) \<and> served (Mq_Q m) k k')"
proof -
  have "kinv (k_tick k) (HALF - 1) (upd_mq m f k)" "runnable (upd_mq m f k)" using inv run by simp_all
  from serve_returns[OF this wait_queue_simps(6), of m RT_EOK] show ?thesis
    by (rule returns_mono) (auto simp: same_objs_def served_def)
qed

lemma mq_send_room:
  assumes inv: "kernel_inv k" and run: "runnable k" and rep: "mq_rep (k_mqs k m) qs (b # fs)"
    and sz: "0 < unat sz" "unat sz \<le> unat (mq_msg_size (k_mqs k m))" "unat sz \<le> length buffer"
  shows "returns (rt_mq_send m buffer sz k) (\<lambda>(r, k'). r = RT_EOK \<and> kernel_inv k' \<and> runnable k' \<and> mq_ok (k_mqs k' m) \<and>
     mq_contents (k_mqs k' m) = mq_contents (k_mqs k m) @ [mq_filled (unat sz) buffer (mq_data (k_mqs k m) b)] \<and>
     served (Mq_Q m) k k')"
proof -
  let ?q = "mq_link_tail b (mq_copy b buffer (unat sz) (mq_set_next b None ((k_mqs k m)\<lparr>mq_free := mq_next (k_mqs k m) b\<rparr>)))"
  have "\<not> sz > ucast (mq_msg_size (k_mqs k m))" "sz \<noteq> 0"
    using sz by (auto simp: word_less_nat_alt)
  then have eq: "rt_mq_send m buffer sz k = (if k_tlists (upd_mq m (\<lambda>_. ?q) k) (Mq_Q m) \<noteq> []
      then do { k2 \<leftarrow> rt_ipc_list_resume (Mq_Q m) (upd_mq m (\<lambda>_. ?q) k); k3 \<leftarrow> rt_schedule k2; Some (RT_EOK, k3) }
      else Some (RT_EOK, upd_mq m (\<lambda>_. ?q) k))"
    by (simp add: rt_mq_send_def Let_def mq_alloc_rep[OF rep])
  note t = mq_link_tail_rep[OF rep sz(2,3)]
  have "mq_ok ?q" by (rule mq_okI[OF t(1)])
  then show ?thesis
    unfolding eq using mq_contents_rep[OF t(1)] mq_contents_rep[OF rep] t(2)
    by (intro returns_mono[OF mq_finish[OF inv run]]) auto
qed

lemma mq_urgent_room:
  assumes inv: "kernel_inv k" and run: "runnable k" and rep: "mq_rep (k_mqs k m) qs (b # fs)"
    and sz: "0 < unat sz" "unat sz \<le> unat (mq_msg_size (k_mqs k m))" "unat sz \<le> length buffer"
  shows "returns (rt_mq_urgent m buffer sz k) (\<lambda>(r, k'). r = RT_EOK \<and> kernel_inv k' \<and> runnable k' \<and> mq_ok (k_mqs k' m) \<and>
     mq_contents (k_mqs k' m) = mq_filled (unat sz) buffer (mq_data (k_mqs k m) b) # mq_contents (k_mqs k m) \<and>
     served (Mq_Q m) k k')"
proof -
  let ?q = "mq_link_head b (mq_copy b buffer (unat sz) ((k_mqs k m)\<lparr>mq_free := mq_next (k_mqs k m) b\<rparr>))"
  have "\<not> sz > ucast (mq_msg_size (k_mqs k m))" "sz \<noteq> 0"
    using sz by (auto simp: word_less_nat_alt)
  then have eq: "rt_mq_urgent m buffer sz k = (if k_tlists (upd_mq m (\<lambda>_. ?q) k) (Mq_Q m) \<noteq> []
      then do { k2 \<leftarrow> rt_ipc_list_resume (Mq_Q m) (upd_mq m (\<lambda>_. ?q) k); k3 \<leftarrow> rt_schedule k2; Some (RT_EOK, k3) }
      else Some (RT_EOK, upd_mq m (\<lambda>_. ?q) k))"
    by (simp add: rt_mq_urgent_def Let_def mq_alloc_rep[OF rep])
  note t = mq_link_head_rep[OF rep sz(2,3)]
  have "mq_ok ?q" by (rule mq_okI[OF t(1)])
  then show ?thesis
    unfolding eq using mq_contents_rep[OF t(1)] mq_contents_rep[OF rep] t(2)
    by (intro returns_mono[OF mq_finish[OF inv run]]) auto
qed

lemma mq_recv_some:
  assumes inv: "kernel_inv k" and ok: "mq_ok (k_mqs k m)" and c: "mq_contents (k_mqs k m) = v # vs" and sz: "sz \<noteq> 0"
  shows "returns (rt_mq_recv m sz timeout k) (\<lambda>(r, k'). r = Done (RT_EOK, Some (take (unat sz) v)) \<and> kernel_inv k' \<and>
     mq_ok (k_mqs k' m) \<and> mq_contents (k_mqs k' m) = vs \<and> k_threads k' = k_threads k \<and> k_tlists k' = k_tlists k)"
proof -
  obtain qs fs where rep: "mq_rep (k_mqs k m) qs fs" using ok by (auto simp: mq_ok_def)
  then obtain b qs' where qs: "qs = b # qs'" using c mq_contents_rep[OF rep] by (cases qs) auto
  note u = mq_unlink_rep[OF rep[unfolded qs]]
  have v: "v = mq_data (k_mqs k m) b" "length v = unat (mq_msg_size (k_mqs k m))"
    using mq_contents_rep[OF rep] c rep qs by (auto simp: mq_rep_def)
  have vs: "mq_contents (mq_give b ((k_mqs k m)\<lparr>mq_head := mq_next (k_mqs k m) b,
      mq_tail := (if qs' = [] then None else mq_tail (k_mqs k m)), mq_entry := mq_entry (k_mqs k m) - 1\<rparr>)) = vs"
    using mq_contents_rep[OF u(2)] u(3) mq_contents_rep[OF rep] c qs by simp
  have e: "mq_entry (k_mqs k m) \<noteq> 0" using rep qs by (auto simp: mq_rep_def)
  have n: "take (if ucast (mq_msg_size (k_mqs k m)) < sz then unat (mq_msg_size (k_mqs k m)) else unat sz) v = take (unat sz) v"
    using v(2) by (auto simp: word_less_nat_alt not_less)
  show ?thesis
    using u(1) mq_okI[OF u(2)] vs e sz n v(1) inv
    by (auto simp: rt_mq_recv_def mq_recv_loop.simps mq_fetch_def Let_def)
qed

section \<open>Reset\<close>

text \<open>The loop that releases all messages ends: every pass moves a block from the queue to the free list.
  It leaves the count of messages alone.\<close>

lemma mq_drain_returns:
  "mq_rep (mq\<lparr>mq_entry := e\<rparr>) qs fs \<Longrightarrow>
   returns (mq_drain mq) (\<lambda>mq'. mq_rep (mq'\<lparr>mq_entry := 0\<rparr>) [] (rev qs @ fs) \<and> mq_max_msgs mq' = mq_max_msgs mq)"
proof (induction qs arbitrary: mq e fs)
  case Nil
  then have "mq_head mq = None" by (simp add: mq_rep_def)
  then show ?case using Nil by (subst mq_drain.simps) (simp add: mq_rep_def)
next
  case (Cons b qs)
  let ?mq2 = "mq\<lparr>mq_head := mq_next mq b, mq_tail := (if qs = [] then None else mq_tail mq)\<rparr>"
  have h: "mq_head mq = Some b" "mq_tail mq = Some (last (b # qs))" "distinct (b # qs)"
    using Cons.prems by (auto simp: mq_rep_def)
  then have "last qs \<noteq> b" if "qs \<noteq> []" using that by (auto dest: last_in_set)
  then have "(if mq_tail (mq\<lparr>mq_head := mq_next mq b\<rparr>) = Some b then mq\<lparr>mq_head := mq_next mq b, mq_tail := None\<rparr>
      else mq\<lparr>mq_head := mq_next mq b\<rparr>) = ?mq2"
    using h by (auto intro: rt_messagequeue.equality)
  then have step: "mq_drain mq = mq_drain (mq_give b ?mq2)"
    using h(1) by (subst mq_drain.simps) (simp add: Let_def)
  have "mq_rep ((mq_give b ?mq2)\<lparr>mq_entry := e - 1\<rparr>) qs (b # fs)"
    using mq_unlink_rep(2)[OF Cons.prems] by (auto simp: mq_rep_def mq_give_def mq_set_next_def)
  from Cons.IH[OF this] show ?case unfolding step by (simp add: mq_give_def mq_set_next_def)
qed

lemma mq_reset_returns:
  assumes inv: "kernel_inv k" and run: "runnable k" and ok: "mq_ok (k_mqs k m)"
  shows "returns (rt_mq_control m RT_IPC_CMD_RESET arg k) (\<lambda>(r, k'). r = RT_EOK \<and> kernel_inv k' \<and> runnable k' \<and>
     mq_ok (k_mqs k' m) \<and> mq_contents (k_mqs k' m) = [] \<and> k_tlists k' (Mq_Q m) = [] \<and>
     (\<forall>t\<in>set (k_tlists k (Mq_Q m)). stat k' t = RT_THREAD_READY \<and> t_error (thread k' t) = -RT_ERROR))"
    (is "returns _ (\<lambda>(r, k'). r = _ \<and> ?P k')")
proof -
  obtain qs fs where rep: "mq_rep (k_mqs k m) qs fs" using ok by (auto simp: mq_ok_def)
  have "returns (rt_ipc_list_resume_all (Mq_Q m) k) (\<lambda>k1. returns (mq_drain (k_mqs k1 m))
      (\<lambda>mq. returns (rt_schedule (upd_mq m (\<lambda>_. mq\<lparr>mq_entry := 0\<rparr>) k1)) ?P))"
  proof (rule returns_mono[OF list_resume_all_returns[OF inv wait_queue_simps(6)]], elim conjE)
    fix k1 assume k1: "kinv (k_tick k) (HALF - 1) k1" "woken_all (Mq_Q m) k k1"
    have mq: "k_mqs k1 m = k_mqs k m" using k1(2) by (simp add: woken_all_def same_objs_def)
    have "mq_rep ((k_mqs k m)\<lparr>mq_entry := mq_entry (k_mqs k m)\<rparr>) qs fs" using rep by simp
    then show "returns (mq_drain (k_mqs k1 m)) (\<lambda>mq. returns (rt_schedule (upd_mq m (\<lambda>_. mq\<lparr>mq_entry := 0\<rparr>) k1)) ?P)"
      unfolding mq
    proof (rule returns_mono[OF mq_drain_returns], elim conjE)
      fix mq assume rep': "mq_rep (mq\<lparr>mq_entry := 0\<rparr>) [] (rev qs @ fs)"
      let ?k = "upd_mq m (\<lambda>_. mq\<lparr>mq_entry := 0\<rparr>) k1"
      have k: "kinv (k_tick k) (HALF - 1) ?k" "runnable ?k"
        using k1 run by (auto simp: runnable_def woken_all_def)
      show "returns (rt_schedule ?k) ?P"
        by (rule returns_mono[OF schedule_returns[OF k]])
          (use k1(2) mq_okI[OF rep'] mq_contents_rep[OF rep'] in \<open>auto simp: scheduled_frame woken_all_def same_objs_def\<close>)
    qed
  qed
  then show ?thesis by (simp add: rt_mq_control_def)
qed

end
