(* ===== verification/Ipc_Props.thy ===== *)
theory Ipc_Props
  imports Demo_State Mutex Event Message_Queue
begin

unbundle bit_operations_syntax

text \<open>
  The properties of semaphores, mutexes, events, mailboxes and message queues.
\<close>

section \<open>Semaphores\<close>

text \<open>C14: \<^verbatim>\<open>rt_sem_take\<close>, on every branch: a positive value is decremented; with no time to wait the call
  fails with a time-out and changes nothing; otherwise the caller is suspended on the queue of the
  semaphore and another thread runs.  In each case the kernel invariant holds and nobody waits on a
  semaphore that could be taken.\<close>

theorem sem_take_cases:
  assumes "kernel_inv k" "sems_ok k" "may_block t k" "k_interrupt_nest k = 0" "time_ok time"
    "flag_ok (o_flag (k_objects k (OSem s)))"
  shows "returns (rt_sem_take s time k) (\<lambda>(r, k'). kernel_inv k' \<and> sems_ok k' \<and>
     (if s_value (k_sems k s) \<noteq> 0 then r = Done RT_EOK \<and> unat (s_value (k_sems k' s)) + 1 = unat (s_value (k_sems k s)) \<and>
        k_tlists k' = k_tlists k \<and> k_current k' = Some t
      else if time = 0 then r = Done (-RT_ETIMEOUT) \<and> k' = k
      else r = Blocked \<and> stat k' t = RT_THREAD_SUSPEND \<and> t \<in> set (k_tlists k' (Sem_Q s)) \<and> k_sems k' = k_sems k \<and>
        (\<exists>c. k_current k' = Some c \<and> c \<noteq> t \<and> next_to_run k' c)))"
proof (cases "s_value (k_sems k s) \<noteq> 0")
  case True
  let ?k = "upd_sem s (\<lambda>sem. sem\<lparr>s_value := s_value sem - 1\<rparr>) k"
  have "sems_ok ?k" using assms(2) True by (auto simp: sems_ok_def)
  moreover have "unat (s_value (k_sems k s) - 1) + 1 = unat (s_value (k_sems k s))"
    using True by (simp add: unat_minus_one unat_gt_0)
  ultimately show ?thesis using assms(1,3) True by (simp add: sem_take_available may_block_def)
next
  case False
  then have v: "s_value (k_sems k s) = 0" by simp
  show ?thesis
  proof (cases "time = 0")
    case True
    then show ?thesis using v assms(1,2) by (simp add: rt_sem_take_def)
  next
    case False
    let ?k1 = "upd_thread t (\<lambda>th. th\<lparr>t_error := RT_EOK\<rparr>) k"
    have "sems_ok ?k1" using assms(2) by (simp add: sems_ok_def)
    then have ok: "sems_ok k'" if "waiting (Sem_Q s) t f time ?k1 k'" for k' f
      by (rule waiting_sems_ok[OF _ that]) (simp add: v)
    show ?thesis
      by (rule returns_mono[OF sem_take_blocks[OF assms(1) v False assms(5,4,3,6)]])
        (use v False ok in \<open>auto simp: waiting_defs same_objs_def\<close>)
  qed
qed

theorem sem_take_cases_witness:
  "returns (rt_sem_take 7 100 demo) (\<lambda>(r, k'). kernel_inv k' \<and> sems_ok k' \<and>
     (if s_value (k_sems demo 7) \<noteq> 0 then r = Done RT_EOK \<and> unat (s_value (k_sems k' 7)) + 1 = unat (s_value (k_sems demo 7)) \<and>
        k_tlists k' = k_tlists demo \<and> k_current k' = Some 2
      else if (100 :: u32) = 0 then r = Done (-RT_ETIMEOUT) \<and> k' = demo
      else r = Blocked \<and> stat k' 2 = RT_THREAD_SUSPEND \<and> 2 \<in> set (k_tlists k' (Sem_Q 7)) \<and> k_sems k' = k_sems demo \<and>
        (\<exists>c. k_current k' = Some c \<and> c \<noteq> 2 \<and> next_to_run k' c)))"
proof (rule sem_take_cases[OF demo_kernel_inv _ demo_may_block])
  show "sems_ok demo" by (simp add: sems_ok_def demo_def)
qed (simp_all add: time_ok_def flag_ok_def demo_objects_def)

text \<open>C15: \<^verbatim>\<open>rt_sem_release\<close>, on every branch: the first waiter becomes ready, leaves the queue and the thread that should run
  does, while the value stays; with no waiter the value is incremented, which needs a value below the
  16 bit limit.  The kernel invariant and the invariant of the semaphores hold again.\<close>

theorem sem_release_cases:
  assumes "kernel_inv k" "runnable k" "sems_ok k" "s_value (k_sems k s) \<noteq> 0xffff" "k_lock_nest k = 0"
  shows "returns (rt_sem_release s k) (\<lambda>k'. kernel_inv k' \<and> runnable k' \<and> sems_ok k' \<and>
     (case k_tlists k (Sem_Q s) of
        [] \<Rightarrow> unat (s_value (k_sems k' s)) = unat (s_value (k_sems k s)) + 1 \<and> k_tlists k' = k_tlists k
      | t # ts \<Rightarrow> stat k' t = RT_THREAD_READY \<and> k_tlists k' (Sem_Q s) = ts \<and> k_sems k' = k_sems k \<and>
          (\<exists>c. k_current k' = Some c \<and> next_to_run k' c)))"
proof (cases "k_tlists k (Sem_Q s)")
  case Nil
  have "unat (s_value (k_sems k s) + 1) = unat (s_value (k_sems k s)) + 1"
    using unat_succ_16[of "s_value (k_sems k s)"] assms(4) by simp
  moreover have "sems_ok (upd_sem s (\<lambda>sem. sem\<lparr>s_value := s_value sem + 1\<rparr>) k)"
    using assms(3) Nil by (auto simp: sems_ok_def)
  ultimately show ?thesis using assms(1,2) Nil by (simp add: sem_release_counts)
next
  case (Cons t ts)
  have cur: "k_current k \<noteq> None" using assms(2) by (simp add: runnable_def)
  have ok: "sems_ok k'" if w: "woken (Sem_Q s) t k k'" for k'
  proof (rule sems_ok_shrink[OF assms(3)])
    show "k_sems k' = k_sems k" using w by (simp add: woken_def same_objs_def)
    show "k_tlists k' (Sem_Q s') = []" if "k_tlists k (Sem_Q s') = []" for s'
      using w that by (cases "s' = s") (simp_all add: woken_def)
  qed
  show ?thesis
    by (rule returns_mono[OF sem_release_wakes[OF assms(1) cur Cons]])
      (use Cons ok assms(5) in \<open>auto simp: woken_def same_objs_def\<close>)
qed

theorem sem_release_cases_witness:
  "returns (rt_sem_release 7 demo) (\<lambda>k'. kernel_inv k' \<and> runnable k' \<and> sems_ok k' \<and>
     (case k_tlists demo (Sem_Q 7) of
        [] \<Rightarrow> unat (s_value (k_sems k' 7)) = unat (s_value (k_sems demo 7)) + 1 \<and> k_tlists k' = k_tlists demo
      | t # ts \<Rightarrow> stat k' t = RT_THREAD_READY \<and> k_tlists k' (Sem_Q 7) = ts \<and> k_sems k' = k_sems demo \<and>
          (\<exists>c. k_current k' = Some c \<and> next_to_run k' c)))"
  by (rule sem_release_cases[OF demo_kernel_inv demo_runnable]) (simp_all add: sems_ok_def demo_def)

text \<open>Resetting a semaphore wakes every waiter with an error, empties its queue and sets the value to the
  low 16 bits of the argument.\<close>

theorem sem_reset_wakes_all:
  assumes "kernel_inv k" "runnable k"
  shows "returns (rt_sem_control s RT_IPC_CMD_RESET v k) (\<lambda>(r, k'). r = RT_EOK \<and> kernel_inv k' \<and>
     s_value (k_sems k' s) = ucast v \<and> k_tlists k' (Sem_Q s) = [] \<and>
     (\<forall>t\<in>set (k_tlists k (Sem_Q s)). stat k' t = RT_THREAD_READY \<and> t_error (thread k' t) = -RT_ERROR))"
  by (rule returns_mono[OF sem_control_reset[OF assms]]) auto

theorem sem_reset_wakes_all_witness:
  "returns (rt_sem_control 7 RT_IPC_CMD_RESET 2 demo) (\<lambda>(r, k'). r = RT_EOK \<and> kernel_inv k' \<and>
     s_value (k_sems k' 7) = ucast (2 :: u32) \<and> k_tlists k' (Sem_Q 7) = [] \<and>
     (\<forall>t\<in>set (k_tlists demo (Sem_Q 7)). stat k' t = RT_THREAD_READY \<and> t_error (thread k' t) = -RT_ERROR))"
  by (rule sem_reset_wakes_all[OF demo_kernel_inv demo_runnable])

section \<open>The order of waiting\<close>

text \<open>C16: Blocking on a queue served by priority puts the caller behind the waiters of its own and of higher
  priority and in front of the others: a queue in order of priority stays so, its head is the most
  urgent waiter, and equal priorities keep the order of arrival.\<close>

theorem prio_queue_ordered:
  assumes "kernel_inv k" "wait_queue h" "may_block t k" "time_ok time" "sorted_by (\<lambda>u. prio k u) (k_tlists k h)"
  shows "returns (ipc_block h t RT_IPC_FLAG_PRIO time k) (\<lambda>k'. kernel_inv k' \<and> sorted_by (\<lambda>u. prio k' u) (k_tlists k' h) \<and>
     k_tlists k' h = takeWhile (\<lambda>u. prio k u \<le> prio k t) (k_tlists k h) @ t # dropWhile (\<lambda>u. prio k u \<le> prio k t) (k_tlists k h))"
proof -
  have eq: "k_tlists k' h = enqueue RT_IPC_FLAG_PRIO (t_current_priority \<circ> k_threads k) t (k_tlists k h) \<and>
      (\<forall>u. prio k' u = prio k u)" if "waiting h t RT_IPC_FLAG_PRIO time k k'" for k'
    using that by (simp add: waiting_defs)
  have "sorted_by (\<lambda>u. prio k u) (enqueue RT_IPC_FLAG_PRIO (t_current_priority \<circ> k_threads k) t (k_tlists k h))"
    using enqueue_sorted[OF assms(5), of t] by (simp add: comp_def)
  then show ?thesis
    by (intro returns_mono[OF ipc_block_returns[OF assms(1-3) flag_ok_simps(2) assms(4)]])
      (auto dest!: eq simp: enqueue_def insert_by_split not_less)
qed

theorem prio_queue_ordered_witness:
  "returns (ipc_block (Sem_Q 7) 2 RT_IPC_FLAG_PRIO RT_WAITING_FOREVER demo) (\<lambda>k'. kernel_inv k' \<and>
     sorted_by (\<lambda>u. prio k' u) (k_tlists k' (Sem_Q 7)) \<and> k_tlists k' (Sem_Q 7) =
       takeWhile (\<lambda>u. prio demo u \<le> prio demo 2) (k_tlists demo (Sem_Q 7)) @ 2 #
       dropWhile (\<lambda>u. prio demo u \<le> prio demo 2) (k_tlists demo (Sem_Q 7)))"
  by (rule prio_queue_ordered[OF demo_kernel_inv _ demo_may_block]) (simp_all add: time_ok_def demo_tlists_def)

section \<open>Mutexes\<close>

text \<open>C12: Taking a mutex that another thread owns suspends the caller, and the owner inherits the caller's
  priority if that is the more urgent one; the owner and the invariant of the mutex are kept.\<close>

theorem mutex_take_inherits:
  assumes "kernel_inv k" "mutex_ok k m" "m_owner (k_mutexes k m) = Some owner" "owner \<noteq> t" "k_interrupt_nest k = 0"
    "may_block t k" "time \<noteq> 0" "time_ok time" "flag_ok (o_flag (k_objects k (OMutex m)))"
  shows "returns (rt_mutex_take m time k) (\<lambda>(r, k'). r = Blocked \<and> kernel_inv k' \<and> mutex_ok k' m \<and>
     m_owner (k_mutexes k' m) = Some owner \<and> prio k' owner = min (prio k owner) (prio k t) \<and>
     stat k' t = RT_THREAD_SUSPEND \<and> set (k_tlists k' (Mutex_Q m)) = insert t (set (k_tlists k (Mutex_Q m))))"
  by (rule returns_mono[OF take_blocks[OF assms]]) auto

definition demo_owned :: kernel where
  "demo_owned = demo\<lparr>k_mutexes := (\<lambda>_. \<lparr>m_value = 0, m_original_priority = 31, m_hold = 1, m_owner = Some 1\<rparr>)\<rparr>"

lemma demo_owned_inv: "kernel_inv demo_owned" "may_block 2 demo_owned" "mutex_ok demo_owned 20"
  using demo_kernel_inv demo_may_block
  by (simp_all add: demo_owned_def may_block_def mutex_ok_def demo_tlists_def)

theorem mutex_take_inherits_witness:
  "returns (rt_mutex_take 20 RT_WAITING_FOREVER demo_owned) (\<lambda>(r, k'). r = Blocked \<and> kernel_inv k' \<and> mutex_ok k' 20 \<and>
     m_owner (k_mutexes k' 20) = Some 1 \<and> prio k' 1 = min (prio demo_owned 1) (prio demo_owned 2) \<and>
     stat k' 2 = RT_THREAD_SUSPEND \<and> set (k_tlists k' (Mutex_Q 20)) = insert 2 (set (k_tlists demo_owned (Mutex_Q 20))))"
  by (rule mutex_take_inherits[OF demo_owned_inv(1,3) _ _ _ demo_owned_inv(2)])
    (simp_all add: demo_owned_def time_ok_def flag_ok_def demo_objects_def)

text \<open>C13: The last release of a mutex gives its owner the priority back that the owner had when it took the
  mutex, and hands the mutex to the first waiter, which becomes ready; with no waiter the mutex is
  free.\<close>

theorem mutex_release_hands_over:
  assumes "kernel_inv k" "runnable k" "mutex_ok k m" "k_current k = Some t" "m_owner (k_mutexes k m) = Some t"
    "m_hold (k_mutexes k m) = 1"
  shows "returns (rt_mutex_release m k) (\<lambda>(r, k'). r = RT_EOK \<and> kernel_inv k' \<and> mutex_ok k' m \<and>
     prio k' t = m_original_priority (k_mutexes k m) \<and> k_tlists k' (Mutex_Q m) = tl (k_tlists k (Mutex_Q m)) \<and>
     (case k_tlists k (Mutex_Q m) of [] \<Rightarrow> m_owner (k_mutexes k' m) = None
      | w # _ \<Rightarrow> m_owner (k_mutexes k' m) = Some w \<and> m_hold (k_mutexes k' m) = 1 \<and> stat k' w = RT_THREAD_READY))"
  by (rule returns_mono[OF release_last[OF assms]]) auto

definition demo_owner :: kernel where
  "demo_owner = demo\<lparr>k_mutexes := (\<lambda>_. \<lparr>m_value = 0, m_original_priority = 12, m_hold = 1, m_owner = Some 2\<rparr>)\<rparr>"

theorem mutex_release_hands_over_witness:
  "returns (rt_mutex_release 20 demo_owner) (\<lambda>(r, k'). r = RT_EOK \<and> kernel_inv k' \<and> mutex_ok k' 20 \<and>
     prio k' 2 = m_original_priority (k_mutexes demo_owner 20) \<and> k_tlists k' (Mutex_Q 20) = tl (k_tlists demo_owner (Mutex_Q 20)) \<and>
     (case k_tlists demo_owner (Mutex_Q 20) of [] \<Rightarrow> m_owner (k_mutexes k' 20) = None
      | w # _ \<Rightarrow> m_owner (k_mutexes k' 20) = Some w \<and> m_hold (k_mutexes k' 20) = 1 \<and> stat k' w = RT_THREAD_READY))"
  by (rule mutex_release_hands_over)
    (use demo_kernel_inv demo_runnable in \<open>simp_all add: demo_owner_def runnable_def mutex_ok_def demo_tlists_def\<close>)

text \<open>C23: Taking a mutex one already owns, below the 8 bit limit of nesting, and releasing it again leaves the
  mutex as it was, with the same owner; a thread that is not the owner cannot release it.\<close>

theorem mutex_recursion:
  assumes "mutex_ok k m" "m_owner (k_mutexes k m) = Some t" "m_hold (k_mutexes k m) \<noteq> 255" "k_interrupt_nest k = 0"
    "k_current k = Some t"
  shows "returns (rt_mutex_take m time k) (\<lambda>(r, k'). r = Done RT_EOK \<and>
       unat (m_hold (k_mutexes k' m)) = unat (m_hold (k_mutexes k m)) + 1 \<and>
       returns (rt_mutex_release m k') (\<lambda>(r', k''). r' = RT_EOK \<and> k_mutexes k'' m = k_mutexes k m)) \<and>
     (\<forall>u. u \<noteq> t \<longrightarrow> returns (rt_mutex_release m (k\<lparr>k_current := Some u\<rparr>)) (\<lambda>(r, k'). r = -RT_ERROR \<and> k_mutexes k' = k_mutexes k))"
proof -
  have nz: "m_hold (k_mutexes k m) \<noteq> 0" using assms(1,2) by (simp add: mutex_ok_def Let_def)
  have s: "unat (m_hold (k_mutexes k m) + 1) = Suc (unat (m_hold (k_mutexes k m)))"
    using unat_succ_8[of "m_hold (k_mutexes k m)"] assms(3) by simp
  then show ?thesis
    using assms nz release_not_owner[of "k\<lparr>k_current := Some _\<rparr>" _ m]
    by (auto simp: rt_mutex_take_def rt_mutex_release_def rt_thread_self_def mutex_ok_def Let_def)
qed

theorem mutex_recursion_witness:
  "returns (rt_mutex_take 20 0 demo_owner) (\<lambda>(r, k'). r = Done RT_EOK \<and>
       unat (m_hold (k_mutexes k' 20)) = unat (m_hold (k_mutexes demo_owner 20)) + 1 \<and>
       returns (rt_mutex_release 20 k') (\<lambda>(r', k''). r' = RT_EOK \<and> k_mutexes k'' 20 = k_mutexes demo_owner 20)) \<and>
   returns (rt_mutex_release 20 (demo_owner\<lparr>k_current := Some 1\<rparr>)) (\<lambda>(r, k'). r = -RT_ERROR \<and> k_mutexes k' = k_mutexes demo_owner)"
proof -
  have "mutex_ok demo_owner 20" "m_owner (k_mutexes demo_owner 20) = Some 2" "m_hold (k_mutexes demo_owner 20) \<noteq> 255"
    "k_interrupt_nest demo_owner = 0" "k_current demo_owner = Some 2"
    by (simp_all add: demo_owner_def mutex_ok_def demo_tlists_def)
  from mutex_recursion[OF this, of 0] show ?thesis by simp
qed

section \<open>Events\<close>

text \<open>C17: After \<^verbatim>\<open>rt_event_send\<close> no thread is left waiting whose condition holds for the flags that are left
  set, and every thread that left the queue is ready; sending no flag is refused.\<close>

theorem event_send_leaves_no_match:
  assumes "kernel_inv k" "runnable k"
  shows "rt_event_send e 0 k = Some (-RT_ERROR, k) \<and>
     (\<forall>evset. evset \<noteq> 0 \<longrightarrow> returns (rt_event_send e evset k) (\<lambda>(r, k'). r = RT_EOK \<and> kernel_inv k' \<and>
       (\<forall>t\<in>set (k_tlists k' (Event_Q e)).
          \<not> event_match (t_event_info (thread k' t)) (t_event_set (thread k' t)) (e_set (k_events k' e))) \<and>
       (\<forall>t\<in>set (k_tlists k (Event_Q e)). t \<notin> set (k_tlists k' (Event_Q e)) \<longrightarrow> stat k' t = RT_THREAD_READY)))"
proof (intro conjI allI impI)
  show "rt_event_send e 0 k = Some (-RT_ERROR, k)" by (simp add: rt_event_send_def)
  fix evset :: u32 assume "evset \<noteq> 0"
  from event_send_returns[OF assms this] show "returns (rt_event_send e evset k) (\<lambda>(r, k'). r = RT_EOK \<and> kernel_inv k' \<and>
       (\<forall>t\<in>set (k_tlists k' (Event_Q e)).
          \<not> event_match (t_event_info (thread k' t)) (t_event_set (thread k' t)) (e_set (k_events k' e))) \<and>
       (\<forall>t\<in>set (k_tlists k (Event_Q e)). t \<notin> set (k_tlists k' (Event_Q e)) \<longrightarrow> stat k' t = RT_THREAD_READY))"
    by (rule returns_mono) (auto simp: unmatched_def)
qed

theorem event_send_leaves_no_match_witness:
  "rt_event_send 30 0 demo = Some (-RT_ERROR, demo) \<and>
   returns (rt_event_send 30 5 demo) (\<lambda>(r, k'). r = RT_EOK \<and> kernel_inv k' \<and>
       (\<forall>t\<in>set (k_tlists k' (Event_Q 30)).
          \<not> event_match (t_event_info (thread k' t)) (t_event_set (thread k' t)) (e_set (k_events k' 30))) \<and>
       (\<forall>t\<in>set (k_tlists demo (Event_Q 30)). t \<notin> set (k_tlists k' (Event_Q 30)) \<longrightarrow> stat k' t = RT_THREAD_READY))"
proof -
  have "(5 :: u32) \<noteq> 0" by simp
  then show ?thesis using event_send_leaves_no_match[OF demo_kernel_inv demo_runnable, of 30] by blast
qed

text \<open>\<^verbatim>\<open>rt_event_recv\<close>, on every branch: when the condition holds the flags asked for that are set are
  returned, and cleared from the event if that was asked for; otherwise the call fails with a time-out,
  or suspends the caller with its condition recorded.\<close>

theorem event_recv_cases:
  assumes "kernel_inv k" "may_block t k" "k_interrupt_nest k = 0" "time_ok timeout" "evset \<noteq> 0"
    "flag_ok (o_flag (k_objects k (OEvent e)))"
  shows "returns (rt_event_recv e evset option timeout k) (\<lambda>(r, k'). kernel_inv k' \<and>
     (if event_match option evset (e_set (k_events k e))
      then r = Done (RT_EOK, Some (e_set (k_events k e) AND evset)) \<and> k_tlists k' = k_tlists k \<and>
        e_set (k_events k' e) = (if option AND RT_EVENT_FLAG_CLEAR \<noteq> 0 then e_set (k_events k e) AND NOT evset else e_set (k_events k e))
      else if timeout = 0 then r = Done (-RT_ETIMEOUT, None) \<and> k_events k' = k_events k \<and> k_tlists k' = k_tlists k
      else r = Blocked \<and> k_events k' = k_events k \<and> stat k' t = RT_THREAD_SUSPEND \<and> t \<in> set (k_tlists k' (Event_Q e)) \<and>
        t_event_set (thread k' t) = evset \<and> t_event_info (thread k' t) = option))"
proof -
  let ?k1 = "upd_thread t (\<lambda>th. th\<lparr>t_error := RT_EOK\<rparr>) k"
  let ?k2 = "upd_thread t (\<lambda>th. th\<lparr>t_event_set := evset, t_event_info := option\<rparr>) ?k1"
  have c: "k_current k = Some t" using assms(2) by (simp add: may_block_def)
  have st: "(if option AND RT_EVENT_FLAG_AND \<noteq> 0 then e_set (k_events k e) AND evset = evset
      else if option AND RT_EVENT_FLAG_OR \<noteq> 0 then e_set (k_events k e) AND evset \<noteq> 0 else False)
      = event_match option evset (e_set (k_events k e))"
    by (simp add: event_match_def and.commute)
  have "kernel_inv ?k2" "may_block t ?k2" using assms(1,2) by (auto simp: may_block_def)
  note b = ipc_block_returns[OF this(1) wait_queue_simps(3)[of e] this(2) assms(6,4)]
  show ?thesis
    using assms(1,3,5) c st
    by (cases "event_match option evset (e_set (k_events k e))"; cases "timeout = 0")
      (auto simp: rt_event_recv_def rt_thread_self_def Let_def waiting_defs same_objs_def
        intro!: returns_mono[OF b])
qed

theorem event_recv_cases_witness:
  "returns (rt_event_recv 30 5 RT_EVENT_FLAG_OR 10 demo) (\<lambda>(r, k'). kernel_inv k' \<and>
     (if event_match RT_EVENT_FLAG_OR 5 (e_set (k_events demo 30))
      then r = Done (RT_EOK, Some (e_set (k_events demo 30) AND 5)) \<and> k_tlists k' = k_tlists demo \<and>
        e_set (k_events k' 30) = (if RT_EVENT_FLAG_OR AND RT_EVENT_FLAG_CLEAR \<noteq> 0 then e_set (k_events demo 30) AND NOT 5 else e_set (k_events demo 30))
      else if (10 :: u32) = 0 then r = Done (-RT_ETIMEOUT, None) \<and> k_events k' = k_events demo \<and> k_tlists k' = k_tlists demo
      else r = Blocked \<and> k_events k' = k_events demo \<and> stat k' 2 = RT_THREAD_SUSPEND \<and> 2 \<in> set (k_tlists k' (Event_Q 30)) \<and>
        t_event_set (thread k' 2) = 5 \<and> t_event_info (thread k' 2) = RT_EVENT_FLAG_OR))"
  by (rule event_recv_cases[OF demo_kernel_inv demo_may_block]) (simp_all add: time_ok_def flag_ok_def demo_objects_def)

section \<open>Mailboxes\<close>

text \<open>C18: The ring of a mailbox is a first-in first-out store: any sequence of mails that fits into an empty
  mailbox, wherever its offsets stand, is taken out in the same order and leaves it empty.\<close>

theorem mailbox_round_trip:
  assumes "mb_ok mb" "mb_contents mb = []" "length vs \<le> unat (mb_size mb)"
  shows "fst (get_n mb_get (length vs) (fold mb_put vs mb)) = vs \<and>
     mb_contents (snd (get_n mb_get (length vs) (fold mb_put vs mb))) = []"
  using mb_fifo.round_trip[OF assms(1,2), of vs] assms(3) by simp

theorem mailbox_round_trip_witness:
  "let mb = \<lparr>mb_pool_addr = 0, mb_msg_pool = [0, 0, 0], mb_size = 3, mb_entry = 0, mb_in_offset = 2, mb_out_offset = 2\<rparr>
   in fst (get_n mb_get (length [7 :: u32, 8]) (fold mb_put [7, 8] mb)) = [7, 8] \<and>
     mb_contents (snd (get_n mb_get (length [7 :: u32, 8]) (fold mb_put [7, 8] mb))) = []"
  unfolding Let_def by (rule mailbox_round_trip) (simp_all add: mb_ok_def mb_contents_def)

text \<open>C19: \<^verbatim>\<open>rt_mb_send_wait\<close>, on every branch: with room the mail is appended and the first waiting receiver
  becomes ready; a full mailbox refuses a caller that does not wait, and suspends one that does on the
  queue of senders.\<close>

theorem mailbox_send_cases:
  assumes "kernel_inv k" "may_block t k" "mb_ok (k_mailboxes k m)" "k_interrupt_nest k = 0" "time_ok timeout"
    "flag_ok (o_flag (k_objects k (OMailBox m)))"
  shows "returns (rt_mb_send_wait m v timeout k) (\<lambda>(r, k'). kernel_inv k' \<and> mb_ok (k_mailboxes k' m) \<and>
     (if length (mb_contents (k_mailboxes k m)) < unat (mb_size (k_mailboxes k m))
      then r = Done RT_EOK \<and> mb_contents (k_mailboxes k' m) = mb_contents (k_mailboxes k m) @ [v] \<and>
        (\<forall>w ws. k_tlists k (Mb_Recv_Q m) = w # ws \<longrightarrow> stat k' w = RT_THREAD_READY \<and> k_tlists k' (Mb_Recv_Q m) = ws)
      else if timeout = 0 then r = Done (-RT_EFULL) \<and> k' = k
      else r = Blocked \<and> k_mailboxes k' = k_mailboxes k \<and> stat k' t = RT_THREAD_SUSPEND \<and> t \<in> set (k_tlists k' (Mb_Send_Q m))))"
proof -
  have run: "runnable k" using assms(2) by (auto simp: may_block_def runnable_def)
  have len: "length (mb_contents (k_mailboxes k m)) = unat (mb_entry (k_mailboxes k m))" by simp
  have le: "unat (mb_entry (k_mailboxes k m)) \<le> unat (mb_size (k_mailboxes k m))"
    using assms(3) by (simp add: mb_ok_def word_le_nat_alt)
  show ?thesis
  proof (cases "mb_entry (k_mailboxes k m) = mb_size (k_mailboxes k m)")
    case False
    then have "length (mb_contents (k_mailboxes k m)) < unat (mb_size (k_mailboxes k m))"
      using le len by (metis le_neq_implies_less word_unat_eq_iff)
    then show ?thesis
      by (intro returns_mono[OF mb_send_room[OF assms(1) run assms(3) False]]) (auto simp: served_def)
  next
    case full: True
    then have "\<not> length (mb_contents (k_mailboxes k m)) < unat (mb_size (k_mailboxes k m))" using len by simp
    note n = this
    show ?thesis
    proof (cases "timeout = 0")
      case True
      then show ?thesis using full n assms(1,3) by (simp add: rt_mb_send_wait_def)
    next
      case False
      show ?thesis
        by (rule returns_mono[OF mb_send_blocks[OF assms(1) full False assms(5,4,2,6)]])
          (use False n assms(3) in \<open>auto simp: waiting_defs same_objs_def\<close>)
    qed
  qed
qed

lemma demo_mailbox: "mb_ok (k_mailboxes demo m)"
  by (simp add: demo_def mb_ok_def)

theorem mailbox_send_cases_witness:
  "returns (rt_mb_send_wait 40 77 0 demo) (\<lambda>(r, k'). kernel_inv k' \<and> mb_ok (k_mailboxes k' 40) \<and>
     (if length (mb_contents (k_mailboxes demo 40)) < unat (mb_size (k_mailboxes demo 40))
      then r = Done RT_EOK \<and> mb_contents (k_mailboxes k' 40) = mb_contents (k_mailboxes demo 40) @ [77] \<and>
        (\<forall>w ws. k_tlists demo (Mb_Recv_Q 40) = w # ws \<longrightarrow> stat k' w = RT_THREAD_READY \<and> k_tlists k' (Mb_Recv_Q 40) = ws)
      else if (0 :: u32) = 0 then r = Done (-RT_EFULL) \<and> k' = demo
      else r = Blocked \<and> k_mailboxes k' = k_mailboxes demo \<and> stat k' 2 = RT_THREAD_SUSPEND \<and> 2 \<in> set (k_tlists k' (Mb_Send_Q 40))))"
  by (rule mailbox_send_cases[OF demo_kernel_inv demo_may_block demo_mailbox])
    (simp_all add: time_ok_def flag_ok_def demo_objects_def)

text \<open>C20: \<^verbatim>\<open>rt_mb_recv\<close>, on every branch: the oldest mail is returned and the first waiting sender becomes
  ready; on an empty mailbox the call fails with a time-out, or suspends the caller on the queue of
  receivers.\<close>

theorem mailbox_recv_cases:
  assumes "kernel_inv k" "may_block t k" "mb_ok (k_mailboxes k m)" "k_interrupt_nest k = 0" "time_ok timeout"
    "flag_ok (o_flag (k_objects k (OMailBox m)))"
  shows "returns (rt_mb_recv m timeout k) (\<lambda>(r, k'). kernel_inv k' \<and> mb_ok (k_mailboxes k' m) \<and>
     (case mb_contents (k_mailboxes k m) of
        v # vs \<Rightarrow> r = Done (RT_EOK, Some v) \<and> mb_contents (k_mailboxes k' m) = vs \<and>
          (\<forall>w ws. k_tlists k (Mb_Send_Q m) = w # ws \<longrightarrow> stat k' w = RT_THREAD_READY \<and> k_tlists k' (Mb_Send_Q m) = ws)
      | [] \<Rightarrow> if timeout = 0 then r = Done (-RT_ETIMEOUT, None) \<and> k' = k
          else r = Blocked \<and> k_mailboxes k' = k_mailboxes k \<and> stat k' t = RT_THREAD_SUSPEND \<and> t \<in> set (k_tlists k' (Mb_Recv_Q m))))"
proof (cases "mb_contents (k_mailboxes k m)")
  case (Cons v vs)
  have run: "runnable k" using assms(2) by (auto simp: may_block_def runnable_def)
  show ?thesis
    by (rule returns_mono[OF mb_recv_some[OF assms(1) run assms(3) Cons]]) (use Cons in \<open>auto simp: served_def\<close>)
next
  case Nil
  then have e: "mb_entry (k_mailboxes k m) = 0" using length_mb_contents[of "k_mailboxes k m"] by (simp add: unat_eq_zero)
  show ?thesis
  proof (cases "timeout = 0")
    case True
    then show ?thesis using e Nil assms(1,3) by (simp add: rt_mb_recv_def)
  next
    case False
    show ?thesis
      by (rule returns_mono[OF mb_recv_blocks[OF assms(1) e False assms(5,4,2,6)]])
        (use False Nil assms(3) in \<open>auto simp: waiting_defs same_objs_def\<close>)
  qed
qed

theorem mailbox_recv_cases_witness:
  "returns (rt_mb_recv 40 RT_WAITING_FOREVER demo) (\<lambda>(r, k'). kernel_inv k' \<and> mb_ok (k_mailboxes k' 40) \<and>
     (case mb_contents (k_mailboxes demo 40) of
        v # vs \<Rightarrow> r = Done (RT_EOK, Some v) \<and> mb_contents (k_mailboxes k' 40) = vs \<and>
          (\<forall>w ws. k_tlists demo (Mb_Send_Q 40) = w # ws \<longrightarrow> stat k' w = RT_THREAD_READY \<and> k_tlists k' (Mb_Send_Q 40) = ws)
      | [] \<Rightarrow> if RT_WAITING_FOREVER = 0 then r = Done (-RT_ETIMEOUT, None) \<and> k' = demo
          else r = Blocked \<and> k_mailboxes k' = k_mailboxes demo \<and> stat k' 2 = RT_THREAD_SUSPEND \<and> 2 \<in> set (k_tlists k' (Mb_Recv_Q 40))))"
  by (rule mailbox_recv_cases[OF demo_kernel_inv demo_may_block demo_mailbox])
    (simp_all add: time_ok_def flag_ok_def demo_objects_def)

section \<open>Message queues\<close>

text \<open>C21: A message sent to an empty message queue is received unchanged, for every size up to the block size;
  the queue is empty again and its blocks are all accounted for.\<close>

theorem mq_send_receive:
  assumes "kernel_inv k" "runnable k" "mq_ok (k_mqs k m)" "mq_contents (k_mqs k m) = []" "0 < mq_max_msgs (k_mqs k m)"
    "0 < unat sz" "unat sz \<le> unat (mq_msg_size (k_mqs k m))" "unat sz \<le> length buffer"
  shows "returns (do { (r, k1) \<leftarrow> rt_mq_send m buffer sz k; rt_mq_recv m sz timeout k1 }) (\<lambda>(r, k').
     r = Done (RT_EOK, Some (take (unat sz) buffer)) \<and> kernel_inv k' \<and> mq_ok (k_mqs k' m) \<and> mq_contents (k_mqs k' m) = [])"
proof -
  obtain qs fs where rep: "mq_rep (k_mqs k m) qs fs" using assms(3) by (auto simp: mq_ok_def)
  have "length (qs @ fs) = unat (mq_max_msgs (k_mqs k m))" "qs = []"
    using rep assms(4) mq_contents_rep[OF rep] by (simp_all add: mq_rep_def)
  then obtain b fs' where fs: "fs = b # fs'" using assms(5) by (cases fs) (auto simp: word_less_nat_alt)
  have sz: "sz \<noteq> 0" using assms(6) by auto
  show ?thesis
    unfolding returns_bind
  proof (rule returns_mono[OF mq_send_room[OF assms(1,2) rep[unfolded fs] assms(6-8)]], clarify)
    fix k1 assume k1: "kernel_inv k1" "mq_ok (k_mqs k1 m)" "mq_contents (k_mqs k1 m) =
        mq_contents (k_mqs k m) @ [mq_filled (unat sz) buffer (mq_data (k_mqs k m) b)]"
    have c: "mq_contents (k_mqs k1 m) = mq_filled (unat sz) buffer (mq_data (k_mqs k m) b) # []" using k1(3) assms(4) by simp
    show "returns (rt_mq_recv m sz timeout k1) (\<lambda>(r, k'). r = Done (RT_EOK, Some (take (unat sz) buffer)) \<and>
        kernel_inv k' \<and> mq_ok (k_mqs k' m) \<and> mq_contents (k_mqs k' m) = [])"
      by (rule returns_mono[OF mq_recv_some[OF k1(1,2) c sz]]) (use assms(8) in \<open>auto simp: mq_filled_def min_def\<close>)
  qed
qed

lemma demo_mq: "mq_rep (k_mqs demo m) [] [0, 1]" "mq_ok (k_mqs demo m)"
proof -
  show "mq_rep (k_mqs demo m) [] [0, 1]" by (simp add: demo_def mq_rep_def)
  then show "mq_ok (k_mqs demo m)" by (rule mq_okI)
qed

theorem mq_send_receive_witness:
  "returns (do { (r, k1) \<leftarrow> rt_mq_send 60 [1, 2, 3] 3 demo; rt_mq_recv 60 3 0 k1 }) (\<lambda>(r, k').
     r = Done (RT_EOK, Some (take (unat (3 :: u32)) [1, 2, 3])) \<and> kernel_inv k' \<and> mq_ok (k_mqs k' 60) \<and> mq_contents (k_mqs k' 60) = [])"
  by (rule mq_send_receive[OF demo_kernel_inv demo_runnable demo_mq(2)])
    (simp_all add: mq_contents_rep[OF demo_mq(1)], simp_all add: demo_def)

text \<open>An urgent message overtakes all messages in the queue: it is the next one received, and behind it the
  queue is as it was.\<close>

theorem mq_urgent_overtakes:
  assumes "kernel_inv k" "runnable k" "mq_ok (k_mqs k m)"
    "length (mq_contents (k_mqs k m)) < unat (mq_max_msgs (k_mqs k m))"
    "0 < unat sz" "unat sz \<le> unat (mq_msg_size (k_mqs k m))" "unat sz \<le> length buffer"
  shows "returns (do { (r, k1) \<leftarrow> rt_mq_urgent m buffer sz k; rt_mq_recv m sz timeout k1 }) (\<lambda>(r, k').
     r = Done (RT_EOK, Some (take (unat sz) buffer)) \<and> kernel_inv k' \<and> mq_ok (k_mqs k' m) \<and>
     mq_contents (k_mqs k' m) = mq_contents (k_mqs k m))"
proof -
  obtain qs fs where rep: "mq_rep (k_mqs k m) qs fs" using assms(3) by (auto simp: mq_ok_def)
  have "length qs + length fs = unat (mq_max_msgs (k_mqs k m))" "length qs = length (mq_contents (k_mqs k m))"
    using rep mq_contents_rep[OF rep] by (simp_all add: mq_rep_def)
  then obtain b fs' where fs: "fs = b # fs'" using assms(4) by (cases fs) auto
  have sz: "sz \<noteq> 0" using assms(5) by auto
  show ?thesis
    unfolding returns_bind
  proof (rule returns_mono[OF mq_urgent_room[OF assms(1,2) rep[unfolded fs] assms(5-7)]], clarify)
    fix k1 assume k1: "kernel_inv k1" "mq_ok (k_mqs k1 m)" "mq_contents (k_mqs k1 m) =
        mq_filled (unat sz) buffer (mq_data (k_mqs k m) b) # mq_contents (k_mqs k m)"
    show "returns (rt_mq_recv m sz timeout k1) (\<lambda>(r, k'). r = Done (RT_EOK, Some (take (unat sz) buffer)) \<and>
        kernel_inv k' \<and> mq_ok (k_mqs k' m) \<and> mq_contents (k_mqs k' m) = mq_contents (k_mqs k m))"
      by (rule returns_mono[OF mq_recv_some[OF k1 sz]]) (use assms(7) in \<open>auto simp: mq_filled_def min_def\<close>)
  qed
qed

theorem mq_urgent_overtakes_witness:
  "returns (do { (r, k1) \<leftarrow> rt_mq_urgent 60 [9] 1 demo; rt_mq_recv 60 1 0 k1 }) (\<lambda>(r, k').
     r = Done (RT_EOK, Some (take (unat (1 :: u32)) [9])) \<and> kernel_inv k' \<and> mq_ok (k_mqs k' 60) \<and>
     mq_contents (k_mqs k' 60) = mq_contents (k_mqs demo 60))"
  by (rule mq_urgent_overtakes[OF demo_kernel_inv demo_runnable demo_mq(2)])
    (simp_all add: mq_contents_rep[OF demo_mq(1)], simp_all add: demo_def)

text \<open>C22: Resetting a message queue ends, gives every message block back to the free list and wakes all
  waiting threads with an error.\<close>

theorem mq_reset_drains:
  assumes "kernel_inv k" "runnable k" "mq_ok (k_mqs k m)"
  shows "returns (rt_mq_control m RT_IPC_CMD_RESET arg k) (\<lambda>(r, k'). r = RT_EOK \<and> kernel_inv k' \<and>
     mq_ok (k_mqs k' m) \<and> mq_contents (k_mqs k' m) = [] \<and> k_tlists k' (Mq_Q m) = [] \<and>
     (\<forall>t\<in>set (k_tlists k (Mq_Q m)). stat k' t = RT_THREAD_READY \<and> t_error (thread k' t) = -RT_ERROR))"
  by (rule returns_mono[OF mq_reset_returns[OF assms]]) auto

theorem mq_reset_drains_witness:
  "returns (rt_mq_control 60 RT_IPC_CMD_RESET 0 demo) (\<lambda>(r, k'). r = RT_EOK \<and> kernel_inv k' \<and>
     mq_ok (k_mqs k' 60) \<and> mq_contents (k_mqs k' 60) = [] \<and> k_tlists k' (Mq_Q 60) = [] \<and>
     (\<forall>t\<in>set (k_tlists demo (Mq_Q 60)). stat k' t = RT_THREAD_READY \<and> t_error (thread k' t) = -RT_ERROR))"
  by (rule mq_reset_drains[OF demo_kernel_inv demo_runnable demo_mq(2)])

end
