(* ===== verification/Alloc_Spec.thy ===== *)
theory Alloc_Spec
  imports RT_Prelude
begin

text \<open>
  The contract of a memory allocator: what the heap and the memory pools promise to their users.
  \<open>live s\<close> is the set of areas, from the first address to the one behind the last, that are handed out
  in state \<open>s\<close>; a request \<open>r\<close> asks for \<open>need r\<close> bytes, and \<open>fits\<close> says which requests are well formed.
\<close>

definition apart :: "(nat \<times> nat) \<Rightarrow> (nat \<times> nat) \<Rightarrow> bool" where
  "apart A B \<longleftrightarrow> snd A \<le> fst B \<or> snd B \<le> fst A"

text \<open>Serving a list of requests in order; the addresses obtained, \<open>None\<close> for a request that failed.\<close>

fun alloc_all :: "('r \<Rightarrow> 's \<Rightarrow> (nat option \<times> 's) option) \<Rightarrow> 'r list \<Rightarrow> 's \<Rightarrow> (nat option list \<times> 's) option" where
  "alloc_all alloc [] s = Some ([], s)"
| "alloc_all alloc (r # rs) s = do { (p, s1) \<leftarrow> alloc r s; (ps, s2) \<leftarrow> alloc_all alloc rs s1; Some (p # ps, s2) }"

locale allocator =
  fixes ok :: "'s \<Rightarrow> bool"
    and live :: "'s \<Rightarrow> (nat \<times> nat) set"
    and fits :: "'s \<Rightarrow> 'r \<Rightarrow> bool"
    and need :: "'r \<Rightarrow> nat"
    and alloc :: "'r \<Rightarrow> 's \<Rightarrow> (nat option \<times> 's) option"
    and release :: "nat \<Rightarrow> 's \<Rightarrow> 's option"
  assumes live_apart: "ok s \<Longrightarrow> A \<in> live s \<Longrightarrow> B \<in> live s \<Longrightarrow> A \<noteq> B \<Longrightarrow> apart A B"
    and alloc_ok: "ok s \<Longrightarrow> fits s r \<Longrightarrow> returns (alloc r s) (\<lambda>(p, s'). ok s' \<and> fits s' = fits s \<and>
      (case p of None \<Rightarrow> live s' = live s
       | Some a \<Rightarrow> \<exists>b. a + need r \<le> b \<and> (a, b) \<notin> live s \<and> live s' = insert (a, b) (live s)))"
    and release_ok: "ok s \<Longrightarrow> (a, b) \<in> live s \<Longrightarrow>
      returns (release a s) (\<lambda>s'. ok s' \<and> fits s' = fits s \<and> live s' = live s - {(a, b)})"
begin

text \<open>A new area is apart from every area that was handed out before.\<close>

lemma alloc_fresh:
  assumes "ok s" "fits s r"
  shows "returns (alloc r s) (\<lambda>(p, s'). \<forall>a. p = Some a \<longrightarrow>
     (\<exists>b. a + need r \<le> b \<and> live s' = insert (a, b) (live s) \<and> (\<forall>B\<in>live s. apart (a, b) B)))"
proof (rule returns_mono[OF alloc_ok[OF assms]], clarify)
  fix s' a
  assume ok: "ok s'" and p: "case Some a of None \<Rightarrow> live s' = live s
       | Some a \<Rightarrow> \<exists>b. a + need r \<le> b \<and> (a, b) \<notin> live s \<and> live s' = insert (a, b) (live s)"
  then obtain b where b: "a + need r \<le> b" "(a, b) \<notin> live s" "live s' = insert (a, b) (live s)" by auto
  have "apart (a, b) B" if "B \<in> live s" for B using live_apart[OF ok, of "(a, b)" B] b that by auto
  then show "\<exists>b. a + need r \<le> b \<and> live s' = insert (a, b) (live s) \<and> (\<forall>B\<in>live s. apart (a, b) B)"
    using b by blast
qed

text \<open>Giving an area back undoes its allocation.\<close>

lemma alloc_release:
  assumes "ok s" "fits s r"
  shows "returns (alloc r s) (\<lambda>(p, s'). \<forall>a. p = Some a \<longrightarrow> returns (release a s') (\<lambda>s''. ok s'' \<and> live s'' = live s))"
proof (rule returns_mono[OF alloc_ok[OF assms]], clarify)
  fix s' a
  assume ok: "ok s'" and p: "case Some a of None \<Rightarrow> live s' = live s
       | Some a \<Rightarrow> \<exists>b. a + need r \<le> b \<and> (a, b) \<notin> live s \<and> live s' = insert (a, b) (live s)"
  then obtain b where b: "(a, b) \<notin> live s" "live s' = insert (a, b) (live s)" by auto
  show "returns (release a s') (\<lambda>s''. ok s'' \<and> live s'' = live s)"
    by (rule returns_mono[OF release_ok[OF ok, of a b]]) (use b in auto)
qed

text \<open>Serving many requests returns, and keeps all areas that were live: whatever was and is obtained is
  pairwise apart.\<close>

lemma alloc_all_ok:
  "ok s \<Longrightarrow> \<forall>r\<in>set rs. fits s r \<Longrightarrow> returns (alloc_all alloc rs s) (\<lambda>(ps, s'). ok s' \<and> live s \<subseteq> live s' \<and>
     length ps = length rs \<and> (\<forall>i<length rs. \<forall>a. ps ! i = Some a \<longrightarrow> (\<exists>b. a + need (rs ! i) \<le> b \<and> (a, b) \<in> live s' \<and> (a, b) \<notin> live s)))"
proof (induction rs arbitrary: s)
  case (Cons r rs)
  have "returns (alloc r s) (\<lambda>(p, s1). returns (alloc_all alloc rs s1) (\<lambda>(ps, s'). ok s' \<and> live s \<subseteq> live s' \<and>
     length (p # ps) = length (r # rs) \<and> (\<forall>i<length (r # rs). \<forall>a. (p # ps) ! i = Some a \<longrightarrow>
        (\<exists>b. a + need ((r # rs) ! i) \<le> b \<and> (a, b) \<in> live s' \<and> (a, b) \<notin> live s))))"
  proof (rule returns_mono[OF alloc_ok[OF Cons.prems(1)]])
    show "fits s r" using Cons.prems(2) by simp
    fix y assume "case y of (p, s') \<Rightarrow> ok s' \<and> fits s' = fits s \<and> (case p of None \<Rightarrow> live s' = live s
       | Some a \<Rightarrow> \<exists>b. a + need r \<le> b \<and> (a, b) \<notin> live s \<and> live s' = insert (a, b) (live s))"
    then obtain p s1 where y: "y = (p, s1)" and s1: "ok s1" "fits s1 = fits s" "live s \<subseteq> live s1"
      and p: "\<And>a. p = Some a \<Longrightarrow> \<exists>b. a + need r \<le> b \<and> (a, b) \<notin> live s \<and> (a, b) \<in> live s1"
      by (cases y) (auto split: option.splits)
    have ih: "returns (alloc_all alloc rs s1) (\<lambda>(ps, s'). ok s' \<and> live s1 \<subseteq> live s' \<and> length ps = length rs \<and>
        (\<forall>i<length rs. \<forall>a. ps ! i = Some a \<longrightarrow> (\<exists>b. a + need (rs ! i) \<le> b \<and> (a, b) \<in> live s' \<and> (a, b) \<notin> live s1)))"
      using Cons.prems(2) s1 by (intro Cons.IH) simp_all
    show "case y of (p, s1) \<Rightarrow> returns (alloc_all alloc rs s1) (\<lambda>(ps, s'). ok s' \<and> live s \<subseteq> live s' \<and>
     length (p # ps) = length (r # rs) \<and> (\<forall>i<length (r # rs). \<forall>a. (p # ps) ! i = Some a \<longrightarrow>
        (\<exists>b. a + need ((r # rs) ! i) \<le> b \<and> (a, b) \<in> live s' \<and> (a, b) \<notin> live s)))"
      unfolding y using s1(3) p by (auto intro!: returns_mono[OF ih] simp: less_Suc_eq_0_disj; blast)
  qed
  then show ?case by (auto simp: case_prod_unfold elim!: returns_mono)
qed simp

end

end
