(* ===== verification/Mem.thy ===== *)
theory Mem
  imports Kernel_State Alloc_Spec
begin

unbundle bit_operations_syntax

text \<open>
  The small memory management, from \<^verbatim>\<open>src/mem.c\<close>: a heap of blocks, each with a header that gives the
  offsets of its neighbours, kept so that no two neighbouring blocks are free.  A block is named by its
  offset from \<^verbatim>\<open>heap_ptr\<close>; pointer comparisons compare the addresses.  This theory has the part of the
  code that runs under the semaphore of the heap; theory \<open>Kernel_Heap\<close> has the calls around it.
\<close>

section \<open>The code\<close>

abbreviation HEAP_MAGIC :: u16 where "HEAP_MAGIC \<equiv> 0x1ea0"
abbreviation MIN_SIZE_ALIGNED :: u32 where "MIN_SIZE_ALIGNED \<equiv> 12"
abbreviation SIZEOF_STRUCT_MEM :: u32 where "SIZEOF_STRUCT_MEM \<equiv> 12"

definition upd_mem :: "u32 \<Rightarrow> (heap_mem \<Rightarrow> heap_mem) \<Rightarrow> heap \<Rightarrow> heap" where
  "upd_mem x f h = h\<lparr>h_mem := (h_mem h)(x := f (h_mem h x))\<rparr>"

definition plug_forward :: "u32 \<Rightarrow> heap \<Rightarrow> heap" where
  "plug_forward mem h =
     (let nmem = hm_next (h_mem h mem)
      in if mem \<noteq> nmem \<and> hm_used (h_mem h nmem) = 0 \<and> nmem \<noteq> h_end h then
           let h1 = (if h_lfree h = nmem then h\<lparr>h_lfree := mem\<rparr> else h);
               h2 = upd_mem mem (\<lambda>b. b\<lparr>hm_next := hm_next (h_mem h1 nmem)\<rparr>) h1
           in upd_mem (hm_next (h_mem h2 nmem)) (\<lambda>b. b\<lparr>hm_prev := mem\<rparr>) h2
         else h)"

definition plug_backward :: "u32 \<Rightarrow> heap \<Rightarrow> heap" where
  "plug_backward mem h =
     (let pmem = hm_prev (h_mem h mem)
      in if pmem \<noteq> mem \<and> hm_used (h_mem h pmem) = 0 then
           let h1 = (if h_lfree h = mem then h\<lparr>h_lfree := pmem\<rparr> else h);
               h2 = upd_mem pmem (\<lambda>b. b\<lparr>hm_next := hm_next (h_mem h1 mem)\<rparr>) h1
           in upd_mem (hm_next (h_mem h2 mem)) (\<lambda>b. b\<lparr>hm_prev := pmem\<rparr>) h2
         else h)"

definition plug_holes :: "u32 \<Rightarrow> heap \<Rightarrow> heap option" where
  "plug_holes mem h =
     do { rt_assert (h_ptr h \<le> h_ptr h + mem);
          rt_assert (h_ptr h + mem < h_ptr h + h_end h);
          rt_assert (hm_used (h_mem h mem) = 0);
          Some (plug_backward mem (plug_forward mem h)) }"

text \<open>The stores of \<^verbatim>\<open>rt_system_heap_init\<close>, for aligned limits.\<close>

definition heap_format :: "u32 \<Rightarrow> u32 \<Rightarrow> heap \<Rightarrow> heap" where
  "heap_format begin_align end_align h =
     (let sz = end_align - begin_align - 2 * SIZEOF_STRUCT_MEM;
          h1 = h\<lparr>h_size := sz, h_ptr := begin_align\<rparr>;
          h2 = upd_mem 0 (\<lambda>_. \<lparr>hm_magic = HEAP_MAGIC, hm_used = 0, hm_next = sz + SIZEOF_STRUCT_MEM, hm_prev = 0\<rparr>) h1;
          h3 = h2\<lparr>h_end := hm_next (h_mem h2 0)\<rparr>;
          h4 = upd_mem (h_end h3) (\<lambda>_. \<lparr>hm_magic = HEAP_MAGIC, hm_used = 1, hm_next = sz + SIZEOF_STRUCT_MEM,
                                       hm_prev = sz + SIZEOF_STRUCT_MEM\<rparr>) h3
      in h4\<lparr>h_lfree := 0\<rparr>)"

definition add_used :: "u32 \<Rightarrow> heap \<Rightarrow> heap" where
  "add_used n h =
     (let h1 = h\<lparr>h_used_mem := h_used_mem h + n\<rparr>
      in if h_max_mem h1 < h_used_mem h1 then h1\<lparr>h_max_mem := h_used_mem h1\<rparr> else h1)"

text \<open>The search for the next free block when the lowest one has been taken.\<close>

partial_function (option) lfree_scan :: "heap \<Rightarrow> heap option" where
  "lfree_scan h =
     (if hm_used (h_mem h (h_lfree h)) \<noteq> 0 \<and> h_lfree h \<noteq> h_end h
      then lfree_scan (h\<lparr>h_lfree := hm_next (h_mem h (h_lfree h))\<rparr>) else Some h)"

text \<open>The body of the loop of \<^verbatim>\<open>rt_malloc\<close> for a block that fits: split it, or take it whole.\<close>

definition malloc_mark :: "u32 \<Rightarrow> u32 \<Rightarrow> heap \<Rightarrow> heap" where
  "malloc_mark ptr sz h =
     (let n = hm_next (h_mem h ptr);
          h1 = (if n - (ptr + SIZEOF_STRUCT_MEM) \<ge> sz + SIZEOF_STRUCT_MEM + MIN_SIZE_ALIGNED then
              let ptr2 = ptr + SIZEOF_STRUCT_MEM + sz;
                  a = upd_mem ptr2 (\<lambda>b. b\<lparr>hm_used := 0, hm_next := n, hm_prev := ptr\<rparr>) h;
                  b = upd_mem ptr (\<lambda>b. b\<lparr>hm_next := ptr2, hm_used := 1\<rparr>) a;
                  c = (if n \<noteq> h_size h + SIZEOF_STRUCT_MEM then upd_mem n (\<lambda>b. b\<lparr>hm_prev := ptr2\<rparr>) b else b)
              in add_used (sz + SIZEOF_STRUCT_MEM) c
            else add_used (n - ptr) (upd_mem ptr (\<lambda>b. b\<lparr>hm_used := 1\<rparr>) h))
      in upd_mem ptr (\<lambda>b. b\<lparr>hm_magic := HEAP_MAGIC\<rparr>) h1)"

definition malloc_take :: "u32 \<Rightarrow> u32 \<Rightarrow> heap \<Rightarrow> heap option" where
  "malloc_take ptr sz h =
     do { let h2 = malloc_mark ptr sz h;
          if ptr = h_lfree h2
          then do { h3 \<leftarrow> lfree_scan h2;
                    rt_assert (h_lfree h3 = h_end h3 \<or> hm_used (h_mem h3 (h_lfree h3)) = 0);
                    Some h3 }
          else Some h2 }"

partial_function (option) malloc_loop :: "u32 \<Rightarrow> u32 \<Rightarrow> heap \<Rightarrow> (u32 option \<times> heap) option" where
  "malloc_loop sz ptr h =
     (if ptr < h_size h - sz then
        if hm_used (h_mem h ptr) = 0 \<and> hm_next (h_mem h ptr) - (ptr + SIZEOF_STRUCT_MEM) \<ge> sz
        then do { h1 \<leftarrow> malloc_take ptr sz h; Some (Some ptr, h1) }
        else malloc_loop sz (hm_next (h_mem h ptr)) h
      else Some (None, h))"

text \<open>The part of \<^verbatim>\<open>rt_free\<close> under the semaphore.\<close>

definition heap_release :: "u32 \<Rightarrow> heap \<Rightarrow> heap option" where
  "heap_release mem h =
     do { rt_assert (hm_used (h_mem h mem) \<noteq> 0);
          rt_assert (hm_magic (h_mem h mem) = HEAP_MAGIC);
          let h1 = upd_mem mem (\<lambda>b. b\<lparr>hm_used := 0, hm_magic := 0\<rparr>) h;
          let h2 = (if h_ptr h1 + mem < h_ptr h1 + h_lfree h1 then h1\<lparr>h_lfree := mem\<rparr> else h1);
          let h3 = h2\<lparr>h_used_mem := h_used_mem h2 - (hm_next (h_mem h2 mem) - mem)\<rparr>;
          plug_holes mem h3 }"

text \<open>The split of \<^verbatim>\<open>rt_realloc\<close> for a block that shrinks.\<close>

definition realloc_split :: "u32 \<Rightarrow> u32 \<Rightarrow> heap \<Rightarrow> heap option" where
  "realloc_split ptr newsize h =
     (let sz = hm_next (h_mem h ptr) - ptr - SIZEOF_STRUCT_MEM;
          h1 = h\<lparr>h_used_mem := h_used_mem h - (sz - newsize)\<rparr>;
          ptr2 = ptr + SIZEOF_STRUCT_MEM + newsize;
          n = hm_next (h_mem h1 ptr);
          h2 = upd_mem ptr2 (\<lambda>_. \<lparr>hm_magic = HEAP_MAGIC, hm_used = 0, hm_next = n, hm_prev = ptr\<rparr>) h1;
          h3 = upd_mem ptr (\<lambda>b. b\<lparr>hm_next := ptr2\<rparr>) h2;
          h4 = (if n \<noteq> h_size h3 + SIZEOF_STRUCT_MEM then upd_mem n (\<lambda>b. b\<lparr>hm_prev := ptr2\<rparr>) h3 else h3)
      in plug_holes ptr2 h4)"

lemma upd_mem_fields [simp]:
  "h_mem (upd_mem x f h) = (h_mem h)(x := f (h_mem h x))" "h_ptr (upd_mem x f h) = h_ptr h" "h_end (upd_mem x f h) = h_end h"
  "h_lfree (upd_mem x f h) = h_lfree h" "h_size (upd_mem x f h) = h_size h" "h_used_mem (upd_mem x f h) = h_used_mem h"
  "h_max_mem (upd_mem x f h) = h_max_mem h"
  by (simp_all add: upd_mem_def)

lemma add_used_fields [simp]:
  "h_mem (add_used n h) = h_mem h" "h_ptr (add_used n h) = h_ptr h" "h_end (add_used n h) = h_end h"
  "h_lfree (add_used n h) = h_lfree h" "h_size (add_used n h) = h_size h" "h_used_mem (add_used n h) = h_used_mem h + n"
  by (simp_all add: add_used_def Let_def)

section \<open>The chain of blocks\<close>

text \<open>From offset \<open>p\<close>, with predecessor \<open>pr\<close>, the headers describe the blocks \<open>bs\<close>, each with its offset
  and whether it is in use, up to the end \<open>e\<close>.  A block holds at least its header of 12 bytes.\<close>

type_synonym block = "u32 \<times> bool"

fun hrep :: "(u32 \<Rightarrow> heap_mem) \<Rightarrow> u32 \<Rightarrow> u32 \<Rightarrow> block list \<Rightarrow> u32 \<Rightarrow> bool" where
  "hrep m pr p [] e \<longleftrightarrow> p = e"
| "hrep m pr p ((x, u) # bs) e \<longleftrightarrow> p = x \<and> hm_prev (m x) = pr \<and> (hm_used (m x) \<noteq> 0) = u \<and>
     (u \<longrightarrow> hm_magic (m x) = HEAP_MAGIC) \<and> 4 dvd unat x \<and> unat x + 12 \<le> unat (hm_next (m x)) \<and>
     hrep m x (hm_next (m x)) bs e"

definition last_block :: "u32 \<Rightarrow> block list \<Rightarrow> u32" where
  "last_block pr bs = (if bs = [] then pr else fst (last bs))"

lemma last_block_simps [simp]:
  "last_block pr [] = pr" "last_block pr ((x, u) # bs) = last_block x bs" "last_block pr (bs @ [(x, u)]) = x"
  by (simp_all add: last_block_def)

lemma hrep_append: "hrep m pr p (xs @ ys) e \<longleftrightarrow> (\<exists>q. hrep m pr p xs q \<and> hrep m (last_block pr xs) q ys e)"
  by (induction m pr p xs e rule: hrep.induct) (auto simp del: last_block_simps simp: last_block_def)

lemma hrep_le: "hrep m pr p bs e \<Longrightarrow> unat p \<le> unat e"
  by (induction m pr p bs e rule: hrep.induct) auto

lemma hrep_bounds: "hrep m pr p bs e \<Longrightarrow> (x, u) \<in> set bs \<Longrightarrow> unat p \<le> unat x \<and> unat x + 12 \<le> unat e"
proof (induction m pr p bs e rule: hrep.induct)
  case (2 m pr p y v bs e)
  then show ?case using hrep_le[of m y "hm_next (m y)" bs e] by auto
qed simp

lemma hrep_cong: "(\<And>x u. (x, u) \<in> set bs \<Longrightarrow> m' x = m x) \<Longrightarrow> hrep m' pr p bs e \<longleftrightarrow> hrep m pr p bs e"
proof (induction m pr p bs e rule: hrep.induct)
  case (2 m pr p x u bs e)
  then have "m' x = m x" "hrep m' x (hm_next (m x)) bs e \<longleftrightarrow> hrep m x (hm_next (m x)) bs e" by auto
  then show ?case by simp
qed simp

text \<open>The block at the front of a part of the chain can be given a new predecessor.\<close>

lemma hrep_new_prev:
  "hrep m pr p bs e \<Longrightarrow> m' = m(p := (m p)\<lparr>hm_prev := pr'\<rparr>) \<Longrightarrow> hrep m' pr' p bs e"
proof (cases bs)
  case (Cons b bs')
  assume a: "hrep m pr p bs e" "m' = m(p := (m p)\<lparr>hm_prev := pr'\<rparr>)"
  obtain x u where b: "b = (x, u)" by fastforce
  have "hrep m x (hm_next (m x)) bs' e" using a Cons b by simp
  moreover have "y \<noteq> x" if "(y, v) \<in> set bs'" for y v
    using hrep_bounds[OF calculation that] a Cons b by auto
  ultimately have "hrep m' x (hm_next (m x)) bs' e"
    using a Cons b by (subst hrep_cong[of bs' m' m]) auto
  then show ?thesis using a Cons b by auto
qed simp

definition coalesced :: "block list \<Rightarrow> bool" where
  "coalesced bs \<longleftrightarrow> successively (\<lambda>a b. snd a \<or> snd b) bs"

text \<open>The lowest free block, or the end.\<close>

fun lowest_free :: "block list \<Rightarrow> u32 \<Rightarrow> u32" where
  "lowest_free [] e = e"
| "lowest_free ((x, u) # bs) e = (if u then lowest_free bs e else x)"

definition used_sum :: "(u32 \<Rightarrow> heap_mem) \<Rightarrow> block list \<Rightarrow> u32" where
  "used_sum m bs = (\<Sum>(x, u)\<leftarrow>bs. if u then hm_next (m x) - x else 0)"

lemma used_sum_simps [simp]:
  "used_sum m [] = 0" "used_sum m ((x, u) # bs) = (if u then hm_next (m x) - x else 0) + used_sum m bs"
  "used_sum m (xs @ ys) = used_sum m xs + used_sum m ys"
  by (simp_all add: used_sum_def)

lemma used_sum_cong: "(\<And>x. (x, True) \<in> set bs \<Longrightarrow> hm_next (m' x) = hm_next (m x)) \<Longrightarrow> used_sum m' bs = used_sum m bs"
  by (auto simp: used_sum_def intro!: arg_cong[of _ _ sum_list])

text \<open>The invariant of the heap.  \<open>lfree\<close> is a free block or the end; that it is the lowest free block is
  kept by \<^verbatim>\<open>rt_malloc\<close> and \<^verbatim>\<open>rt_free\<close> but not by \<^verbatim>\<open>rt_realloc\<close>.\<close>

definition lfree_ok :: "heap \<Rightarrow> block list \<Rightarrow> bool" where
  "lfree_ok h bs \<longleftrightarrow> h_lfree h = h_end h \<or> (h_lfree h, False) \<in> set bs"

definition limits_ok :: "heap \<Rightarrow> bool" where
  "limits_ok h \<longleftrightarrow> h_end h = h_size h + 12 \<and> unat (h_ptr h) + unat (h_size h) + 24 < 2 ^ 32 \<and>
     4 dvd unat (h_ptr h)"

definition hinv :: "heap \<Rightarrow> block list \<Rightarrow> bool" where
  "hinv h bs \<longleftrightarrow> hrep (h_mem h) 0 0 bs (h_end h) \<and> coalesced bs \<and> lfree_ok h bs \<and>
     h_used_mem h = used_sum (h_mem h) bs \<and> limits_ok h"

definition lowest :: "heap \<Rightarrow> block list \<Rightarrow> bool" where
  "lowest h bs \<longleftrightarrow> h_lfree h = lowest_free bs (h_end h)"

lemma unat_add12: "unat x + 12 < 2 ^ 32 \<Longrightarrow> unat (x + 12) = unat x + 12" for x :: u32
  by (simp add: unat_word_ariths)

lemma limits_end: "limits_ok h \<Longrightarrow> unat (h_end h) = unat (h_size h) + 12"
  by (simp add: limits_ok_def unat_add12)

lemma hrep_middle:
  assumes "hrep m pr p (A @ (x, u) # B) e"
  shows "hrep m pr p A x" "hm_prev (m x) = last_block pr A" "(hm_used (m x) \<noteq> 0) = u" "u \<Longrightarrow> hm_magic (m x) = HEAP_MAGIC"
    "4 dvd unat x" "unat x + 12 \<le> unat (hm_next (m x))" "hrep m x (hm_next (m x)) B e" "unat (hm_next (m x)) \<le> unat e"
    "(y, v) \<in> set A \<Longrightarrow> unat y + 12 \<le> unat x" "(y, v) \<in> set B \<Longrightarrow> unat (hm_next (m x)) \<le> unat y"
    "B = [] \<longleftrightarrow> hm_next (m x) = e"
proof -
  show 1: "hrep m pr p A x" and r: "hm_prev (m x) = last_block pr A" "(hm_used (m x) \<noteq> 0) = u"
    "u \<Longrightarrow> hm_magic (m x) = HEAP_MAGIC" "4 dvd unat x" "unat x + 12 \<le> unat (hm_next (m x))"
    and B: "hrep m x (hm_next (m x)) B e"
    using assms by (auto simp: hrep_append)
  show "unat (hm_next (m x)) \<le> unat e" using B by (rule hrep_le)
  show "(y, v) \<in> set A \<Longrightarrow> unat y + 12 \<le> unat x" using hrep_bounds[OF 1] by blast
  show "(y, v) \<in> set B \<Longrightarrow> unat (hm_next (m x)) \<le> unat y" using hrep_bounds[OF B] by blast
  show "B = [] \<longleftrightarrow> hm_next (m x) = e"
  proof
    show "B = [] \<Longrightarrow> hm_next (m x) = e" using B by simp
    show "B = []" if "hm_next (m x) = e"
    proof (rule ccontr)
      assume "B \<noteq> []"
      then obtain y v where "(y, v) \<in> set B" by (metis list.set_intros(1) neq_Nil_conv surj_pair)
      then show False using hrep_bounds[OF B] that by fastforce
    qed
  qed
qed

lemma hrep_replace:
  assumes "hrep m pr p A x" "\<And>y v. (y, v) \<in> set A \<Longrightarrow> m' y = m y" "hrep m' (last_block pr A) x C e"
  shows "hrep m' pr p (A @ C) e"
  using assms hrep_cong[of A m' m pr p x] by (auto simp: hrep_append)

lemma lowest_free_append:
  "lowest_free (A @ C) e = (if \<exists>y. (y, False) \<in> set A then lowest_free A e else lowest_free C e)"
  by (induction A e rule: lowest_free.induct) auto

lemma lowest_free_mem: "lowest_free bs e = e \<or> (lowest_free bs e, False) \<in> set bs"
  by (induction bs e rule: lowest_free.induct) auto

lemma lowest_free_in: "(y, False) \<in> set bs \<Longrightarrow> (lowest_free bs e, False) \<in> set bs"
  by (induction bs e rule: lowest_free.induct) auto

section \<open>Allocation\<close>

lemma lfree_scan_returns:
  "hrep (h_mem h) pr (h_lfree h) C (h_end h) \<Longrightarrow> lfree_scan h = Some (h\<lparr>h_lfree := lowest_free C (h_end h)\<rparr>)"
proof (induction C arbitrary: pr h)
  case Nil
  then show ?case by (subst lfree_scan.simps) simp
next
  case (Cons b C)
  obtain x u where b: "b = (x, u)" by fastforce
  have r: "h_lfree h = x" "(hm_used (h_mem h x) \<noteq> 0) = u" "hrep (h_mem h) x (hm_next (h_mem h x)) C (h_end h)"
    "unat x + 12 \<le> unat (hm_next (h_mem h x))"
    using Cons.prems b by auto
  have ne: "x \<noteq> h_end h" using hrep_bounds[OF Cons.prems, of x u] b by auto
  show ?case
  proof (cases u)
    case True
    let ?h = "h\<lparr>h_lfree := hm_next (h_mem h x)\<rparr>"
    have "hrep (h_mem ?h) x (h_lfree ?h) C (h_end ?h)" using r by simp
    from Cons.IH[OF this] show ?thesis using True r ne b by (subst lfree_scan.simps) simp
  next
    case False
    then show ?thesis using r b by (subst lfree_scan.simps) (auto intro: heap.equality)
  qed
qed

text \<open>What has become of the chain when block \<open>x\<close> is taken for \<open>sz\<close> bytes.\<close>

definition taken :: "u32 \<Rightarrow> u32 \<Rightarrow> heap \<Rightarrow> block list \<Rightarrow> block list \<Rightarrow> block list" where
  "taken x sz h A B = A @ (x, True) #
     (if hm_next (h_mem h x) - (x + 12) \<ge> sz + 24 then [(x + 12 + sz, False)] else []) @ B"

definition request_ok :: "u32 \<Rightarrow> heap \<Rightarrow> bool" where
  "request_ok sz h \<longleftrightarrow> 12 \<le> unat sz \<and> unat sz \<le> unat (h_size h) \<and> 4 dvd unat sz"

lemma data_size: "unat x + 12 \<le> unat n \<Longrightarrow> unat (n - (x + 12)) = unat n - unat x - 12" for x n :: u32
proof -
  assume a: "unat x + 12 \<le> unat n"
  then have "unat (x + 12) = unat x + 12" using unsigned_less[of n, where 'a = nat] by (simp add: unat_add12)
  with a show ?thesis by (subst unat_sub) (simp_all add: word_le_nat_alt)
qed

lemma malloc_mark_frame [simp]:
  "h_ptr (malloc_mark x sz h) = h_ptr h" "h_end (malloc_mark x sz h) = h_end h" "h_size (malloc_mark x sz h) = h_size h"
  "h_lfree (malloc_mark x sz h) = h_lfree h"
  by (simp_all add: malloc_mark_def Let_def)

lemma malloc_mark_cases:
  "sz + 24 \<le> hm_next (h_mem h x) - (x + 12) \<Longrightarrow> malloc_mark x sz h =
     (let n = hm_next (h_mem h x); p = x + 12 + sz;
          a = upd_mem p (\<lambda>b. b\<lparr>hm_used := 0, hm_next := n, hm_prev := x\<rparr>) h;
          b = upd_mem x (\<lambda>b. b\<lparr>hm_next := p, hm_used := 1\<rparr>) a;
          c = (if n \<noteq> h_size h + 12 then upd_mem n (\<lambda>b. b\<lparr>hm_prev := p\<rparr>) b else b)
      in upd_mem x (\<lambda>b. b\<lparr>hm_magic := HEAP_MAGIC\<rparr>) (add_used (sz + 12) c))"
  "\<not> sz + 24 \<le> hm_next (h_mem h x) - (x + 12) \<Longrightarrow> malloc_mark x sz h =
     upd_mem x (\<lambda>b. b\<lparr>hm_magic := HEAP_MAGIC\<rparr>) (add_used (hm_next (h_mem h x) - x) (upd_mem x (\<lambda>b. b\<lparr>hm_used := 1\<rparr>) h))"
proof -
  have "sz + 12 + 12 = sz + 24" by simp
  note eq = malloc_mark_def[of x sz h, unfolded this Let_def]
  show "sz + 24 \<le> hm_next (h_mem h x) - (x + 12) \<Longrightarrow> malloc_mark x sz h =
     (let n = hm_next (h_mem h x); p = x + 12 + sz;
          a = upd_mem p (\<lambda>b. b\<lparr>hm_used := 0, hm_next := n, hm_prev := x\<rparr>) h;
          b = upd_mem x (\<lambda>b. b\<lparr>hm_next := p, hm_used := 1\<rparr>) a;
          c = (if n \<noteq> h_size h + 12 then upd_mem n (\<lambda>b. b\<lparr>hm_prev := p\<rparr>) b else b)
      in upd_mem x (\<lambda>b. b\<lparr>hm_magic := HEAP_MAGIC\<rparr>) (add_used (sz + 12) c))"
    unfolding eq Let_def by (simp only: if_True)
  show "\<not> sz + 24 \<le> hm_next (h_mem h x) - (x + 12) \<Longrightarrow> malloc_mark x sz h =
     upd_mem x (\<lambda>b. b\<lparr>hm_magic := HEAP_MAGIC\<rparr>) (add_used (hm_next (h_mem h x) - x) (upd_mem x (\<lambda>b. b\<lparr>hm_used := 1\<rparr>) h))"
    unfolding eq by (simp only: if_False)
qed

lemma unat_neq: "unat x \<noteq> unat y \<Longrightarrow> x \<noteq> y"
  by auto

text \<open>The offset of the remainder.\<close>

lemma remainder_offset:
  fixes x sz n :: u32
  assumes "unat x + 12 \<le> unat n" "sz + 24 \<le> n - (x + 12)" "unat sz + 24 < 2 ^ 32"
  shows "unat (x + 12 + sz) = unat x + 12 + unat sz" "unat x + unat sz + 36 \<le> unat n"
proof -
  have "unat (sz + 24) = unat sz + 24" using assms(3) by (simp add: unat_word_ariths)
  then show 1: "unat x + unat sz + 36 \<le> unat n"
    using assms(1,2) data_size[OF assms(1)] by (simp add: word_le_nat_alt)
  then show "unat (x + 12 + sz) = unat x + 12 + unat sz"
    using unsigned_less[of n, where 'a = nat] by (simp add: unat_word_ariths)
qed

lemma mark_split:
  assumes rep: "hrep (h_mem h) 0 0 (A @ (x, False) # B) (h_end h)" and lim: "limits_ok h" and req: "request_ok sz h"
    and split: "sz + 24 \<le> hm_next (h_mem h x) - (x + 12)"
  shows "hrep (h_mem (malloc_mark x sz h)) 0 0 (A @ (x, True) # (x + 12 + sz, False) # B) (h_end h)"
    "h_used_mem (malloc_mark x sz h) = h_used_mem h + (sz + 12)" "hm_next (h_mem (malloc_mark x sz h) x) = x + 12 + sz"
    "y \<noteq> x \<Longrightarrow> y \<noteq> x + 12 + sz \<Longrightarrow> hm_next (h_mem (malloc_mark x sz h) y) = hm_next (h_mem h y)"
    "unat (x + 12 + sz) = unat x + 12 + unat sz" "unat x + unat sz + 36 \<le> unat (hm_next (h_mem h x))"
proof -
  let ?m = "h_mem h" let ?n = "hm_next (?m x)" and ?p = "x + 12 + sz" and ?m' = "h_mem (malloc_mark x sz h)"
  note mid = hrep_middle[OF rep]
  have "unat sz + 24 < 2 ^ 32" using req lim by (simp add: request_ok_def limits_ok_def)
  note p = remainder_offset[OF mid(6) split this]
  show "unat ?p = unat x + 12 + unat sz" "unat x + unat sz + 36 \<le> unat ?n" by (fact p)+
  have ne: "?p \<noteq> x" "?n \<noteq> x" "?n \<noteq> ?p" using p by (intro unat_neq; linarith)+
  have e: "?n = h_size h + 12 \<longleftrightarrow> B = []" using mid(11) lim by (simp add: limits_ok_def)
  have m': "?m' y = (if y = x then (?m x)\<lparr>hm_next := ?p, hm_used := 1, hm_magic := HEAP_MAGIC\<rparr>
      else if y = ?p then (?m ?p)\<lparr>hm_used := 0, hm_next := ?n, hm_prev := x\<rparr>
      else if y = ?n \<and> B \<noteq> [] then (?m ?n)\<lparr>hm_prev := ?p\<rparr> else ?m y)" for y
    unfolding malloc_mark_cases(1)[OF split] Let_def using ne e by (simp del: add_left_cancel)
  show "hm_next (?m' x) = ?p" "h_used_mem (malloc_mark x sz h) = h_used_mem h + (sz + 12)"
    by (simp add: m', simp add: malloc_mark_cases(1)[OF split] Let_def)
  show "y \<noteq> x \<Longrightarrow> y \<noteq> ?p \<Longrightarrow> hm_next (?m' y) = hm_next (?m y)" by (simp add: m')
  have "hrep ?m' ?p ?n B (h_end h)"
  proof (cases "B = []")
    case True
    then show ?thesis using mid(7) by simp
  next
    case False
    have "hrep (?m(?n := (?m ?n)\<lparr>hm_prev := ?p\<rparr>)) ?p ?n B (h_end h)" by (rule hrep_new_prev[OF mid(7)]) simp
    moreover have "?m' y = (?m(?n := (?m ?n)\<lparr>hm_prev := ?p\<rparr>)) y" if "(y, v) \<in> set B" for y v
      using mid(10)[OF that] p ne False by (auto simp: m')
    ultimately show ?thesis by (subst hrep_cong) auto
  qed
  moreover have "4 dvd unat ?p" using mid(5) req by (simp add: p request_ok_def)
  moreover have "12 \<le> unat sz" using req by (simp add: request_ok_def)
  ultimately have "hrep ?m' (last_block 0 A) x ((x, True) # (?p, False) # B) (h_end h)"
    using mid(2,5) ne p by (simp add: m')
  moreover have "?m' y = ?m y" if "(y, v) \<in> set A" for y v
    using mid(9)[OF that] mid(6) p by (auto simp: m')
  ultimately show "hrep ?m' 0 0 (A @ (x, True) # (?p, False) # B) (h_end h)" by (intro hrep_replace[OF mid(1)])
qed

lemma mark_whole:
  assumes rep: "hrep (h_mem h) 0 0 (A @ (x, False) # B) (h_end h)"
    and whole: "\<not> sz + 24 \<le> hm_next (h_mem h x) - (x + 12)"
  shows "hrep (h_mem (malloc_mark x sz h)) 0 0 (A @ (x, True) # B) (h_end h)"
    "h_used_mem (malloc_mark x sz h) = h_used_mem h + (hm_next (h_mem h x) - x)"
    "hm_next (h_mem (malloc_mark x sz h) y) = hm_next (h_mem h y)"
proof -
  let ?m = "h_mem h" let ?m' = "h_mem (malloc_mark x sz h)"
  note mid = hrep_middle[OF rep]
  have m': "?m' y = (if y = x then (?m x)\<lparr>hm_used := 1, hm_magic := HEAP_MAGIC\<rparr> else ?m y)" for y
    by (simp add: malloc_mark_cases(2)[OF whole])
  show "h_used_mem (malloc_mark x sz h) = h_used_mem h + (hm_next (h_mem h x) - x)"
    by (simp add: malloc_mark_cases(2)[OF whole])
  show "hm_next (?m' y) = hm_next (?m y)" by (simp add: m')
  have "hrep ?m' x (hm_next (?m x)) B (h_end h)"
    using mid(6,7,10) by (subst hrep_cong[of B ?m' ?m]) (fastforce simp: m')+
  then have "hrep ?m' (last_block 0 A) x ((x, True) # B) (h_end h)" using mid(2,5,6) by (simp add: m')
  moreover have "?m' y = ?m y" if "(y, v) \<in> set A" for y v using mid(9)[OF that] by (auto simp: m')
  ultimately show "hrep ?m' 0 0 (A @ (x, True) # B) (h_end h)" by (intro hrep_replace[OF mid(1)])
qed

lemma coalesced_use:
  assumes "coalesced (A @ (x, False) # B)"
  shows "coalesced (A @ (x, True) # B)" "coalesced (A @ (x, True) # (p, False) # B)"
  using assms by (auto simp: coalesced_def successively_append_iff successively_Cons)

text \<open>The chain after a block is marked, split or not.\<close>

lemma mark_taken:
  assumes inv: "hinv h (A @ (x, False) # B)" and req: "request_ok sz h"
    and fit: "unat x + 12 + unat sz \<le> unat (hm_next (h_mem h x))"
  shows "hrep (h_mem (malloc_mark x sz h)) 0 0 (taken x sz h A B) (h_end h)" "coalesced (taken x sz h A B)"
    "h_used_mem (malloc_mark x sz h) = used_sum (h_mem (malloc_mark x sz h)) (taken x sz h A B)"
    "(y, v) \<in> set (A @ B) \<Longrightarrow> hm_next (h_mem (malloc_mark x sz h) y) = hm_next (h_mem h y)"
    "unat x + 12 + unat sz \<le> unat (hm_next (h_mem (malloc_mark x sz h) x))"
    "unat (hm_next (h_mem (malloc_mark x sz h) x)) \<le> unat (hm_next (h_mem h x))"
proof -
  let ?h = "malloc_mark x sz h"
  have rep: "hrep (h_mem h) 0 0 (A @ (x, False) # B) (h_end h)" and lim: "limits_ok h"
    and co: "coalesced (A @ (x, False) # B)" and us: "h_used_mem h = used_sum (h_mem h) (A @ (x, False) # B)"
    using inv by (simp_all add: hinv_def)
  note mid = hrep_middle[OF rep]
  have "hrep (h_mem ?h) 0 0 (taken x sz h A B) (h_end h) \<and> coalesced (taken x sz h A B) \<and>
    h_used_mem ?h = used_sum (h_mem ?h) (taken x sz h A B) \<and>
    (\<forall>y v. (y, v) \<in> set (A @ B) \<longrightarrow> hm_next (h_mem ?h y) = hm_next (h_mem h y)) \<and>
    unat x + 12 + unat sz \<le> unat (hm_next (h_mem ?h x)) \<and> unat (hm_next (h_mem ?h x)) \<le> unat (hm_next (h_mem h x))"
  proof (cases "sz + 24 \<le> hm_next (h_mem h x) - (x + 12)")
    case True
    note sp = mark_split[OF rep lim req True]
    have same: "hm_next (h_mem ?h y) = hm_next (h_mem h y)" if "(y, v) \<in> set (A @ B)" for y v
    proof (rule sp(4))
      have "unat y + 12 \<le> unat x \<or> unat (hm_next (h_mem h x)) \<le> unat y" using that mid(9,10) by auto
      then show "y \<noteq> x" "y \<noteq> x + 12 + sz" using mid(6) sp(5,6) by (intro unat_neq; linarith)+
    qed
    have "used_sum (h_mem ?h) A = used_sum (h_mem h) A" "used_sum (h_mem ?h) B = used_sum (h_mem h) B"
      using same by (intro used_sum_cong; fastforce)+
    then show ?thesis
      using sp coalesced_use(2)[OF co] same True us by (simp add: taken_def)
  next
    case False
    note sp = mark_whole[OF rep False]
    have "used_sum (h_mem ?h) A = used_sum (h_mem h) A" "used_sum (h_mem ?h) B = used_sum (h_mem h) B"
      using sp(3) by (intro used_sum_cong; fastforce)+
    then show ?thesis
      using sp coalesced_use(1)[OF co] False us fit by (simp add: taken_def)
  qed
  then show "hrep (h_mem ?h) 0 0 (taken x sz h A B) (h_end h)" "coalesced (taken x sz h A B)"
    "h_used_mem ?h = used_sum (h_mem ?h) (taken x sz h A B)"
    "(y, v) \<in> set (A @ B) \<Longrightarrow> hm_next (h_mem ?h y) = hm_next (h_mem h y)"
    "unat x + 12 + unat sz \<le> unat (hm_next (h_mem ?h x))"
    "unat (hm_next (h_mem ?h x)) \<le> unat (hm_next (h_mem h x))" by blast+
qed

lemma lowest_front:
  assumes rep: "hrep m pr p (A @ (x, False) # B) e"
  shows "lowest_free (A @ (x, False) # B) e = x \<longleftrightarrow> \<not> (\<exists>y. (y, False) \<in> set A)"
proof -
  have "lowest_free A e \<noteq> x" if "(y, False) \<in> set A" for y
    using lowest_free_in[OF that, of e] hrep_middle(9)[OF rep, of "lowest_free A e" False] by auto
  then show ?thesis by (auto simp: lowest_free_append)
qed

text \<open>What an allocation leaves behind.\<close>

definition allocates :: "u32 \<Rightarrow> u32 \<Rightarrow> heap \<Rightarrow> block list \<Rightarrow> heap \<Rightarrow> bool" where
  "allocates x sz h bs h' \<longleftrightarrow> (\<exists>A B. bs = A @ (x, False) # B \<and> hinv h' (taken x sz h A B) \<and>
     (lowest h bs \<longrightarrow> lowest h' (taken x sz h A B)) \<and>
     (\<forall>y v. (y, v) \<in> set (A @ B) \<longrightarrow> hm_next (h_mem h' y) = hm_next (h_mem h y)) \<and>
     unat x + 12 + unat sz \<le> unat (hm_next (h_mem h' x)) \<and> unat (hm_next (h_mem h' x)) \<le> unat (hm_next (h_mem h x)) \<and>
     h_ptr h' = h_ptr h \<and> h_end h' = h_end h \<and> h_size h' = h_size h)"

lemma malloc_take_returns:
  assumes inv: "hinv h (A @ (x, False) # B)" and req: "request_ok sz h"
    and fit: "unat x + 12 + unat sz \<le> unat (hm_next (h_mem h x))"
  shows "returns (malloc_take x sz h) (allocates x sz h (A @ (x, False) # B))"
proof -
  let ?h = "malloc_mark x sz h"
  note mk = mark_taken[OF assms]
  have lim: "limits_ok ?h" "limits_ok h" using inv by (simp_all add: hinv_def limits_ok_def)
  have rep: "hrep (h_mem h) 0 0 (A @ (x, False) # B) (h_end h)" using inv by (simp add: hinv_def)
  note front = lowest_front[OF rep]
  obtain R where R: "taken x sz h A B = A @ (x, True) # R" by (simp add: taken_def)
  show ?thesis
  proof (cases "x = h_lfree h")
    case True
    let ?h3 = "?h\<lparr>h_lfree := lowest_free R (h_end h)\<rparr>"
    have "hrep (h_mem ?h) (last_block 0 A) (h_lfree ?h) ((x, True) # R) (h_end ?h)"
      using mk(1)[unfolded R] True by (auto simp: hrep_append)
    from lfree_scan_returns[OF this] have sc: "lfree_scan ?h = Some ?h3" by simp
    have ok: "lfree_ok ?h3 (taken x sz h A B)" using lowest_free_mem[of R "h_end h"] by (auto simp: lfree_ok_def R)
    have as: "h_lfree ?h3 = h_end ?h3 \<or> hm_used (h_mem ?h3 (h_lfree ?h3)) = 0"
    proof (cases "lowest_free R (h_end h) = h_end h")
      case False
      then have "(lowest_free R (h_end h), False) \<in> set R" using lowest_free_mem by blast
      then obtain R1 R2 where "R = R1 @ (lowest_free R (h_end h), False) # R2" by (meson split_list)
      then show ?thesis
        using hrep_middle(3)[of "h_mem ?h" 0 0 "A @ (x, True) # R1" "lowest_free R (h_end h)" False R2 "h_end h"] mk(1)[unfolded R]
        by (metis append.assoc append_Cons heap.surjective heap.update_convs(4) heap.select_convs(1) heap.select_convs(4))
    qed simp
    have low: "lowest ?h3 (taken x sz h A B)" if "lowest h (A @ (x, False) # B)"
      using that front True unfolding lowest_def R by (auto simp: lowest_free_append)
    have "allocates x sz h (A @ (x, False) # B) ?h3"
      unfolding allocates_def using mk ok low lim by (intro exI[of _ A] exI[of _ B]) (simp add: hinv_def limits_ok_def)
    then show ?thesis using as sc True by (simp add: malloc_take_def Let_def)
  next
    case False
    have ok: "lfree_ok ?h (taken x sz h A B)"
      using inv False by (auto simp: hinv_def lfree_ok_def taken_def)
    have low: "lowest ?h (taken x sz h A B)" if "lowest h (A @ (x, False) # B)"
      using that front False by (auto simp: lowest_def R lowest_free_append split: if_splits)
    have "allocates x sz h (A @ (x, False) # B) ?h"
      unfolding allocates_def using mk ok low lim by (intro exI[of _ A] exI[of _ B]) (simp add: hinv_def)
    then show ?thesis using False by (simp add: malloc_take_def Let_def)
  qed
qed

text \<open>The search returns: it stops at the first block from \<open>ptr\<close> on that is free and large enough, or at
  the limit behind which no block of the size can begin.\<close>

lemma malloc_loop_returns:
  assumes inv: "hinv h bs" and req: "request_ok sz h"
  shows "bs = A @ C \<Longrightarrow> hrep (h_mem h) (last_block 0 A) ptr C (h_end h) \<Longrightarrow>
    returns (malloc_loop sz ptr h) (\<lambda>(r, h'). case r of
       Some x \<Rightarrow> allocates x sz h bs h'
     | None \<Rightarrow> h' = h \<and> (\<forall>y. (y, False) \<in> set C \<longrightarrow>
          unat (hm_next (h_mem h y)) < unat y + 12 + unat sz \<or> unat (h_size h) \<le> unat y + unat sz))"
proof (induction C arbitrary: A ptr)
  case Nil
  have "unat (h_end h) = unat (h_size h) + 12" using inv by (simp add: hinv_def limits_end)
  moreover have "unat (h_size h - sz) = unat (h_size h) - unat sz"
    using req by (simp add: request_ok_def unat_sub word_le_nat_alt)
  ultimately have "\<not> ptr < h_size h - sz" using Nil.prems(2) by (simp add: word_less_nat_alt)
  then show ?case by (subst malloc_loop.simps) simp
next
  case (Cons b C)
  obtain x u where b: "b = (x, u)" by fastforce
  have r: "ptr = x" "(hm_used (h_mem h x) \<noteq> 0) = u" "unat x + 12 \<le> unat (hm_next (h_mem h x))"
    "hrep (h_mem h) x (hm_next (h_mem h x)) C (h_end h)" using Cons.prems(2) b by auto
  have sub: "unat (h_size h - sz) = unat (h_size h) - unat sz"
    using req by (simp add: request_ok_def unat_sub word_le_nat_alt)
  show ?case
  proof (cases "ptr < h_size h - sz")
    case False
    then have "unat (h_size h) \<le> unat x + unat sz" using sub r(1) by (simp add: word_less_nat_alt)
    moreover have "unat x \<le> unat y" if "(y, v) \<in> set (b # C)" for y v
      using hrep_bounds[OF Cons.prems(2) that] r(1) by simp
    ultimately show ?thesis using False by (subst malloc_loop.simps) fastforce
  next
    case lt: True
    have fits: "sz \<le> hm_next (h_mem h x) - (x + 12) \<longleftrightarrow> unat x + 12 + unat sz \<le> unat (hm_next (h_mem h x))"
      using data_size[OF r(3)] r(3) by (auto simp: word_le_nat_alt)
    show ?thesis
    proof (cases "\<not> u \<and> sz \<le> hm_next (h_mem h x) - (x + 12)")
      case True
      then have bs: "bs = A @ (x, False) # C" using Cons.prems(1) b by simp
      have "returns (malloc_take x sz h) (allocates x sz h bs)"
        unfolding bs using inv bs req True fits by (intro malloc_take_returns) simp_all
      then show ?thesis
        using True r(1,2) lt by (subst malloc_loop.simps) (auto elim!: returns_mono)
    next
      case False
      have "malloc_loop sz ptr h = malloc_loop sz (hm_next (h_mem h x)) h"
        using False r(1,2) lt by (subst malloc_loop.simps) auto
      moreover have "bs = (A @ [b]) @ C" "hrep (h_mem h) (last_block 0 (A @ [b])) (hm_next (h_mem h x)) C (h_end h)"
        using Cons.prems(1) r(4) b by simp_all
      note Cons.IH[OF this]
      ultimately show ?thesis
        using False fits b by (auto elim!: returns_mono split: option.splits)
    qed
  qed
qed

lemma heap_search_returns:
  assumes inv: "hinv h bs" and req: "request_ok sz h"
  shows "returns (malloc_loop sz (h_lfree h) h) (\<lambda>(r, h'). case r of
       Some x \<Rightarrow> allocates x sz h bs h'
     | None \<Rightarrow> h' = h \<and> (\<forall>y. (y, False) \<in> set bs \<longrightarrow> h_lfree h \<le> y \<longrightarrow>
          unat (hm_next (h_mem h y)) < unat y + 12 + unat sz \<or> unat (h_size h) \<le> unat y + unat sz))"
proof -
  have rep: "hrep (h_mem h) 0 0 bs (h_end h)" using inv by (simp add: hinv_def)
  obtain A C where AC: "bs = A @ C" "hrep (h_mem h) (last_block 0 A) (h_lfree h) C (h_end h)"
    "\<And>y. (y, False) \<in> set A \<Longrightarrow> \<not> h_lfree h \<le> y"
  proof (cases "h_lfree h = h_end h")
    case True
    have "\<not> h_lfree h \<le> y" if "(y, False) \<in> set bs" for y
      using hrep_bounds[OF rep that] True by (simp add: word_le_nat_alt)
    then show thesis using True by (intro that[of bs "[]"]) simp_all
  next
    case False
    then have "(h_lfree h, False) \<in> set bs" using inv by (simp add: hinv_def lfree_ok_def)
    then obtain A B where bs: "bs = A @ (h_lfree h, False) # B" by (meson split_list)
    moreover have "hrep (h_mem h) (last_block 0 A) (h_lfree h) ((h_lfree h, False) # B) (h_end h)"
      using rep bs by (auto simp: hrep_append)
    moreover have "\<not> h_lfree h \<le> y" if "(y, False) \<in> set A" for y
      using hrep_middle(9)[OF rep[unfolded bs] that] by (simp add: word_le_nat_alt)
    ultimately show thesis by (intro that)
  qed
  show ?thesis
    by (rule returns_mono[OF malloc_loop_returns[OF inv req AC(1,2)]]) (use AC in \<open>auto split: option.splits\<close>)
qed

section \<open>Release\<close>

text \<open>The chain after a free block is merged with a free successor, and with a free predecessor.\<close>

fun merge_next :: "block list \<Rightarrow> block list" where
  "merge_next ((y, False) # B) = B"
| "merge_next B = B"

definition merge_prev :: "block list \<Rightarrow> u32 \<Rightarrow> block list \<Rightarrow> block list" where
  "merge_prev A x B = (if A \<noteq> [] \<and> \<not> snd (last A) then A @ B else A @ (x, False) # B)"

lemma plug_forward_rep:
  assumes rep: "hrep (h_mem h) 0 0 (A @ (x, False) # B) (h_end h)"
  shows "hrep (h_mem (plug_forward x h)) 0 0 (A @ (x, False) # merge_next B) (h_end h)"
    "y \<noteq> x \<Longrightarrow> hm_next (h_mem (plug_forward x h) y) = hm_next (h_mem h y)"
    "h_lfree (plug_forward x h) = (if B \<noteq> [] \<and> hd B = (h_lfree h, False) then x else h_lfree h)"
    "h_ptr (plug_forward x h) = h_ptr h" "h_end (plug_forward x h) = h_end h" "h_size (plug_forward x h) = h_size h"
    "h_used_mem (plug_forward x h) = h_used_mem h"
proof -
  let ?m = "h_mem h" let ?n = "hm_next (?m x)" let ?h = "plug_forward x h"
  note mid = hrep_middle[OF rep]
  have nx: "?n \<noteq> x" using mid(6) by (intro unat_neq) linarith
  have head: "fst b = ?n \<and> (hm_used (?m ?n) \<noteq> 0) = snd b" if "B = b # B'" for b B'
    using mid(7) that by (cases b) auto
  have "hrep (h_mem ?h) 0 0 (A @ (x, False) # merge_next B) (h_end h) \<and>
    (\<forall>y. y \<noteq> x \<longrightarrow> hm_next (h_mem ?h y) = hm_next (?m y)) \<and>
    h_lfree ?h = (if B \<noteq> [] \<and> hd B = (h_lfree h, False) then x else h_lfree h) \<and> h_ptr ?h = h_ptr h \<and>
    h_end ?h = h_end h \<and> h_size ?h = h_size h \<and> h_used_mem ?h = h_used_mem h"
  proof (cases "B \<noteq> [] \<and> \<not> snd (hd B)")
    case False
    then have "?h = h" "merge_next B = B"
      using head mid(11) by (cases B; cases "hd B"; auto simp: plug_forward_def Let_def)+
    then show ?thesis using False rep by (auto split: if_splits)
  next
    case True
    then obtain B' where B: "B = (?n, False) # B'" using head by (cases B) (auto simp: prod_eq_iff)
    note mid2 = hrep_middle[of ?m 0 0 "A @ [(x, False)]" ?n False B' "h_end h"]
    have rep2: "hrep ?m 0 0 ((A @ [(x, False)]) @ (?n, False) # B') (h_end h)" using rep B by simp
    let ?q = "hm_next (?m ?n)"
    have q: "unat ?n + 12 \<le> unat ?q" "hrep ?m ?n ?q B' (h_end h)" "?n \<noteq> h_end h" "hm_used (?m ?n) = 0"
      using mid2(6,7)[OF rep2] mid2(3)[OF rep2] mid(11) B by auto
    have qx: "?q \<noteq> x" "?q \<noteq> ?n" using q(1) mid(6) by (intro unat_neq; linarith)+
    let ?m' = "(?m(?q := (?m ?q)\<lparr>hm_prev := x\<rparr>))(x := (?m x)\<lparr>hm_next := ?q\<rparr>)"
    have eq: "?h = h\<lparr>h_mem := ?m', h_lfree := (if h_lfree h = ?n then x else h_lfree h)\<rparr>"
      using q(3,4) nx qx by (auto simp: plug_forward_def Let_def upd_mem_def fun_upd_twist)
    have "hrep (?m(?q := (?m ?q)\<lparr>hm_prev := x\<rparr>)) x ?q B' (h_end h)" by (rule hrep_new_prev[OF q(2)]) simp
    moreover have "y \<noteq> x" if "(y, v) \<in> set B'" for y v
      using hrep_bounds[OF q(2) that] q(1) mid(6) by (intro unat_neq) linarith
    ultimately have "hrep ?m' x ?q B' (h_end h)" by (subst hrep_cong) auto
    then have "hrep ?m' (last_block 0 A) x ((x, False) # B') (h_end h)"
      using mid(2,3,5,6) q(1) by simp
    moreover have "?m' y = ?m y" if "(y, v) \<in> set A" for y v
    proof -
      have "y \<noteq> x" "y \<noteq> ?q" using mid(9)[OF that] mid(6) q(1) by (intro unat_neq; linarith)+
      then show ?thesis by simp
    qed
    ultimately have "hrep ?m' 0 0 (A @ (x, False) # B') (h_end h)" by (intro hrep_replace[OF mid(1)])
    then show ?thesis unfolding eq using B qx by simp
  qed
  then show "hrep (h_mem ?h) 0 0 (A @ (x, False) # merge_next B) (h_end h)"
    "y \<noteq> x \<Longrightarrow> hm_next (h_mem ?h y) = hm_next (?m y)"
    "h_lfree ?h = (if B \<noteq> [] \<and> hd B = (h_lfree h, False) then x else h_lfree h)"
    "h_ptr ?h = h_ptr h" "h_end ?h = h_end h" "h_size ?h = h_size h" "h_used_mem ?h = h_used_mem h" by blast+
qed

lemma plug_backward_rep:
  assumes rep: "hrep (h_mem h) 0 0 (A @ (x, False) # B) (h_end h)"
  shows "hrep (h_mem (plug_backward x h)) 0 0 (merge_prev A x B) (h_end h)"
    "(y, True) \<in> set (A @ B) \<Longrightarrow> hm_next (h_mem (plug_backward x h) y) = hm_next (h_mem h y)"
    "h_lfree (plug_backward x h) = (if A \<noteq> [] \<and> \<not> snd (last A) \<and> h_lfree h = x then fst (last A) else h_lfree h)"
    "h_ptr (plug_backward x h) = h_ptr h" "h_end (plug_backward x h) = h_end h" "h_size (plug_backward x h) = h_size h"
    "h_used_mem (plug_backward x h) = h_used_mem h"
proof -
  let ?m = "h_mem h" let ?q = "hm_next (?m x)" let ?h = "plug_backward x h"
  note mid = hrep_middle[OF rep]
  have "hrep (h_mem ?h) 0 0 (merge_prev A x B) (h_end h) \<and>
    (\<forall>y. (y, True) \<in> set (A @ B) \<longrightarrow> hm_next (h_mem ?h y) = hm_next (?m y)) \<and>
    h_lfree ?h = (if A \<noteq> [] \<and> \<not> snd (last A) \<and> h_lfree h = x then fst (last A) else h_lfree h) \<and> h_ptr ?h = h_ptr h \<and>
    h_end ?h = h_end h \<and> h_size ?h = h_size h \<and> h_used_mem ?h = h_used_mem h"
  proof (cases "A = []")
    case True
    then have "?h = h" using mid(1,2) by (simp add: plug_backward_def)
    then show ?thesis using True rep by (auto simp: merge_prev_def)
  next
    case False
    then obtain A0 w u where A: "A = A0 @ [(w, u)]" by (metis rev_exhaust surj_pair)
    have rep2: "hrep ?m 0 0 (A0 @ (w, u) # (x, False) # B) (h_end h)" using rep A by simp
    note mw = hrep_middle[OF rep2]
    have pw: "hm_prev (?m x) = w" using mid(2) A by simp
    have wx: "unat w + 12 \<le> unat x" using mid(9)[of w u] A by simp
    then have ne: "w \<noteq> x" "?q \<noteq> x" "?q \<noteq> w" using mid(6) by (intro unat_neq; linarith)+
    show ?thesis
    proof (cases u)
      case True
      then have "?h = h" using mw(3) pw by (simp add: plug_backward_def)
      then show ?thesis using A True rep by (simp add: merge_prev_def)
    next
      case uf: False
      let ?m' = "(?m(?q := (?m ?q)\<lparr>hm_prev := w\<rparr>))(w := (?m w)\<lparr>hm_next := ?q\<rparr>)"
      have eq: "?h = h\<lparr>h_mem := ?m', h_lfree := (if h_lfree h = x then w else h_lfree h)\<rparr>"
        using mw(3) uf pw ne by (auto simp: plug_backward_def Let_def upd_mem_def fun_upd_twist)
      have "hrep (?m(?q := (?m ?q)\<lparr>hm_prev := w\<rparr>)) w ?q B (h_end h)" by (rule hrep_new_prev[OF mid(7)]) simp
      moreover have "y \<noteq> w" if "(y, v) \<in> set B" for y v
        using mid(10)[OF that] mid(6) wx by (intro unat_neq) linarith
      ultimately have "hrep ?m' w ?q B (h_end h)" by (subst hrep_cong) auto
      then have "hrep ?m' (last_block 0 A0) w ((w, False) # B) (h_end h)"
        using mw(2,3,5) uf mid(6) wx by simp
      moreover have "?m' y = ?m y" if "(y, v) \<in> set A0" for y v
      proof -
        have "y \<noteq> w" "y \<noteq> ?q" using mw(9)[OF that] mid(6) wx by (intro unat_neq; linarith)+
        then show ?thesis by simp
      qed
      ultimately have r: "hrep ?m' 0 0 (A0 @ (w, False) # B) (h_end h)" by (intro hrep_replace[OF mw(1)])
      have "hm_next (?m' y) = hm_next (?m y)" if "(y, True) \<in> set (A @ B)" for y
      proof -
        have "unat y + 12 \<le> unat w \<or> unat ?q \<le> unat y"
          using that A uf mw(9)[of y True] mid(10)[of y True] by auto
        then have "y \<noteq> w" using mid(6) wx by (intro unat_neq) linarith
        then show ?thesis by simp
      qed
      then show ?thesis unfolding eq using A uf r by (simp add: merge_prev_def)
    qed
  qed
  then show "hrep (h_mem ?h) 0 0 (merge_prev A x B) (h_end h)"
    "(y, True) \<in> set (A @ B) \<Longrightarrow> hm_next (h_mem ?h y) = hm_next (?m y)"
    "h_lfree ?h = (if A \<noteq> [] \<and> \<not> snd (last A) \<and> h_lfree h = x then fst (last A) else h_lfree h)"
    "h_ptr ?h = h_ptr h" "h_end ?h = h_end h" "h_size ?h = h_size h" "h_used_mem ?h = h_used_mem h" by blast+
qed

lemma merged_used: "(y, True) \<in> set (merge_prev A x (merge_next B)) \<longleftrightarrow> (y, True) \<in> set (A @ B)"
  by (cases B rule: merge_next.cases) (auto simp: merge_prev_def)

lemma merged_front: "set A \<subseteq> set (merge_prev A x B)"
  by (auto simp: merge_prev_def)

lemma merged_sum: "used_sum m (merge_prev A x (merge_next B)) = used_sum m A + used_sum m B"
  by (cases B rule: merge_next.cases) (auto simp: merge_prev_def)

lemma merged_coalesced: "coalesced (A @ (x, True) # B) \<Longrightarrow> coalesced (merge_prev A x (merge_next B))"
  by (cases B rule: merge_next.cases)
    (auto simp: merge_prev_def coalesced_def successively_append_iff successively_Cons)

lemma addr_less:
  assumes "limits_ok h" "unat a \<le> unat (h_end h)" "unat b \<le> unat (h_end h)"
  shows "h_ptr h + a < h_ptr h + b \<longleftrightarrow> unat a < unat b" "h_ptr h \<le> h_ptr h + a"
proof -
  have "unat (h_ptr h) + unat (h_end h) < 2 ^ 32" using assms(1) by (simp add: limits_end) (simp add: limits_ok_def)
  then have "unat (h_ptr h + a) = unat (h_ptr h) + unat a" "unat (h_ptr h + b) = unat (h_ptr h) + unat b"
    using assms(2,3) by (simp_all add: unat_word_ariths)
  then show "h_ptr h + a < h_ptr h + b \<longleftrightarrow> unat a < unat b" "h_ptr h \<le> h_ptr h + a"
    by (simp_all add: word_less_nat_alt word_le_nat_alt)
qed

text \<open>Merging around a free block, with the counters of the heap as they should be afterwards.\<close>

lemma plug_holes_returns:
  assumes rep: "hrep (h_mem h) 0 0 (A @ (x, False) # B) (h_end h)" and lim: "limits_ok h"
    and co: "coalesced (A @ (x, True) # B)" and us: "h_used_mem h = used_sum (h_mem h) (A @ B)"
    and lf: "h_lfree h = h_end h \<or> (h_lfree h, False) \<in> set (A @ (x, False) # B)"
  shows "returns (plug_holes x h) (\<lambda>h'. hinv h' (merge_prev A x (merge_next B)) \<and>
     (\<forall>y. (y, True) \<in> set (A @ B) \<longrightarrow> hm_next (h_mem h' y) = hm_next (h_mem h y)) \<and>
     h_ptr h' = h_ptr h \<and> h_end h' = h_end h \<and> h_size h' = h_size h \<and>
     ((h_lfree h, False) \<in> set A \<longrightarrow> h_lfree h' = h_lfree h) \<and>
     (h_lfree h = x \<longrightarrow> h_lfree h' = (if A \<noteq> [] \<and> \<not> snd (last A) then fst (last A) else x)))"
proof -
  let ?h1 = "plug_forward x h" let ?h2 = "plug_backward x ?h1"
  note mid = hrep_middle[OF rep] and f = plug_forward_rep[OF rep]
  have rep1: "hrep (h_mem ?h1) 0 0 (A @ (x, False) # merge_next B) (h_end ?h1)" using f(1,5) by simp
  note b = plug_backward_rep[OF rep1]
  have ln: "(l, False) \<in> set A \<Longrightarrow> l \<noteq> x \<and> (B \<noteq> [] \<longrightarrow> hd B \<noteq> (l, False))" for l
    using mid(9)[of l False] mid(10)[of l False] mid(6) by (cases B) auto
  have nx: "hm_next (h_mem ?h2 y) = hm_next (h_mem h y)" if "(y, True) \<in> set (A @ B)" for y
  proof -
    have "(y, True) \<in> set (A @ merge_next B)" using that by (cases B rule: merge_next.cases) auto
    moreover have "y \<noteq> x" using that mid(9)[of y True] mid(10)[of y True] mid(6) by auto
    ultimately show ?thesis using b(2) f(2) by metis
  qed
  have "used_sum (h_mem ?h2) (merge_prev A x (merge_next B)) = used_sum (h_mem h) (A @ B)"
    using used_sum_cong[of A "h_mem ?h2" "h_mem h"] used_sum_cong[of B "h_mem ?h2" "h_mem h"] nx by (simp add: merged_sum)
  then have us2: "h_used_mem ?h2 = used_sum (h_mem ?h2) (merge_prev A x (merge_next B))"
    using us b(7) f(7) by simp
  have l1: "h_lfree ?h1 = h_end h \<or> h_lfree ?h1 = x \<or> (h_lfree ?h1, False) \<in> set (A @ merge_next B)"
    using lf f(3) by (cases B rule: merge_next.cases) (auto split: if_splits)
  have lok: "lfree_ok ?h2 (merge_prev A x (merge_next B))"
  proof (cases "h_lfree ?h1 = x")
    case True
    then have "h_lfree ?h2 = (if A \<noteq> [] \<and> \<not> snd (last A) then fst (last A) else x)" using b(3) by simp
    moreover have "(fst (last A), False) \<in> set A" if "A \<noteq> []" "\<not> snd (last A)"
      using that by (metis last_in_set prod.collapse)
    ultimately show ?thesis by (auto simp: lfree_ok_def merge_prev_def)
  next
    case False
    then show ?thesis using b(3,5) f(5) l1 by (auto simp: lfree_ok_def merge_prev_def)
  qed
  have lim2: "limits_ok ?h2" using lim f b by (simp add: limits_ok_def)
  have "hinv ?h2 (merge_prev A x (merge_next B))"
    using b(1,5) f(5) merged_coalesced[OF co] us2 lok lim2 by (simp add: hinv_def)
  moreover have "h_ptr h \<le> h_ptr h + x" "h_ptr h + x < h_ptr h + h_end h"
    using addr_less[OF lim, of x "h_end h"] mid(6,8) by simp_all
  moreover have "hm_used (h_mem h x) = 0" using mid(3) by simp
  ultimately show ?thesis
    using nx b(3-6) f(3-6) ln[of "h_lfree h"] by (auto simp: plug_holes_def)
qed

lemma heap_release_returns:
  assumes inv: "hinv h (A @ (x, True) # B)"
  shows "returns (heap_release x h) (\<lambda>h'. hinv h' (merge_prev A x (merge_next B)) \<and>
     (lowest h (A @ (x, True) # B) \<longrightarrow> lowest h' (merge_prev A x (merge_next B))) \<and>
     (\<forall>y. (y, True) \<in> set (A @ B) \<longrightarrow> hm_next (h_mem h' y) = hm_next (h_mem h y)) \<and>
     h_ptr h' = h_ptr h \<and> h_end h' = h_end h \<and> h_size h' = h_size h)"
proof -
  have rep: "hrep (h_mem h) 0 0 (A @ (x, True) # B) (h_end h)" and lim: "limits_ok h"
    and co: "coalesced (A @ (x, True) # B)" and us: "h_used_mem h = used_sum (h_mem h) (A @ (x, True) # B)"
    and lf: "lfree_ok h (A @ (x, True) # B)" using inv by (simp_all add: hinv_def)
  note mid = hrep_middle[OF rep]
  let ?m = "h_mem h" let ?m' = "?m(x := (?m x)\<lparr>hm_used := 0, hm_magic := 0\<rparr>)"
  let ?l = "if h_ptr h + x < h_ptr h + h_lfree h then x else h_lfree h"
  let ?h3 = "h\<lparr>h_mem := ?m', h_lfree := ?l, h_used_mem := h_used_mem h - (hm_next (?m x) - x)\<rparr>"
  have out: "y \<noteq> x" if "(y, v) \<in> set A \<or> (y, v) \<in> set B" for y v
    using that mid(9,10) mid(6) by fastforce
  have "hrep ?m' x (hm_next (?m x)) B (h_end h)" using mid(7) out by (subst hrep_cong[of B ?m' ?m]) auto
  then have "hrep ?m' (last_block 0 A) x ((x, False) # B) (h_end h)" using mid(2,5,6) by simp
  then have rep3: "hrep (h_mem ?h3) 0 0 (A @ (x, False) # B) (h_end ?h3)"
    using out by (simp, intro hrep_replace[OF mid(1)]) auto
  have us3: "h_used_mem ?h3 = used_sum (h_mem ?h3) (A @ B)"
    using us used_sum_cong[of A ?m' ?m] used_sum_cong[of B ?m' ?m] by simp
  have "unat (h_lfree h) \<le> unat (h_end h)"
    using lf hrep_bounds[OF rep, of "h_lfree h" False] by (auto simp: lfree_ok_def)
  then have cmp: "h_ptr h + x < h_ptr h + h_lfree h \<longleftrightarrow> unat x < unat (h_lfree h)"
    using addr_less(1)[OF lim] mid(6,8) by simp
  have inA: "(h_lfree h, False) \<in> set A \<longleftrightarrow> \<not> h_ptr h + x < h_ptr h + h_lfree h"
    using lf mid(6,8) mid(9)[of "h_lfree h" False] mid(10)[of "h_lfree h" False] unfolding cmp
    by (auto simp: lfree_ok_def)
  have lf3: "h_lfree ?h3 = h_end ?h3 \<or> (h_lfree ?h3, False) \<in> set (A @ (x, False) # B)" using inA by auto
  have lim3: "limits_ok ?h3" using lim by (simp add: limits_ok_def)
  note p = plug_holes_returns[OF rep3 lim3 co us3 lf3]
  have eq: "heap_release x h = plug_holes x ?h3"
    using mid(3,4) by (simp add: heap_release_def Let_def upd_mem_def)
  have low: "lowest_free (merge_prev A x C) e = (if (h_lfree h, False) \<in> set A then h_lfree h
      else if A \<noteq> [] \<and> \<not> snd (last A) then fst (last A) else x)"
    if "lowest h (A @ (x, True) # B)" for C e
  proof (cases "\<exists>y. (y, False) \<in> set A")
    case True
    then have "h_lfree h = lowest_free A (h_end h)" using that by (auto simp: lowest_def lowest_free_append)
    moreover have "lowest_free A e' = lowest_free A e''" if "(y, False) \<in> set A" for y e' e''
      using that by (induction A e' rule: lowest_free.induct) auto
    ultimately show ?thesis using True lowest_free_in[of _ A] by (auto simp: merge_prev_def lowest_free_append)
  next
    case False
    then have "A \<noteq> [] \<longrightarrow> snd (last A)" by (metis last_in_set prod.collapse)
    then show ?thesis using False by (auto simp: merge_prev_def lowest_free_append)
  qed
  show ?thesis
    unfolding eq
  proof (rule returns_mono[OF p], elim conjE, intro conjI impI)
    fix h' :: heap assume l': "(h_lfree ?h3, False) \<in> set A \<longrightarrow> h_lfree h' = h_lfree ?h3"
      "h_lfree ?h3 = x \<longrightarrow> h_lfree h' = (if A \<noteq> [] \<and> \<not> snd (last A) then fst (last A) else x)"
      and lo: "lowest h (A @ (x, True) # B)"
    show "lowest h' (merge_prev A x (merge_next B))"
      using l' inA unfolding lowest_def low[OF lo] by auto
  qed (use out in auto)
qed

section \<open>Initialisation and shrinking\<close>

lemma heap_format_inv:
  assumes "4 dvd unat b" "b \<le> e - 24" "24 < e" "h_used_mem h = 0"
  shows "hinv (heap_format b e h) [(0, False)]" "lowest (heap_format b e h) [(0, False)]"
    "h_size (heap_format b e h) = e - b - 24" "h_ptr (heap_format b e h) = b"
proof -
  have ue: "unat (e - 24) = unat e - 24" using assms(3) by (simp add: unat_sub word_le_nat_alt word_less_nat_alt)
  then have be: "unat b + 24 \<le> unat e" using assms(2,3) by (simp add: word_le_nat_alt word_less_nat_alt)
  then have eb: "unat (e - b) = unat e - unat b" by (simp add: unat_sub word_le_nat_alt)
  then have sz: "unat (e - b - 24) = unat e - unat b - 24" using be by (subst unat_sub) (simp_all add: word_le_nat_alt)
  let ?s = "e - b - 24"
  have s12: "unat (?s + 12) = unat ?s + 12" using be sz unsigned_less[of e, where 'a = nat] by (intro unat_add12) simp
  then have nz: "?s + 12 \<noteq> 0" by (intro unat_neq) simp
  show "h_size (heap_format b e h) = ?s" "h_ptr (heap_format b e h) = b" by (simp_all add: heap_format_def Let_def)
  have m: "h_mem (heap_format b e h) 0 = \<lparr>hm_magic = HEAP_MAGIC, hm_used = 0, hm_next = ?s + 12, hm_prev = 0\<rparr>"
    "h_end (heap_format b e h) = ?s + 12" "h_lfree (heap_format b e h) = 0" "h_used_mem (heap_format b e h) = 0"
    using nz assms(4) by (simp_all add: heap_format_def Let_def)
  show "lowest (heap_format b e h) [(0, False)]" by (simp add: lowest_def m)
  have "limits_ok (heap_format b e h)"
    using be sz assms(1) unsigned_less[of e, where 'a = nat] by (simp add: limits_ok_def heap_format_def Let_def)
  then show "hinv (heap_format b e h) [(0, False)]" using s12 by (simp add: hinv_def m lfree_ok_def coalesced_def)
qed

text \<open>Shrinking a block: its tail becomes a free block, merged with a free successor.  The tail can lie
  below \<open>lfree\<close>.\<close>

lemma realloc_split_returns:
  assumes inv: "hinv h (A @ (x, True) # B)" and ns: "unat newsize + 24 < unat (hm_next (h_mem h x)) - unat x - 12"
    "4 dvd unat newsize"
  shows "returns (realloc_split x newsize h) (\<lambda>h'. hinv h' (A @ (x, True) # (x + 12 + newsize, False) # merge_next B) \<and>
     (\<forall>y. (y, True) \<in> set (A @ B) \<longrightarrow> hm_next (h_mem h' y) = hm_next (h_mem h y)) \<and>
     unat (hm_next (h_mem h' x)) = unat x + 12 + unat newsize \<and>
     h_ptr h' = h_ptr h \<and> h_end h' = h_end h \<and> h_size h' = h_size h)"
proof -
  have rep: "hrep (h_mem h) 0 0 (A @ (x, True) # B) (h_end h)" and lim: "limits_ok h"
    and co: "coalesced (A @ (x, True) # B)" and us: "h_used_mem h = used_sum (h_mem h) (A @ (x, True) # B)"
    and lf: "lfree_ok h (A @ (x, True) # B)" using inv by (simp_all add: hinv_def)
  note mid = hrep_middle[OF rep]
  let ?m = "h_mem h" let ?n = "hm_next (?m x)" and ?p = "x + 12 + newsize"
  have p: "unat ?p = unat x + 12 + unat newsize" "unat x + unat newsize + 36 < unat ?n"
    using ns(1) unsigned_less[of ?n, where 'a = nat] by (simp_all add: unat_word_ariths)
  have ne: "?p \<noteq> x" "?n \<noteq> x" "?n \<noteq> ?p" using p by (intro unat_neq; linarith)+
  have e: "?n = h_size h + 12 \<longleftrightarrow> B = []" using mid(11) lim by (simp add: limits_ok_def)
  let ?m1 = "(?m(?p := \<lparr>hm_magic = HEAP_MAGIC, hm_used = 0, hm_next = ?n, hm_prev = x\<rparr>))(x := (?m x)\<lparr>hm_next := ?p\<rparr>)"
  define m' where "m' = (if B = [] then ?m1 else ?m1(?n := (?m ?n)\<lparr>hm_prev := ?p\<rparr>))"
  let ?u = "h_used_mem h - (?n - x - 12 - newsize)"
  let ?h' = "h\<lparr>h_used_mem := ?u, h_mem := m'\<rparr>"
  have eq: "realloc_split x newsize h = plug_holes ?p ?h'"
    using ne e by (simp add: realloc_split_def Let_def upd_mem_def m'_def del: add_left_cancel)
  have out: "y \<noteq> x \<and> y \<noteq> ?p" if "(y, v) \<in> set A \<or> (y, v) \<in> set B" for y v
    using that mid(9)[of y v] mid(10)[of y v] p by (intro conjI unat_neq; linarith)
  have nA: "y \<noteq> ?n" if "(y, v) \<in> set A" for y v using mid(9)[OF that] p by (intro unat_neq) linarith
  have "hrep m' ?p ?n B (h_end h)"
  proof (cases "B = []")
    case False
    have "hrep (?m(?n := (?m ?n)\<lparr>hm_prev := ?p\<rparr>)) ?p ?n B (h_end h)" by (rule hrep_new_prev[OF mid(7)]) simp
    then show ?thesis using out False by (subst hrep_cong[of B _ "?m(?n := (?m ?n)\<lparr>hm_prev := ?p\<rparr>)"]) (auto simp: m'_def)
  qed (use mid(7) in simp)
  moreover have "4 dvd unat ?p" using mid(5) ns(2) by (simp add: p)
  ultimately have "hrep m' (last_block 0 A) x ((x, True) # (?p, False) # B) (h_end h)"
    using mid(2-5) ne p by (auto simp: m'_def)
  moreover have "m' y = ?m y" if "(y, v) \<in> set A" for y v using out[of y v] nA[of y v] that by (auto simp: m'_def)
  ultimately have "hrep m' 0 0 (A @ (x, True) # (?p, False) # B) (h_end h)" by (intro hrep_replace[OF mid(1)])
  then have rep': "hrep (h_mem ?h') 0 0 ((A @ [(x, True)]) @ (?p, False) # B) (h_end ?h')" by simp
  have nxt: "hm_next (m' y) = hm_next (?m y)" if "(y, v) \<in> set (A @ B)" for y v using out[of y v] that by (auto simp: m'_def)
  have nx: "hm_next (m' x) = ?p" using ne by (auto simp: m'_def)
  have us': "h_used_mem ?h' = used_sum (h_mem ?h') ((A @ [(x, True)]) @ B)"
  proof -
    have "used_sum m' A = used_sum ?m A" "used_sum m' B = used_sum ?m B" using nxt by (intro used_sum_cong; force)+
    then show ?thesis using us nx by (simp add: algebra_simps)
  qed
  have co': "coalesced ((A @ [(x, True)]) @ (?p, True) # B)"
    using co by (auto simp: coalesced_def successively_append_iff successively_Cons)
  have lf': "h_lfree ?h' = h_end ?h' \<or> (h_lfree ?h', False) \<in> set ((A @ [(x, True)]) @ (?p, False) # B)"
    using lf by (auto simp: lfree_ok_def)
  have lim': "limits_ok ?h'" using lim by (simp add: limits_ok_def)
  have mp: "merge_prev (A @ [(x, True)]) ?p (merge_next B) = A @ (x, True) # (?p, False) # merge_next B"
    by (simp add: merge_prev_def)
  show ?thesis
    unfolding eq
    by (rule returns_mono[OF plug_holes_returns[OF rep' lim' co' us' lf', unfolded mp]]) (use nxt nx p in auto)
qed

section \<open>The heap as an allocator\<close>

text \<open>The blocks of a heap, read off its headers.\<close>

fun heap_walk :: "nat \<Rightarrow> heap \<Rightarrow> u32 \<Rightarrow> block list" where
  "heap_walk 0 h p = []"
| "heap_walk (Suc n) h p =
     (if p = h_end h then [] else (p, hm_used (h_mem h p) \<noteq> 0) # heap_walk n h (hm_next (h_mem h p)))"

definition heap_blocks :: "heap \<Rightarrow> block list" where
  "heap_blocks h = heap_walk (unat (h_end h)) h 0"

lemma heap_walk_rep: "hrep (h_mem h) pr p bs (h_end h) \<Longrightarrow> length bs \<le> n \<Longrightarrow> heap_walk n h p = bs"
proof (induction n arbitrary: pr p bs)
  case (Suc n)
  show ?case
  proof (cases bs)
    case (Cons b bs')
    obtain x u where b: "b = (x, u)" by fastforce
    have "p \<noteq> h_end h" using hrep_bounds[OF Suc.prems(1), of x u] Suc.prems(1) Cons b by auto
    then show ?thesis using Suc Cons b by auto
  qed (use Suc.prems in simp)
qed simp

lemma hrep_length: "hrep m pr p bs e \<Longrightarrow> unat p + length bs \<le> unat e"
  by (induction m pr p bs e rule: hrep.induct) auto

lemma heap_blocks_inv: "hinv h bs \<Longrightarrow> heap_blocks h = bs"
  using heap_walk_rep[of h 0 0 bs "unat (h_end h)"] hrep_length[of "h_mem h" 0 0 bs "h_end h"]
  by (simp add: hinv_def heap_blocks_def)

definition heap_ok :: "heap \<Rightarrow> bool" where
  "heap_ok h \<longleftrightarrow> hinv h (heap_blocks h)"

lemma heap_ok_iff: "heap_ok h \<longleftrightarrow> (\<exists>bs. hinv h bs)"
  using heap_blocks_inv by (auto simp: heap_ok_def)

text \<open>The data area of a block, as offsets.\<close>

definition area :: "heap \<Rightarrow> u32 \<Rightarrow> nat \<times> nat" where
  "area h x = (unat x + 12, unat (hm_next (h_mem h x)))"

definition heap_live :: "heap \<Rightarrow> (nat \<times> nat) set" where
  "heap_live h = area h ` {x. (x, True) \<in> set (heap_blocks h)}"

text \<open>The search of \<^verbatim>\<open>rt_malloc\<close> for a size it has already rounded up, and the release, by data offsets.\<close>

definition heap_alloc :: "u32 \<Rightarrow> heap \<Rightarrow> (nat option \<times> heap) option" where
  "heap_alloc sz h = do { (r, h1) \<leftarrow> malloc_loop sz (h_lfree h) h; Some (map_option (\<lambda>x. unat x + 12) r, h1) }"

definition heap_free :: "nat \<Rightarrow> heap \<Rightarrow> heap option" where
  "heap_free a h = heap_release (of_nat a - 12) h"

lemma heap_live_inv: "hinv h bs \<Longrightarrow> heap_live h = area h ` {x. (x, True) \<in> set bs}"
  by (simp add: heap_live_def heap_blocks_inv)

lemma allocates_live:
  assumes inv: "hinv h bs" and al: "allocates x sz h bs h'"
  shows "heap_ok h'" "h_size h' = h_size h" "(unat x + 12) + unat sz \<le> snd (area h' x)" "area h' x \<notin> heap_live h"
    "heap_live h' = insert (area h' x) (heap_live h)"
proof -
  from al obtain A B where bs: "bs = A @ (x, False) # B" and h': "hinv h' (taken x sz h A B)" "h_size h' = h_size h"
    "\<And>y v. (y, v) \<in> set (A @ B) \<Longrightarrow> hm_next (h_mem h' y) = hm_next (h_mem h y)"
    "unat x + 12 + unat sz \<le> unat (hm_next (h_mem h' x))" by (auto simp: allocates_def)
  note mid = hrep_middle[of "h_mem h" 0 0 A x False B "h_end h"]
  have rep: "hrep (h_mem h) 0 0 (A @ (x, False) # B) (h_end h)" using inv bs by (simp add: hinv_def)
  show "heap_ok h'" "h_size h' = h_size h" "(unat x + 12) + unat sz \<le> snd (area h' x)"
    using h' by (auto simp: heap_ok_iff area_def)
  have old: "heap_live h = area h ` {y. (y, True) \<in> set (A @ B)}" using heap_live_inv[OF inv] bs by simp
  have "y \<noteq> x" if "(y, True) \<in> set (A @ B)" for y
    using that mid(9)[OF rep, of y True] mid(10)[OF rep, of y True] mid(6)[OF rep] by auto
  then show "area h' x \<notin> heap_live h" unfolding old by (force simp: area_def word_unat_eq_iff)
  have same: "area h' y = area h y" if "(y, True) \<in> set (A @ B)" for y using h'(3)[OF that] by (simp add: area_def)
  have "{y. (y, True) \<in> set (taken x sz h A B)} = insert x {y. (y, True) \<in> set (A @ B)}" by (auto simp: taken_def)
  then show "heap_live h' = insert (area h' x) (heap_live h)"
    unfolding heap_live_inv[OF h'(1)] old using same by (auto simp: image_iff)
qed

lemma release_live:
  assumes inv: "hinv h bs" and x: "(x, True) \<in> set bs"
  shows "returns (heap_release x h) (\<lambda>h'. heap_ok h' \<and> h_size h' = h_size h \<and> heap_live h' = heap_live h - {area h x} \<and>
     h_ptr h' = h_ptr h \<and> h_end h' = h_end h)"
proof -
  obtain A B where bs: "bs = A @ (x, True) # B" using x by (meson split_list)
  have rep: "hrep (h_mem h) 0 0 (A @ (x, True) # B) (h_end h)" using inv bs by (simp add: hinv_def)
  note mid = hrep_middle[OF rep]
  have ne: "area h y \<noteq> area h x" if "(y, True) \<in> set (A @ B)" for y
    using that mid(9)[of y True] mid(10)[of y True] mid(6) by (auto simp: area_def)
  have live: "heap_live h = insert (area h x) (area h ` {y. (y, True) \<in> set (A @ B)})"
    unfolding heap_live_inv[OF inv] bs by auto
  show ?thesis
  proof (rule returns_mono[OF heap_release_returns[OF inv[unfolded bs]]], elim conjE)
    fix h' assume h': "hinv h' (merge_prev A x (merge_next B))" "h_size h' = h_size h"
      "\<forall>y. (y, True) \<in> set (A @ B) \<longrightarrow> hm_next (h_mem h' y) = hm_next (h_mem h y)" "h_ptr h' = h_ptr h" "h_end h' = h_end h"
    have "heap_live h' = area h ` {y. (y, True) \<in> set (A @ B)}"
      unfolding heap_live_inv[OF h'(1)] using h'(3) by (auto simp: merged_used area_def)
    moreover have "area h x \<notin> area h ` {y. (y, True) \<in> set (A @ B)}"
    proof
      assume "area h x \<in> area h ` {y. (y, True) \<in> set (A @ B)}"
      then obtain y where "area h x = area h y" "(y, True) \<in> set (A @ B)" by blast
      then show False using ne[of y] by simp
    qed
    ultimately have "heap_live h' = heap_live h - {area h x}" unfolding live by (simp del: set_append)
    then show "heap_ok h' \<and> h_size h' = h_size h \<and> heap_live h' = heap_live h - {area h x} \<and> h_ptr h' = h_ptr h \<and> h_end h' = h_end h"
      using h' by (auto simp: heap_ok_iff)
  qed
qed

lemma area_inj: "area h x = area h y \<Longrightarrow> x = y"
  by (simp add: area_def word_unat_eq_iff)

lemma live_block:
  assumes "heap_ok h" "(a, b) \<in> heap_live h"
  obtains x where "(x, True) \<in> set (heap_blocks h)" "area h x = (a, b)" "of_nat a - 12 = x"
proof -
  from assms(2) obtain x where x: "(x, True) \<in> set (heap_blocks h)" "area h x = (a, b)" by (auto simp: heap_live_def)
  then have "a = unat x + 12" by (simp add: area_def)
  then have "of_nat a - 12 = x" by simp
  then show thesis using that x by blast
qed

interpretation heap: allocator heap_ok heap_live "\<lambda>h sz. request_ok sz h" unat heap_alloc heap_free
proof (unfold_locales, goal_cases)
  case (1 h P Q)
  then obtain x y where xy: "(x, True) \<in> set (heap_blocks h)" "(y, True) \<in> set (heap_blocks h)" "P = area h x" "Q = area h y"
    "x \<noteq> y" by (auto simp: heap_live_def)
  from split_list[OF xy(1)] obtain A B where bs: "heap_blocks h = A @ (x, True) # B" by blast
  have rep: "hrep (h_mem h) 0 0 (A @ (x, True) # B) (h_end h)" using 1(1) bs by (simp add: heap_ok_def hinv_def)
  note mid = hrep_middle[OF rep]
  have "(y, True) \<in> set A \<or> (y, True) \<in> set B" using xy bs by auto
  then show ?case
  proof
    assume "(y, True) \<in> set A"
    then have "unat (hm_next (h_mem h y)) \<le> unat x"
      using mid(1) by (metis hrep_middle(8) split_list)
    then show ?thesis using xy by (simp add: apart_def area_def)
  qed (use mid(10)[of y True] xy in \<open>simp add: apart_def area_def\<close>)
next
  case (2 h sz)
  then have inv: "hinv h (heap_blocks h)" by (simp add: heap_ok_def)
  note al = allocates_live[OF inv]
  have "returns (malloc_loop sz (h_lfree h) h) (\<lambda>(r, h'). case r of Some x \<Rightarrow> allocates x sz h (heap_blocks h) h' | None \<Rightarrow> h' = h)"
    by (rule returns_mono[OF heap_search_returns[OF inv 2(2)]]) (auto split: option.splits)
  then show ?case
    unfolding heap_alloc_def returns_bind
  proof (rule returns_mono, clarify)
    fix r h' assume r: "case r of Some x \<Rightarrow> allocates x sz h (heap_blocks h) h' | None \<Rightarrow> h' = h"
    show "returns (Some (map_option (\<lambda>x. unat x + 12) r, h')) (\<lambda>(p, s'). heap_ok s' \<and>
        (\<lambda>sz. request_ok sz s') = (\<lambda>sz. request_ok sz h) \<and> (case p of None \<Rightarrow> heap_live s' = heap_live h
       | Some a \<Rightarrow> \<exists>b. a + unat sz \<le> b \<and> (a, b) \<notin> heap_live h \<and> heap_live s' = insert (a, b) (heap_live h)))"
    proof (cases r)
      case (Some x)
      then show ?thesis
        using al[of x sz h'] r by (auto simp: request_ok_def area_def intro!: exI[of _ "unat (hm_next (h_mem h' x))"])
    qed (use r 2(1) in simp)
  qed
next
  case (3 h a b)
  from live_block[OF 3] obtain x where x: "(x, True) \<in> set (heap_blocks h)" "area h x = (a, b)" "of_nat a - 12 = x" .
  have inv: "hinv h (heap_blocks h)" using 3(1) by (simp add: heap_ok_def)
  show ?case
    unfolding heap_free_def x(3)
    by (rule returns_mono[OF release_live[OF inv x(1)]]) (auto simp: request_ok_def x(2))
qed

end
