(* ===== verification/Byte_Mem.thy ===== *)
theory Byte_Mem
  imports Kservice
begin

unbundle bit_operations_syntax

text \<open>
  The memory services of \<^verbatim>\<open>src/kservice.c\<close>, on a memory of bytes addressed by 32 bit words.  The code
  copies and fills word by word where the addresses allow it; the theorems compare it with the plain
  byte by byte meaning.  A count is the natural number of the \<^verbatim>\<open>rt_ubase_t\<close>, which the loops only decrease.
\<close>

section \<open>The code\<close>

type_synonym bytes = "u32 \<Rightarrow> u8"

text \<open>A word in little endian order.\<close>

definition load32 :: "u32 \<Rightarrow> bytes \<Rightarrow> u32" where
  "load32 a m = ucast (m a) OR push_bit 8 (ucast (m (a + 1))) OR push_bit 16 (ucast (m (a + 2))) OR push_bit 24 (ucast (m (a + 3)))"

definition store32 :: "u32 \<Rightarrow> u32 \<Rightarrow> bytes \<Rightarrow> bytes" where
  "store32 a w m = m(a := ucast w, a + 1 := ucast (drop_bit 8 w), a + 2 := ucast (drop_bit 16 w), a + 3 := ucast (drop_bit 24 w))"

fun set_bytes :: "u32 \<Rightarrow> u8 \<Rightarrow> nat \<Rightarrow> bytes \<Rightarrow> bytes" where
  "set_bytes a d 0 m = m"
| "set_bytes a d (Suc n) m = set_bytes (a + 1) d n (m(a := d))"

fun set_words4 :: "u32 \<Rightarrow> u32 \<Rightarrow> nat \<Rightarrow> bytes \<Rightarrow> u32 \<times> nat \<times> bytes" where
  "set_words4 a w n m =
     (if n \<ge> 16 then set_words4 (a + 16) w (n - 16)
        (store32 (a + 12) w (store32 (a + 8) w (store32 (a + 4) w (store32 a w m))))
      else (a, n, m))"

fun set_words :: "u32 \<Rightarrow> u32 \<Rightarrow> nat \<Rightarrow> bytes \<Rightarrow> u32 \<times> nat \<times> bytes" where
  "set_words a w n m = (if n \<ge> 4 then set_words (a + 4) w (n - 4) (store32 a w m) else (a, n, m))"

declare set_words4.simps [simp del] set_words.simps [simp del]

definition rt_memset :: "u32 \<Rightarrow> u32 \<Rightarrow> nat \<Rightarrow> bytes \<Rightarrow> bytes" where
  "rt_memset s c count m =
     (let d = c AND 0xff
      in if \<not> count < 4 \<and> s AND 3 = 0 then
           let buffer = push_bit 8 d OR d;
               buffer = buffer OR push_bit 16 buffer;
               (a, n, m) = set_words4 s buffer count m;
               (a, n, m) = set_words a buffer n m
           in set_bytes a (ucast d) n m
         else set_bytes s (ucast d) count m)"

fun copy_bytes :: "u32 \<Rightarrow> u32 \<Rightarrow> nat \<Rightarrow> bytes \<Rightarrow> bytes" where
  "copy_bytes d s 0 m = m"
| "copy_bytes d s (Suc n) m = copy_bytes (d + 1) (s + 1) n (m(d := m s))"

definition copy_word :: "u32 \<Rightarrow> u32 \<Rightarrow> bytes \<Rightarrow> bytes" where
  "copy_word d s m = store32 d (load32 s m) m"

fun copy_words4 :: "u32 \<Rightarrow> u32 \<Rightarrow> nat \<Rightarrow> bytes \<Rightarrow> u32 \<times> u32 \<times> nat \<times> bytes" where
  "copy_words4 d s n m =
     (if n \<ge> 16 then copy_words4 (d + 16) (s + 16) (n - 16)
        (copy_word (d + 12) (s + 12) (copy_word (d + 8) (s + 8) (copy_word (d + 4) (s + 4) (copy_word d s m))))
      else (d, s, n, m))"

fun copy_words :: "u32 \<Rightarrow> u32 \<Rightarrow> nat \<Rightarrow> bytes \<Rightarrow> u32 \<times> u32 \<times> nat \<times> bytes" where
  "copy_words d s n m = (if n \<ge> 4 then copy_words (d + 4) (s + 4) (n - 4) (copy_word d s m) else (d, s, n, m))"

declare copy_words4.simps [simp del] copy_words.simps [simp del]

definition rt_memcpy :: "u32 \<Rightarrow> u32 \<Rightarrow> nat \<Rightarrow> bytes \<Rightarrow> bytes" where
  "rt_memcpy dst src count m =
     (if \<not> count < 16 \<and> (src AND 3) OR (dst AND 3) = 0 then
        let (d, s, n, m) = copy_words4 dst src count m;
            (d, s, n, m) = copy_words d s n m
        in copy_bytes d s n m
      else copy_bytes dst src count m)"

fun copy_down :: "u32 \<Rightarrow> u32 \<Rightarrow> nat \<Rightarrow> bytes \<Rightarrow> bytes" where
  "copy_down t s 0 m = m"
| "copy_down t s (Suc n) m = copy_down (t - 1) (s - 1) n (m(t - 1 := m (s - 1)))"

definition rt_memmove :: "u32 \<Rightarrow> u32 \<Rightarrow> nat \<Rightarrow> bytes \<Rightarrow> bytes" where
  "rt_memmove dest src n m =
     (if src < dest \<and> dest < src + of_nat n then copy_down (dest + of_nat n) (src + of_nat n) n m
      else copy_bytes dest src n m)"

fun rt_memcmp :: "u32 \<Rightarrow> u32 \<Rightarrow> nat \<Rightarrow> bytes \<Rightarrow> int" where
  "rt_memcmp cs ct 0 m = 0"
| "rt_memcmp cs ct (Suc n) m =
     (let res = uint (m cs) - uint (m ct) in if res \<noteq> 0 then res else rt_memcmp (cs + 1) (ct + 1) n m)"

section \<open>The meaning, byte by byte\<close>

text \<open>Address \<open>x\<close> is one of the \<open>n\<close> addresses from \<open>a\<close>, which may wrap around.\<close>

definition in_area :: "u32 \<Rightarrow> nat \<Rightarrow> u32 \<Rightarrow> bool" where
  "in_area a n x \<longleftrightarrow> unat (x - a) < n"

definition fill :: "u32 \<Rightarrow> u8 \<Rightarrow> nat \<Rightarrow> bytes \<Rightarrow> bytes" where
  "fill a d n m = (\<lambda>x. if in_area a n x then d else m x)"

definition moved :: "u32 \<Rightarrow> u32 \<Rightarrow> nat \<Rightarrow> bytes \<Rightarrow> bytes" where
  "moved d s n m = (\<lambda>x. if in_area d n x then m (s + (x - d)) else m x)"

lemma in_area_0 [simp]: "\<not> in_area a 0 x"
  by (simp add: in_area_def)

lemma in_area_Suc:
  assumes "Suc n \<le> 2 ^ 32"
  shows "in_area a (Suc n) x \<longleftrightarrow> x = a \<or> in_area (a + 1) n x"
proof (cases "x = a")
  case False
  then have "x - a \<noteq> 0" by simp
  then have "unat (x - a - 1) = unat (x - a) - 1" "unat (x - a) \<noteq> 0" by (simp_all add: unat_minus_one unat_eq_zero)
  then show ?thesis using False by (auto simp: in_area_def diff_diff_eq)
qed (simp add: in_area_def)

lemma in_area_add:
  assumes "k + n \<le> 2 ^ 32"
  shows "in_area a (k + n) x \<longleftrightarrow> in_area a k x \<or> in_area (a + of_nat k) n x"
  using assms
proof (induction k arbitrary: a)
  case (Suc k)
  have "in_area a (Suc (k + n)) x \<longleftrightarrow> x = a \<or> in_area (a + 1) (k + n) x" using Suc.prems by (intro in_area_Suc) simp
  moreover have "in_area (a + 1) (k + n) x \<longleftrightarrow> in_area (a + 1) k x \<or> in_area (a + 1 + of_nat k) n x" using Suc by simp
  moreover have "in_area a (Suc k) x \<longleftrightarrow> x = a \<or> in_area (a + 1) k x" using Suc.prems by (intro in_area_Suc) simp
  ultimately show ?case by (simp add: ac_simps)
qed simp

lemma fill_add: "k + n \<le> 2 ^ 32 \<Longrightarrow> fill (a + of_nat k) d n (fill a d k m) = fill a d (k + n) m"
  by (auto simp: fill_def in_area_add)

lemma set_bytes_fill: "n \<le> 2 ^ 32 \<Longrightarrow> set_bytes a d n m = fill a d n m"
proof (induction n arbitrary: a m)
  case (Suc n)
  then have "set_bytes a d (Suc n) m = fill (a + 1) d n (m(a := d))" by simp
  also have "\<dots> = fill a d (Suc n) m"
    using Suc.prems by (auto simp: fill_def in_area_Suc)
  finally show ?case .
qed (simp add: fill_def)

text \<open>The word that is four times the byte \<open>d\<close>.\<close>

definition word_of :: "u32 \<Rightarrow> u32" where
  "word_of d = (let b = push_bit 8 d OR d in b OR push_bit 16 b)"

lemma word_of_bytes:
  assumes "d = c AND 0xff"
  shows "ucast (word_of d) = (ucast d :: u8)" "ucast (drop_bit 8 (word_of d)) = (ucast d :: u8)"
    "ucast (drop_bit 16 (word_of d)) = (ucast d :: u8)" "ucast (drop_bit 24 (word_of d)) = (ucast d :: u8)"
proof -
  have d: "d = take_bit 8 d" using assms by (simp add: take_bit_eq_mask mask_numeral and.assoc)
  then have hi: "bit d n \<Longrightarrow> n < 8" for n by (metis bit_take_bit_iff)
  show "ucast (word_of d) = (ucast d :: u8)" "ucast (drop_bit 8 (word_of d)) = (ucast d :: u8)"
    "ucast (drop_bit 16 (word_of d)) = (ucast d :: u8)" "ucast (drop_bit 24 (word_of d)) = (ucast d :: u8)"
    by (rule bit_eqI; auto simp: word_of_def Let_def bit_simps dest: hi)+
qed

lemma store_word_of: "d = c AND 0xff \<Longrightarrow> store32 a (word_of d) m = fill a (ucast d) 4 m"
proof -
  assume d: "d = c AND 0xff"
  have "set_bytes a (ucast d) (Suc (Suc (Suc (Suc 0)))) m = store32 a (word_of d) m"
    by (simp add: store32_def word_of_bytes[OF d] add.assoc)
  then have "set_bytes a (ucast d) 4 m = store32 a (word_of d) m" by (simp only: eval_nat_numeral BitM.simps)
  then show ?thesis by (simp add: set_bytes_fill)
qed

lemma fill_word: "n \<ge> 4 \<Longrightarrow> n \<le> 2 ^ 32 \<Longrightarrow> fill (a + 4) d (n - 4) (fill a d 4 m) = fill a d n m"
  using fill_add[of 4 "n - 4" a d m] by simp

lemma set_words_fill:
  "d = c AND 0xff \<Longrightarrow> n \<le> 2 ^ 32 \<Longrightarrow> set_words a (word_of d) n m = (a', n', m') \<Longrightarrow>
   n' < 4 \<and> set_bytes a' (ucast d) n' m' = fill a (ucast d) n m"
proof (induction a "word_of d" n m rule: set_words.induct)
  case (1 a n m)
  show ?case
  proof (cases "n \<ge> 4")
    case True
    then have "set_words (a + 4) (word_of d) (n - 4) (store32 a (word_of d) m) = (a', n', m')"
      using 1(4) by (subst (asm) set_words.simps) simp
    with 1(1)[OF True] 1(2,3) have "n' < 4 \<and> set_bytes a' (ucast d) n' m' = fill (a + 4) (ucast d) (n - 4) (store32 a (word_of d) m)"
      by simp
    then show ?thesis using fill_word[OF True 1(3)] by (simp add: store_word_of[OF 1(2)])
  next
    case False
    then show ?thesis using 1(3,4) by (subst (asm) set_words.simps) (simp add: set_bytes_fill)
  qed
qed

lemma set_words4_eq:
  "d = c AND 0xff \<Longrightarrow> n \<le> 2 ^ 32 \<Longrightarrow> set_words4 a (word_of d) n m = (a', n', m') \<Longrightarrow>
   n' \<le> n \<and> fill a' (ucast d) n' m' = fill a (ucast d) n m"
proof (induction a "word_of d" n m rule: set_words4.induct)
  case (1 a n m)
  show ?case
  proof (cases "n \<ge> 16")
    case True
    let ?s = "store32 (a + 12) (word_of d) (store32 (a + 8) (word_of d) (store32 (a + 4) (word_of d) (store32 a (word_of d) m)))"
    have "fill (a + 4) (ucast d) 4 (fill a (ucast d) 4 m) = fill a (ucast d) 8 m"
      "fill (a + 8) (ucast d) 4 (fill a (ucast d) 8 m) = fill a (ucast d) 12 m"
      "fill (a + 12) (ucast d) 4 (fill a (ucast d) 12 m) = fill a (ucast d) 16 m"
      using fill_add[of 4 4 a "ucast d" m] fill_add[of 8 4 a "ucast d" m] fill_add[of 12 4 a "ucast d" m] by simp_all
    then have s: "?s = fill a (ucast d) 16 m" by (simp add: store_word_of[OF 1(2)])
    have "set_words4 (a + 16) (word_of d) (n - 16) ?s = (a', n', m')"
      using True 1(4) by (subst (asm) set_words4.simps) simp
    with 1(1)[OF True] 1(2,3) have "n' \<le> n - 16 \<and> fill a' (ucast d) n' m' = fill (a + 16) (ucast d) (n - 16) ?s" by simp
    then have "n' \<le> n" "fill a' (ucast d) n' m' = fill (a + 16) (ucast d) (n - 16) ?s" by auto
    then show ?thesis using fill_add[of 16 "n - 16" a "ucast d" m] True 1(3) unfolding s by simp
  next
    case False
    then show ?thesis using 1(4) by (subst (asm) set_words4.simps) simp
  qed
qed

lemma rt_memset_fill: "n \<le> 2 ^ 32 \<Longrightarrow> rt_memset s c n m = fill s (ucast c) n m"
proof -
  assume n: "n \<le> 2 ^ 32"
  let ?d = "c AND 0xff"
  have "?d = take_bit 8 c" by (simp add: take_bit_eq_mask mask_numeral)
  then have uc: "ucast ?d = (ucast c :: u8)" by (intro bit_eqI) (auto simp: bit_simps)
  obtain a1 n1 m1 where w4: "set_words4 s (word_of ?d) n m = (a1, n1, m1)" by (metis prod_cases3)
  obtain a2 n2 m2 where w1: "set_words a1 (word_of ?d) n1 m1 = (a2, n2, m2)" by (metis prod_cases3)
  have 4: "n1 \<le> n" "fill a1 (ucast ?d) n1 m1 = fill s (ucast ?d) n m" using set_words4_eq[OF refl n w4] by auto
  have "n1 \<le> 2 ^ 32" using 4(1) n by linarith
  then have "set_bytes a2 (ucast ?d) n2 m2 = fill s (ucast c) n m" using set_words_fill[OF refl _ w1] 4(2) uc by simp
  then show ?thesis
    using w4 w1 set_bytes_fill[OF n, of s "ucast ?d" m] uc
    by (auto simp: rt_memset_def Let_def word_of_def)
qed

section \<open>Copying\<close>

text \<open>Copying upwards is a move as long as no byte is overwritten before it is read: the destination does
  not start inside the source, behind its first byte.\<close>

definition up_safe :: "u32 \<Rightarrow> u32 \<Rightarrow> nat \<Rightarrow> bool" where
  "up_safe d s n \<longleftrightarrow> d = s \<or> n \<le> unat (d - s)"

lemma copy_bytes_moved: "n \<le> 2 ^ 32 \<Longrightarrow> up_safe d s n \<Longrightarrow> copy_bytes d s n m = moved d s n m"
proof (induction n arbitrary: d s m)
  case 0
  then show ?case by (simp add: moved_def)
next
  case (Suc n)
  have us: "up_safe (d + 1) (s + 1) n" using Suc.prems(2) by (auto simp: up_safe_def)
  have n: "n \<le> 2 ^ 32" using Suc.prems(1) by simp
  have src: "(m(d := m s)) (s + 1 + (x - (d + 1))) = m (s + (x - d))" if "in_area (d + 1) n x" for x
  proof -
    have e: "s + 1 + (x - (d + 1)) = s + (x - d)" by simp
    have "s + (x - d) \<noteq> d \<or> s = d"
    proof (rule ccontr)
      assume "\<not> ?thesis"
      then have c: "x - d = d - s" "s \<noteq> d" by (simp_all add: algebra_simps)
      then have "x \<noteq> d" by auto
      then have "in_area d (Suc n) x" "x - d \<noteq> 0" using that in_area_Suc[OF Suc.prems(1)] by auto
      then show False using c Suc.prems(2) by (auto simp: in_area_def up_safe_def)
    qed
    then show ?thesis unfolding e by auto
  qed
  have "moved (d + 1) (s + 1) n (m(d := m s)) = moved d s (Suc n) m"
  proof
    fix x show "moved (d + 1) (s + 1) n (m(d := m s)) x = moved d s (Suc n) m x"
    proof (cases "in_area (d + 1) n x")
      case True
      then have "in_area d (Suc n) x" using in_area_Suc[OF Suc.prems(1)] by simp
      then show ?thesis using src[OF True] True by (simp add: moved_def)
    next
      case False
      then show ?thesis using in_area_Suc[OF Suc.prems(1), of d x] by (auto simp: moved_def)
    qed
  qed
  then show ?case using Suc.IH[OF n us] by (simp add: fun_upd_def)
qed

lemma moved_add:
  assumes "k + n \<le> 2 ^ 32" "up_safe d s (k + n)"
  shows "moved (d + of_nat k) (s + of_nat k) n (moved d s k m) = moved d s (k + n) m"
proof -
  have split: "copy_bytes d s (k + n) m = copy_bytes (d + of_nat k) (s + of_nat k) n (copy_bytes d s k m)" for m
  proof (induction k arbitrary: d s m)
    case (Suc k)
    then show ?case by (simp add: ac_simps fun_upd_def)
  qed simp
  have "up_safe d s k" "up_safe (d + of_nat k) (s + of_nat k) n" using assms(2) by (auto simp: up_safe_def)
  then show ?thesis
    using split[of m] copy_bytes_moved assms by simp
qed

lemma load_store_bytes:
  "ucast (load32 a m) = m a" "ucast (drop_bit 8 (load32 a m)) = m (a + 1)"
  "ucast (drop_bit 16 (load32 a m)) = m (a + 2)" "ucast (drop_bit 24 (load32 a m)) = m (a + 3)"
  by (rule bit_eqI; auto simp: load32_def bit_simps dest: bit_imp_le_length)+

lemma in_area_4: "in_area d 4 x \<longleftrightarrow> x = d \<or> x = d + 1 \<or> x = d + 2 \<or> x = d + 3"
proof -
  have "in_area d (Suc (Suc (Suc (Suc 0)))) x \<longleftrightarrow> x = d \<or> x = d + 1 \<or> x = d + 2 \<or> x = d + 3"
    by (simp add: in_area_Suc add.assoc)
  then show ?thesis by (simp only: eval_nat_numeral BitM.simps)
qed

lemma copy_word_moved: "copy_word d s m = moved d s 4 m"
  by (rule ext) (auto simp: copy_word_def store32_def moved_def in_area_4 load_store_bytes)

lemma moved_words:
  assumes "k + n \<le> 2 ^ 32" "up_safe d s (k + n)" "of_nat k = w"
  shows "moved (d + w) (s + w) n (moved d s k m) = moved d s (k + n) m" "up_safe (d + w) (s + w) n"
  using moved_add[OF assms(1,2)] assms(2,3) by (auto simp: up_safe_def)

lemma copy_words_moved:
  "n \<le> 2 ^ 32 \<Longrightarrow> up_safe d s n \<Longrightarrow> copy_words d s n m = (d', s', n', m') \<Longrightarrow> copy_bytes d' s' n' m' = moved d s n m"
proof (induction d s n m rule: copy_words.induct)
  case (1 d s n m)
  show ?case
  proof (cases "n \<ge> 4")
    case True
    have n: "4 + (n - 4) = n" using True by simp
    have k: "of_nat 4 = (4 :: u32)" by simp
    note w = moved_words(1)[of 4 "n - 4" d s 4 m, unfolded n, OF 1(2,3) k]
      moved_words(2)[of 4 "n - 4" d s 4, unfolded n, OF 1(2,3) k]
    have "copy_words (d + 4) (s + 4) (n - 4) (copy_word d s m) = (d', s', n', m')"
      using True 1(4) by (subst (asm) copy_words.simps) simp
    then have "copy_bytes d' s' n' m' = moved (d + 4) (s + 4) (n - 4) (copy_word d s m)"
      using 1(1)[OF True] 1(2) w(2) by simp
    then show ?thesis using w(1) by (simp add: copy_word_moved)
  next
    case False
    then show ?thesis using 1(2-4) by (subst (asm) copy_words.simps) (simp add: copy_bytes_moved)
  qed
qed

lemma copy_words4_moved:
  "n \<le> 2 ^ 32 \<Longrightarrow> up_safe d s n \<Longrightarrow> copy_words4 d s n m = (d', s', n', m') \<Longrightarrow>
   n' \<le> n \<and> up_safe d' s' n' \<and> moved d' s' n' m' = moved d s n m"
proof (induction d s n m rule: copy_words4.induct)
  case (1 d s n m)
  show ?case
  proof (cases "n \<ge> 16")
    case True
    have n: "16 + (n - 16) = n" using True by simp
    have k: "of_nat 16 = (16 :: u32)" by simp
    note w = moved_words(1)[of 16 "n - 16" d s 16 m, unfolded n, OF 1(2,3) k]
      moved_words(2)[of 16 "n - 16" d s 16, unfolded n, OF 1(2,3) k]
    let ?m = "copy_word (d + 12) (s + 12) (copy_word (d + 8) (s + 8) (copy_word (d + 4) (s + 4) (copy_word d s m)))"
    have us: "up_safe d s 8" "up_safe d s 12" "up_safe d s 16" using 1(3) True by (auto simp: up_safe_def)
    have m: "?m = moved d s 16 m"
      using moved_words(1)[of 4 4 d s 4 m] moved_words(1)[of 8 4 d s 8 m] moved_words(1)[of 12 4 d s 12 m] us
      by (simp add: copy_word_moved)
    have "copy_words4 (d + 16) (s + 16) (n - 16) ?m = (d', s', n', m')"
      using True 1(4) by (subst (asm) copy_words4.simps) simp
    then have "n' \<le> n - 16 \<and> up_safe d' s' n' \<and> moved d' s' n' m' = moved (d + 16) (s + 16) (n - 16) ?m"
      using 1(1)[OF True] 1(2) w(2) by simp
    then show ?thesis using w(1) unfolding m by auto
  next
    case False
    then show ?thesis using 1(3,4) by (subst (asm) copy_words4.simps) simp
  qed
qed

lemma rt_memcpy_moved:
  assumes n: "n \<le> 2 ^ 32" and us: "up_safe d s n"
  shows "rt_memcpy d s n m = moved d s n m"
proof -
  obtain d1 s1 n1 m1 where w4: "copy_words4 d s n m = (d1, s1, n1, m1)" by (metis prod_cases4)
  obtain d2 s2 n2 m2 where w1: "copy_words d1 s1 n1 m1 = (d2, s2, n2, m2)" by (metis prod_cases4)
  have 4: "n1 \<le> n" "up_safe d1 s1 n1" "moved d1 s1 n1 m1 = moved d s n m" using copy_words4_moved[OF n us w4] by auto
  have "n1 \<le> 2 ^ 32" using 4(1) n by linarith
  then have "copy_bytes d2 s2 n2 m2 = moved d s n m" using copy_words_moved[OF _ 4(2) w1] 4(3) by simp
  then show ?thesis using w4 w1 copy_bytes_moved[OF n us] by (auto simp: rt_memcpy_def)
qed

text \<open>Copying downwards, when the destination lies behind the source.\<close>

lemma copy_down_moved:
  assumes "d \<noteq> s" "unat (d - s) + n \<le> 2 ^ 32"
  shows "copy_down (d + of_nat n) (s + of_nat n) n m = moved d s n m"
  using assms(2)
proof (induction n arbitrary: m)
  case 0
  then show ?case by (simp add: moved_def)
next
  case (Suc n)
  let ?t = "d + of_nat n"
  have n: "Suc n \<le> 2 ^ 32" "n < 2 ^ 32" using Suc.prems by auto
  have area: "in_area d (Suc n) x \<longleftrightarrow> in_area d n x \<or> x = ?t" for x
    using in_area_add[of n 1 d x] in_area_Suc[of 0 ?t x] n by simp
  have un: "unat (of_nat n :: u32) = n" using n by (simp add: unat_of_nat)
  have nt: "\<not> in_area d n ?t" using un by (simp add: in_area_def)
  have src: "s + (x - d) \<noteq> ?t" if "in_area d n x" for x
  proof
    assume "s + (x - d) = ?t"
    then have e: "x - d = (d - s) + of_nat n" by (simp add: algebra_simps)
    have "unat ((d - s) + of_nat n) = unat (d - s) + n"
      using Suc.prems un by (subst unat_add_lem[THEN iffD1]) simp_all
    then show False using that e by (simp add: in_area_def)
  qed
  have "copy_down (d + of_nat (Suc n)) (s + of_nat (Suc n)) (Suc n) m = moved d s n (m(?t := m (s + of_nat n)))"
    using Suc.IH Suc.prems by (simp add: fun_upd_def)
  also have "\<dots> = moved d s (Suc n) m"
    using nt src by (auto simp: moved_def area fun_eq_iff)
  finally show ?case .
qed

lemma rt_memmove_moved:
  assumes "unat s + n < 2 ^ 32" "unat d + n < 2 ^ 32"
  shows "rt_memmove d s n m = moved d s n m"
proof -
  have un: "unat (of_nat n :: u32) = n" using assms(1) by (simp add: unat_of_nat)
  then have sn: "unat (s + of_nat n) = unat s + n" using assms(1) by (simp add: unat_word_ariths)
  show ?thesis
  proof (cases "s < d \<and> d < s + of_nat n")
    case True
    then have "unat (d - s) = unat d - unat s" by (simp add: unat_sub word_less_nat_alt word_le_nat_alt)
    then have "unat (d - s) + n \<le> 2 ^ 32" using assms(2) by linarith
    then show ?thesis using True copy_down_moved[of d s n m] by (auto simp: rt_memmove_def)
  next
    case False
    have "up_safe d s n"
    proof (cases "d \<le> s")
      case True
      have "n \<le> unat (d - s)" if "d \<noteq> s"
      proof -
        have "\<not> s \<le> d" using True that by simp
        then show ?thesis using assms(1) unat_diff_wrap[of d s] by simp
      qed
      then show ?thesis by (auto simp: up_safe_def)
    next
      case gt: False
      then have "unat (d - s) = unat d - unat s" by (simp add: unat_sub word_le_nat_alt)
      then show ?thesis using gt False sn by (auto simp: up_safe_def word_less_nat_alt word_le_nat_alt)
    qed
    then show ?thesis using False copy_bytes_moved[of n d s m] assms(1) by (auto simp: rt_memmove_def)
  qed
qed

text \<open>Comparing.\<close>

lemma rt_memcmp_eq: "rt_memcmp a b n m = 0 \<longleftrightarrow> (\<forall>i<n. m (a + of_nat i) = m (b + of_nat i))"
proof (induction n arbitrary: a b)
  case (Suc n)
  have "(\<forall>i<Suc n. m (a + of_nat i) = m (b + of_nat i)) \<longleftrightarrow>
      m a = m b \<and> (\<forall>i<n. m (a + 1 + of_nat i) = m (b + 1 + of_nat i))"
    by (auto simp: less_Suc_eq_0_disj ac_simps)
  then show ?case using Suc by (auto simp: Let_def word_uint_eq_iff)
qed simp

end
