(* ===== verification/Mempool.thy ===== *)
theory Mempool
  imports Semaphore
begin

unbundle bit_operations_syntax

text \<open>
  Memory pools, from \<^verbatim>\<open>src/mempool.c\<close>: blocks of one size, the free ones linked through the word in front
  of their data.  That word is at the address of the block in \<open>k_words\<close>; in an allocated block it
  points to the pool.  A call that would use a pointer outside the pool gives \<open>None\<close>.
\<close>

section \<open>The code\<close>

definition upd_mp :: "ptr \<Rightarrow> (rt_mempool \<Rightarrow> rt_mempool) \<Rightarrow> kernel \<Rightarrow> kernel" where
  "upd_mp m f k = k\<lparr>k_mempools := (k_mempools k)(m := f (k_mempools k m))\<rparr>"

definition set_word :: "ptr \<Rightarrow> ptr \<Rightarrow> kernel \<Rightarrow> kernel" where
  "set_word a v k = k\<lparr>k_words := (k_words k)(a := v)\<rparr>"

text \<open>The loop that links the first \<open>n\<close> blocks, \<open>stride\<close> bytes apart, each to the next.\<close>

fun mp_link :: "ptr \<Rightarrow> nat \<Rightarrow> nat \<Rightarrow> kernel \<Rightarrow> kernel" where
  "mp_link start stride 0 k = k"
| "mp_link start stride (Suc n) k =
     set_word (start + n * stride) (start + Suc n * stride) (mp_link start stride n k)"

text \<open>The stores of \<^verbatim>\<open>rt_mp_init\<close> and \<^verbatim>\<open>rt_mp_create\<close>; with no block the store behind the loop would be in
  front of the pool.\<close>

definition mp_format :: "ptr \<Rightarrow> nat \<Rightarrow> nat \<Rightarrow> kernel \<Rightarrow> kernel option" where
  "mp_format start stride n k =
     (if n = 0 then None else Some (set_word (start + (n - 1) * stride) 0 (mp_link start stride n k)))"

definition rt_mp_init :: "ptr \<Rightarrow> cstr \<Rightarrow> ptr \<Rightarrow> u32 \<Rightarrow> u32 \<Rightarrow> kernel \<Rightarrow> kernel option" where
  "rt_mp_init m name start sz block_size k =
     do { let k1 = rt_object_init (OMemPool m) RT_Object_Class_MemPool name k;
          let bs = rt_align block_size;
          let total = rt_align_down sz div (bs + 4);
          let k2 = upd_mp m (\<lambda>_. \<lparr>mp_start_address = start, mp_size = rt_align_down sz, mp_block_size = bs,
                     mp_block_list = start, mp_block_total_count = total, mp_block_free_count = total,
                     mp_suspend_thread_count = 0\<rparr>) k1;
          let k3 = upd_tlists (\<lambda>L. L(Mp_Q m := [])) k2;
          if bs + 4 = 0 then None else mp_format start (unat (bs + 4)) (unat total) k3 }"

text \<open>The loop of \<^verbatim>\<open>rt_mp_detach\<close> and \<^verbatim>\<open>rt_mp_delete\<close>.\<close>

partial_function (option) mp_wake_all :: "ptr \<Rightarrow> kernel \<Rightarrow> kernel option" where
  "mp_wake_all m k =
     (case k_tlists k (Mp_Q m) of
        [] \<Rightarrow> Some k
      | t # _ \<Rightarrow> mp_wake_all m (upd_mp m (\<lambda>mp. mp\<lparr>mp_suspend_thread_count := mp_suspend_thread_count mp - 1\<rparr>)
                   (snd (rt_thread_resume t (upd_thread t (\<lambda>th. th\<lparr>t_error := -RT_ERROR\<rparr>) k)))))"

definition rt_mp_detach :: "ptr \<Rightarrow> kernel \<Rightarrow> kernel option" where
  "rt_mp_detach m k = do { k1 \<leftarrow> mp_wake_all m k; Some (rt_object_detach (OMemPool m) k1) }"

text \<open>Taking the first block of the free list.\<close>

definition mp_take :: "ptr \<Rightarrow> kernel \<Rightarrow> (ptr \<times> kernel) option" where
  "mp_take m k =
     (let b = mp_block_list (k_mempools k m)
      in if b = 0 then None
         else Some (b, set_word b m (upd_mp m (\<lambda>mp. mp\<lparr>mp_block_free_count := mp_block_free_count mp - 1,
                                                       mp_block_list := k_words k b\<rparr>) k)))"

text \<open>The result is the address of the block's data, 0 for \<^verbatim>\<open>RT_NULL\<close>.\<close>

definition rt_mp_alloc_resumed :: "ptr \<Rightarrow> tid \<Rightarrow> kernel \<Rightarrow> (ptr \<times> kernel) option" where
  "rt_mp_alloc_resumed m t k =
     (if t_error (thread k t) \<noteq> RT_EOK then Some (0, k)
      else do { (b, k1) \<leftarrow> mp_take m k; Some (b + 4, k1) })"

definition rt_mp_alloc :: "ptr \<Rightarrow> u32 \<Rightarrow> kernel \<Rightarrow> (ptr outcome \<times> kernel) option" where
  "rt_mp_alloc m time k =
     (if mp_block_free_count (k_mempools k m) \<noteq> 0 then do { (b, k1) \<leftarrow> mp_take m k; Some (Done (b + 4), k1) }
      else if time = 0 then Some (Done 0, k)
      else do {
        rt_assert (k_interrupt_nest k = 0);
        t \<leftarrow> rt_thread_self k;
        let k1 = upd_tlists (st_push (Mp_Q m) t) (snd (rt_thread_suspend t k));
        let k2 = upd_mp m (\<lambda>mp. mp\<lparr>mp_suspend_thread_count := mp_suspend_thread_count mp + 1\<rparr>) k1;
        k3 \<leftarrow> block_rest t time k2;
        if k_current k3 = Some t then do { (b, k4) \<leftarrow> rt_mp_alloc_resumed m t k3; Some (Done b, k4) }
        else Some (Blocked, k3) })"

definition rt_mp_free :: "ptr \<Rightarrow> kernel \<Rightarrow> kernel option" where
  "rt_mp_free block k =
     (if block < 4 then None
      else
        let b = block - 4; m = k_words k b;
            k1 = upd_mp m (\<lambda>mp. mp\<lparr>mp_block_free_count := mp_block_free_count mp + 1, mp_block_list := b\<rparr>)
                   (set_word b (mp_block_list (k_mempools k m)) k)
        in if mp_suspend_thread_count (k_mempools k1 m) > 0 then
             (case k_tlists k1 (Mp_Q m) of
                [] \<Rightarrow> None
              | t # _ \<Rightarrow>
                  let k2 = upd_thread t (\<lambda>th. th\<lparr>t_error := RT_EOK\<rparr>) k1;
                      k3 = snd (rt_thread_resume t k2)
                  in rt_schedule (upd_mp m (\<lambda>mp. mp\<lparr>mp_suspend_thread_count := mp_suspend_thread_count mp - 1\<rparr>) k3))
           else Some k1)"

section \<open>The free list\<close>

definition mp_blocks :: "rt_mempool \<Rightarrow> ptr set" where
  "mp_blocks mp = (\<lambda>i. mp_start_address mp + i * unat (mp_block_size mp + 4)) ` {..<unat (mp_block_total_count mp)}"

fun words_path :: "(ptr \<Rightarrow> ptr) \<Rightarrow> ptr \<Rightarrow> ptr list \<Rightarrow> bool" where
  "words_path w p [] \<longleftrightarrow> p = 0"
| "words_path w p (x # xs) \<longleftrightarrow> p = x \<and> x \<noteq> 0 \<and> words_path w (w x) xs"

lemma words_path_upd [simp]: "b \<notin> set xs \<Longrightarrow> words_path (w(b := v)) p xs \<longleftrightarrow> words_path w p xs"
  by (induction xs arbitrary: p) auto

text \<open>The free list holds exactly the blocks \<open>fs\<close>; every other block of the pool is allocated and points
  back to the pool.\<close>

definition mp_rep :: "kernel \<Rightarrow> ptr \<Rightarrow> ptr list \<Rightarrow> bool" where
  "mp_rep k m fs \<longleftrightarrow> (let mp = k_mempools k m in
     words_path (k_words k) (mp_block_list mp) fs \<and> distinct fs \<and> set fs \<subseteq> mp_blocks mp \<and>
     length fs = unat (mp_block_free_count mp) \<and> (\<forall>b\<in>mp_blocks mp - set fs. k_words k b = m) \<and> 0 \<notin> mp_blocks mp)"

lemma upd_mp_fields [simp]:
  "k_mempools (upd_mp m f k) = (k_mempools k)(m := f (k_mempools k m))" "k_words (upd_mp m f k) = k_words k"
  "k_threads (upd_mp m f k) = k_threads k" "k_tlists (upd_mp m f k) = k_tlists k" "k_current (upd_mp m f k) = k_current k"
  "k_tick (upd_mp m f k) = k_tick k" "k_lock_nest (upd_mp m f k) = k_lock_nest k"
  "k_interrupt_nest (upd_mp m f k) = k_interrupt_nest k"
  "kinv b B (upd_mp m f k) \<longleftrightarrow> kinv b B k" "runnable (upd_mp m f k) \<longleftrightarrow> runnable k"
  by (simp_all add: upd_mp_def runnable_def)

lemma set_word_fields [simp]:
  "k_words (set_word a v k) = (k_words k)(a := v)" "k_mempools (set_word a v k) = k_mempools k"
  "k_threads (set_word a v k) = k_threads k" "k_tlists (set_word a v k) = k_tlists k"
  "k_current (set_word a v k) = k_current k" "k_tick (set_word a v k) = k_tick k"
  "k_lock_nest (set_word a v k) = k_lock_nest k" "k_interrupt_nest (set_word a v k) = k_interrupt_nest k"
  "kinv b B (set_word a v k) \<longleftrightarrow> kinv b B k" "runnable (set_word a v k) \<longleftrightarrow> runnable k"
  by (simp_all add: set_word_def runnable_def)

lemma mp_rep_cong:
  assumes "k_words k' = k_words k" "k_mempools k' m = (k_mempools k m)\<lparr>mp_suspend_thread_count := n\<rparr>"
  shows "mp_rep k' m fs \<longleftrightarrow> mp_rep k m fs"
  using assms by (simp add: mp_rep_def mp_blocks_def Let_def)

text \<open>Taking a block, and putting one back.\<close>

lemma mp_take_rep:
  assumes rep: "mp_rep k m (b # fs)"
  obtains k' where "mp_take m k = Some (b, k')" "mp_rep k' m fs" "k_words k' b = m"
    "k_mempools k' = (k_mempools k)(m := (k_mempools k m)\<lparr>mp_block_free_count := mp_block_free_count (k_mempools k m) - 1,
       mp_block_list := k_words k b\<rparr>)" "k_words k' = (k_words k)(b := m)"
    "k_threads k' = k_threads k" "k_tlists k' = k_tlists k" "k_current k' = k_current k" "kinv c B k \<Longrightarrow> kinv c B k'"
    "k_tick k' = k_tick k"
proof -
  let ?mp = "k_mempools k m"
  let ?k = "set_word b m (upd_mp m (\<lambda>mp. mp\<lparr>mp_block_free_count := mp_block_free_count mp - 1, mp_block_list := k_words k b\<rparr>) k)"
  have r: "mp_block_list ?mp = b" "b \<noteq> 0" "words_path (k_words k) (k_words k b) fs" "distinct (b # fs)"
    "Suc (length fs) = unat (mp_block_free_count ?mp)" using rep by (auto simp: mp_rep_def Let_def)
  have "mp_block_free_count ?mp \<noteq> 0" using r(5) by auto
  then have c: "unat (mp_block_free_count ?mp - 1) = length fs" using r(5) by (simp add: unat_minus_one)
  have "mp_rep ?k m fs" using rep r c by (auto simp: mp_rep_def Let_def mp_blocks_def)
  moreover have "mp_take m k = Some (b, ?k)" using r(1,2) by (simp add: mp_take_def)
  ultimately show thesis by (intro that[of ?k]) simp_all
qed

text \<open>A pool whose blocks are elsewhere is not affected.\<close>

lemma mp_rep_other:
  assumes "mp_rep k m' fs'" "m' \<noteq> m" "b \<notin> mp_blocks (k_mempools k m')"
  shows "mp_rep (set_word b v (upd_mp m f k)) m' fs'"
proof -
  have "b \<notin> set fs'" using assms(1,3) by (auto simp: mp_rep_def Let_def)
  then show ?thesis using assms by (auto simp: mp_rep_def Let_def)
qed

lemma mp_put_rep:
  assumes rep: "mp_rep k m fs" and b: "b \<in> mp_blocks (k_mempools k m)" "b \<notin> set fs"
  defines "k1 \<equiv> upd_mp m (\<lambda>mp. mp\<lparr>mp_block_free_count := mp_block_free_count mp + 1, mp_block_list := b\<rparr>)
                   (set_word b (mp_block_list (k_mempools k m)) k)"
  shows "mp_rep k1 m (b # fs)"
proof -
  let ?mp = "k_mempools k m"
  have fin: "finite (mp_blocks ?mp)" by (simp add: mp_blocks_def)
  have "card (set (b # fs)) \<le> card (mp_blocks ?mp)"
    using rep b by (intro card_mono[OF fin]) (auto simp: mp_rep_def Let_def)
  moreover have "card (mp_blocks ?mp) \<le> unat (mp_block_total_count ?mp)"
    unfolding mp_blocks_def using card_image_le[of "{..<unat (mp_block_total_count ?mp)}"] by simp
  moreover have "card (set (b # fs)) = Suc (length fs)" using rep b by (simp add: mp_rep_def Let_def distinct_card)
  ultimately have "Suc (unat (mp_block_free_count ?mp)) \<le> unat (mp_block_total_count ?mp)"
    using rep by (simp add: mp_rep_def Let_def)
  then have "unat (mp_block_free_count ?mp + 1) = Suc (unat (mp_block_free_count ?mp))"
    using unsigned_less[of "mp_block_total_count ?mp", where 'a = nat] by (simp add: unat_word_ariths)
  then show ?thesis
    using rep b by (auto simp: mp_rep_def Let_def mp_blocks_def k1_def)
qed

section \<open>Initialisation\<close>

lemma mp_link_words:
  assumes "0 < stride"
  shows "k_words (mp_link start stride n k) a =
    (if \<exists>i<n. a = start + i * stride then a + stride else k_words k a)"
proof (induction n)
  case (Suc n)
  have "start + i * stride = start + n * stride \<longleftrightarrow> i = n" for i using assms by simp
  then show ?case using Suc by (auto simp: less_Suc_eq)
qed simp

lemma mp_link_frame [simp]:
  "k_mempools (mp_link start stride n k) = k_mempools k" "k_threads (mp_link start stride n k) = k_threads k"
  "k_tlists (mp_link start stride n k) = k_tlists k" "kinv b B (mp_link start stride n k) \<longleftrightarrow> kinv b B k"
  "k_tick (mp_link start stride n k) = k_tick k"
  by (induction n) simp_all

lemma linked_path:
  assumes "\<And>i. i < n \<Longrightarrow> w (start + i * stride) = (if Suc i < n then start + Suc i * stride else 0)" "0 < start"
  shows "j \<le> n \<Longrightarrow> words_path w (if j < n then start + j * stride else 0) (map (\<lambda>i. start + i * stride) [j..<n])"
proof (induction "n - j" arbitrary: j)
  case (Suc d)
  then have j: "j < n" by simp
  then have "words_path w (if Suc j < n then start + Suc j * stride else 0) (map (\<lambda>i. start + i * stride) [Suc j..<n])"
    using Suc.hyps(1)[of "Suc j"] Suc.hyps(2) by simp
  then show ?case using j assms by (simp add: upt_rec[of j n] del: upt_Suc)
qed simp

lemma mp_format_rep:
  assumes "0 < start" "0 < n" "mp_start_address (k_mempools k m) = start" "mp_block_list (k_mempools k m) = start"
    "unat (mp_block_size (k_mempools k m) + 4) = stride" "0 < stride"
    "unat (mp_block_total_count (k_mempools k m)) = n" "unat (mp_block_free_count (k_mempools k m)) = n"
  shows "returns (mp_format start stride n k) (\<lambda>k'. mp_rep k' m (map (\<lambda>i. start + i * stride) [0..<n]) \<and>
     k_mempools k' = k_mempools k \<and> k_tlists k' = k_tlists k \<and> (kinv b B k \<longrightarrow> kinv b B k') \<and> k_tick k' = k_tick k)"
proof -
  let ?k = "set_word (start + (n - 1) * stride) 0 (mp_link start stride n k)"
  have w: "k_words ?k (start + i * stride) = (if Suc i < n then start + Suc i * stride else 0)" if "i < n" for i
    using that assms(6) by (auto simp: mp_link_words[OF assms(6)])
  have "words_path (k_words ?k) start (map (\<lambda>i. start + i * stride) [0..<n])"
    using linked_path[OF w assms(1), of 0] assms(2) by (simp add: fun_upd_def)
  moreover have "distinct (map (\<lambda>i. start + i * stride) [0..<n])"
    using assms(6) by (auto simp: distinct_map inj_on_def)
  moreover have "mp_blocks (k_mempools k m) = set (map (\<lambda>i. start + i * stride) [0..<n])"
    using assms by (auto simp: mp_blocks_def)
  ultimately have "mp_rep ?k m (map (\<lambda>i. start + i * stride) [0..<n])"
    using assms by (auto simp: mp_rep_def Let_def)
  then show ?thesis using assms(2) by (simp add: mp_format_def)
qed

lemma mp_init_returns:
  assumes "0 < start" "rt_align bs + 4 \<noteq> 0" "rt_align bs + 4 \<le> rt_align_down sz"
  shows "returns (rt_mp_init m name start sz bs k) (\<lambda>k'. mp_rep k' m
     (map (\<lambda>i. start + i * unat (rt_align bs + 4)) [0..<unat (rt_align_down sz div (rt_align bs + 4))]))"
proof -
  let ?n = "unat (rt_align_down sz div (rt_align bs + 4))" and ?d = "unat (rt_align bs + 4)"
  have "0 < ?d" using assms(2) by (simp add: unat_gt_0)
  moreover from this have "0 < ?n" using assms(3) by (simp add: unat_div word_le_nat_alt div_greater_zero_iff)
  ultimately show ?thesis
    unfolding rt_mp_init_def Let_def using assms(1,2)
    by (simp only: if_False bind.bind_lunit)
      (rule returns_mono[OF mp_format_rep[where m = m and b = 0 and B = 0]], simp_all)
qed

section \<open>The kernel operations\<close>

lemma mp_alloc_some:
  assumes rep: "mp_rep k m (b # fs)" and inv: "kinv c B k"
  shows "returns (rt_mp_alloc m time k) (\<lambda>(r, k'). r = Done (b + 4) \<and> mp_rep k' m fs \<and> kinv c B k' \<and> k_words k' b = m \<and>
     k_threads k' = k_threads k \<and> k_tlists k' = k_tlists k \<and> k_current k' = k_current k \<and> k_tick k' = k_tick k \<and>
     mp_blocks (k_mempools k' m) = mp_blocks (k_mempools k m) \<and>
     mp_suspend_thread_count (k_mempools k' m) = mp_suspend_thread_count (k_mempools k m) \<and>
     (\<forall>m' fs'. m' \<noteq> m \<longrightarrow> mp_rep k m' fs' \<longrightarrow> b \<notin> mp_blocks (k_mempools k m') \<longrightarrow> mp_rep k' m' fs'))"
proof -
  from mp_take_rep[OF rep, where c = c and B = B] obtain k' where k': "mp_take m k = Some (b, k')" "mp_rep k' m fs"
    "k_words k' b = m" "k_mempools k' = (k_mempools k)(m := (k_mempools k m)\<lparr>mp_block_free_count :=
      mp_block_free_count (k_mempools k m) - 1, mp_block_list := k_words k b\<rparr>)" "k_words k' = (k_words k)(b := m)"
    "k_threads k' = k_threads k" "k_tlists k' = k_tlists k" "k_current k' = k_current k" "kinv c B k \<Longrightarrow> kinv c B k'"
    "k_tick k' = k_tick k" by metis
  have "mp_rep k' m' fs'" if "m' \<noteq> m" "mp_rep k m' fs'" "b \<notin> mp_blocks (k_mempools k m')" for m' fs'
    using mp_rep_other[OF that(2,1,3)] k'(4,5) that(1) by (simp add: mp_rep_def)
  moreover have "mp_block_free_count (k_mempools k m) \<noteq> 0" using rep by (auto simp: mp_rep_def Let_def)
  ultimately show ?thesis using k' inv by (simp add: rt_mp_alloc_def mp_blocks_def)
qed

text \<open>The waiting thread goes to the head of the queue: the pool serves the last that came.\<close>

lemma mp_alloc_blocks:
  assumes inv: "kernel_inv k" and none: "mp_block_free_count (k_mempools k m) = 0" and time: "time \<noteq> 0" "time_ok time"
    and irq: "k_interrupt_nest k = 0" and blk: "may_block t k"
  defines "k1 \<equiv> upd_mp m (\<lambda>mp. mp\<lparr>mp_suspend_thread_count := mp_suspend_thread_count mp + 1\<rparr>) k"
  shows "returns (rt_mp_alloc m time k) (\<lambda>(r, k'). r = Blocked \<and> kernel_inv k' \<and> runnable k' \<and>
     waiting_at (Mp_Q m) t (t # k_tlists k (Mp_Q m)) time k1 k')"
proof -
  have c: "k_current k = Some t" and t: "stat k t = RT_THREAD_READY" using blk by (auto simp: may_block_def)
  have k1: "kernel_inv k1" "may_block t k1" using inv blk by (auto simp: k1_def may_block_def)
  have nin: "t \<notin> set (k_tlists k (Mp_Q m))"
    by (rule ready_not_waiting[OF kinvD(1)[OF inv] wait_queue_simps(7) t])
  have j: "joins t (k_tlists k1 (Mp_Q m)) (t # k_tlists k (Mp_Q m))"
    using nin store_wf_distinct[OF sinv_wf[OF kinvD(1)[OF inv]]] by (simp add: joins_def k1_def)
  have eq: "upd_mp m (\<lambda>mp. mp\<lparr>mp_suspend_thread_count := mp_suspend_thread_count mp + 1\<rparr>)
      (upd_tlists (st_push (Mp_Q m) t) (snd (rt_thread_suspend t k))) = queued (Mp_Q m) t (t # k_tlists k (Mp_Q m)) k1"
    using t nin by (simp add: queued_def Let_def rt_thread_suspend_def rt_schedule_remove_thread_def upd_defs upd_mp_def
        st_push_def k1_def)
  note b = block_rest_returns[OF k1(1) wait_queue_simps(7) k1(2) j time(2)]
  show ?thesis
    unfolding rt_mp_alloc_def rt_thread_self_def c Let_def using none time(1) irq
    by (auto simp: eq waiting_at_def intro!: returns_mono[OF b])
qed

lemma mp_free_eq:
  assumes rep: "mp_rep k m fs" and b: "b \<in> mp_blocks (k_mempools k m)" "b \<notin> set fs"
  defines "k1 \<equiv> upd_mp m (\<lambda>mp. mp\<lparr>mp_block_free_count := mp_block_free_count mp + 1, mp_block_list := b\<rparr>)
                   (set_word b (mp_block_list (k_mempools k m)) k)"
  shows "rt_mp_free (b + 4) k = (if mp_suspend_thread_count (k_mempools k m) > 0 then
      (case k_tlists k (Mp_Q m) of [] \<Rightarrow> None
       | t # _ \<Rightarrow> rt_schedule (upd_mp m (\<lambda>mp. mp\<lparr>mp_suspend_thread_count := mp_suspend_thread_count mp - 1\<rparr>)
            (snd (rt_thread_resume t (upd_thread t (\<lambda>th. th\<lparr>t_error := RT_EOK\<rparr>) k1)))))
      else Some k1)"
proof -
  have "k_words k b = m" using rep b by (auto simp: mp_rep_def Let_def)
  then show ?thesis by (simp add: rt_mp_free_def Let_def k1_def split: list.splits)
qed

lemma mp_free_wakes:
  assumes inv: "kernel_inv k" and cur: "k_current k \<noteq> None" and rep: "mp_rep k m fs"
    and b: "b \<in> mp_blocks (k_mempools k m)" "b \<notin> set fs"
    and w: "mp_suspend_thread_count (k_mempools k m) \<noteq> 0" "k_tlists k (Mp_Q m) = t # ts"
  shows "returns (rt_mp_free (b + 4) k) (\<lambda>k'. kernel_inv k' \<and> runnable k' \<and> mp_rep k' m (b # fs) \<and>
     stat k' t = RT_THREAD_READY \<and> t_error (thread k' t) = RT_EOK \<and> k_tlists k' (Mp_Q m) = ts \<and>
     mp_suspend_thread_count (k_mempools k' m) = mp_suspend_thread_count (k_mempools k m) - 1)"
proof -
  let ?k1 = "upd_mp m (\<lambda>mp. mp\<lparr>mp_block_free_count := mp_block_free_count mp + 1, mp_block_list := b\<rparr>)
                   (set_word b (mp_block_list (k_mempools k m)) k)"
  let ?k2 = "upd_thread t (\<lambda>th. th\<lparr>t_error := RT_EOK\<rparr>) ?k1" let ?k3 = "snd (rt_thread_resume t ?k2)"
  let ?k4 = "upd_mp m (\<lambda>mp. mp\<lparr>mp_suspend_thread_count := mp_suspend_thread_count mp - 1\<rparr>) ?k3"
  have k2: "kinv (k_tick k) (HALF - 1) ?k2" "k_tlists ?k2 (Mp_Q m) = t # ts" using inv w by simp_all
  note r = list_resume_returns[OF k2(1) wait_queue_simps(7) k2(2)]
  have o: "k_words ?k3 = k_words ?k1" "k_mempools ?k3 = k_mempools ?k1" "k_current ?k3 = k_current k"
    using r(7,8) by (simp_all add: same_objs_def)
  have k4: "kinv (k_tick k) (HALF - 1) ?k4" "runnable ?k4" using r(2,3,8) cur by (auto simp: runnable_def)
  have rep4: "mp_rep ?k4 m (b # fs)"
    using mp_put_rep[OF rep b] by (subst mp_rep_cong[of _ ?k1]) (simp_all add: o)
  have eq: "rt_mp_free (b + 4) k = rt_schedule ?k4" using mp_free_eq[OF rep b] w by (simp add: word_gt_0)
  show ?thesis
    unfolding eq
  proof (rule returns_mono[OF schedule_returns[OF k4]], elim conjE)
    fix k' assume k': "kinv (k_tick k) (HALF - 1) k'" "runnable k'" "scheduled ?k4 k'"
    note f = scheduled_frame[OF k'(3)]
    have tk: "k_tick k' = k_tick k" using r(7) by (simp add: f same_objs_def)
    have "mp_rep k' m (b # fs)" using rep4 by (simp add: mp_rep_def f)
    moreover have "thread k' t = (thread k t)\<lparr>t_error := RT_EOK, t_stat := RT_THREAD_READY\<rparr>" by (simp add: f r(4))
    ultimately show "kernel_inv k' \<and> runnable k' \<and> mp_rep k' m (b # fs) \<and>
     stat k' t = RT_THREAD_READY \<and> t_error (thread k' t) = RT_EOK \<and> k_tlists k' (Mp_Q m) = ts \<and>
     mp_suspend_thread_count (k_mempools k' m) = mp_suspend_thread_count (k_mempools k m) - 1"
      using k' r(5) by (simp add: f o tk)
  qed
qed

end
