(* ===== verification/Kernel_Heap.thy ===== *)
theory Kernel_Heap
  imports Mem Byte_Mem Event Mutex Message_Queue Mempool
begin

unbundle bit_operations_syntax

text \<open>
  The system heap as the kernel calls it: the functions of \<^verbatim>\<open>src/mem.c\<close> with their semaphore, and
  everything the kernel sources create and delete on the heap (\<^verbatim>\<open>src/object.c\<close>, \<^verbatim>\<open>src/ipc.c\<close>,
  \<^verbatim>\<open>src/thread.c\<close>, \<^verbatim>\<open>src/timer.c\<close>, \<^verbatim>\<open>src/mempool.c\<close>, \<^verbatim>\<open>src/kservice.c\<close>), and the idle thread, which
  releases what dead threads leave behind.  Addresses are words, 0 is \<^verbatim>\<open>RT_NULL\<close>; an object created on
  the heap has the address of its block.  The bytes of the memory are a separate argument where the
  code reads or writes them.
\<close>

section \<open>Allocation and release\<close>

abbreviation MIN_SIZE :: u32 where "MIN_SIZE \<equiv> 12"

text \<open>The address of the static variable \<^verbatim>\<open>heap_sem\<close>.\<close>

abbreviation heap_sem :: ptr where "heap_sem \<equiv> 8"

text \<open>Going on with \<open>f\<close> when a call has returned.\<close>

definition bind_done :: "('a outcome \<times> 's) option \<Rightarrow> ('a \<Rightarrow> 's \<Rightarrow> ('b outcome \<times> 's) option) \<Rightarrow> ('b outcome \<times> 's) option" where
  "bind_done m f = do { (r, s) \<leftarrow> m; case r of Done a \<Rightarrow> f a s | Blocked \<Rightarrow> Some (Blocked, s) }"

definition rt_system_heap_init :: "u32 \<Rightarrow> u32 \<Rightarrow> kernel \<Rightarrow> kernel option" where
  "rt_system_heap_init begin_addr end_addr k =
     do { let begin_align = rt_align begin_addr;
          let end_align = rt_align_down end_addr;
          rt_assert (k_interrupt_nest k = 0);
          if end_align > 2 * SIZEOF_STRUCT_MEM \<and> end_align - 2 * SIZEOF_STRUCT_MEM \<ge> begin_align
          then Some (rt_sem_init heap_sem (map (of_nat \<circ> of_char) ''heap'') 1 RT_IPC_FLAG_FIFO
                 (k\<lparr>k_heap := heap_format begin_align end_align (k_heap k)\<rparr>))
          else Some k }"

text \<open>\<^verbatim>\<open>rt_malloc\<close> from the point where it holds the semaphore.\<close>

definition rt_malloc_locked :: "u32 \<Rightarrow> kernel \<Rightarrow> (u32 outcome \<times> kernel) option" where
  "rt_malloc_locked sz k =
     do { (r, h) \<leftarrow> malloc_loop sz (h_lfree (k_heap k)) (k_heap k);
          k1 \<leftarrow> rt_sem_release heap_sem (k\<lparr>k_heap := h\<rparr>);
          case r of
            None \<Rightarrow> Some (Done 0, k1)
          | Some ptr \<Rightarrow>
              do { let mem = h_ptr h + ptr;
                   rt_assert (mem + SIZEOF_STRUCT_MEM + sz \<le> h_ptr h + h_end h);
                   rt_assert ((mem + SIZEOF_STRUCT_MEM) mod 4 = 0);
                   rt_assert (mem AND 3 = 0);
                   Some (Done (mem + SIZEOF_STRUCT_MEM), k1) } }"

definition malloc_size :: "u32 \<Rightarrow> u32" where
  "malloc_size n = (if rt_align n < MIN_SIZE_ALIGNED then MIN_SIZE_ALIGNED else rt_align n)"

definition rt_malloc :: "u32 \<Rightarrow> kernel \<Rightarrow> (u32 outcome \<times> kernel) option" where
  "rt_malloc n k =
     do { rt_assert (k_interrupt_nest k = 0);
          if n = 0 then Some (Done 0, k)
          else if rt_align n > h_size (k_heap k) then Some (Done 0, k)
          else bind_done (rt_sem_take heap_sem RT_WAITING_FOREVER k) (\<lambda>_. rt_malloc_locked (malloc_size n)) }"

text \<open>\<^verbatim>\<open>rt_free\<close> from the point where it holds the semaphore.\<close>

definition rt_free_locked :: "u32 \<Rightarrow> kernel \<Rightarrow> (unit outcome \<times> kernel) option" where
  "rt_free_locked rmem k =
     do { h \<leftarrow> heap_release (rmem - SIZEOF_STRUCT_MEM - h_ptr (k_heap k)) (k_heap k);
          k1 \<leftarrow> rt_sem_release heap_sem (k\<lparr>k_heap := h\<rparr>);
          Some (Done (), k1) }"

definition rt_free :: "u32 \<Rightarrow> kernel \<Rightarrow> (unit outcome \<times> kernel) option" where
  "rt_free rmem k =
     do { rt_assert (k_interrupt_nest k = 0);
          if rmem = 0 then Some (Done (), k)
          else do {
            rt_assert (rmem AND 3 = 0);
            rt_assert (rmem \<ge> h_ptr (k_heap k) \<and> rmem < h_ptr (k_heap k) + h_end (k_heap k));
            bind_done (rt_sem_take heap_sem RT_WAITING_FOREVER k) (\<lambda>_. rt_free_locked rmem) } }"

definition release_and :: "'a \<Rightarrow> kernel \<Rightarrow> ('a outcome \<times> kernel) option" where
  "release_and x k = do { k1 \<leftarrow> rt_sem_release heap_sem k; Some (Done x, k1) }"

text \<open>Running an operation on the kernel alone in a state that has a second part, the bytes of the memory
  or a structure.\<close>

definition on_kernel :: "(kernel \<Rightarrow> ('a outcome \<times> kernel) option) \<Rightarrow> 'm \<times> kernel \<Rightarrow> ('a outcome \<times> 'm \<times> kernel) option" where
  "on_kernel f s = do { (r, k) \<leftarrow> f (snd s); Some (r, fst s, k) }"

text \<open>\<^verbatim>\<open>rt_realloc\<close> when the block cannot stay where it is: \<open>sz\<close> is the size it has.\<close>

definition realloc_move :: "u32 \<Rightarrow> u32 \<Rightarrow> u32 \<Rightarrow> bytes \<times> kernel \<Rightarrow> (u32 outcome \<times> bytes \<times> kernel) option" where
  "realloc_move rmem newsize sz s =
     bind_done (on_kernel (rt_malloc newsize) s) (\<lambda>nmem (b, k).
       if nmem \<noteq> 0 then
         bind_done (on_kernel (rt_free rmem) (rt_memcpy nmem rmem (unat (if sz < newsize then sz else newsize)) b, k))
           (\<lambda>_ s. Some (Done nmem, s))
       else Some (Done nmem, b, k))"

definition rt_realloc_locked :: "u32 \<Rightarrow> u32 \<Rightarrow> bytes \<times> kernel \<Rightarrow> (u32 outcome \<times> bytes \<times> kernel) option" where
  "rt_realloc_locked rmem newsize s =
     (let h = k_heap (snd s)
      in if rmem < h_ptr h \<or> rmem \<ge> h_ptr h + h_end h then on_kernel (release_and rmem) s
         else
           let ptr = rmem - SIZEOF_STRUCT_MEM - h_ptr h;
               sz = hm_next (h_mem h ptr) - ptr - SIZEOF_STRUCT_MEM
           in if sz = newsize then on_kernel (release_and rmem) s
              else if newsize + SIZEOF_STRUCT_MEM + MIN_SIZE < sz then
                do { h1 \<leftarrow> realloc_split ptr newsize h;
                     on_kernel (release_and rmem) (fst s, (snd s)\<lparr>k_heap := h1\<rparr>) }
              else bind_done (on_kernel (release_and ()) s) (\<lambda>_. realloc_move rmem newsize sz))"

definition rt_realloc :: "u32 \<Rightarrow> u32 \<Rightarrow> bytes \<times> kernel \<Rightarrow> (u32 outcome \<times> bytes \<times> kernel) option" where
  "rt_realloc rmem n s =
     do { rt_assert (k_interrupt_nest (snd s) = 0);
          let newsize = rt_align n;
          if newsize > h_size (k_heap (snd s)) then Some (Done 0, s)
          else if rmem = 0 then on_kernel (rt_malloc newsize) s
          else bind_done (on_kernel (rt_sem_take heap_sem RT_WAITING_FOREVER) s)
                 (\<lambda>_. rt_realloc_locked rmem newsize) }"

definition rt_calloc :: "u32 \<Rightarrow> u32 \<Rightarrow> bytes \<times> kernel \<Rightarrow> (u32 outcome \<times> bytes \<times> kernel) option" where
  "rt_calloc count n s =
     do { rt_assert (k_interrupt_nest (snd s) = 0);
          bind_done (on_kernel (rt_malloc (count * n)) s) (\<lambda>p (b, k).
            if p \<noteq> 0 then Some (Done p, rt_memset p 0 (unat (count * n)) b, k) else Some (Done p, b, k)) }"

definition rt_memory_info :: "kernel \<Rightarrow> u32 \<times> u32 \<times> u32" where
  "rt_memory_info k = (h_size (k_heap k), h_used_mem (k_heap k), h_max_mem (k_heap k))"

definition rt_malloc_align :: "u32 \<Rightarrow> u32 \<Rightarrow> bytes \<times> kernel \<Rightarrow> (u32 outcome \<times> bytes \<times> kernel) option" where
  "rt_malloc_align n al s =
     (let align = (al + 3) AND NOT 3;
          align_size = ((n + 3) AND NOT 3) + align
      in bind_done (on_kernel (rt_malloc align_size) s) (\<lambda>p (b, k).
           if p \<noteq> 0 then
             let align_ptr = (if p AND (align - 1) = 0 then p + align else (p + (align - 1)) AND NOT (align - 1))
             in Some (Done align_ptr, store32 (align_ptr - 4) p b, k)
           else Some (Done p, b, k)))"

definition rt_free_align :: "u32 \<Rightarrow> bytes \<times> kernel \<Rightarrow> (unit outcome \<times> bytes \<times> kernel) option" where
  "rt_free_align p s = on_kernel (rt_free (load32 (p - 4) (fst s))) s"

section \<open>Objects on the heap\<close>

text \<open>The sizes \<^verbatim>\<open>sizeof (struct ...)\<close> in the table \<^verbatim>\<open>rt_object_container\<close>, on the 32 bit target.\<close>

definition object_size :: "u8 \<Rightarrow> u32" where
  "object_size type =
     (if type = RT_Object_Class_Thread then 120 else if type = RT_Object_Class_Semaphore then 28
      else if type = RT_Object_Class_Mutex then 32 else if type = RT_Object_Class_Event then 28
      else if type = RT_Object_Class_MailBox then 44 else if type = RT_Object_Class_MessageQueue then 48
      else if type = RT_Object_Class_MemHeap then 92 else if type = RT_Object_Class_MemPool then 52
      else if type = RT_Object_Class_Device then 64 else 40)"

fun obj_addr :: "obj \<Rightarrow> u32" where
  "obj_addr (OThread p) = of_nat p" | "obj_addr (OSem p) = of_nat p" | "obj_addr (OMutex p) = of_nat p"
| "obj_addr (OEvent p) = of_nat p" | "obj_addr (OMailBox p) = of_nat p" | "obj_addr (OMessageQueue p) = of_nat p"
| "obj_addr (OMemHeap p) = of_nat p" | "obj_addr (OMemPool p) = of_nat p" | "obj_addr (ODevice p) = of_nat p"
| "obj_addr (OTimer (Timer p)) = of_nat p" | "obj_addr (OTimer (Thread_Timer p)) = of_nat p"

text \<open>The object at an address, \<open>mk\<close> giving it the type of its class.\<close>

definition rt_object_allocate :: "(ptr \<Rightarrow> obj) \<Rightarrow> u8 \<Rightarrow> cstr \<Rightarrow> kernel \<Rightarrow> (ptr outcome \<times> kernel) option" where
  "rt_object_allocate mk type name k =
     do { rt_assert (k_interrupt_nest k = 0);
          bind_done (rt_malloc (object_size type) k) (\<lambda>p k1.
            if p = 0 then Some (Done 0, k1)
            else
              let x = mk (unat p);
                  k2 = upd_object x (\<lambda>_. \<lparr>o_name = rt_strncpy name RT_NAME_MAX, o_type = type, o_flag = 0\<rparr>) k1
              in Some (Done (unat p), k2\<lparr>k_container := st_push (unat type) x (k_container k2)\<rparr>)) }"

definition rt_object_delete :: "obj \<Rightarrow> kernel \<Rightarrow> (unit outcome \<times> kernel) option" where
  "rt_object_delete x k =
     do { rt_assert (o_type (k_objects k x) AND RT_Object_Class_Static = 0);
          rt_free (obj_addr x) (k\<lparr>k_container := st_remove x (k_container k)\<rparr>) }"

text \<open>Creation: allocate the object, and go on with its address unless there is no memory.\<close>

definition create_with :: "(ptr \<Rightarrow> obj) \<Rightarrow> u8 \<Rightarrow> cstr \<Rightarrow> (ptr \<Rightarrow> kernel \<Rightarrow> (ptr outcome \<times> kernel) option) \<Rightarrow> kernel \<Rightarrow>
    (ptr outcome \<times> kernel) option" where
  "create_with mk type name f k =
     bind_done (rt_object_allocate mk type name k) (\<lambda>p k1. if p = 0 then Some (Done 0, k1) else f p k1)"

definition rt_sem_create :: "cstr \<Rightarrow> u32 \<Rightarrow> u8 \<Rightarrow> kernel \<Rightarrow> (ptr outcome \<times> kernel) option" where
  "rt_sem_create name value flag k =
     do { rt_assert (k_interrupt_nest k = 0);
          create_with OSem RT_Object_Class_Semaphore name (\<lambda>s k1.
            let k2 = rt_ipc_object_init (Sem_Q s) k1;
                k3 = upd_sem s (\<lambda>sem. sem\<lparr>s_value := ucast value\<rparr>) k2
            in Some (Done s, set_obj_flag (OSem s) flag k3)) k }"

text \<open>The deletions that wake all waiters and delete the object.\<close>

definition ipc_delete :: "thead \<Rightarrow> obj \<Rightarrow> kernel \<Rightarrow> (rt_err outcome \<times> kernel) option" where
  "ipc_delete h x k =
     do { rt_assert (k_interrupt_nest k = 0);
          k1 \<leftarrow> rt_ipc_list_resume_all h k;
          bind_done (rt_object_delete x k1) (\<lambda>_ k2. Some (Done RT_EOK, k2)) }"

definition rt_sem_delete :: "ptr \<Rightarrow> kernel \<Rightarrow> (rt_err outcome \<times> kernel) option" where
  "rt_sem_delete s k = ipc_delete (Sem_Q s) (OSem s) k"

definition rt_mutex_create :: "cstr \<Rightarrow> u8 \<Rightarrow> kernel \<Rightarrow> (ptr outcome \<times> kernel) option" where
  "rt_mutex_create name flag k =
     do { rt_assert (k_interrupt_nest k = 0);
          create_with OMutex RT_Object_Class_Mutex name (\<lambda>m k1.
            let k2 = rt_ipc_object_init (Mutex_Q m) k1;
                k3 = upd_mutex m (\<lambda>_. \<lparr>m_value = 1, m_original_priority = 0xff, m_hold = 0, m_owner = None\<rparr>) k2
            in Some (Done m, set_obj_flag (OMutex m) flag k3)) k }"

definition rt_mutex_delete :: "ptr \<Rightarrow> kernel \<Rightarrow> (rt_err outcome \<times> kernel) option" where
  "rt_mutex_delete m k = ipc_delete (Mutex_Q m) (OMutex m) k"

definition rt_event_create :: "cstr \<Rightarrow> u8 \<Rightarrow> kernel \<Rightarrow> (ptr outcome \<times> kernel) option" where
  "rt_event_create name flag k =
     do { rt_assert (k_interrupt_nest k = 0);
          create_with OEvent RT_Object_Class_Event name (\<lambda>e k1.
            let k2 = set_obj_flag (OEvent e) flag k1;
                k3 = rt_ipc_object_init (Event_Q e) k2
            in Some (Done e, upd_event e (\<lambda>ev. ev\<lparr>e_set := 0\<rparr>) k3)) k }"

definition rt_event_delete :: "ptr \<Rightarrow> kernel \<Rightarrow> (rt_err outcome \<times> kernel) option" where
  "rt_event_delete e k = ipc_delete (Event_Q e) (OEvent e) k"

text \<open>The words of a mailbox and the blocks of a message queue that lie in the memory \<open>b\<close> from address \<open>p\<close>.\<close>

definition pool_words :: "bytes \<Rightarrow> u32 \<Rightarrow> nat \<Rightarrow> u32 list" where
  "pool_words b p n = map (\<lambda>i. load32 (p + 4 * of_nat i) b) [0..<n]"

definition pool_blocks :: "bytes \<Rightarrow> u32 \<Rightarrow> nat \<Rightarrow> nat \<Rightarrow> u8 list" where
  "pool_blocks b p sz i = map (\<lambda>j. b (p + of_nat i * of_nat (sz + 4) + 4 + of_nat j)) [0..<sz]"

definition rt_mb_create :: "cstr \<Rightarrow> u32 \<Rightarrow> u8 \<Rightarrow> bytes \<Rightarrow> kernel \<Rightarrow> (ptr outcome \<times> kernel) option" where
  "rt_mb_create name sz flag b k =
     do { rt_assert (k_interrupt_nest k = 0);
          create_with OMailBox RT_Object_Class_MailBox name (\<lambda>m k1.
            let k2 = set_obj_flag (OMailBox m) flag k1;
                k3 = rt_ipc_object_init (Mb_Recv_Q m) k2;
                k4 = upd_mb m (\<lambda>mb. mb\<lparr>mb_size := ucast sz\<rparr>) k3
            in bind_done (rt_malloc (ucast (mb_size (k_mailboxes k4 m)) * 4) k4) (\<lambda>p k5.
                 let k6 = upd_mb m (\<lambda>mb. mb\<lparr>mb_pool_addr := p, mb_msg_pool := pool_words b p (unat (mb_size mb))\<rparr>) k5
                 in if p = 0 then bind_done (rt_object_delete (OMailBox m) k6) (\<lambda>_ k7. Some (Done 0, k7))
                    else
                      let k7 = upd_mb m (\<lambda>mb. mb\<lparr>mb_entry := 0, mb_in_offset := 0, mb_out_offset := 0\<rparr>) k6
                      in Some (Done m, rt_ipc_object_init (Mb_Send_Q m) k7))) k }"

definition rt_mb_delete :: "ptr \<Rightarrow> kernel \<Rightarrow> (rt_err outcome \<times> kernel) option" where
  "rt_mb_delete m k =
     do { rt_assert (k_interrupt_nest k = 0);
          k1 \<leftarrow> rt_ipc_list_resume_all (Mb_Recv_Q m) k;
          k2 \<leftarrow> rt_ipc_list_resume_all (Mb_Send_Q m) k1;
          bind_done (rt_free (mb_pool_addr (k_mailboxes k2 m)) k2) (\<lambda>_ k3.
            bind_done (rt_object_delete (OMailBox m) k3) (\<lambda>_ k4. Some (Done RT_EOK, k4))) }"

definition rt_mq_delete :: "ptr \<Rightarrow> kernel \<Rightarrow> (rt_err outcome \<times> kernel) option" where
  "rt_mq_delete m k =
     do { rt_assert (k_interrupt_nest k = 0);
          k1 \<leftarrow> rt_ipc_list_resume_all (Mq_Q m) k;
          bind_done (rt_free (mq_pool_addr (k_mqs k1 m)) k1) (\<lambda>_ k2.
            bind_done (rt_object_delete (OMessageQueue m) k2) (\<lambda>_ k3. Some (Done RT_EOK, k3))) }"

definition rt_mq_create :: "cstr \<Rightarrow> u32 \<Rightarrow> u32 \<Rightarrow> u8 \<Rightarrow> bytes \<Rightarrow> kernel \<Rightarrow> (ptr outcome \<times> kernel) option" where
  "rt_mq_create name msg_size max_msgs flag b k =
     do { rt_assert (k_interrupt_nest k = 0);
          create_with OMessageQueue RT_Object_Class_MessageQueue name (\<lambda>m k1.
            let k2 = set_obj_flag (OMessageQueue m) flag k1;
                k3 = rt_ipc_object_init (Mq_Q m) k2;
                sz = ucast (rt_align msg_size) :: u16; n = ucast max_msgs :: u16;
                k4 = upd_mq m (\<lambda>mq. mq\<lparr>mq_msg_size := sz, mq_max_msgs := n\<rparr>) k3
            in bind_done (rt_malloc ((ucast sz + 4) * ucast n) k4) (\<lambda>p k5.
                 let k6 = upd_mq m (\<lambda>mq. mq\<lparr>mq_pool_addr := p, mq_data := pool_blocks b p (unat sz)\<rparr>) k5
                 in if p = 0 then bind_done (rt_mq_delete m k6) (\<lambda>_ k7. Some (Done 0, k7))
                    else Some (Done m, upd_mq m (\<lambda>mq. (mq_link_free (unat n)
                           (mq\<lparr>mq_head := None, mq_tail := None, mq_free := None\<rparr>))\<lparr>mq_entry := 0\<rparr>) k6))) k }"

definition rt_mp_create :: "cstr \<Rightarrow> u32 \<Rightarrow> u32 \<Rightarrow> kernel \<Rightarrow> (ptr outcome \<times> kernel) option" where
  "rt_mp_create name block_count bsize k =
     do { rt_assert (k_interrupt_nest k = 0);
          create_with OMemPool RT_Object_Class_MemPool name (\<lambda>m k1.
            let block_size = rt_align bsize;
                k2 = upd_mp m (\<lambda>mp. mp\<lparr>mp_block_size := block_size, mp_size := (block_size + 4) * block_count\<rparr>) k1
            in bind_done (rt_malloc ((block_size + 4) * block_count) k2) (\<lambda>p k3.
                 let k4 = upd_mp m (\<lambda>mp. mp\<lparr>mp_start_address := unat p\<rparr>) k3
                 in if p = 0 then bind_done (rt_object_delete (OMemPool m) k4) (\<lambda>_ k5. Some (Done 0, k5))
                    else if unat (block_size + 4) * unat block_count \<ge> 2 ^ 32 then None
                    else do {
                      let k5 = upd_mp m (\<lambda>mp. mp\<lparr>mp_block_total_count := block_count, mp_block_free_count := block_count,
                                 mp_suspend_thread_count := 0\<rparr>) k4;
                      let k6 = upd_tlists (\<lambda>L. L(Mp_Q m := [])) k5;
                      k7 \<leftarrow> mp_format (unat p) (unat (block_size + 4)) (unat block_count) k6;
                      Some (Done m, upd_mp m (\<lambda>mp. mp\<lparr>mp_block_list := unat p\<rparr>) k7) })) k }"

definition rt_mp_delete :: "ptr \<Rightarrow> kernel \<Rightarrow> (rt_err outcome \<times> kernel) option" where
  "rt_mp_delete m k =
     do { rt_assert (k_interrupt_nest k = 0);
          k1 \<leftarrow> mp_wake_all m k;
          bind_done (rt_free (of_nat (mp_start_address (k_mempools k1 m))) k1) (\<lambda>_ k2.
            bind_done (rt_object_delete (OMemPool m) k2) (\<lambda>_ k3. Some (Done RT_EOK, k3))) }"

definition rt_timer_create :: "cstr \<Rightarrow> timeout_func \<Rightarrow> ptr \<Rightarrow> u32 \<Rightarrow> u8 \<Rightarrow> kernel \<Rightarrow> (ptr outcome \<times> kernel) option" where
  "rt_timer_create name timeout parameter time flag k =
     create_with (OTimer \<circ> Timer) RT_Object_Class_Timer name
       (\<lambda>i k1. Some (Done i, rt_timer_init_fields (Timer i) timeout parameter time flag k1)) k"

definition rt_timer_delete :: "ptr \<Rightarrow> kernel \<Rightarrow> (rt_err outcome \<times> kernel) option" where
  "rt_timer_delete i k =
     bind_done (rt_object_delete (OTimer (Timer i)) (unlink_timer (Timer i) k)) (\<lambda>_ k1. Some (Done (-RT_EOK), k1))"

definition rt_thread_create :: "u32 \<Rightarrow> cstr \<Rightarrow> ptr \<Rightarrow> ptr \<Rightarrow> u32 \<Rightarrow> u8 \<Rightarrow> u32 \<Rightarrow> kernel \<Rightarrow> (ptr outcome \<times> kernel) option" where
  "rt_thread_create texit name entry parameter stack_size priority tick k =
     create_with OThread RT_Object_Class_Thread name (\<lambda>t k1.
       bind_done (rt_malloc stack_size k1) (\<lambda>stack_start k2.
         if stack_start = 0 then bind_done (rt_object_delete (OThread t) k2) (\<lambda>_ k3. Some (Done 0, k3))
         else do { k3 \<leftarrow> rt_thread_init_fields texit t entry parameter stack_start stack_size priority tick k2;
                   Some (Done t, k3) })) k"

section \<open>The idle thread\<close>

text \<open>One round of the idle thread; \<open>cleanup\<close> runs a clean-up function of the user, given by its address,
  on a thread.\<close>

definition rt_thread_idle_excute :: "(ptr \<Rightarrow> tid \<Rightarrow> kernel \<Rightarrow> kernel option) \<Rightarrow> kernel \<Rightarrow> (unit outcome \<times> kernel) option" where
  "rt_thread_idle_excute cleanup k =
     (case k_tlists k Defunct of
        [] \<Rightarrow> Some (Done (), k)
      | t # _ \<Rightarrow> do {
          rt_assert (k_interrupt_nest k = 0);
          let k1 = upd_tlists (st_remove t) k;
          k2 \<leftarrow> (case t_cleanup (thread k1 t) of None \<Rightarrow> Some k1 | Some c \<Rightarrow> cleanup c t k1);
          if rt_object_is_systemobject (OThread t) k2 then Some (Done (), k2)
          else bind_done (rt_free (t_stack_addr (thread k2 t)) k2) (\<lambda>_. rt_object_delete (OThread t)) })"

definition rt_thread_idle_init :: "u32 \<Rightarrow> tid \<Rightarrow> ptr \<Rightarrow> u32 \<Rightarrow> u32 \<Rightarrow> kernel \<Rightarrow> kernel option" where
  "rt_thread_idle_init texit idle entry stack stack_size k =
     do { k1 \<leftarrow> rt_thread_init texit idle (map (of_nat \<circ> of_char) ''tidle'') entry 0 stack stack_size (32 - 1) 32 k;
          rt_thread_startup idle k1 }"

section \<open>The heap under its semaphore\<close>

text \<open>The heap is sound and lies above its semaphore, nobody is inside it, and no interrupt is being served:
  the state in which a thread calls the allocator.\<close>

definition heap_ready :: "kernel \<Rightarrow> bool" where
  "heap_ready k \<longleftrightarrow> heap_ok (k_heap k) \<and> 12 \<le> unat (h_size (k_heap k)) \<and> s_value (k_sems k heap_sem) = 1 \<and>
     k_tlists k (Sem_Q heap_sem) = [] \<and> k_interrupt_nest k = 0 \<and> heap_sem < unat (h_ptr (k_heap k))"

lemma bind_done_simps [simp]:
  "bind_done (Some (Done a, s)) f = f a s" "bind_done (Some (Blocked, s)) f = Some (Blocked, s)" "bind_done None f = None"
  by (simp_all add: bind_done_def)

lemma returns_bind_done:
  "returns m (\<lambda>(r, s). \<exists>a. r = Done a \<and> returns (f a s) P) \<Longrightarrow> returns (bind_done m f) P"
  by (auto simp: returns_def bind_done_def)

text \<open>Taking and releasing the semaphore around a change of the heap leaves only that change.\<close>

lemma heap_take:
  "heap_ready k \<Longrightarrow> rt_sem_take heap_sem RT_WAITING_FOREVER k = Some (Done RT_EOK, upd_sem heap_sem (\<lambda>sem. sem\<lparr>s_value := 0\<rparr>) k)"
  by (simp add: heap_ready_def sem_take_available upd_sem_def)

lemma sem_value_id: "s_value sem = v \<Longrightarrow> sem\<lparr>s_value := v\<rparr> = sem"
  by simp

lemma heap_released:
  assumes "heap_ready k"
  shows "rt_sem_release heap_sem ((upd_sem heap_sem (\<lambda>sem. sem\<lparr>s_value := 0\<rparr>) k)\<lparr>k_heap := h\<rparr>) = Some (k\<lparr>k_heap := h\<rparr>)"
    "rt_sem_release heap_sem (upd_sem heap_sem (\<lambda>sem. sem\<lparr>s_value := 0\<rparr>) k) = Some k"
proof -
  have "s_value (k_sems k heap_sem) = 1" "k_tlists k (Sem_Q heap_sem) = []" using assms by (simp_all add: heap_ready_def)
  then have "(k_sems k heap_sem)\<lparr>s_value := 1\<rparr> = k_sems k heap_sem" by (intro sem_value_id)
  then show "rt_sem_release heap_sem ((upd_sem heap_sem (\<lambda>sem. sem\<lparr>s_value := 0\<rparr>) k)\<lparr>k_heap := h\<rparr>) = Some (k\<lparr>k_heap := h\<rparr>)"
    "rt_sem_release heap_sem (upd_sem heap_sem (\<lambda>sem. sem\<lparr>s_value := 0\<rparr>) k) = Some k"
    using \<open>k_tlists k (Sem_Q heap_sem) = []\<close> by (simp_all add: rt_sem_release_def upd_sem_def fun_upd_idem)
qed

lemma upd_sem_heap [simp]: "k_heap (upd_sem s f k) = k_heap k" "k_interrupt_nest (upd_sem s f k) = k_interrupt_nest k"
  by (simp_all add: upd_sem_def)

text \<open>What a successful allocation of \<open>n\<close> bytes at \<open>p\<close> does to the heap: the area \<open>[a, b)\<close> behind \<^verbatim>\<open>heap_ptr\<close>
  is new, apart from all others, aligned and large enough.\<close>

definition grants :: "u32 \<Rightarrow> u32 \<Rightarrow> nat \<Rightarrow> nat \<Rightarrow> heap \<Rightarrow> heap \<Rightarrow> bool" where
  "grants n p a b h h' \<longleftrightarrow> heap_ok h' \<and> h_ptr h' = h_ptr h \<and> h_end h' = h_end h \<and> h_size h' = h_size h \<and>
     unat p = unat (h_ptr h) + a \<and> 4 dvd unat p \<and> 0 < a \<and> a + unat n \<le> b \<and> b \<le> unat (h_end h) \<and>
     heap_live h' = insert (a, b) (heap_live h) \<and> (a, b) \<notin> heap_live h \<and> (\<forall>A\<in>heap_live h. apart (a, b) A)"

lemma allocates_grants:
  assumes ok: "heap_ok h" and al: "allocates x sz h (heap_blocks h) h'" and n: "unat n \<le> unat sz"
  shows "grants n (h_ptr h + x + 12) (unat x + 12) (unat (hm_next (h_mem h' x))) h h'"
proof -
  have inv: "hinv h (heap_blocks h)" using ok by (simp add: heap_ok_def)
  note live = allocates_live[OF inv al]
  from al obtain A B where bs: "heap_blocks h = A @ (x, False) # B" and h': "hinv h' (taken x sz h A B)" "h_size h' = h_size h"
    "h_ptr h' = h_ptr h" "h_end h' = h_end h" "unat x + 12 + unat sz \<le> unat (hm_next (h_mem h' x))"
    "unat (hm_next (h_mem h' x)) \<le> unat (hm_next (h_mem h x))" by (auto simp: allocates_def)
  have rep: "hrep (h_mem h) 0 0 (A @ (x, False) # B) (h_end h)" and lim: "limits_ok h" using inv bs by (simp_all add: hinv_def)
  note mid = hrep_middle[OF rep]
  have top: "unat x + 12 + unat sz \<le> unat (h_end h)" "unat (hm_next (h_mem h' x)) \<le> unat (h_end h)"
    using h' mid(8) by linarith+
  have "unat (h_ptr h) + unat (h_end h) < 2 ^ 32" using lim by (simp add: limits_end) (simp add: limits_ok_def)
  then have p: "unat (h_ptr h + x + 12) = unat (h_ptr h) + (unat x + 12)" using top by (simp add: unat_word_ariths)
  have "4 dvd unat (h_ptr h)" using lim by (simp add: limits_ok_def)
  then have d: "4 dvd unat (h_ptr h + x + 12)" using mid(5) unfolding p by (intro dvd_add) simp_all
  have "apart (area h' x) Q" if "Q \<in> heap_live h" for Q
    using heap.live_apart[OF live(1), of "area h' x" Q] live(4,5) that by auto
  then show ?thesis using live h' p d top n by (auto simp: grants_def area_def)
qed

lemma malloc_size_ok:
  assumes "unat n + 3 < 2 ^ 32" "\<not> rt_align n > h_size h" "12 \<le> unat (h_size h)"
  shows "request_ok (malloc_size n) h" "unat n \<le> unat (malloc_size n)"
  using rt_align_bounds[OF assms(1)] assms(2,3) by (auto simp: request_ok_def malloc_size_def word_le_nat_alt word_less_nat_alt)

lemma malloc_locked_returns:
  assumes rdy: "heap_ready k" and req: "request_ok sz (k_heap k)" and n: "unat n \<le> unat sz"
  shows "returns (rt_malloc_locked sz (upd_sem heap_sem (\<lambda>sem. sem\<lparr>s_value := 0\<rparr>) k)) (\<lambda>(r, k'). \<exists>p. r = Done p \<and>
     (if p = 0 then k' = k \<and> (\<forall>y. (y, False) \<in> set (heap_blocks (k_heap k)) \<longrightarrow> h_lfree (k_heap k) \<le> y \<longrightarrow>
          unat (hm_next (h_mem (k_heap k) y)) < unat y + 12 + unat sz \<or> unat (h_size (k_heap k)) \<le> unat y + unat sz)
      else \<exists>h' a b. k' = k\<lparr>k_heap := h'\<rparr> \<and> grants n p a b (k_heap k) h' \<and> grants sz p a b (k_heap k) h'))"
proof -
  let ?h = "k_heap k"
  have ok: "heap_ok ?h" using rdy by (simp add: heap_ready_def)
  then have inv: "hinv ?h (heap_blocks ?h)" by (simp add: heap_ok_def)
  obtain r h' where ml: "malloc_loop sz (h_lfree ?h) ?h = Some (r, h')"
    and r: "case r of Some x \<Rightarrow> allocates x sz ?h (heap_blocks ?h) h'
      | None \<Rightarrow> h' = ?h \<and> (\<forall>y. (y, False) \<in> set (heap_blocks ?h) \<longrightarrow> h_lfree ?h \<le> y \<longrightarrow>
          unat (hm_next (h_mem ?h y)) < unat y + 12 + unat sz \<or> unat (h_size ?h) \<le> unat y + unat sz)"
    using heap_search_returns[OF inv req] by (auto simp: returns_def)
  show ?thesis
  proof (cases r)
    case None
    then show ?thesis using r by (simp add: rt_malloc_locked_def ml heap_released[OF rdy])
  next
    case (Some x)
    then have al: "allocates x sz ?h (heap_blocks ?h) h'" using r by simp
    let ?p = "h_ptr ?h + x + 12" let ?b = "unat (hm_next (h_mem h' x))"
    have g: "grants n ?p (unat x + 12) ?b ?h h'" "grants sz ?p (unat x + 12) ?b ?h h'"
      using allocates_grants[OF ok al] n by simp_all
    note gd = g(2)[unfolded grants_def]
    have lim: "limits_ok ?h" using inv by (simp add: hinv_def)
    have e: "unat (h_ptr ?h + h_end ?h) = unat (h_ptr ?h) + unat (h_end ?h)"
      using lim by (simp add: unat_word_ariths limits_end) (simp add: limits_ok_def)
    have "unat (?p + sz) = unat ?p + unat sz" using gd e unsigned_less[of "h_ptr ?h + h_end ?h", where 'a = nat]
      by (simp add: unat_word_ariths)
    then have a1: "?p + sz \<le> h_ptr ?h + h_end ?h" using gd e by (simp add: word_le_nat_alt)
    have a2: "?p mod 4 = 0" using gd by (auto simp: word_unat_eq_iff unat_mod)
    have "unat (h_ptr ?h + x) + 12 = unat ?p" using gd unsigned_less[of ?p, where 'a = nat] by (simp add: unat_word_ariths)
    moreover have "4 dvd unat ?p" using gd by blast
    ultimately have "4 dvd unat (h_ptr ?h + x)" by presburger
    then have a3: "(h_ptr ?h + x) AND 3 = 0" by (rule and_3_aligned)
    have nz: "?p \<noteq> 0" using gd by (intro unat_neq) simp
    have "rt_malloc_locked sz (upd_sem heap_sem (\<lambda>sem. sem\<lparr>s_value := 0\<rparr>) k) = Some (Done ?p, k\<lparr>k_heap := h'\<rparr>)"
      using Some a1 a2 a3 gd by (simp add: rt_malloc_locked_def ml heap_released[OF rdy] Let_def)
    then show ?thesis using nz g by auto
  qed
qed

lemma malloc_returns:
  assumes rdy: "heap_ready k" and n: "unat n + 3 < 2 ^ 32"
  shows "returns (rt_malloc n k) (\<lambda>(r, k'). \<exists>p. r = Done p \<and>
     (if p = 0 then k' = k else \<exists>h' a b. k' = k\<lparr>k_heap := h'\<rparr> \<and> grants n p a b (k_heap k) h'))"
proof (cases "n = 0 \<or> rt_align n > h_size (k_heap k)")
  case True
  then show ?thesis using rdy by (auto simp: rt_malloc_def heap_ready_def)
next
  case False
  then have fit: "\<not> rt_align n > h_size (k_heap k)" by simp
  have "12 \<le> unat (h_size (k_heap k))" using rdy by (simp add: heap_ready_def)
  note ok = malloc_size_ok[OF n fit this]
  have "rt_malloc n k = rt_malloc_locked (malloc_size n) (upd_sem heap_sem (\<lambda>sem. sem\<lparr>s_value := 0\<rparr>) k)"
    using False rdy by (simp add: rt_malloc_def heap_take heap_ready_def)
  then show ?thesis by (simp only:) (rule returns_mono[OF malloc_locked_returns[OF rdy ok]], auto split: if_splits)
qed

text \<open>The area of a block that is in use, as an address.\<close>

lemma live_address:
  assumes "heap_ok h" "(a, b) \<in> heap_live h" "unat p = unat (h_ptr h) + a" "a < b"
  shows "p AND 3 = 0" "p \<ge> h_ptr h" "p < h_ptr h + h_end h" "p - 12 - h_ptr h = of_nat a - 12" "p \<noteq> 0" "12 \<le> a" "a \<le> b"
    "b \<le> unat (h_end h)" "unat (h_ptr h) + unat (h_end h) < 2 ^ 32" "4 dvd unat p"
proof -
  from live_block[OF assms(1,2)] obtain x where x: "(x, True) \<in> set (heap_blocks h)" "area h x = (a, b)" "of_nat a - 12 = x" .
  have inv: "hinv h (heap_blocks h)" using assms(1) by (simp add: heap_ok_def)
  then have lim: "limits_ok h" by (simp add: hinv_def)
  obtain A B where bs: "heap_blocks h = A @ (x, True) # B" using x(1) by (meson split_list)
  note mid = hrep_middle[of "h_mem h" 0 0 A x True B "h_end h"]
  have rep: "hrep (h_mem h) 0 0 (A @ (x, True) # B) (h_end h)" using inv bs by (simp add: hinv_def)
  have ab: "a = unat x + 12" "b = unat (hm_next (h_mem h x))" using x(2) by (simp_all add: area_def)
  have le: "a \<le> b" "b \<le> unat (h_end h)" using mid(6,8)[OF rep] ab by simp_all
  show "12 \<le> a" "a \<le> b" "b \<le> unat (h_end h)" using ab le by simp_all
  show top: "unat (h_ptr h) + unat (h_end h) < 2 ^ 32" using lim by (simp add: limits_end) (simp add: limits_ok_def)
  have "4 dvd unat (h_ptr h)" using lim by (simp add: limits_ok_def)
  then show d: "4 dvd unat p" using assms(3) mid(5)[OF rep] ab by (simp add: dvd_add)
  then show "p AND 3 = 0" by (rule and_3_aligned)
  show "p \<ge> h_ptr h" using assms(3) by (simp add: word_le_nat_alt)
  have e: "unat (h_ptr h + h_end h) = unat (h_ptr h) + unat (h_end h)" using top by (simp add: unat_word_ariths)
  show "p < h_ptr h + h_end h" using le assms(3,4) e by (simp add: word_less_nat_alt)
  have "p = h_ptr h + of_nat a" using assms(3) by (metis of_nat_add of_nat_unat ucast_id)
  then show "p - 12 - h_ptr h = of_nat a - 12" by simp
  show "p \<noteq> 0" using assms(3) ab by (intro unat_neq) simp
qed

lemma heap_ready_upd [simp]:
  "heap_ready k \<Longrightarrow> heap_ok h' \<Longrightarrow> h_size h' = h_size (k_heap k) \<Longrightarrow> h_ptr h' = h_ptr (k_heap k) \<Longrightarrow> heap_ready (k\<lparr>k_heap := h'\<rparr>)"
  by (simp add: heap_ready_def)

definition frees :: "nat \<Rightarrow> nat \<Rightarrow> heap \<Rightarrow> heap \<Rightarrow> bool" where
  "frees a b h h' \<longleftrightarrow> heap_ok h' \<and> h_ptr h' = h_ptr h \<and> h_end h' = h_end h \<and> h_size h' = h_size h \<and>
     heap_live h' = heap_live h - {(a, b)}"

lemma free_returns:
  assumes rdy: "heap_ready k" and ab: "(a, b) \<in> heap_live (k_heap k)" "a < b" and p: "unat p = unat (h_ptr (k_heap k)) + a"
  shows "returns (rt_free p k) (\<lambda>(r, k'). r = Done () \<and> (\<exists>h'. k' = k\<lparr>k_heap := h'\<rparr> \<and> frees a b (k_heap k) h'))"
proof -
  let ?h = "k_heap k"
  have ok: "heap_ok ?h" "k_interrupt_nest k = 0" using rdy by (simp_all add: heap_ready_def)
  note ad = live_address[OF ok(1) ab(1) p ab(2)]
  from live_block[OF ok(1) ab(1)] obtain x where x: "(x, True) \<in> set (heap_blocks ?h)" "area ?h x = (a, b)" "of_nat a - 12 = x" .
  have "hinv ?h (heap_blocks ?h)" using ok(1) by (simp add: heap_ok_def)
  from release_live[OF this x(1)] obtain h' where rel: "heap_release x ?h = Some h'" and h': "frees a b ?h h'"
    unfolding returns_def frees_def x(2) by blast
  have "rt_free p k = Some (Done (), k\<lparr>k_heap := h'\<rparr>)"
    using ok ad x(3) by (simp add: rt_free_def heap_take[OF rdy] rt_free_locked_def rel heap_released[OF rdy])
  then show ?thesis using h' by auto
qed

section \<open>Allocation and release together\<close>

lemma grants_ready: "heap_ready k \<Longrightarrow> grants n p a b (k_heap k) h' \<Longrightarrow> heap_ready (k\<lparr>k_heap := h'\<rparr>)"
  by (simp add: grants_def)

lemma malloc_complete:
  assumes rdy: "heap_ready k" and n: "unat n + 3 < 2 ^ 32"
  shows "returns (rt_malloc n k) (\<lambda>(r, k'). \<exists>p. r = Done p \<and> heap_ready k' \<and>
     (if p = 0 then k' = k \<and> (n \<noteq> 0 \<longrightarrow> rt_align n \<le> h_size (k_heap k) \<longrightarrow>
          (\<forall>y. (y, False) \<in> set (heap_blocks (k_heap k)) \<longrightarrow> h_lfree (k_heap k) \<le> y \<longrightarrow>
            unat (hm_next (h_mem (k_heap k) y)) < unat y + 12 + unat (malloc_size n) \<or>
            unat (h_size (k_heap k)) \<le> unat y + unat (malloc_size n)))
      else \<exists>h' a b. k' = k\<lparr>k_heap := h'\<rparr> \<and> unat p = unat (h_ptr (k_heap k)) + a \<and> 4 dvd unat p \<and> a + unat n \<le> b \<and>
        b \<le> unat (h_end (k_heap k)) \<and> heap_live h' = insert (a, b) (heap_live (k_heap k)) \<and>
        (\<forall>A\<in>heap_live (k_heap k). apart (a, b) A)))"
proof (cases "n = 0 \<or> rt_align n > h_size (k_heap k)")
  case True
  then have "rt_malloc n k = Some (Done 0, k)" using rdy by (auto simp: rt_malloc_def heap_ready_def)
  then show ?thesis using True rdy by (auto simp: not_le)
next
  case False
  then have fit: "\<not> rt_align n > h_size (k_heap k)" by simp
  have "12 \<le> unat (h_size (k_heap k))" using rdy by (simp add: heap_ready_def)
  note ok = malloc_size_ok[OF n fit this]
  have "rt_malloc n k = rt_malloc_locked (malloc_size n) (upd_sem heap_sem (\<lambda>sem. sem\<lparr>s_value := 0\<rparr>) k)"
    using False rdy by (simp add: rt_malloc_def heap_take heap_ready_def)
  then obtain p k' where eq: "rt_malloc n k = Some (Done p, k')" and
    p: "if p = 0 then k' = k \<and> (\<forall>y. (y, False) \<in> set (heap_blocks (k_heap k)) \<longrightarrow> h_lfree (k_heap k) \<le> y \<longrightarrow>
          unat (hm_next (h_mem (k_heap k) y)) < unat y + 12 + unat (malloc_size n) \<or>
          unat (h_size (k_heap k)) \<le> unat y + unat (malloc_size n))
      else \<exists>h' a b. k' = k\<lparr>k_heap := h'\<rparr> \<and> grants n p a b (k_heap k) h' \<and> grants (malloc_size n) p a b (k_heap k) h'"
    using malloc_locked_returns[OF rdy ok] by (auto simp: returns_def)
  show ?thesis
  proof (cases "p = 0")
    case False
    then obtain h' a b where h': "k' = k\<lparr>k_heap := h'\<rparr>" "grants n p a b (k_heap k) h'" using p by auto
    then show ?thesis using False grants_ready[OF rdy h'(2)] unfolding eq returns_Some prod.case
      by (intro exI[of _ p]) (auto simp: grants_def)
  qed (use p rdy in \<open>simp add: eq\<close>)
qed

lemma malloc_free:
  assumes rdy: "heap_ready k" and n: "unat n + 3 < 2 ^ 32"
  shows "returns (rt_malloc n k) (\<lambda>(r, k1). \<exists>p. r = Done p \<and> returns (rt_free p k1) (\<lambda>(r, k2). r = Done () \<and>
     heap_ready k2 \<and> heap_live (k_heap k2) = heap_live (k_heap k)))"
proof -
  obtain p k1 where ml: "rt_malloc n k = Some (Done p, k1)"
    and k1: "if p = 0 then k1 = k else \<exists>h' a b. k1 = k\<lparr>k_heap := h'\<rparr> \<and> grants n p a b (k_heap k) h'"
    using malloc_returns[OF rdy n] by (auto simp: returns_def)
  have irq: "k_interrupt_nest k = 0" using rdy by (simp add: heap_ready_def)
  have "returns (rt_free p k1) (\<lambda>(r, k2). r = Done () \<and> heap_ready k2 \<and> heap_live (k_heap k2) = heap_live (k_heap k))"
  proof (cases "p = 0")
    case True
    then show ?thesis using k1 irq rdy by (simp add: rt_free_def)
  next
    case False
    then obtain h' a b where h': "k1 = k\<lparr>k_heap := h'\<rparr>" "grants n p a b (k_heap k) h'" using k1 by auto
    have "n \<noteq> 0" using ml False irq by (auto simp: rt_malloc_def)
    then have "0 < unat n" by (simp add: unat_gt_0)
    then have "a < b" using h'(2) unfolding grants_def by linarith
    then have "returns (rt_free p k1) (\<lambda>(r, k'). r = Done () \<and> (\<exists>h''. k' = k1\<lparr>k_heap := h''\<rparr> \<and> frees a b (k_heap k1) h''))"
      using h' grants_ready[OF rdy h'(2)] by (intro free_returns) (auto simp: grants_def)
    then show ?thesis using h' rdy by (auto simp: frees_def grants_def elim!: returns_mono)
  qed
  then show ?thesis by (simp add: ml)
qed

section \<open>Changing the size of a block\<close>

lemma split_live:
  assumes ok: "heap_ok h" and ab: "(a, b) \<in> heap_live h" and n: "unat n + 24 < b - a" "4 dvd unat n"
  shows "returns (realloc_split (of_nat a - 12) n h) (\<lambda>h'. heap_ok h' \<and> h_ptr h' = h_ptr h \<and> h_end h' = h_end h \<and>
     h_size h' = h_size h \<and> heap_live h' = insert (a, a + unat n) (heap_live h - {(a, b)}))"
proof -
  from live_block[OF ok ab] obtain x where x: "(x, True) \<in> set (heap_blocks h)" "area h x = (a, b)" "of_nat a - 12 = x" .
  have inv: "hinv h (heap_blocks h)" using ok by (simp add: heap_ok_def)
  obtain A B where bs: "heap_blocks h = A @ (x, True) # B" using x(1) by (meson split_list)
  have eq: "a = unat x + 12" "b = unat (hm_next (h_mem h x))" using x(2) by (simp_all add: area_def)
  have ns: "unat n + 24 < unat (hm_next (h_mem h x)) - unat x - 12" using n(1) eq by simp
  have rep: "hrep (h_mem h) 0 0 (A @ (x, True) # B) (h_end h)" using inv bs by (simp add: hinv_def)
  note mid = hrep_middle[OF rep]
  have others: "heap_live h - {(a, b)} = area h ` {y. (y, True) \<in> set (A @ B)}"
  proof -
    have "x \<noteq> y" if "(y, True) \<in> set (A @ B)" for y
      using that mid(9)[of y True] mid(10)[of y True] mid(6) by auto
    then have "(a, b) \<notin> area h ` {y. (y, True) \<in> set (A @ B)}" unfolding x(2)[symmetric] using area_inj by fastforce
    moreover have "heap_live h = insert (a, b) (area h ` {y. (y, True) \<in> set (A @ B)})"
      unfolding heap_live_inv[OF inv] bs x(2)[symmetric] by auto
    ultimately show ?thesis by simp
  qed
  show ?thesis
    unfolding x(3)
  proof (rule returns_mono[OF realloc_split_returns[OF inv[unfolded bs] ns n(2)]], elim conjE)
    fix h' assume h': "hinv h' (A @ (x, True) # (x + 12 + n, False) # merge_next B)" "h_ptr h' = h_ptr h" "h_end h' = h_end h"
      "h_size h' = h_size h" "unat (hm_next (h_mem h' x)) = unat x + 12 + unat n"
      "\<forall>y. (y, True) \<in> set (A @ B) \<longrightarrow> hm_next (h_mem h' y) = hm_next (h_mem h y)"
    have mem: "(y, True) \<in> set (A @ (x, True) # (x + 12 + n, False) # merge_next B) \<longleftrightarrow> y = x \<or> (y, True) \<in> set (A @ B)" for y
      by (cases B rule: merge_next.cases) auto
    have "area h' y = area h y" if "(y, True) \<in> set (A @ B)" for y using h'(6) that by (auto simp: area_def)
    then have "area h' ` {y. (y, True) \<in> set (A @ B)} = area h ` {y. (y, True) \<in> set (A @ B)}" by (intro image_cong) auto
    moreover have "{y. y = x \<or> (y, True) \<in> set (A @ B)} = insert x {y. (y, True) \<in> set (A @ B)}" by auto
    ultimately have "heap_live h' = insert (area h' x) (area h ` {y. (y, True) \<in> set (A @ B)})"
      unfolding heap_live_inv[OF h'(1)] mem by (simp del: set_append)
    moreover have "area h' x = (a, a + unat n)" using h'(5) eq by (simp add: area_def)
    ultimately show "heap_ok h' \<and> h_ptr h' = h_ptr h \<and> h_end h' = h_end h \<and>
       h_size h' = h_size h \<and> heap_live h' = insert (a, a + unat n) (heap_live h - {(a, b)})"
      using h' others by (auto simp: heap_ok_iff)
  qed
qed

text \<open>The block of area \<open>(a, b)\<close> at \<open>p\<close> has become the block of area \<open>(a', b')\<close> at \<open>q\<close>, for \<open>n\<close> bytes: its data are
  kept, and no other block and no byte outside the new one is touched.\<close>

definition resized :: "u32 \<Rightarrow> u32 \<Rightarrow> nat \<times> nat \<Rightarrow> u32 \<Rightarrow> nat \<times> nat \<Rightarrow> bytes \<Rightarrow> heap \<Rightarrow> bytes \<Rightarrow> heap \<Rightarrow> bool" where
  "resized n p A q A' m h m' h' \<longleftrightarrow> heap_ok h' \<and> h_ptr h' = h_ptr h \<and> h_end h' = h_end h \<and> h_size h' = h_size h \<and>
     unat q = unat (h_ptr h) + fst A' \<and> fst A' + unat n \<le> snd A' \<and> heap_live h' = insert A' (heap_live h - {A}) \<and>
     (\<forall>B\<in>heap_live h - {A}. apart A' B) \<and>
     (\<forall>i<min (snd A - fst A) (unat n). m' (q + of_nat i) = m (p + of_nat i)) \<and>
     (\<forall>x. \<not> in_area q (snd A' - fst A') x \<longrightarrow> m' x = m x)"

lemma resized_mono: "resized n' p A q A' m h m' h' \<Longrightarrow> unat n \<le> unat n' \<Longrightarrow> resized n p A q A' m h m' h'"
  by (simp add: resized_def)

lemma copy_safe:
  assumes "unat q = base + a'" "unat p = base + a" "apart (a', b') (a, b)" "a' + n \<le> b'" "a + n \<le> b"
    "base + b \<le> 2 ^ 32" "base + b' \<le> 2 ^ 32"
  shows "up_safe q p n"
proof (cases "p \<le> q")
  case True
  then have "unat (q - p) = a' - a" using assms(1,2) by (simp add: unat_sub)
  then show ?thesis using assms True by (auto simp: up_safe_def apart_def word_le_nat_alt word_unat_eq_iff)
next
  case False
  then have le: "q \<le> p" by simp
  then have d: "a' < a" using assms(1,2) False by (auto simp: word_le_nat_alt)
  then have "unat (q - p) = 2 ^ 32 - (a - a')" using assms(1,2) by (simp add: unat_sub_if')
  then show ?thesis using assms d by (auto simp: up_safe_def apart_def)
qed

lemma copied_bytes:
  assumes "n \<le> 2 ^ 32" "up_safe q p n" "n \<le> c"
  shows "i < n \<Longrightarrow> rt_memcpy q p n m (q + of_nat i) = m (p + of_nat i)"
    "\<not> in_area q c x \<Longrightarrow> rt_memcpy q p n m x = m x"
  using assms by (auto simp: rt_memcpy_moved moved_def in_area_def take_bit_nat_eq_self unat_of_nat)

lemma move_resizes:
  assumes g: "grants n q a' b' h h1" and f: "frees a b h1 h2" and ab: "(a, b) \<in> heap_live h" "b \<le> unat (h_end h)"
    and p: "unat p = unat (h_ptr h) + a" and top: "unat (h_ptr h) + unat (h_end h) < 2 ^ 32" and le: "a \<le> b"
  shows "resized n p (a, b) q (a', b') m h (rt_memcpy q p (min (b - a) (unat n)) m) h2"
proof -
  let ?c = "min (b - a) (unat n)"
  note gd = g[unfolded grants_def] and fd = f[unfolded frees_def]
  have ap: "apart (a', b') (a, b)" "(a, b) \<noteq> (a', b')" using gd ab(1) by auto
  have ge: "a' + ?c \<le> b'" "a + ?c \<le> b" "unat (h_ptr h) + b' \<le> 2 ^ 32" "unat (h_ptr h) + b \<le> 2 ^ 32" using gd le ab(2) top by auto
  have safe: "up_safe q p ?c" by (rule copy_safe[OF _ p ap(1) ge(1,2,4,3)]) (use gd in simp)
  have small: "?c \<le> 2 ^ 32" "?c \<le> b' - a'" using unsigned_less[of n, where 'a = nat] gd by (simp, linarith)
  have "heap_live h2 = insert (a', b') (heap_live h - {(a, b)})" using gd fd ap(2) by auto
  then show ?thesis
    unfolding resized_def fst_conv snd_conv using gd fd copied_bytes[OF small(1) safe small(2)] by simp
qed

lemma block_size_word:
  assumes ok: "heap_ok h" and ab: "(a, b) \<in> heap_live h" and x: "x = of_nat a - 12"
  shows "unat (hm_next (h_mem h x) - x - 12) = b - a" "a \<le> b"
proof -
  from live_block[OF ok ab] obtain y where y: "(y, True) \<in> set (heap_blocks h)" "area h y = (a, b)" "of_nat a - 12 = y" .
  have rep: "hrep (h_mem h) 0 0 (heap_blocks h) (h_end h)" using ok by (simp add: heap_ok_def hinv_def)
  obtain A B where bs: "heap_blocks h = A @ (y, True) # B" using y(1) by (meson split_list)
  have "unat y + 12 \<le> unat (hm_next (h_mem h y))" using hrep_middle(6)[OF rep[unfolded bs]] .
  then show "unat (hm_next (h_mem h x) - x - 12) = b - a" "a \<le> b"
    using data_size[of y "hm_next (h_mem h y)"] y(2,3) x by (auto simp: area_def diff_diff_eq)
qed

lemma realloc_move_returns:
  assumes rdy: "heap_ready k" and ab: "(a, b) \<in> heap_live (k_heap k)" "a < b" and p: "unat p = unat (h_ptr (k_heap k)) + a"
    and n: "unat n + 3 < 2 ^ 32" and sz: "unat sz = b - a"
  shows "returns (realloc_move p n sz (m, k)) (\<lambda>(r, m', k'). \<exists>q h'. r = Done q \<and> k' = k\<lparr>k_heap := h'\<rparr> \<and>
     (if q = 0 then m' = m \<and> h' = k_heap k else \<exists>A. resized n p (a, b) q A m (k_heap k) m' h'))"
proof -
  let ?h = "k_heap k"
  have ok: "heap_ok ?h" using rdy by (simp add: heap_ready_def)
  note ad = live_address[OF ok ab(1) p ab(2)]
  obtain q k1 where ml: "rt_malloc n k = Some (Done q, k1)"
    and k1: "if q = 0 then k1 = k else \<exists>h' a b. k1 = k\<lparr>k_heap := h'\<rparr> \<and> grants n q a b ?h h'"
    using malloc_returns[OF rdy n] by (auto simp: returns_def)
  show ?thesis
  proof (cases "q = 0")
    case True
    then show ?thesis using ml k1 by (auto simp: realloc_move_def on_kernel_def intro: exI[of _ ?h])
  next
    case False
    then obtain h1 a' b' where h1: "k1 = k\<lparr>k_heap := h1\<rparr>" "grants n q a' b' ?h h1" using k1 by auto
    have r1: "heap_ready k1" "(a, b) \<in> heap_live (k_heap k1)" "unat p = unat (h_ptr (k_heap k1)) + a"
      using h1 rdy ab p by (auto simp: grants_def)
    obtain h2 where fr: "rt_free p k1 = Some (Done (), k1\<lparr>k_heap := h2\<rparr>)" and f: "frees a b h1 h2"
      using free_returns[OF r1(1,2) ab(2) r1(3)] h1 by (auto simp: returns_def)
    have "unat (if sz < n then sz else n) = min (b - a) (unat n)" using sz by (simp add: word_less_nat_alt min_def)
    then have "realloc_move p n sz (m, k) = Some (Done q, rt_memcpy q p (min (b - a) (unat n)) m, k\<lparr>k_heap := h2\<rparr>)"
      using False ml fr h1(1) by (simp add: realloc_move_def on_kernel_def)
    then show ?thesis using False move_resizes[OF h1(2) f ab(1) ad(8) p ad(9,7)] by auto
  qed
qed

lemma realloc_locked_returns:
  assumes rdy: "heap_ready k" and ab: "(a, b) \<in> heap_live (k_heap k)" "a < b" and p: "unat p = unat (h_ptr (k_heap k)) + a"
    and n: "unat n \<le> unat (h_size (k_heap k))" "4 dvd unat n"
  shows "returns (rt_realloc_locked p n (m, upd_sem heap_sem (\<lambda>sem. sem\<lparr>s_value := 0\<rparr>) k)) (\<lambda>(r, m', k'). \<exists>q h'. r = Done q \<and>
     k' = k\<lparr>k_heap := h'\<rparr> \<and> (if q = 0 then m' = m \<and> h' = k_heap k else \<exists>A. resized n p (a, b) q A m (k_heap k) m' h'))"
proof -
  let ?h = "k_heap k" let ?x = "of_nat a - 12 :: u32" let ?sz = "hm_next (h_mem ?h ?x) - ?x - 12"
  have ok: "heap_ok ?h" using rdy by (simp add: heap_ready_def)
  note ad = live_address[OF ok ab(1) p ab(2)]
  have sz: "unat ?sz = b - a" using block_size_word[OF ok ab(1) refl] by simp
  have lim: "unat (h_size ?h) + 24 < 2 ^ 32" using ok by (simp add: heap_ok_def hinv_def limits_ok_def)
  have in_heap: "\<not> (p < h_ptr ?h \<or> p \<ge> h_ptr ?h + h_end ?h)" using ad by auto
  have n24: "unat (n + 12 + 12) = unat n + 24" using lim n(1) by (simp add: unat_word_ariths)
  have stay: "resized n p (a, b) p (a, c) m ?h m h'" if "heap_ok h'" "h_ptr h' = h_ptr ?h" "h_end h' = h_end ?h" "h_size h' = h_size ?h"
    "heap_live h' = insert (a, c) (heap_live ?h - {(a, b)})" "a + unat n \<le> c" "c \<le> b" for h' c
  proof -
    have "apart (a, c) A" if "A \<in> heap_live ?h - {(a, b)}" for A
      using heap.live_apart[OF ok ab(1), of A] that \<open>c \<le> b\<close> by (auto simp: apart_def)
    then show ?thesis unfolding resized_def using that p by simp
  qed
  let ?k = "upd_sem heap_sem (\<lambda>sem. sem\<lparr>s_value := 0\<rparr>) k"
  have rel: "on_kernel (release_and y) (m, ?k) = Some (Done y, m, k)" for y
    by (simp add: on_kernel_def release_and_def heap_released[OF rdy])
  have "rt_realloc_locked p n (m, ?k) = (if ?sz = n then on_kernel (release_and p) (m, ?k) else if n + 12 + 12 < ?sz then
       do { h1 \<leftarrow> realloc_split ?x n ?h; on_kernel (release_and p) (m, ?k\<lparr>k_heap := h1\<rparr>) }
     else bind_done (on_kernel (release_and ()) (m, ?k)) (\<lambda>_. realloc_move p n ?sz))"
    unfolding rt_realloc_locked_def Let_def snd_conv fst_conv upd_sem_heap ad(4) by (simp only: in_heap if_False)
  note code = this[unfolded rel bind_done_simps]
  consider (same) "?sz = n" | (shrink) "?sz \<noteq> n" "n + 12 + 12 < ?sz" | (move) "?sz \<noteq> n" "\<not> n + 12 + 12 < ?sz" by blast
  then show ?thesis
  proof cases
    case same
    then have "resized n p (a, b) p (a, b) m ?h m ?h" using ok ab sz by (intro stay) auto
    moreover have "rt_realloc_locked p n (m, upd_sem heap_sem (\<lambda>sem. sem\<lparr>s_value := 0\<rparr>) k) = Some (Done p, m, k)"
      unfolding code by (simp only: same refl if_True)
    ultimately show ?thesis using ad(5) by (simp, intro exI[of _ ?h]) auto
  next
    case shrink
    then have lt: "unat n + 24 < b - a" using sz n24 by (simp only: word_less_nat_alt)
    obtain h' where sp: "realloc_split ?x n ?h = Some h'" and h': "heap_ok h'" "h_ptr h' = h_ptr ?h" "h_end h' = h_end ?h"
       "h_size h' = h_size ?h" "heap_live h' = insert (a, a + unat n) (heap_live ?h - {(a, b)})"
      using split_live[OF ok ab(1) lt n(2)] by (auto simp: returns_def)
    have "resized n p (a, b) p (a, a + unat n) m ?h m h'" using h' lt by (intro stay) auto
    moreover have "rt_realloc_locked p n (m, upd_sem heap_sem (\<lambda>sem. sem\<lparr>s_value := 0\<rparr>) k) = Some (Done p, m, k\<lparr>k_heap := h'\<rparr>)"
      unfolding code sp by (simp only: shrink if_True if_False bind.bind_lunit on_kernel_def release_and_def heap_released[OF rdy]
         fst_conv snd_conv prod.case)
    ultimately show ?thesis using ad(5) by (simp, intro exI[of _ h']) auto
  next
    case move
    have "rt_realloc_locked p n (m, upd_sem heap_sem (\<lambda>sem. sem\<lparr>s_value := 0\<rparr>) k) = realloc_move p n ?sz (m, k)"
      unfolding code by (simp only: move if_False)
    moreover have "unat n + 3 < 2 ^ 32" using n lim by simp
    ultimately show ?thesis using realloc_move_returns[OF rdy ab p _ sz] by simp
  qed
qed

lemma realloc_returns:
  assumes rdy: "heap_ready k" and ab: "(a, b) \<in> heap_live (k_heap k)" "a < b" and p: "unat p = unat (h_ptr (k_heap k)) + a"
    and n: "unat n + 3 < 2 ^ 32"
  shows "returns (rt_realloc p n (m, k)) (\<lambda>(r, m', k'). \<exists>q h'. r = Done q \<and> k' = k\<lparr>k_heap := h'\<rparr> \<and>
     (if q = 0 then m' = m \<and> h' = k_heap k else \<exists>A. resized n p (a, b) q A m (k_heap k) m' h'))"
proof -
  let ?h = "k_heap k" let ?n = "rt_align n"
  have ok: "heap_ok ?h" "k_interrupt_nest k = 0" using rdy by (simp_all add: heap_ready_def)
  note ad = live_address[OF ok(1) ab(1) p ab(2)] and al = rt_align_bounds[OF n]
  show ?thesis
  proof (cases "?n > h_size ?h")
    case True
    then show ?thesis using ok by (auto simp: rt_realloc_def intro: exI[of _ ?h])
  next
    case False
    then have le: "unat ?n \<le> unat (h_size ?h)" by (simp add: word_less_nat_alt)
    have code: "rt_realloc p n (m, k) = rt_realloc_locked p ?n (m, upd_sem heap_sem (\<lambda>sem. sem\<lparr>s_value := 0\<rparr>) k)"
      using False ok(2) ad(5) by (simp add: rt_realloc_def on_kernel_def heap_take[OF rdy] Let_def)
    obtain q m' h' where eq: "rt_realloc p n (m, k) = Some (Done q, m', k\<lparr>k_heap := h'\<rparr>)"
      and r: "if q = 0 then m' = m \<and> h' = ?h else \<exists>A. resized ?n p (a, b) q A m ?h m' h'"
      using realloc_locked_returns[OF rdy ab p le al(3), of m] unfolding returns_def code by fast
    have "if q = 0 then m' = m \<and> h' = ?h else \<exists>A. resized n p (a, b) q A m ?h m' h'"
      using r resized_mono[OF _ al(1)] by (cases "q = 0") (simp, metis)
    then show ?thesis unfolding eq returns_Some prod.case by (intro exI[of _ q] exI[of _ h'] conjI refl)
  qed
qed

text \<open>Zeroed memory.\<close>

lemma calloc_returns:
  assumes rdy: "heap_ready k" and n: "unat (count * n) + 3 < 2 ^ 32"
  shows "returns (rt_calloc count n (m, k)) (\<lambda>(r, m', k'). \<exists>p. r = Done p \<and>
     (if p = 0 then m' = m \<and> k' = k
      else m' = fill p 0 (unat (count * n)) m \<and> (\<exists>h' a b. k' = k\<lparr>k_heap := h'\<rparr> \<and> grants (count * n) p a b (k_heap k) h')))"
proof -
  have irq: "k_interrupt_nest k = 0" using rdy by (simp add: heap_ready_def)
  obtain p k1 where ml: "rt_malloc (count * n) k = Some (Done p, k1)"
    and k1: "if p = 0 then k1 = k else \<exists>h' a b. k1 = k\<lparr>k_heap := h'\<rparr> \<and> grants (count * n) p a b (k_heap k) h'"
    using malloc_returns[OF rdy n] by (auto simp: returns_def)
  have "rt_memset p 0 (unat (count * n)) m = fill p 0 (unat (count * n)) m"
    using rt_memset_fill[of "unat (count * n)" p 0 m] n by simp
  then show ?thesis using ml k1 irq by (auto simp: rt_calloc_def on_kernel_def)
qed

section \<open>Starting the heap\<close>

lemma dvd_and_m4: "4 dvd unat (x AND - 4)" for x :: u32
  by (simp add: unat_and_m4)

lemma heap_init_returns:
  assumes irq: "k_interrupt_nest k = 0" and used: "h_used_mem (k_heap k) = 0" and lo: "heap_sem < unat (rt_align b)"
    and room: "unat (rt_align b) + 36 \<le> unat (rt_align_down e)"
  shows "returns (rt_system_heap_init b e k) (\<lambda>k'. heap_ready k' \<and> heap_live (k_heap k') = {} \<and> h_ptr (k_heap k') = rt_align b \<and>
     unat (h_size (k_heap k')) = unat (rt_align_down e) - unat (rt_align b) - 24 \<and> lowest (k_heap k') (heap_blocks (k_heap k')) \<and>
     heap_blocks (k_heap k') = [(0, False)])"
proof -
  let ?b = "rt_align b" and ?e = "rt_align_down e"
  let ?h = "heap_format ?b ?e (k_heap k)"
  have e24: "unat (?e - 24) = unat ?e - 24" using room by (simp add: unat_sub word_le_nat_alt)
  have g: "24 < ?e" "?b \<le> ?e - 24" using room e24 by (simp_all add: word_less_nat_alt word_le_nat_alt)
  have d: "4 dvd unat ?b" using dvd_and_m4[of "b + 4 - 1"] by (simp add: rt_align_def)
  note f = heap_format_inv[OF d g(2,1) used]
  have "unat (?e - ?b) = unat ?e - unat ?b" using room by (simp add: unat_sub word_le_nat_alt)
  then have sz: "unat (?e - ?b - 24) = unat ?e - unat ?b - 24" using room by (subst unat_sub) (simp_all add: word_le_nat_alt)
  have bl: "heap_blocks ?h = [(0, False)]" using f(1) by (rule heap_blocks_inv)
  then have "heap_ok ?h" "heap_live ?h = {}" "lowest ?h (heap_blocks ?h)" using f by (auto simp: heap_ok_def heap_live_def)
  then show ?thesis
    using irq g f(3,4) sz lo room bl
    by (simp add: rt_system_heap_init_def heap_ready_def rt_sem_init_def rt_ipc_object_init_def set_obj_flag_def Let_def)
qed

section \<open>Objects\<close>

lemma object_size_small: "unat (object_size c) + 3 < 2 ^ 32"
  by (simp add: object_size_def)

text \<open>The state after \<^verbatim>\<open>rt_object_allocate\<close> has given memory to an object.\<close>

definition attached :: "obj \<Rightarrow> u8 \<Rightarrow> cstr \<Rightarrow> kernel \<Rightarrow> kernel" where
  "attached x type name k =
     (let k1 = upd_object x (\<lambda>_. \<lparr>o_name = rt_strncpy name RT_NAME_MAX, o_type = type, o_flag = 0\<rparr>) k
      in k1\<lparr>k_container := st_push (unat type) x (k_container k1)\<rparr>)"

lemma attached_fields [simp]:
  "k_heap (attached x c n k) = k_heap k" "k_sems (attached x c n k) = k_sems k" "k_tlists (attached x c n k) = k_tlists k"
  "k_interrupt_nest (attached x c n k) = k_interrupt_nest k" "k_threads (attached x c n k) = k_threads k"
  "k_container (attached x c n k) = st_push (unat c) x (k_container k)"
  "k_objects (attached x c n k) = (k_objects k)(x := \<lparr>o_name = rt_strncpy n RT_NAME_MAX, o_type = c, o_flag = 0\<rparr>)"
  by (simp_all add: attached_def Let_def)

lemma create_with_returns:
  assumes rdy: "heap_ready k"
    and rest: "\<And>p a b h'. grants (object_size c) p a b (k_heap k) h' \<Longrightarrow>
       returns (f (unat p) (attached (mk (unat p)) c name (k\<lparr>k_heap := h'\<rparr>))) P"
    and none: "P (Done 0, k)"
  shows "returns (create_with mk c name f k) P"
proof -
  obtain p k1 where ml: "rt_malloc (object_size c) k = Some (Done p, k1)"
    and k1: "if p = 0 then k1 = k else \<exists>h' a b. k1 = k\<lparr>k_heap := h'\<rparr> \<and> grants (object_size c) p a b (k_heap k) h'"
    using malloc_returns[OF rdy object_size_small, of c] by (auto simp: returns_def)
  have irq: "k_interrupt_nest k = 0" using rdy by (simp add: heap_ready_def)
  show ?thesis
  proof (cases "p = 0")
    case True
    then show ?thesis using ml k1 none irq by (simp add: create_with_def rt_object_allocate_def)
  next
    case False
    then obtain h' a b where h': "k1 = k\<lparr>k_heap := h'\<rparr>" "grants (object_size c) p a b (k_heap k) h'" using k1 by auto
    have "unat p \<noteq> 0" using False by (simp add: unat_eq_zero)
    then have "create_with mk c name f k = f (unat p) (attached (mk (unat p)) c name (k\<lparr>k_heap := h'\<rparr>))"
      using ml irq False h'(1) by (simp add: create_with_def rt_object_allocate_def attached_def Let_def)
    then show ?thesis using rest[OF h'(2)] by simp
  qed
qed

lemma object_delete_returns:
  assumes rdy: "heap_ready k" and ty: "o_type (k_objects k x) AND RT_Object_Class_Static = 0"
    and ab: "(a, b) \<in> heap_live (k_heap k)" "a < b" "unat (obj_addr x) = unat (h_ptr (k_heap k)) + a"
  shows "returns (rt_object_delete x k) (\<lambda>(r, k'). r = Done () \<and>
     (\<exists>h'. k' = k\<lparr>k_container := st_remove x (k_container k), k_heap := h'\<rparr> \<and> frees a b (k_heap k) h'))"
proof -
  let ?k = "k\<lparr>k_container := st_remove x (k_container k)\<rparr>"
  have "heap_ready ?k" "(a, b) \<in> heap_live (k_heap ?k)" "unat (obj_addr x) = unat (h_ptr (k_heap ?k)) + a"
    using rdy ab by (simp_all add: heap_ready_def)
  from free_returns[OF this(1,2) ab(2) this(3)] show ?thesis using ty by (simp add: rt_object_delete_def)
qed

lemma resume_all_empty: "k_tlists k h = [] \<Longrightarrow> rt_ipc_list_resume_all h k = Some k"
  by (subst rt_ipc_list_resume_all.simps) simp

lemma st_remove_push: "st_remove x (st_push h x L) = st_remove x L"
  by (auto simp: st_remove_def st_push_def)

lemma grants_apart: "grants n p a b h h' \<Longrightarrow> 12 \<le> unat n \<Longrightarrow> heap_sem < unat (h_ptr h) \<Longrightarrow> a < b \<and> heap_sem < unat p"
  by (auto simp: grants_def)

text \<open>A semaphore made on the heap: a block of its own, an object found in its container, ready to use; deleting
  it gives the block back and takes the object out of its container.\<close>

lemma sem_create_returns:
  assumes rdy: "heap_ready k"
  shows "returns (rt_sem_create name v flag k) (\<lambda>(r, k1). \<exists>s. r = Done s \<and> (if s = 0 then k1 = k else
     heap_ready k1 \<and> s_value (k_sems k1 s) = ucast v \<and> k_tlists k1 (Sem_Q s) = [] \<and> o_flag (k_objects k1 (OSem s)) = flag \<and>
     k_container k1 = st_push (unat RT_Object_Class_Semaphore) (OSem s) (k_container k) \<and>
     (\<exists>a b. s = unat (h_ptr (k_heap k)) + a \<and> a + 28 \<le> b \<and> (a, b) \<notin> heap_live (k_heap k) \<and>
        heap_live (k_heap k1) = insert (a, b) (heap_live (k_heap k)) \<and>
        returns (rt_sem_delete s k1) (\<lambda>(r, k2). r = Done RT_EOK \<and> heap_ready k2 \<and> heap_live (k_heap k2) = heap_live (k_heap k) \<and>
          k_container k2 = st_remove (OSem s) (k_container k)))))"
proof -
  have irq: "k_interrupt_nest k = 0" and lo: "heap_sem < unat (h_ptr (k_heap k))" using rdy by (simp_all add: heap_ready_def)
  have "rt_sem_create name v flag k = create_with OSem RT_Object_Class_Semaphore name (\<lambda>s k1.
            let k2 = rt_ipc_object_init (Sem_Q s) k1;
                k3 = upd_sem s (\<lambda>sem. sem\<lparr>s_value := ucast v\<rparr>) k2
            in Some (Done s, set_obj_flag (OSem s) flag k3)) k"
    using irq by (simp add: rt_sem_create_def)
  then show ?thesis
  proof (simp only:, intro create_with_returns[OF rdy])
    fix p a b h' assume g: "grants (object_size RT_Object_Class_Semaphore) p a b (k_heap k) h'"
    let ?s = "unat p"
    have gd: "heap_ok h'" "h_ptr h' = h_ptr (k_heap k)" "h_size h' = h_size (k_heap k)" "?s = unat (h_ptr (k_heap k)) + a"
      "a + 28 \<le> b" "(a, b) \<notin> heap_live (k_heap k)" "heap_live h' = insert (a, b) (heap_live (k_heap k))"
      using g by (simp_all add: grants_def object_size_def)
    define k1 where "k1 = set_obj_flag (OSem ?s) flag (upd_sem ?s (\<lambda>sem. sem\<lparr>s_value := ucast v\<rparr>)
       (rt_ipc_object_init (Sem_Q ?s) (attached (OSem ?s) RT_Object_Class_Semaphore name (k\<lparr>k_heap := h'\<rparr>))))"
    note k1_defs = k1_def set_obj_flag_def upd_object_def upd_sem_def rt_ipc_object_init_def upd_tlists_def
    have ne: "?s \<noteq> heap_sem" "?s \<noteq> 0" using gd(4) lo by simp_all
    have f: "k_heap k1 = h'" "s_value (k_sems k1 ?s) = ucast v" "k_tlists k1 (Sem_Q ?s) = []"
      "o_flag (k_objects k1 (OSem ?s)) = flag" "k_interrupt_nest k1 = 0" "o_type (k_objects k1 (OSem ?s)) = RT_Object_Class_Semaphore"
      "k_container k1 = st_push (unat RT_Object_Class_Semaphore) (OSem ?s) (k_container k)"
      using irq by (simp_all add: k1_defs)
    have rdy1: "heap_ready k1" using rdy gd(1-3) ne by (simp add: heap_ready_def k1_defs)
    have adr: "unat (obj_addr (OSem ?s)) = unat (h_ptr (k_heap k1)) + a" unfolding f(1) gd(2) gd(4)[symmetric] by simp
    have "rt_sem_delete ?s k1 = bind_done (rt_object_delete (OSem ?s) k1) (\<lambda>_ k2. Some (Done RT_EOK, k2))"
      using f by (simp add: rt_sem_delete_def ipc_delete_def resume_all_empty)
    moreover obtain h'' where "rt_object_delete (OSem ?s) k1 =
         Some (Done (), k1\<lparr>k_container := st_remove (OSem ?s) (k_container k1), k_heap := h''\<rparr>)" and h'': "frees a b h' h''"
      using object_delete_returns[OF rdy1 _ _ _ adr, of b] f gd(5,7) by (auto simp: returns_def)
    ultimately have "returns (rt_sem_delete ?s k1) (\<lambda>(r, k2). r = Done RT_EOK \<and> heap_ready k2 \<and>
        heap_live (k_heap k2) = heap_live (k_heap k) \<and> k_container k2 = st_remove (OSem ?s) (k_container k))"
      using rdy1 f gd h'' by (simp add: frees_def st_remove_push heap_ready_def del: st_remove_apply)
    then show "returns (let k2 = rt_ipc_object_init (Sem_Q ?s) (attached (OSem ?s) RT_Object_Class_Semaphore name (k\<lparr>k_heap := h'\<rparr>));
                k3 = upd_sem ?s (\<lambda>sem. sem\<lparr>s_value := ucast v\<rparr>) k2
            in Some (Done ?s, set_obj_flag (OSem ?s) flag k3)) (\<lambda>(r, k1). \<exists>s. r = Done s \<and> (if s = 0 then k1 = k else
     heap_ready k1 \<and> s_value (k_sems k1 s) = ucast v \<and> k_tlists k1 (Sem_Q s) = [] \<and> o_flag (k_objects k1 (OSem s)) = flag \<and>
     k_container k1 = st_push (unat RT_Object_Class_Semaphore) (OSem s) (k_container k) \<and>
     (\<exists>a b. s = unat (h_ptr (k_heap k)) + a \<and> a + 28 \<le> b \<and> (a, b) \<notin> heap_live (k_heap k) \<and>
        heap_live (k_heap k1) = insert (a, b) (heap_live (k_heap k)) \<and>
        returns (rt_sem_delete s k1) (\<lambda>(r, k2). r = Done RT_EOK \<and> heap_ready k2 \<and> heap_live (k_heap k2) = heap_live (k_heap k) \<and>
          k_container k2 = st_remove (OSem s) (k_container k)))))"
      unfolding Let_def returns_Some prod.case k1_def[symmetric] using rdy1 f gd
      by (intro exI[of _ ?s] conjI refl) (subst if_not_P[OF ne(2)], blast)
  qed simp
qed

section \<open>Reaping\<close>

text \<open>The idle thread gives back the stack and the object of a dead thread that was created on the heap.\<close>

lemma idle_reaps:
  assumes rdy: "heap_ready k" and dead: "k_tlists k Defunct = t # ts" "t \<notin> set ts" and c: "t_cleanup (thread k t) = None"
    and ty: "\<not> rt_object_is_systemobject (OThread t) k"
    and st: "(a, b) \<in> heap_live (k_heap k)" "a < b" "unat (t_stack_addr (thread k t)) = unat (h_ptr (k_heap k)) + a"
    and ob: "(a', b') \<in> heap_live (k_heap k)" "a' < b'" "unat (of_nat t :: u32) = unat (h_ptr (k_heap k)) + a'" "a' \<noteq> a"
  shows "returns (rt_thread_idle_excute cleanup k) (\<lambda>(r, k'). r = Done () \<and> heap_ready k' \<and> k_tlists k' Defunct = ts \<and>
     heap_live (k_heap k') = heap_live (k_heap k) - {(a, b), (a', b')} \<and>
     k_container k' = st_remove (OThread t) (k_container k) \<and> k_threads k' = k_threads k)"
proof -
  let ?k = "upd_tlists (st_remove t) k"
  have r1: "heap_ready ?k" using rdy by (simp add: heap_ready_def)
  obtain h1 where fr: "rt_free (t_stack_addr (thread k t)) ?k = Some (Done (), ?k\<lparr>k_heap := h1\<rparr>)" and h1: "frees a b (k_heap k) h1"
    using free_returns[OF r1, of a b "t_stack_addr (thread k t)"] st by (auto simp: returns_def)
  let ?k1 = "?k\<lparr>k_heap := h1\<rparr>"
  have r2: "heap_ready ?k1" "(a', b') \<in> heap_live (k_heap ?k1)" "unat (obj_addr (OThread t)) = unat (h_ptr (k_heap ?k1)) + a'"
    "o_type (k_objects ?k1 (OThread t)) AND RT_Object_Class_Static = 0"
    using r1 h1 ob ty by (auto simp: frees_def rt_object_is_systemobject_def)
  from object_delete_returns[OF r2(1,4,2) ob(2) r2(3)] obtain h2 where
    del: "rt_object_delete (OThread t) ?k1 = Some (Done (), ?k1\<lparr>k_container := st_remove (OThread t) (k_container ?k1), k_heap := h2\<rparr>)"
    and h2: "frees a' b' h1 h2" by (auto simp: returns_def)
  have "rt_thread_idle_excute cleanup k = Some (Done (), ?k1\<lparr>k_container := st_remove (OThread t) (k_container ?k1), k_heap := h2\<rparr>)"
    using rdy dead(1) c ty fr del by (simp add: rt_thread_idle_excute_def heap_ready_def rt_object_is_systemobject_def)
  moreover have "heap_live h2 = heap_live (k_heap k) - {(a, b), (a', b')}" using h1 h2 by (auto simp: frees_def)
  ultimately show ?thesis using r2(1) h2 dead by (simp add: frees_def heap_ready_def)
qed

end
