(* ===== verification/Memory_Props.thy ===== *)
theory Memory_Props
  imports Kernel_Heap
begin

unbundle bit_operations_syntax

text \<open>
  The theorems on memory: the heap, what is created on it, the memory pools and the byte services.
\<close>

section \<open>A heap at work\<close>

text \<open>The demonstration system with a heap of 1000 bytes at \<^verbatim>\<open>0x10000000\<close> and two blocks in use, 40 bytes
  each, at offsets 12 and 64.\<close>

definition work_mem :: "u32 \<Rightarrow> heap_mem" where
  "work_mem x =
     (if x = 0 then \<lparr>hm_magic = HEAP_MAGIC, hm_used = 1, hm_next = 52, hm_prev = 0\<rparr>
      else if x = 52 then \<lparr>hm_magic = HEAP_MAGIC, hm_used = 1, hm_next = 104, hm_prev = 0\<rparr>
      else if x = 104 then \<lparr>hm_magic = 0, hm_used = 0, hm_next = 1012, hm_prev = 52\<rparr>
      else \<lparr>hm_magic = HEAP_MAGIC, hm_used = 1, hm_next = 1012, hm_prev = 1012\<rparr>)"

definition work_heap :: heap where
  "work_heap = \<lparr>h_mem = work_mem, h_ptr = 0x10000000, h_end = 1012, h_lfree = 104, h_size = 1000,
     h_used_mem = 104, h_max_mem = 104\<rparr>"

definition work :: kernel where
  "work = demo\<lparr>k_heap := work_heap, k_sems := (k_sems demo)(heap_sem := \<lparr>s_value = 1\<rparr>)\<rparr>"

lemma work_blocks: "hinv work_heap [(0, True), (52, True), (104, False)]"
  by (simp add: hinv_def work_heap_def work_mem_def coalesced_def lfree_ok_def limits_ok_def)

lemma work_live: "heap_live work_heap = {(12, 52), (64, 104)}"
proof -
  have "{x. (x, True) \<in> set [(0 :: u32, True), (52, True), (104, False)]} = {0, 52}" by auto
  then show ?thesis unfolding heap_live_inv[OF work_blocks]
    by (simp add: area_def work_heap_def work_mem_def del: set_simps)
qed

lemma work_ready: "heap_ready work"
  using work_blocks by (auto simp: heap_ready_def work_def heap_ok_iff demo_tlists_def work_heap_def)

lemma work_fields [simp]: "k_heap work = work_heap" "h_ptr work_heap = 0x10000000" "k_interrupt_nest work = 0"
  by (simp_all add: work_def work_heap_def)

section \<open>The heap\<close>

text \<open>C24: \<^verbatim>\<open>rt_malloc\<close> comes back, with \<^verbatim>\<open>RT_NULL\<close> and nothing changed or with an aligned block inside the heap,
  large enough and apart from every block in use; it keeps the invariant of the heap and touches nothing
  else of the kernel.  \<^verbatim>\<open>RT_NULL\<close> for a size other than 0 and within the heap means that every free block from
  \<^verbatim>\<open>lfree\<close> on is too small or begins in the last \<^verbatim>\<open>size\<close> bytes of the heap: the code does not look below \<^verbatim>\<open>lfree\<close>,
  and gives up at that distance from the end, even where a block would fit exactly.\<close>

theorem malloc_gives_fresh_block:
  assumes "heap_ready k" "unat n + 3 < 2 ^ 32"
  shows "returns (rt_malloc n k) (\<lambda>(r, k'). \<exists>p. r = Done p \<and> heap_ready k' \<and>
     (if p = 0 then k' = k \<and> (n \<noteq> 0 \<longrightarrow> rt_align n \<le> h_size (k_heap k) \<longrightarrow>
          (\<forall>y. (y, False) \<in> set (heap_blocks (k_heap k)) \<longrightarrow> h_lfree (k_heap k) \<le> y \<longrightarrow>
            unat (hm_next (h_mem (k_heap k) y)) < unat y + 12 + unat (malloc_size n) \<or>
            unat (h_size (k_heap k)) \<le> unat y + unat (malloc_size n)))
      else \<exists>h' a b. k' = k\<lparr>k_heap := h'\<rparr> \<and> unat p = unat (h_ptr (k_heap k)) + a \<and> 4 dvd unat p \<and> a + unat n \<le> b \<and>
        b \<le> unat (h_end (k_heap k)) \<and> heap_live h' = insert (a, b) (heap_live (k_heap k)) \<and>
        (\<forall>A\<in>heap_live (k_heap k). apart (a, b) A)))"
  using malloc_complete[OF assms] .

theorem malloc_gives_fresh_block_witness:
  "returns (rt_malloc 30 work) (\<lambda>(r, k'). \<exists>p. r = Done p \<and> heap_ready k' \<and>
     (p \<noteq> 0 \<longrightarrow> (\<exists>a b. a + 30 \<le> b \<and> heap_live (k_heap k') = insert (a, b) {(12, 52), (64, 104)} \<and>
        apart (a, b) (12, 52) \<and> apart (a, b) (64, 104))))"
  by (rule returns_mono[OF malloc_gives_fresh_block[OF work_ready, of 30]]) (auto simp: work_live, blast)

text \<open>C25: What \<^verbatim>\<open>rt_malloc\<close> gives, \<^verbatim>\<open>rt_free\<close> takes back: the blocks in use are those from before, and the heap is
  ready for the next call.\<close>

theorem malloc_free_round_trip:
  assumes "heap_ready k" "unat n + 3 < 2 ^ 32"
  shows "returns (rt_malloc n k) (\<lambda>(r, k1). \<exists>p. r = Done p \<and> returns (rt_free p k1) (\<lambda>(r, k2). r = Done () \<and>
     heap_ready k2 \<and> heap_live (k_heap k2) = heap_live (k_heap k)))"
  using malloc_free[OF assms] .

theorem malloc_free_round_trip_witness:
  "returns (rt_malloc 30 work) (\<lambda>(r, k1). \<exists>p. r = Done p \<and> returns (rt_free p k1) (\<lambda>(r, k2). r = Done () \<and>
     heap_ready k2 \<and> heap_live (k_heap k2) = {(12, 52), (64, 104)}))"
  using malloc_free_round_trip[OF work_ready, of 30] by (simp add: work_live)

text \<open>C26: \<^verbatim>\<open>rt_realloc\<close> of a block in use comes back, with \<^verbatim>\<open>RT_NULL\<close> and nothing changed or with a block for the new
  size that holds the old data up to the smaller size; all other blocks and all bytes outside the new
  block are as before.\<close>

theorem realloc_keeps_data:
  assumes "heap_ready k" "(a, b) \<in> heap_live (k_heap k)" "a < b" "unat p = unat (h_ptr (k_heap k)) + a" "unat n + 3 < 2 ^ 32"
  shows "returns (rt_realloc p n (m, k)) (\<lambda>(r, m', k'). \<exists>q h'. r = Done q \<and> k' = k\<lparr>k_heap := h'\<rparr> \<and>
     (if q = 0 then m' = m \<and> h' = k_heap k
      else heap_ready k' \<and> (\<exists>a' b'. unat q = unat (h_ptr (k_heap k)) + a' \<and> a' + unat n \<le> b' \<and>
        heap_live h' = insert (a', b') (heap_live (k_heap k) - {(a, b)}) \<and>
        (\<forall>B\<in>heap_live (k_heap k) - {(a, b)}. apart (a', b') B) \<and>
        (\<forall>i<min (b - a) (unat n). m' (q + of_nat i) = m (p + of_nat i)) \<and>
        (\<forall>x. \<not> in_area q (b' - a') x \<longrightarrow> m' x = m x))))"
proof (rule returns_mono[OF realloc_returns[OF assms]], clarify)
  fix q m' h' assume r: "if q = 0 then m' = m \<and> h' = k_heap k else \<exists>A. resized n p (a, b) q A m (k_heap k) m' h'"
  show "\<exists>qa h'a. Done q = Done qa \<and> k\<lparr>k_heap := h'\<rparr> = k\<lparr>k_heap := h'a\<rparr> \<and>
     (if qa = 0 then m' = m \<and> h'a = k_heap k
      else heap_ready (k\<lparr>k_heap := h'\<rparr>) \<and> (\<exists>a' b'. unat qa = unat (h_ptr (k_heap k)) + a' \<and> a' + unat n \<le> b' \<and>
        heap_live h'a = insert (a', b') (heap_live (k_heap k) - {(a, b)}) \<and>
        (\<forall>B\<in>heap_live (k_heap k) - {(a, b)}. apart (a', b') B) \<and>
        (\<forall>i<min (b - a) (unat n). m' (qa + of_nat i) = m (p + of_nat i)) \<and>
        (\<forall>x. \<not> in_area qa (b' - a') x \<longrightarrow> m' x = m x)))"
  proof (cases "q = 0")
    case False
    then obtain A where A: "resized n p (a, b) q A m (k_heap k) m' h'" using r by auto
    obtain a' b' where "A = (a', b')" by fastforce
    note rz = A[unfolded this resized_def fst_conv snd_conv]
    have "heap_ready (k\<lparr>k_heap := h'\<rparr>)" using rz assms(1) by simp
    then show ?thesis using False rz by (intro exI[of _ q] exI[of _ h'] conjI refl) auto
  qed (use r in simp)
qed

theorem realloc_keeps_data_witness:
  "returns (rt_realloc 0x1000000C 100 (\<lambda>_. 7, work)) (\<lambda>(r, m', k'). \<exists>q h'. r = Done q \<and> k' = work\<lparr>k_heap := h'\<rparr> \<and>
     (q \<noteq> 0 \<longrightarrow> (\<forall>i<40. m' (q + of_nat i) = 7)))"
  by (rule returns_mono[OF realloc_keeps_data[OF work_ready, of 12 52]]) (auto simp: work_live split: if_splits)

text \<open>\<^verbatim>\<open>rt_system_heap_init\<close> on a region with room for the two headers and a block makes a heap ready for use, empty,
  of all the memory between the aligned limits less 24 bytes, with \<^verbatim>\<open>lfree\<close> the lowest free block.\<close>

theorem heap_init_ready:
  assumes "k_interrupt_nest k = 0" "h_used_mem (k_heap k) = 0" "heap_sem < unat (rt_align b)"
    "unat (rt_align b) + 36 \<le> unat (rt_align_down e)"
  shows "returns (rt_system_heap_init b e k) (\<lambda>k'. heap_ready k' \<and> heap_live (k_heap k') = {} \<and> h_ptr (k_heap k') = rt_align b \<and>
     unat (h_size (k_heap k')) = unat (rt_align_down e) - unat (rt_align b) - 24 \<and> lowest (k_heap k') (heap_blocks (k_heap k')))"
  by (rule returns_mono[OF heap_init_returns[OF assms]]) blast

theorem heap_init_ready_witness:
  "returns (rt_system_heap_init 0x10000001 0x10001003 demo) (\<lambda>k'. heap_ready k' \<and> heap_live (k_heap k') = {} \<and>
     unat (h_size (k_heap k')) = 4068)"
  by (rule returns_mono[OF heap_init_ready[of demo "0x10000001" "0x10001003"]])
    (simp_all add: rt_align_def rt_align_down_def demo_def demo_heap_def)

section \<open>Objects on the heap\<close>

text \<open>C27: \<^verbatim>\<open>rt_sem_create\<close> gives a semaphore in a new block of the heap, linked in its container, with the given
  value and no waiters, or \<^verbatim>\<open>RT_NULL\<close> and nothing changed; \<^verbatim>\<open>rt_sem_delete\<close> of it gives back the block and
  takes it out of the container.\<close>

theorem sem_create_delete:
  assumes "heap_ready k"
  shows "returns (rt_sem_create name v flag k) (\<lambda>(r, k1). \<exists>s. r = Done s \<and> (if s = 0 then k1 = k else
     heap_ready k1 \<and> s_value (k_sems k1 s) = ucast v \<and> k_tlists k1 (Sem_Q s) = [] \<and> o_flag (k_objects k1 (OSem s)) = flag \<and>
     k_container k1 = st_push (unat RT_Object_Class_Semaphore) (OSem s) (k_container k) \<and>
     (\<exists>a b. s = unat (h_ptr (k_heap k)) + a \<and> a + 28 \<le> b \<and> (a, b) \<notin> heap_live (k_heap k) \<and>
        heap_live (k_heap k1) = insert (a, b) (heap_live (k_heap k)) \<and>
        returns (rt_sem_delete s k1) (\<lambda>(r, k2). r = Done RT_EOK \<and> heap_ready k2 \<and> heap_live (k_heap k2) = heap_live (k_heap k) \<and>
          k_container k2 = st_remove (OSem s) (k_container k)))))"
  by (rule sem_create_returns[OF assms])

theorem sem_create_delete_witness:
  "returns (rt_sem_create [115] 3 0 work) (\<lambda>(r, k1). \<exists>s. r = Done s \<and> (s \<noteq> 0 \<longrightarrow> s_value (k_sems k1 s) = 3 \<and>
     returns (rt_sem_delete s k1) (\<lambda>(r, k2). r = Done RT_EOK \<and> heap_live (k_heap k2) = {(12, 52), (64, 104)})))"
  by (rule returns_mono[OF sem_create_delete[OF work_ready, of "[115]" 3 0]])
    (auto simp: work_live split: if_splits elim!: returns_mono)

text \<open>C29: One round of the idle thread, when a dead thread that was created on the heap heads the list of defunct
  threads: its stack and its object go back to the heap, it leaves the list and the container, and every
  other block stays.\<close>

theorem idle_reaps_thread:
  assumes "heap_ready k" "k_tlists k Defunct = t # ts" "t \<notin> set ts" "t_cleanup (thread k t) = None"
    "\<not> rt_object_is_systemobject (OThread t) k"
    "(a, b) \<in> heap_live (k_heap k)" "a < b" "unat (t_stack_addr (thread k t)) = unat (h_ptr (k_heap k)) + a"
    "(a', b') \<in> heap_live (k_heap k)" "a' < b'" "unat (of_nat t :: u32) = unat (h_ptr (k_heap k)) + a'" "a' \<noteq> a"
  shows "returns (rt_thread_idle_excute cleanup k) (\<lambda>(r, k'). r = Done () \<and> heap_ready k' \<and> k_tlists k' Defunct = ts \<and>
     heap_live (k_heap k') = heap_live (k_heap k) - {(a, b), (a', b')} \<and>
     k_container k' = st_remove (OThread t) (k_container k) \<and> k_threads k' = k_threads k)"
  by (rule idle_reaps[OF assms])

theorem idle_reaps_thread_witness:
  "let t = 0x1000000C; k = work\<lparr>k_tlists := (k_tlists work)(Defunct := [t]),
     k_threads := (k_threads work)(t := (demo_thread RT_THREAD_CLOSE 8)\<lparr>t_stack_addr := 0x10000040\<rparr>)\<rparr>
   in returns (rt_thread_idle_excute (\<lambda>_ _. Some) k) (\<lambda>(r, k'). r = Done () \<and> heap_live (k_heap k') = {} \<and> k_tlists k' Defunct = [])"
  unfolding Let_def
  by (rule returns_mono[OF idle_reaps_thread[where t = "0x1000000C" and ts = "[]" and a = 64 and b = 104 and a' = 12 and b' = 52]])
    (use work_ready in \<open>auto simp: heap_ready_def work_live demo_thread_def rt_object_is_systemobject_def work_def demo_objects_def\<close>)

section \<open>Memory pools\<close>

text \<open>\<^verbatim>\<open>rt_mp_alloc\<close>, on every branch: the first free block, which then points to its pool and is no longer free;
  with no block, \<^verbatim>\<open>RT_NULL\<close> for a caller that does not wait, and for one that does the wait at the head of
  the queue of the pool.\<close>

theorem pool_alloc_cases:
  assumes inv: "kernel_inv k" and blk: "may_block t k" and rep: "mp_rep k m fs" and irq: "k_interrupt_nest k = 0" and time: "time_ok time"
  shows "returns (rt_mp_alloc m time k) (\<lambda>(r, k'). kernel_inv k' \<and>
     (case fs of
        b # fs' \<Rightarrow> r = Done (b + 4) \<and> mp_rep k' m fs' \<and> k_words k' b = m \<and> b \<in> mp_blocks (k_mempools k m) \<and> b \<notin> set fs'
      | [] \<Rightarrow> if time = 0 then r = Done 0 \<and> k' = k
              else r = Blocked \<and> stat k' t = RT_THREAD_SUSPEND \<and> k_tlists k' (Mp_Q m) = t # k_tlists k (Mp_Q m) \<and>
                mp_suspend_thread_count (k_mempools k' m) = mp_suspend_thread_count (k_mempools k m) + 1))"
proof (cases fs)
  case Nil
  then have none: "mp_block_free_count (k_mempools k m) = 0" using rep by (simp add: mp_rep_def Let_def unat_eq_zero)
  show ?thesis
  proof (cases "time = 0")
    case False
    show ?thesis
      by (rule returns_mono[OF mp_alloc_blocks[OF inv none False time irq blk]])
        (use Nil False in \<open>auto simp: waiting_at_def same_objs_def\<close>)
  qed (use Nil none inv in \<open>simp add: rt_mp_alloc_def\<close>)
next
  case (Cons b fs')
  note al = mp_alloc_some[OF rep[unfolded Cons] inv, of time]
  have "b \<in> mp_blocks (k_mempools k m)" "b \<notin> set fs'" using rep Cons by (auto simp: mp_rep_def Let_def)
  then show ?thesis using Cons by (auto intro!: returns_mono[OF al])
qed

text \<open>A pool of two blocks of 8 bytes at address 100; those of \<open>fs\<close> are free.\<close>

definition pool :: "ptr list \<Rightarrow> kernel" where
  "pool fs = demo\<lparr>k_mempools := (\<lambda>_. \<lparr>mp_start_address = 100, mp_size = 24, mp_block_size = 8,
       mp_block_list = (if fs = [] then 0 else 100), mp_block_total_count = 2,
       mp_block_free_count = of_nat (length fs), mp_suspend_thread_count = 0\<rparr>),
     k_words := (\<lambda>a. if a = 100 \<and> fs \<noteq> [] then 0 else 60)\<rparr>"

lemma pool_kernel: "kernel_inv (pool fs)" "may_block 2 (pool fs)" "k_interrupt_nest (pool fs) = 0"
  "k_tlists (pool fs) = demo_tlists" "mp_suspend_thread_count (k_mempools (pool fs) m) = 0"
  using demo_kernel_inv demo_may_block by (auto simp: pool_def may_block_def)

lemma pool_rep: "mp_rep (pool []) 60 []" "mp_rep (pool [100]) 60 [100]"
  by (auto simp: mp_rep_def pool_def mp_blocks_def Let_def)

theorem pool_alloc_cases_witness:
  "returns (rt_mp_alloc 60 5 (pool [100])) (\<lambda>(r, k'). kernel_inv k' \<and> r = Done 104 \<and> mp_rep k' 60 [])"
  by (rule returns_mono[OF pool_alloc_cases[OF pool_kernel(1,2) pool_rep(2)]]) (auto simp: pool_kernel time_ok_def)

text \<open>C30: \<^verbatim>\<open>rt_mp_free\<close> with a thread waiting puts the block in front of the free list and makes the first waiter
  ready, without an error; the kernel invariant holds.\<close>

theorem pool_free_hands_over:
  assumes "kernel_inv k" "k_current k \<noteq> None" "mp_rep k m fs" "b \<in> mp_blocks (k_mempools k m)" "b \<notin> set fs"
    "mp_suspend_thread_count (k_mempools k m) \<noteq> 0" "k_tlists k (Mp_Q m) = t # ts"
  shows "returns (rt_mp_free (b + 4) k) (\<lambda>k'. kernel_inv k' \<and> runnable k' \<and> mp_rep k' m (b # fs) \<and>
     stat k' t = RT_THREAD_READY \<and> t_error (thread k' t) = RT_EOK \<and> k_tlists k' (Mp_Q m) = ts \<and>
     mp_suspend_thread_count (k_mempools k' m) = mp_suspend_thread_count (k_mempools k m) - 1)"
  by (rule mp_free_wakes[OF assms])

theorem pool_free_hands_over_witness:
  "returns (rt_mp_alloc 60 RT_WAITING_FOREVER (pool [])) (\<lambda>(r, k1). r = Blocked \<and>
     returns (rt_mp_free 104 k1) (\<lambda>k'. kernel_inv k' \<and> mp_rep k' 60 [100] \<and> stat k' 2 = RT_THREAD_READY))"
proof -
  let ?k = "upd_mp 60 (\<lambda>mp. mp\<lparr>mp_suspend_thread_count := mp_suspend_thread_count mp + 1\<rparr>) (pool [])"
  have "returns (rt_mp_free (100 + 4) k1) (\<lambda>k'. kernel_inv k' \<and> runnable k' \<and> mp_rep k' 60 [100] \<and> stat k' 2 = RT_THREAD_READY \<and>
      t_error (thread k' 2) = RT_EOK \<and> k_tlists k' (Mp_Q 60) = [] \<and>
      mp_suspend_thread_count (k_mempools k' 60) = mp_suspend_thread_count (k_mempools k1 60) - 1)"
    if "kernel_inv k1" "waiting_at (Mp_Q 60) 2 [2] RT_WAITING_FOREVER ?k k1" for k1
  proof (rule pool_free_hands_over[OF that(1)])
    have o: "k_words k1 = k_words ?k" "k_mempools k1 = k_mempools ?k" using that(2) by (simp_all add: waiting_at_def same_objs_def)
    show "k_current k1 \<noteq> None" "k_tlists k1 (Mp_Q 60) = [2]" using that(2) by (auto simp: waiting_at_def)
    show "mp_rep k1 60 []" using pool_rep(1) by (subst mp_rep_cong[of _ "pool []"]) (simp_all add: o)
    show "100 \<in> mp_blocks (k_mempools k1 60)" "mp_suspend_thread_count (k_mempools k1 60) \<noteq> 0"
      unfolding o by (auto simp: pool_def mp_blocks_def)
  qed simp
  note free = this
  have none: "mp_block_free_count (k_mempools (pool []) 60) = 0" by (simp add: pool_def)
  have time: "RT_WAITING_FOREVER \<noteq> 0" "time_ok RT_WAITING_FOREVER" by (simp_all add: time_ok_def)
  obtain k1 where al: "rt_mp_alloc 60 RT_WAITING_FOREVER (pool []) = Some (Blocked, k1)" and k1: "kernel_inv k1"
    "waiting_at (Mp_Q 60) 2 (2 # k_tlists (pool []) (Mp_Q 60)) RT_WAITING_FOREVER ?k k1"
    using mp_alloc_blocks[OF pool_kernel(1) none time pool_kernel(3,2)] unfolding returns_def by blast
  have "waiting_at (Mp_Q 60) 2 [2] RT_WAITING_FOREVER ?k k1" using k1(2) by (simp add: pool_kernel demo_tlists_def)
  from free[OF k1(1) this] show ?thesis unfolding al returns_Some prod.case by (auto elim!: returns_mono)
qed

section \<open>Bytes\<close>

text \<open>C31: The word-at-a-time loops of \<^verbatim>\<open>rt_memset\<close>, \<^verbatim>\<open>rt_memcpy\<close> and \<^verbatim>\<open>rt_memmove\<close> equal the byte-wise definitions: filling an area, and
  copying an area at once.  \<^verbatim>\<open>rt_memcpy\<close> needs a destination that does not start inside the source,
  \<^verbatim>\<open>rt_memmove\<close> areas that end below the top of the address space.\<close>

theorem byte_services:
  assumes "n < 2 ^ 32"
  shows "rt_memset a c n m = fill a (ucast c) n m \<and>
    (d = s \<or> n \<le> unat (d - s) \<longrightarrow> rt_memcpy d s n m = moved d s n m) \<and>
    (unat s + n < 2 ^ 32 \<longrightarrow> unat d + n < 2 ^ 32 \<longrightarrow> rt_memmove d s n m = moved d s n m)"
  using assms by (simp add: rt_memset_fill rt_memcpy_moved rt_memmove_moved up_safe_def)

theorem byte_services_witness:
  "rt_memset 5 7 (20 :: nat) (\<lambda>_. 0) = fill 5 7 20 (\<lambda>_. 0) \<and>
   rt_memmove 8 4 6 (\<lambda>x. ucast x) = moved 8 4 6 (\<lambda>x. ucast x)"
  using byte_services[of 20 5 7 "\<lambda>_. 0" 0 0] byte_services[of 6 0 0 "\<lambda>x. ucast x" 8 4] by simp

end
