(* ===== verification/Printf.thy ===== *)
theory Printf
  imports Byte_Mem
begin

unbundle bit_operations_syntax

text \<open>
  Formatted printing, from \<^verbatim>\<open>src/kservice.c\<close>, in the configuration with \<^verbatim>\<open>RT_PRINTF_PRECISION\<close> and without
  \<^verbatim>\<open>RT_PRINTF_LONGLONG\<close> and \<^verbatim>\<open>RT_PRINTF_SPECIAL\<close>.  The buffer lies in a byte memory; the write pointer
  \<^verbatim>\<open>str\<close> is a 32 bit address that runs on behind the end of the buffer and wraps.  Field widths and precisions
  are integers; beyond 32 bits they are undefined in the code.  The arguments are a list of words and strings;
  taking an argument that is not there, or not of the kind asked for, is undefined and gives \<open>None\<close>.
\<close>

section \<open>The code\<close>

abbreviation ZEROPAD :: u8 where "ZEROPAD \<equiv> 1"
abbreviation SIGN :: u8 where "SIGN \<equiv> 2"
abbreviation PLUS :: u8 where "PLUS \<equiv> 4"
abbreviation SPACE :: u8 where "SPACE \<equiv> 8"
abbreviation LEFT :: u8 where "LEFT \<equiv> 16"
abbreviation SPECIAL :: u8 where "SPECIAL \<equiv> 32"
abbreviation LARGE :: u8 where "LARGE \<equiv> 64"

datatype arg = Arg_int u32 | Arg_str "cstr option"

definition isdigit :: "u8 \<Rightarrow> bool" where
  "isdigit c \<longleftrightarrow> c - 48 < 10"

definition divide :: "u32 \<Rightarrow> u32 \<Rightarrow> u32 \<times> u32" where
  "divide n base = (if base = 10 then (n mod 10, n div 10) else (n mod 16, n div 16))"

text \<open>\<^verbatim>\<open>skip_atoi\<close> with the sum so far, and what is left of the string.\<close>

fun skip_atoi :: "cstr \<Rightarrow> int \<Rightarrow> int \<times> cstr" where
  "skip_atoi [] i = (i, [])"
| "skip_atoi (c # cs) i = (if isdigit c then skip_atoi cs (i * 10 + uint c - 48) else (i, c # cs))"

text \<open>The guarded store \<^verbatim>\<open>if (str <= end) *str = c; ++ str\<close>, once, \<open>n\<close> times, and for a list of characters.\<close>

type_synonym out = "u32 \<times> bytes"

definition emit :: "u32 \<Rightarrow> u8 \<Rightarrow> out \<Rightarrow> out" where
  "emit e c st = (fst st + 1, if fst st \<le> e then (snd st)(fst st := c) else snd st)"

fun emit_list :: "u32 \<Rightarrow> u8 list \<Rightarrow> out \<Rightarrow> out" where
  "emit_list e [] st = st"
| "emit_list e (c # cs) st = emit_list e cs (emit e c st)"

definition emits :: "u32 \<Rightarrow> u8 \<Rightarrow> nat \<Rightarrow> out \<Rightarrow> out" where
  "emits e c n st = emit_list e (replicate n c) st"

text \<open>The loops \<^verbatim>\<open>while (size-- > 0)\<close>, \<^verbatim>\<open>while (--width > 0)\<close> and \<^verbatim>\<open>while (len < width--)\<close>, with the value of the counter
  behind them.\<close>

definition pad_while :: "u32 \<Rightarrow> u8 \<Rightarrow> int \<Rightarrow> out \<Rightarrow> int \<times> out" where
  "pad_while e c n st = (if n > 0 then - 1 else n - 1, emits e c (nat n) st)"

definition pad_char :: "u32 \<Rightarrow> int \<Rightarrow> out \<Rightarrow> int \<times> out" where
  "pad_char e w st = (if w > 0 then 0 else w - 1, emits e 32 (nat (w - 1)) st)"

definition pad_string :: "u32 \<Rightarrow> int \<Rightarrow> int \<Rightarrow> out \<Rightarrow> int \<times> out" where
  "pad_string e len w st = (if w > len then len - 1 else w - 1, emits e 32 (nat (w - len)) st)"

definition small_digits :: cstr where
  "small_digits = [48, 49, 50, 51, 52, 53, 54, 55, 56, 57, 97, 98, 99, 100, 101, 102]"

definition large_digits :: cstr where
  "large_digits = [48, 49, 50, 51, 52, 53, 54, 55, 56, 57, 65, 66, 67, 68, 69, 70]"

text \<open>The digits in \<^verbatim>\<open>tmp\<close>, lowest first.\<close>

function number_digits :: "cstr \<Rightarrow> u32 \<Rightarrow> u32 \<Rightarrow> cstr" where
  "number_digits ds base num =
     (if num = 0 then [] else ds ! unat (fst (divide num base)) # number_digits ds base (snd (divide num base)))"
  by pat_completeness auto

termination number_digits
proof (relation "measure (\<lambda>(ds, base, num). unat num)", simp)
  fix base num :: u32 assume "num \<noteq> 0"
  then have "0 < unat num" by (simp add: unat_gt_0)
  then show "((ds, base, snd (divide num base)), ds, base, num) \<in> measure (\<lambda>(ds, base, num). unat num)" for ds :: cstr
    by (simp add: divide_def unat_div)
qed

declare number_digits.simps [simp del]

definition number_sign :: "u32 \<Rightarrow> u8 \<Rightarrow> u8 \<times> u32" where
  "number_sign num type =
     (if type AND SIGN \<noteq> 0 then
        if sint num < 0 then (45, - num) else if type AND PLUS \<noteq> 0 then (43, num)
        else if type AND SPACE \<noteq> 0 then (32, num) else (0, num)
      else (0, num))"

definition print_number :: "u32 \<Rightarrow> u32 \<Rightarrow> u32 \<Rightarrow> int \<Rightarrow> int \<Rightarrow> u8 \<Rightarrow> out \<Rightarrow> out" where
  "print_number e n base s prec typ st =
     (let digits = (if typ AND LARGE \<noteq> 0 then large_digits else small_digits);
          type = (if typ AND LEFT \<noteq> 0 then typ AND NOT ZEROPAD else typ);
          c = (if type AND ZEROPAD \<noteq> 0 then 48 else 32);
          (sign, num) = number_sign n type;
          tmp = (if num = 0 then [48] else number_digits digits base num);
          i = int (length tmp);
          precision = (if i > prec then i else prec);
          size0 = s - precision;
          (size1, st1) = (if type AND (ZEROPAD OR LEFT) = 0
             then pad_while e 32 (if sign \<noteq> 0 \<and> size0 > 0 then size0 - 1 else size0) st else (size0, st));
          (size2, st2) = (if sign \<noteq> 0 then (if fst st1 \<le> e then size1 - 1 else size1, emit e sign st1) else (size1, st1));
          (size3, st3) = (if type AND LEFT = 0 then pad_while e c size2 st2 else (size2, st2));
          st4 = emits e 48 (nat (precision - i)) st3;
          st5 = emit_list e (rev tmp) st4
      in snd (pad_while e 32 size3 st5))"

text \<open>The parts of a conversion: flags, field width, precision and qualifier.\<close>

fun parse_flags :: "cstr \<Rightarrow> u8 \<Rightarrow> u8 \<times> cstr" where
  "parse_flags [] flags = (flags, [])"
| "parse_flags (c # cs) flags =
     (if c = 45 then parse_flags cs (flags OR LEFT) else if c = 43 then parse_flags cs (flags OR PLUS)
      else if c = 32 then parse_flags cs (flags OR SPACE) else if c = 35 then parse_flags cs (flags OR SPECIAL)
      else if c = 48 then parse_flags cs (flags OR ZEROPAD) else (flags, c # cs))"

fun next_int :: "arg list \<Rightarrow> (u32 \<times> arg list) option" where
  "next_int (Arg_int v # as) = Some (v, as)"
| "next_int _ = None"

fun next_str :: "arg list \<Rightarrow> (cstr option \<times> arg list) option" where
  "next_str (Arg_str s # as) = Some (s, as)"
| "next_str _ = None"

definition parse_width :: "u8 \<Rightarrow> cstr \<Rightarrow> arg list \<Rightarrow> (int \<times> u8 \<times> cstr \<times> arg list) option" where
  "parse_width flags fmt args =
     (if isdigit (char_at fmt) then let (w, fmt1) = skip_atoi fmt 0 in Some (w, flags, fmt1, args)
      else if char_at fmt = 42 then
        do { (v, args1) \<leftarrow> next_int args;
             if sint v < 0 then Some (- sint v, flags OR LEFT, tl fmt, args1) else Some (sint v, flags, tl fmt, args1) }
      else Some (- 1, flags, fmt, args))"

definition parse_precision :: "cstr \<Rightarrow> arg list \<Rightarrow> (int \<times> cstr \<times> arg list) option" where
  "parse_precision fmt args =
     (if char_at fmt = 46 then
        let fmt1 = tl fmt
        in do { (p, fmt2, args1) \<leftarrow>
                  (if isdigit (char_at fmt1) then let (p, fmt2) = skip_atoi fmt1 0 in Some (p, fmt2, args)
                   else if char_at fmt1 = 42 then do { (v, args1) \<leftarrow> next_int args; Some (sint v, tl fmt1, args1) }
                   else Some (- 1, fmt1, args));
                Some (if p < 0 then 0 else p, fmt2, args1) }
      else Some (- 1, fmt, args))"

definition parse_qualifier :: "cstr \<Rightarrow> u8 \<times> cstr" where
  "parse_qualifier fmt = (if char_at fmt = 104 \<or> char_at fmt = 108 then (char_at fmt, tl fmt) else (0, fmt))"

text \<open>An integer argument, cut to the size of its qualifier.\<close>

definition int_arg :: "u8 \<Rightarrow> u8 \<Rightarrow> u32 \<Rightarrow> u32" where
  "int_arg qualifier flags v =
     (if qualifier = 104
      then (if flags AND SIGN \<noteq> 0 then scast (ucast v :: u16) else ucast (ucast v :: u16))
      else v)"

definition print_int :: "u32 \<Rightarrow> u32 \<Rightarrow> u8 \<Rightarrow> int \<Rightarrow> int \<Rightarrow> u8 \<Rightarrow> arg list \<Rightarrow> out \<Rightarrow> (arg list \<times> out) option" where
  "print_int e base flags w p qualifier args st =
     do { (v, args1) \<leftarrow> next_int args;
          Some (args1, print_number e (int_arg qualifier flags v) base w p flags st) }"

definition print_char :: "u32 \<Rightarrow> u8 \<Rightarrow> int \<Rightarrow> arg list \<Rightarrow> out \<Rightarrow> (arg list \<times> out) option" where
  "print_char e flags w args st =
     do { let (w1, st1) = (if flags AND LEFT = 0 then pad_char e w st else (w, st));
          (v, args1) \<leftarrow> next_int args;
          Some (args1, snd (pad_char e w1 (emit e (ucast v) st1))) }"

definition print_string :: "u32 \<Rightarrow> u8 \<Rightarrow> int \<Rightarrow> int \<Rightarrow> arg list \<Rightarrow> out \<Rightarrow> (arg list \<times> out) option" where
  "print_string e flags w p args st =
     do { (so, args1) \<leftarrow> next_str args;
          let s = (case so of Some s \<Rightarrow> s | None \<Rightarrow> [40, 78, 85, 76, 76, 41]);
          let len0 = int (rt_strlen s);
          let len = (if p > 0 \<and> len0 > p then p else len0);
          let (w1, st1) = (if flags AND LEFT = 0 then pad_string e len w st else (w, st));
          Some (args1, snd (pad_string e len w1 (emit_list e (take (nat len) s) st1))) }"

text \<open>The \<^verbatim>\<open>switch\<close> on the conversion character \<open>c\<close>.\<close>

definition convert :: "u32 \<Rightarrow> u8 \<Rightarrow> int \<Rightarrow> int \<Rightarrow> u8 \<Rightarrow> u8 \<Rightarrow> arg list \<Rightarrow> out \<Rightarrow> (arg list \<times> out) option" where
  "convert e flags w p qualifier c args st =
     (if c = 99 then print_char e flags w args st
      else if c = 115 then print_string e flags w p args st
      else if c = 112 then
        do { (v, args1) \<leftarrow> next_int args;
             let (w1, flags1) = (if w = - 1 then (8, flags OR ZEROPAD) else (w, flags));
             Some (args1, print_number e v 16 w1 p flags1 st) }
      else if c = 37 then Some (args, emit e 37 st)
      else if c = 111 then print_int e 8 flags w p qualifier args st
      else if c = 88 then print_int e 16 (flags OR LARGE) w p qualifier args st
      else if c = 120 then print_int e 16 flags w p qualifier args st
      else if c = 100 \<or> c = 105 then print_int e 10 (flags OR SIGN) w p qualifier args st
      else if c = 117 then print_int e 10 flags w p qualifier args st
      else if c \<noteq> 0 then Some (args, emit e c (emit e 37 st))
      else Some (args, emit e 37 st))"

definition parse_spec :: "cstr \<Rightarrow> arg list \<Rightarrow> (u8 \<times> int \<times> int \<times> u8 \<times> cstr \<times> arg list) option" where
  "parse_spec fmt args =
     do { let (flags, fmt1) = parse_flags fmt 0;
          (w, flags1, fmt2, args1) \<leftarrow> parse_width flags fmt1 args;
          (p, fmt3, args2) \<leftarrow> parse_precision fmt2 args1;
          let (qualifier, fmt4) = parse_qualifier fmt3;
          Some (flags1, w, p, qualifier, fmt4, args2) }"

text \<open>The loop over the format; behind the last conversion \<^verbatim>\<open>fmt\<close> stays on the terminating zero.\<close>

partial_function (option) vsnprintf_loop :: "u32 \<Rightarrow> cstr \<Rightarrow> arg list \<Rightarrow> out \<Rightarrow> out option" where
  "vsnprintf_loop e fmt args st =
     (if char_at fmt = 0 then Some st
      else if char_at fmt \<noteq> 37 then vsnprintf_loop e (tl fmt) args (emit e (char_at fmt) st)
      else do {
        (flags, w, p, qualifier, fmt1, args1) \<leftarrow> parse_spec (tl fmt) args;
        (args2, st1) \<leftarrow> convert e flags w p qualifier (char_at fmt1) args1 st;
        vsnprintf_loop e (if char_at fmt1 = 0 then fmt1 else tl fmt1) args2 st1 })"

definition buffer_end :: "u32 \<Rightarrow> u32 \<Rightarrow> u32" where
  "buffer_end buf sz = (let e = buf + sz - 1 in if e < buf then - 1 else e)"

text \<open>The result of \<^verbatim>\<open>vsnprintf\<close> is the length of the whole text, cut or not, as 32 bits.\<close>

definition vsnprintf :: "u32 \<Rightarrow> u32 \<Rightarrow> cstr \<Rightarrow> arg list \<Rightarrow> bytes \<Rightarrow> (u32 \<times> bytes) option" where
  "vsnprintf buf sz fmt args m =
     (let e = buffer_end buf sz
      in do { (str, m1) \<leftarrow> vsnprintf_loop e fmt args (buf, m);
              Some (str - buf, m1((if str \<le> e then str else e) := 0)) })"

definition rt_snprintf :: "u32 \<Rightarrow> u32 \<Rightarrow> cstr \<Rightarrow> arg list \<Rightarrow> bytes \<Rightarrow> (u32 \<times> bytes) option" where
  "rt_snprintf buf sz fmt args m = vsnprintf buf sz fmt args m"

definition rt_vsprintf :: "u32 \<Rightarrow> cstr \<Rightarrow> arg list \<Rightarrow> bytes \<Rightarrow> (u32 \<times> bytes) option" where
  "rt_vsprintf buf fmt args m = vsnprintf buf (- 1) fmt args m"

definition rt_sprintf :: "u32 \<Rightarrow> cstr \<Rightarrow> arg list \<Rightarrow> bytes \<Rightarrow> (u32 \<times> bytes) option" where
  "rt_sprintf buf fmt args m = rt_vsprintf buf fmt args m"

section \<open>Writing inside the buffer\<close>

text \<open>From \<open>st\<close> to \<open>st'\<close> the write pointer has gone at most \<open>n\<close> bytes on, and only bytes from it up to \<open>e\<close> have been
  written, as long as it cannot wrap.\<close>

definition writes :: "u32 \<Rightarrow> nat \<Rightarrow> out \<Rightarrow> out \<Rightarrow> bool" where
  "writes e n st st' \<longleftrightarrow> (unat (fst st) + n < 2 ^ 32 \<longrightarrow>
     unat (fst st) \<le> unat (fst st') \<and> unat (fst st') \<le> unat (fst st) + n \<and>
     (\<forall>x. \<not> (unat (fst st) \<le> unat x \<and> unat x \<le> unat e) \<longrightarrow> snd st' x = snd st x))"

lemma writes_refl: "writes e n st st"
  by (simp add: writes_def)

lemma writes_mono: "writes e n st st' \<Longrightarrow> n \<le> k \<Longrightarrow> writes e k st st'"
  by (auto simp: writes_def)

lemma writes_trans: "writes e n st st1 \<Longrightarrow> writes e k st1 st2 \<Longrightarrow> writes e (n + k) st st2"
proof -
  assume a: "writes e n st st1" "writes e k st1 st2"
  show ?thesis unfolding writes_def
  proof (intro impI)
    assume r: "unat (fst st) + (n + k) < 2 ^ 32"
    then have 1: "unat (fst st) \<le> unat (fst st1)" "unat (fst st1) \<le> unat (fst st) + n"
      "\<forall>x. \<not> (unat (fst st) \<le> unat x \<and> unat x \<le> unat e) \<longrightarrow> snd st1 x = snd st x" using a(1) by (simp_all add: writes_def)
    then have "unat (fst st1) + k < 2 ^ 32" using r by linarith
    then have 2: "unat (fst st1) \<le> unat (fst st2)" "unat (fst st2) \<le> unat (fst st1) + k"
      "\<forall>x. \<not> (unat (fst st1) \<le> unat x \<and> unat x \<le> unat e) \<longrightarrow> snd st2 x = snd st1 x" using a(2) unfolding writes_def by blast+
    have "snd st2 x = snd st x" if x: "\<not> (unat (fst st) \<le> unat x \<and> unat x \<le> unat e)" for x
    proof -
      have "\<not> (unat (fst st1) \<le> unat x \<and> unat x \<le> unat e)" using x 1(1) by linarith
      then show ?thesis using 1(3) 2(3) x by simp
    qed
    then show "unat (fst st) \<le> unat (fst st2) \<and> unat (fst st2) \<le> unat (fst st) + (n + k) \<and>
      (\<forall>x. \<not> (unat (fst st) \<le> unat x \<and> unat x \<le> unat e) \<longrightarrow> snd st2 x = snd st x)" using 1(1,2) 2(1,2) by simp
  qed
qed

lemma writes_emit: "writes e 1 st (emit e c st)"
  by (auto simp: writes_def emit_def unat_word_ariths word_le_nat_alt)

lemma writes_emit_list: "writes e (length cs) st (emit_list e cs st)"
proof (induction cs arbitrary: st)
  case (Cons c cs)
  from writes_trans[OF writes_emit[of e st c] Cons.IH] show ?case by simp
qed (simp add: writes_refl)

lemma writes_emits: "writes e n st (emits e c n st)"
  using writes_emit_list[of e "replicate n c" st] by (simp add: emits_def)

text \<open>A counter that padding counts down: what has been written and what the counter still allows, read by \<open>f\<close>, do not
  exceed \<open>n\<close>.\<close>

definition spent :: "u32 \<Rightarrow> nat \<Rightarrow> (int \<Rightarrow> nat) \<Rightarrow> out \<Rightarrow> int \<times> out \<Rightarrow> bool" where
  "spent e n f st0 x \<longleftrightarrow> (\<exists>k. writes e k st0 (snd x) \<and> f (fst x) + k \<le> n)"

named_theorems spent_steps

lemma spentI [spent_steps]: "f i \<le> n \<Longrightarrow> spent e n f st0 (i, st0)"
  by (auto simp: spent_def intro!: exI[of _ 0] writes_refl)

lemma spent_writes: "spent e n f st0 x \<Longrightarrow> writes e n st0 (snd x)"
  by (auto simp: spent_def intro: writes_mono)

lemma spent_step: "spent e n f st0 (i, st) \<Longrightarrow> writes e k st st' \<Longrightarrow> f j + k \<le> f i + d \<Longrightarrow> spent e (n + d) f st0 (j, st')"
proof -
  assume a: "spent e n f st0 (i, st)" "writes e k st st'" "f j + k \<le> f i + d"
  from a(1) obtain l where "writes e l st0 st" "f i + l \<le> n" by (auto simp: spent_def)
  then have "writes e (l + k) st0 st'" "f j + (l + k) \<le> n + d" using writes_trans[of e l st0 st k st'] a(2,3) by simp_all
  then show ?thesis unfolding spent_def fst_conv snd_conv by blast
qed

lemma spent_pads [spent_steps]:
  "spent e n nat st0 (i, st) \<Longrightarrow> spent e n nat st0 (pad_while e c i st)"
  "spent e n (\<lambda>w. nat (w - 1)) st0 (i, st) \<Longrightarrow> spent e n (\<lambda>w. nat (w - 1)) st0 (pad_char e i st)"
  "spent e n (\<lambda>w. nat (w - l)) st0 (i, st) \<Longrightarrow> spent e n (\<lambda>w. nat (w - l)) st0 (pad_string e l i st)"
  unfolding pad_while_def pad_char_def pad_string_def
  by (rule spent_step[OF _ writes_emits, where d = 0, unfolded add_0_right], assumption, auto)+

lemma spent_if [spent_steps]:
  "spent e n f st0 x \<Longrightarrow> spent e n f st0 y \<Longrightarrow> spent e n f st0 (if b then x else y)"
  by simp

lemma spent_less: "spent e n nat st0 (i, st) \<Longrightarrow> j \<le> i \<Longrightarrow> spent e n nat st0 (j, st)"
  by (auto simp: spent_def)

text \<open>A number has at most ten digits.\<close>

lemma number_digits_length: "unat num < 10 ^ k \<Longrightarrow> length (number_digits ds base num) \<le> k"
proof (induction k arbitrary: num)
  case 0
  then show ?case by (simp add: unat_eq_zero number_digits.simps)
next
  case (Suc k)
  have "unat num div 16 \<le> unat num div 10" by (rule div_le_mono2) simp_all
  moreover have "unat num div 10 < 10 ^ k" using Suc.prems by (simp add: less_mult_imp_div_less)
  ultimately have "unat (snd (divide num base)) < 10 ^ k" by (auto simp: divide_def unat_div)
  from Suc.IH[OF this] show ?case by (subst number_digits.simps) simp
qed

lemma writes_print_number: "writes e (nat s + nat prec + 11) st (print_number e n base s prec typ st)"
proof -
  define type where "type = (if typ AND LEFT \<noteq> 0 then typ AND NOT ZEROPAD else typ)"
  define sign where "sign = fst (number_sign n type)"
  define num where "num = snd (number_sign n type)"
  define tmp where "tmp = (if num = 0 then [48] else number_digits (if typ AND LARGE \<noteq> 0 then large_digits else small_digits) base num)"
  define i where "i = int (length tmp)"
  define pr where "pr = (if i > prec then i else prec)"
  define x1 where "x1 = (if type AND (ZEROPAD OR LEFT) = 0
    then pad_while e 32 (if sign \<noteq> 0 \<and> s - pr > 0 then s - pr - 1 else s - pr) st else (s - pr, st))"
  define x2 where "x2 = (if sign \<noteq> 0 then (if fst (snd x1) \<le> e then fst x1 - 1 else fst x1, emit e sign (snd x1)) else x1)"
  define x3 where "x3 = (if type AND LEFT = 0 then pad_while e (if type AND ZEROPAD \<noteq> 0 then 48 else 32) (fst x2) (snd x2) else x2)"
  define st4 where "st4 = emits e 48 (nat (pr - i)) (snd x3)"
  define st5 where "st5 = emit_list e (rev tmp) st4"
  have code: "print_number e n base s prec typ st = snd (pad_while e 32 (fst x3) st5)"
    unfolding print_number_def Let_def case_prod_unfold prod.collapse
    by (simp only: st5_def st4_def x3_def x2_def x1_def pr_def i_def tmp_def num_def sign_def type_def prod.collapse)
  have "unat num < 10 ^ 10" using unsigned_less[of num, where 'a = nat] by simp
  then have "length tmp \<le> 10" using number_digits_length[of num 10] by (simp add: tmp_def)
  then have i: "i \<le> 10" "0 \<le> i" by (simp_all add: i_def)
  let ?n = "nat (s - pr)"
  have 1: "spent e ?n nat st x1" unfolding x1_def by (intro spent_steps) auto
  then have 2: "spent e (?n + 1) nat st x2"
    unfolding x2_def by (cases x1) (auto simp: spent_def intro: writes_trans[OF _ writes_emit] exI dest: writes_trans[OF _ writes_emit, of _ _ _ _ sign])
  then have 3: "spent e (?n + 1) nat st x3" unfolding x3_def by (cases x2) (auto intro: spent_steps)
  have "spent e (?n + 1 + nat (pr - i)) nat st (fst x3, st4)" unfolding st4_def
    by (rule spent_step[OF _ writes_emits, where i = "fst x3"]) (use 3 in simp_all)
  then have "spent e (?n + 1 + nat (pr - i) + length tmp) nat st (fst x3, st5)" unfolding st5_def
    by (rule spent_step[where i = "fst x3" and st = st4 and k = "length tmp"]) (use writes_emit_list[of e "rev tmp" st4] in simp_all)
  then have "writes e (?n + 1 + nat (pr - i) + length tmp) st (snd (pad_while e 32 (fst x3) st5))"
    by (intro spent_writes[where f = nat] spent_pads)
  moreover have "?n + 1 + nat (pr - i) + length tmp \<le> nat s + nat prec + 11"
    using i by (auto simp: pr_def i_def)
  ultimately show ?thesis unfolding code by (rule writes_mono)
qed

text \<open>The arguments a conversion takes, and a bound for the characters it writes.\<close>

definition args_after :: "u8 \<Rightarrow> arg list \<Rightarrow> arg list option" where
  "args_after c args =
     (if c = 115 then map_option snd (next_str args)
      else if c \<in> {99, 112, 111, 88, 120, 100, 105, 117} then map_option snd (next_int args) else Some args)"

fun string_length :: "arg list \<Rightarrow> nat" where
  "string_length (Arg_str (Some s) # as) = rt_strlen s"
| "string_length _ = 0"

definition field_limit :: "u8 \<Rightarrow> int \<Rightarrow> int \<Rightarrow> arg list \<Rightarrow> nat" where
  "field_limit c w p args = nat w + nat p + 20 + (if c = 115 then string_length args else 0)"

lemma convert_returns:
  assumes af: "args_after c args = Some args'"
  shows "returns (convert e flags w p q c args st) (\<lambda>(as, st'). as = args' \<and> writes e (field_limit c w p args) st st')"
proof -
  note wr = writes_mono[OF writes_print_number]
  consider "c = 115" | "c \<in> {99, 112, 111, 88, 120, 100, 105, 117}" | "c \<notin> {115, 99, 112, 111, 88, 120, 100, 105, 117}" by blast
  then show ?thesis
  proof cases
    case 1
    then obtain so where s: "next_str args = Some (so, args')" using af by (auto simp: args_after_def)
    define str where "str = (case so of Some s \<Rightarrow> s | None \<Rightarrow> [40, 78, 85, 76, 76, 41])"
    define len where "len = (if p > 0 \<and> int (rt_strlen str) > p then p else int (rt_strlen str))"
    define x1 where "x1 = (if flags AND LEFT = 0 then pad_string e len w st else (w, st))"
    have code: "print_string e flags w p args st = Some (args', snd (pad_string e len (fst x1) (emit_list e (take (nat len) str) (snd x1))))"
      by (simp add: print_string_def s Let_def case_prod_unfold str_def len_def x1_def)
    have str: "rt_strlen str \<le> string_length args + 6"
      using s by (cases args rule: string_length.cases) (auto simp: str_def split: option.splits)
    have "spent e (nat (w - len)) (\<lambda>w. nat (w - len)) st x1" unfolding x1_def by (intro spent_steps) auto
    then have "spent e (nat (w - len) + nat len) (\<lambda>w. nat (w - len)) st (fst x1, emit_list e (take (nat len) str) (snd x1))"
      by (intro spent_step[OF _ writes_emit_list, where i = "fst x1"]) simp_all
    then have "writes e (nat (w - len) + nat len) st (snd (pad_string e len (fst x1) (emit_list e (take (nat len) str) (snd x1))))"
      by (intro spent_writes[where f = "\<lambda>w. nat (w - len)"] spent_pads)
    then have "writes e (field_limit c w p args) st (snd (pad_string e len (fst x1) (emit_list e (take (nat len) str) (snd x1))))"
      by (rule writes_mono) (use 1 str in \<open>auto simp: field_limit_def len_def\<close>)
    then show ?thesis using 1 code by (simp add: convert_def)
  next
    case 2
    then obtain v where v: "next_int args = Some (v, args')" using af by (auto simp: args_after_def)
    define x1 where "x1 = (if flags AND LEFT = 0 then pad_char e w st else (w, st))"
    have "spent e (nat (w - 1)) (\<lambda>w. nat (w - 1)) st x1" unfolding x1_def by (intro spent_steps) auto
    then have "spent e (nat (w - 1) + 1) (\<lambda>w. nat (w - 1)) st (fst x1, emit e (ucast v) (snd x1))"
      by (intro spent_step[OF _ writes_emit, where i = "fst x1"]) simp_all
    then have "writes e (nat (w - 1) + 1) st (snd (pad_char e (fst x1) (emit e (ucast v) (snd x1))))"
      by (intro spent_writes[where f = "\<lambda>w. nat (w - 1)"] spent_pads)
    then have "writes e (field_limit c w p args) st (snd (pad_char e (fst x1) (emit e (ucast v) (snd x1))))"
      by (rule writes_mono) (simp add: field_limit_def)
    then have "returns (print_char e flags w args st) (\<lambda>(as, st'). as = args' \<and> writes e (field_limit c w p args) st st')"
      by (simp add: print_char_def v Let_def case_prod_unfold x1_def)
    moreover have "returns (print_int e base fl w p q args st) (\<lambda>(as, st'). as = args' \<and> writes e (field_limit c w p args) st st')" for base fl
      by (simp add: print_int_def v wr field_limit_def)
    moreover have "writes e (field_limit c w p args) st (print_number e v 16 w1 p fl st)" if "w1 = w \<or> w1 = 8" for w1 fl
      using that by (intro wr) (auto simp: field_limit_def)
    ultimately show ?thesis using 2 by (auto simp: convert_def v Let_def case_prod_unfold)
  next
    case 3
    have "writes e (field_limit c w p args) st (emit e d st)" "writes e (field_limit c w p args) st (emit e d (emit e d' st))" for d d'
      using writes_mono[OF writes_emit] writes_mono[OF writes_trans[OF writes_emit writes_emit]] by (simp_all add: field_limit_def)
    then show ?thesis using 3 af by (auto simp: convert_def args_after_def)
  qed
qed

text \<open>The arguments fit the format: there is one of the right kind for every conversion, and no width or precision is
  beyond the range of the type.  Then \<open>text_limit\<close> bounds the length of the text.  Every round of the loop takes at
  least one character, so that the length of the format bounds the rounds.\<close>

fun limit_n :: "nat \<Rightarrow> cstr \<Rightarrow> arg list \<Rightarrow> nat option" where
  "limit_n n fmt args =
     (if char_at fmt = 0 then Some 0
      else case n of 0 \<Rightarrow> None
      | Suc n' \<Rightarrow>
        if char_at fmt \<noteq> 37 then map_option Suc (limit_n n' (tl fmt) args)
        else case parse_spec (tl fmt) args of None \<Rightarrow> None
          | Some (_, w, p, _, fmt1, args1) \<Rightarrow>
              (case args_after (char_at fmt1) args1 of None \<Rightarrow> None
               | Some args2 \<Rightarrow> if w < 2 ^ 31 \<and> p < 2 ^ 31
                   then map_option ((+) (field_limit (char_at fmt1) w p args1)) (limit_n n' (if char_at fmt1 = 0 then fmt1 else tl fmt1) args2)
                   else None))"

declare limit_n.simps [simp del]

definition text_limit :: "cstr \<Rightarrow> arg list \<Rightarrow> nat option" where
  "text_limit fmt args = limit_n (length fmt) fmt args"

lemma vsnprintf_loop_returns:
  "limit_n n fmt args = Some l \<Longrightarrow> returns (vsnprintf_loop e fmt args st) (writes e l st)"
proof (induction n fmt args arbitrary: st l rule: limit_n.induct)
  case (1 n fmt args)
  note f = "1.prems"[unfolded limit_n.simps[of n]]
  show ?case
  proof (cases "char_at fmt = 0")
    case True
    then show ?thesis by (subst vsnprintf_loop.simps) (simp add: writes_refl)
  next
    case nz: False
    then obtain n' where n: "n = Suc n'" using f by (cases n) auto
    show ?thesis
    proof (cases "char_at fmt = 37")
      case False
      then obtain l' where l': "limit_n n' (tl fmt) args = Some l'" "l = Suc l'" using f nz n by auto
      have "returns (vsnprintf_loop e (tl fmt) args (emit e (char_at fmt) st)) (writes e l' (emit e (char_at fmt) st))"
        using "1.IH"(1)[OF nz n False] l'(1) by simp
      then have "returns (vsnprintf_loop e (tl fmt) args (emit e (char_at fmt) st)) (writes e l st)"
        by (rule returns_mono) (use writes_trans[OF writes_emit] l'(2) in fastforce)
      then show ?thesis using nz False by (subst vsnprintf_loop.simps) simp
    next
      case True
      then obtain fl w p q fmt1 args1 args2 l' where sp: "parse_spec (tl fmt) args = Some (fl, w, p, q, fmt1, args1)"
        and af: "args_after (char_at fmt1) args1 = Some args2" and wp: "w < 2 ^ 31 \<and> p < 2 ^ 31"
        and rest: "limit_n n' (if char_at fmt1 = 0 then fmt1 else tl fmt1) args2 = Some l'"
        and l: "l = field_limit (char_at fmt1) w p args1 + l'"
        using f nz n by (auto split: option.splits if_splits)
      obtain st1 where cv: "convert e fl w p q (char_at fmt1) args1 st = Some (args2, st1)" "writes e (field_limit (char_at fmt1) w p args1) st st1"
        using convert_returns[OF af, of e fl w p q st] by (auto simp: returns_def)
      have "returns (vsnprintf_loop e (if char_at fmt1 = 0 then fmt1 else tl fmt1) args2 st1) (writes e l' st1)"
        by (rule "1.IH"(2)[OF nz n _ sp refl refl refl refl refl af wp rest]) (use True in simp)
      then have "returns (vsnprintf_loop e (if char_at fmt1 = 0 then fmt1 else tl fmt1) args2 st1) (writes e l st)"
        by (rule returns_mono) (use writes_trans[OF cv(2)] l in blast)
      then show ?thesis using nz True sp cv(1) by (subst vsnprintf_loop.simps) simp
    qed
  qed
qed

lemma buffer_end_eq:
  assumes "sz \<noteq> 0" "unat buf + unat sz \<le> 2 ^ 32"
  shows "buffer_end buf sz = buf + sz - 1" "unat (buf + sz - 1) = unat buf + unat sz - 1"
proof -
  have s: "unat (sz - 1) = unat sz - 1" "0 < unat sz" using assms(1) by (simp_all add: unat_minus_one unat_gt_0)
  then have "unat (buf + (sz - 1)) = unat buf + unat sz - 1" using assms(2) by (simp add: unat_word_ariths)
  then show u: "unat (buf + sz - 1) = unat buf + unat sz - 1" by (simp only: add_diff_eq)
  have "\<not> buf + sz - 1 < buf" using s(2) unfolding word_less_nat_alt u by linarith
  then show "buffer_end buf sz = buf + sz - 1" by (simp add: buffer_end_def Let_def)
qed

lemma vsnprintf_returns:
  assumes lim: "text_limit fmt args = Some n" and wrap: "unat buf + n < 2 ^ 32" and sz: "sz \<noteq> 0" "unat buf + unat sz \<le> 2 ^ 32"
  shows "returns (vsnprintf buf sz fmt args m) (\<lambda>(r, m'). unat r \<le> n \<and>
     (\<forall>x. \<not> (unat buf \<le> unat x \<and> unat x < unat buf + unat sz) \<longrightarrow> m' x = m x) \<and> m' (buf + min r (sz - 1)) = 0)"
proof -
  let ?e = "buf + sz - 1"
  have pos: "0 < unat sz" using sz(1) by (simp add: unat_gt_0)
  note e = buffer_end_eq[OF sz]
  obtain str m1 where lp: "vsnprintf_loop ?e fmt args (buf, m) = Some (str, m1)" and w: "writes ?e n (buf, m) (str, m1)"
    using vsnprintf_loop_returns[of "length fmt" fmt args n ?e "(buf, m)"] lim by (auto simp: returns_def text_limit_def)
  have str: "unat buf \<le> unat str" "unat str \<le> unat buf + n"
    and out: "\<And>x. \<not> (unat buf \<le> unat x \<and> unat x \<le> unat ?e) \<Longrightarrow> m1 x = m x" using w wrap by (auto simp: writes_def)
  have r: "unat (str - buf) = unat str - unat buf" using str(1) by (simp add: unat_sub word_le_nat_alt)
  have s1: "unat (sz - 1) = unat sz - 1" using sz(1) by (simp add: unat_minus_one)
  let ?z = "if str \<le> ?e then str else ?e"
  have z: "?z = buf + min (str - buf) (sz - 1)"
  proof (cases "str \<le> ?e")
    case True
    then have "str - buf \<le> sz - 1" using str(1) unfolding word_le_nat_alt r s1 e(2) by linarith
    then show ?thesis using True by (simp add: min_def)
  next
    case False
    then have "\<not> str - buf \<le> sz - 1" using str(1) pos unfolding word_le_nat_alt r s1 e(2) by linarith
    then show ?thesis using False by (simp add: min_def)
  qed
  have in_buf: "unat buf \<le> unat ?z \<and> unat ?z \<le> unat ?e"
    using str(1) pos e(2) by (auto simp: word_le_nat_alt)
  have code: "vsnprintf buf sz fmt args m = Some (str - buf, m1(?z := 0))"
    unfolding vsnprintf_def e(1) Let_def lp by simp
  have "(m1(?z := 0)) x = m x" if x: "\<not> (unat buf \<le> unat x \<and> unat x < unat buf + unat sz)" for x
  proof -
    have o: "\<not> (unat buf \<le> unat x \<and> unat x \<le> unat ?e)" using x pos unfolding e(2) by linarith
    have "x \<noteq> ?z"
    proof
      assume "x = ?z"
      with in_buf o show False by (simp only: simp_thms)
    qed
    then show ?thesis unfolding fun_upd_other[OF \<open>x \<noteq> ?z\<close>] by (intro out[OF o])
  qed
  moreover have "unat (str - buf) \<le> n" using str r by linarith
  moreover have "(m1(?z := 0)) (buf + min (str - buf) (sz - 1)) = 0" unfolding z[symmetric] by simp
  ultimately show ?thesis unfolding code returns_Some prod.case by blast
qed

text \<open>When the pointer wraps, the guard no longer protects the memory below the buffer: behind the last byte of the
  address space the next character is stored at address 0.\<close>

lemma emit_wraps:
  "snd (emit e d (emit e c (- 1, m))) 0 = d"
  by (simp add: emit_def)

section \<open>Decimal numbers\<close>

fun decimal :: "nat \<Rightarrow> cstr" where
  "decimal n = (if n < 10 then [48 + of_nat n] else decimal (n div 10) @ [48 + of_nat (n mod 10)])"

declare decimal.simps [simp del]

text \<open>The text of a word taken as a signed number.\<close>

definition decimal_text :: "u32 \<Rightarrow> cstr" where
  "decimal_text v = (if sint v < 0 then 45 # decimal (unat (- v)) else decimal (unat v))"

lemma small_digit: "n < 10 \<Longrightarrow> small_digits ! n = 48 + of_nat n"
proof -
  assume "n < 10"
  then have "n \<in> {0, 1, 2, 3, 4, 5, 6, 7, 8, 9}" by auto
  then show ?thesis by (auto simp: small_digits_def)
qed

lemma number_digits_decimal: "num \<noteq> 0 \<Longrightarrow> number_digits small_digits 10 num = rev (decimal (unat num))"
proof (induction "unat num" arbitrary: num rule: less_induct)
  case less
  let ?q = "num div 10"
  have pos: "0 < unat num" using less.prems by (simp add: unat_gt_0)
  have q: "unat ?q = unat num div 10" "unat (num mod 10) = unat num mod 10" by (simp_all add: unat_div unat_mod)
  have step: "number_digits small_digits 10 num = (48 + of_nat (unat num mod 10)) # number_digits small_digits 10 ?q"
    using less.prems q(2) by (subst number_digits.simps) (simp add: divide_def small_digit)
  show ?case
  proof (cases "?q = 0")
    case True
    then have "unat num < 10" using q(1) by simp
    then show ?thesis using step True by (simp add: number_digits.simps[of _ _ 0] decimal.simps[of "unat num"])
  next
    case False
    moreover have "\<not> unat num < 10" using False q(1) by (metis div_less unat_0 word_unat_eq_iff)
    moreover have "unat ?q < unat num" using pos q(1) by simp
    ultimately show ?thesis using less.hyps[of ?q] step q(1) by (simp add: decimal.simps[of "unat num"])
  qed
qed

lemma length_decimal: "n < 10 ^ k \<Longrightarrow> 0 < k \<Longrightarrow> length (decimal n) \<le> k"
proof (induction n arbitrary: k rule: decimal.induct)
  case (1 n)
  show ?case
  proof (cases "n < 10")
    case False
    obtain j where k: "k = Suc j" using "1.prems"(2) by (cases k) auto
    have "0 < j" using False "1.prems"(1) k by (cases j) auto
    moreover have "n div 10 < 10 ^ j" using "1.prems"(1) k by (simp add: less_mult_imp_div_less)
    ultimately show ?thesis using "1.IH"[OF False, of j] False k by (simp add: decimal.simps[of n])
  qed (use "1.prems" in \<open>simp add: decimal.simps[of n]\<close>)
qed

lemma isdigit_decimal: "n < 10 \<Longrightarrow> isdigit (48 + of_nat n)" "n < 10 \<Longrightarrow> uint (48 + of_nat n :: u8) = 48 + int n"
proof -
  assume "n < 10"
  then have "n \<in> {0, 1, 2, 3, 4, 5, 6, 7, 8, 9}" by auto
  then show "isdigit (48 + of_nat n)" "uint (48 + of_nat n :: u8) = 48 + int n" by (auto simp: isdigit_def)
qed

text \<open>The parser of field widths reads back what the printer of decimal numbers writes.\<close>

lemma skip_atoi_decimal:
  "skip_atoi (decimal n @ rest) i = skip_atoi rest (i * 10 ^ length (decimal n) + int n)"
proof (induction n arbitrary: i rest rule: decimal.induct)
  case (1 n)
  show ?case
  proof (cases "n < 10")
    case True
    then show ?thesis using isdigit_decimal[of n] by (simp add: decimal.simps[of n])
  next
    case False
    have m: "n mod 10 < 10" by simp
    have "skip_atoi (decimal n @ rest) i = skip_atoi ((48 + of_nat (n mod 10)) # rest) (i * 10 ^ length (decimal (n div 10)) + int (n div 10))"
      using "1.IH"[OF False] False by (simp add: decimal.simps[of n])
    also have "\<dots> = skip_atoi rest (10 * (i * 10 ^ length (decimal (n div 10)) + int (n div 10)) + int (n mod 10))"
      using isdigit_decimal[OF m] by (simp add: algebra_simps)
    also have "10 * (i * 10 ^ length (decimal (n div 10)) + int (n div 10)) + int (n mod 10) = i * 10 ^ length (decimal n) + int n"
      using False by (simp add: decimal.simps[of n] algebra_simps zmod_int zdiv_int)
    finally show ?thesis .
  qed
qed

lemma print_decimal: "print_number e v 10 (- 1) (- 1) SIGN st = emit_list e (decimal_text v) st"
proof -
  let ?n = "if sint v < 0 then - v else v"
  let ?tmp = "if ?n = 0 then [48] else number_digits small_digits 10 ?n"
  have tmp: "?tmp = rev (decimal (unat ?n))"
    using number_digits_decimal[of ?n] by (simp add: decimal.simps[of 0])
  have "decimal (unat ?n) \<noteq> []" by (subst decimal.simps) simp
  then have len: "1 \<le> int (length ?tmp)" unfolding tmp by (cases "decimal (unat ?n)") simp_all
  have sg: "number_sign v SIGN = (if sint v < 0 then 45 else 0, ?n)" by (simp add: number_sign_def)
  show ?thesis
    using len unfolding print_number_def Let_def
    by (simp add: sg pad_while_def emits_def decimal_text_def tmp number_digits_decimal decimal.simps[of 0] del: of_nat_le_0_iff)
qed

lemma emit_list_chars:
  assumes "unat s + length cs < 2 ^ 32" "unat s + length cs \<le> unat e + 1"
  shows "fst (emit_list e cs (s, m)) = s + of_nat (length cs)"
    "i < length cs \<Longrightarrow> snd (emit_list e cs (s, m)) (s + of_nat i) = cs ! i"
    "unat x < unat s \<Longrightarrow> snd (emit_list e cs (s, m)) x = m x"
proof -
  have "fst (emit_list e cs (s, m)) = s + of_nat (length cs) \<and> (\<forall>i<length cs. snd (emit_list e cs (s, m)) (s + of_nat i) = cs ! i) \<and>
     (\<forall>x. unat x < unat s \<longrightarrow> snd (emit_list e cs (s, m)) x = m x)"
    using assms
  proof (induction cs arbitrary: s m)
    case (Cons c cs)
    define m1 where "m1 = m(s := c)"
    have us: "unat (s + 1) = Suc (unat s)" using Cons.prems(1) by (simp add: unat_word_ariths)
    have em: "emit_list e (c # cs) (s, m) = emit_list e cs (s + 1, m1)" using Cons.prems(2) by (simp add: emit_def m1_def word_le_nat_alt)
    have ih: "fst (emit_list e cs (s + 1, m1)) = s + 1 + of_nat (length cs)"
      "\<And>i. i < length cs \<Longrightarrow> snd (emit_list e cs (s + 1, m1)) (s + 1 + of_nat i) = cs ! i"
      "\<And>x. unat x < Suc (unat s) \<Longrightarrow> snd (emit_list e cs (s + 1, m1)) x = m1 x"
      using Cons.IH[of "s + 1" m1] Cons.prems by (simp_all add: us)
    have "snd (emit_list e cs (s + 1, m1)) (s + of_nat i) = (c # cs) ! i" if "i < length (c # cs)" for i
      using ih(2)[of "i - 1"] ih(3)[of s] that by (cases i) (simp_all add: m1_def add.assoc)
    moreover have "snd (emit_list e cs (s + 1, m1)) x = m x" if "unat x < unat s" for x
      using ih(3)[of x] that by (auto simp: m1_def)
    ultimately show ?case unfolding em using ih(1) by (simp add: add.assoc)
  qed simp
  then show "fst (emit_list e cs (s, m)) = s + of_nat (length cs)"
    "i < length cs \<Longrightarrow> snd (emit_list e cs (s, m)) (s + of_nat i) = cs ! i"
    "unat x < unat s \<Longrightarrow> snd (emit_list e cs (s, m)) x = m x" by blast+
qed

lemma length_decimal_text: "length (decimal_text v) \<le> 11"
proof -
  have "length (decimal (unat w)) \<le> 10" for w :: u32
    using unsigned_less[of w, where 'a = nat] by (intro length_decimal) simp_all
  from this[of v] this[of "- v"] show ?thesis by (simp add: decimal_text_def)
qed

lemma abs_sint: "\<bar>sint v\<bar> = int (if sint v < 0 then unat (- v) else unat v)" for v :: u32
proof -
  have u: "uint v = sint v mod 2 ^ 32" by (subst uint_sint) (simp add: take_bit_eq_mod)
  have b: "- (2 ^ 31) \<le> sint v" "sint v < 2 ^ 31" using sint_greater_eq[of v] sint_less[of v] by simp_all
  show ?thesis
  proof (cases "sint v < 0")
    case True
    have "(- uint v) mod 2 ^ 32 = (- sint v) mod 2 ^ 32" unfolding u by (rule mod_minus_eq)
    then have "uint (- v) = (- sint v) mod 2 ^ 32" by (simp add: uint_word_ariths)
    also have "\<dots> = - sint v" using True b by (intro mod_pos_pos_trivial) simp_all
    finally have "int (unat (- v)) = - sint v" by (simp only: of_nat_unat)
    then show ?thesis using True by (simp only: if_True abs_of_neg)
  next
    case False
    have "uint v = sint v" unfolding u using False b by (intro mod_pos_pos_trivial) simp_all
    then have "int (unat v) = sint v" by (simp only: of_nat_unat)
    then have "\<bar>sint v\<bar> = int (unat v)" using False by linarith
    then show ?thesis using False by (simp only: if_False)
  qed
qed

text \<open>The format \<^verbatim>\<open>%d\<close>.\<close>

lemma vsnprintf_decimal:
  assumes sz: "12 \<le> unat sz" "unat buf + unat sz \<le> 2 ^ 32"
  shows "returns (vsnprintf buf sz [37, 100] [Arg_int v] m) (\<lambda>(r, m'). unat r = length (decimal_text v) \<and>
     (\<forall>i<unat r. m' (buf + of_nat i) = decimal_text v ! i) \<and> m' (buf + r) = 0)"
proof -
  let ?e = "buf + sz - 1" and ?t = "decimal_text v"
  have nz: "sz \<noteq> 0" using sz(1) by auto
  note e = buffer_end_eq[OF nz sz(2)]
  have len: "unat buf + length ?t < 2 ^ 32" "unat buf + length ?t \<le> unat ?e"
    using sz length_decimal_text[of v] unfolding e(2) by linarith+
  have "parse_spec [100] [Arg_int v] = Some (0, - 1, - 1, 0, [100], [Arg_int v])"
    by (simp add: parse_spec_def parse_width_def parse_precision_def parse_qualifier_def isdigit_def Let_def)
  moreover have "convert ?e 0 (- 1) (- 1) 0 100 [Arg_int v] (buf, m) = Some ([], emit_list ?e ?t (buf, m))"
    by (simp add: convert_def print_int_def int_arg_def print_decimal)
  ultimately have "vsnprintf_loop ?e [37, 100] [Arg_int v] (buf, m) = Some (emit_list ?e ?t (buf, m))"
    by (subst vsnprintf_loop.simps) (simp add: vsnprintf_loop.simps[of _ "[]"])
  then have lp: "vsnprintf_loop ?e [37, 100] [Arg_int v] (buf, m) =
      Some (fst (emit_list ?e ?t (buf, m)), snd (emit_list ?e ?t (buf, m)))" by simp
  note ch = emit_list_chars[OF len(1) trans_le_add1[OF len(2)], where m = m]
  let ?m = "snd (emit_list ?e ?t (buf, m))" and ?n = "of_nat (length ?t) :: u32"
  have un: "unat (of_nat j :: u32) = j" if "j \<le> length ?t" for j
    using that length_decimal_text[of v] by (simp add: unat_of_nat take_bit_nat_eq_self)
  have "unat (buf + ?n) = unat buf + length ?t" using len(1) un[of "length ?t"] by (simp add: unat_word_ariths)
  then have "buf + ?n \<le> ?e" using len(2) by (simp only: word_le_nat_alt)
  then have code: "vsnprintf buf sz [37, 100] [Arg_int v] m = Some (?n, ?m(buf + ?n := 0))"
    unfolding vsnprintf_def e(1) Let_def lp by (simp add: ch(1))
  have "(?m(buf + ?n := 0)) (buf + of_nat i) = ?t ! i" if "i < length ?t" for i
  proof -
    have "(of_nat i :: u32) \<noteq> ?n" using un[of i] un[of "length ?t"] that by (metis less_imp_le nat_neq_iff order_refl)
    then show ?thesis using ch(2)[OF that] by simp
  qed
  then show ?thesis unfolding code by (simp add: un)
qed

end
