(* ===== verification/Service_Props.thy ===== *)
theory Service_Props
  imports Printf
begin

text \<open>The theorems on formatted printing.\<close>



text \<open>\<^verbatim>\<open>%d\<close> prints the decimal digits of the signed number: in a buffer of at least 12 bytes the text is complete,
  and reading the digits back with \<^verbatim>\<open>skip_atoi\<close> gives the absolute value of the number.\<close>

theorem printf_decimal_round_trip:
  assumes "12 \<le> unat sz" "unat buf + unat sz \<le> 2 ^ 32"
  shows "returns (vsnprintf buf sz [37, 100] [Arg_int v] m) (\<lambda>(r, m').
     (let t = map (\<lambda>i. m' (buf + of_nat i)) [0..<unat r]
      in m' (buf + r) = 0 \<and> fst (skip_atoi (if sint v < 0 then tl t else t) 0) = \<bar>sint v\<bar> \<and> (sint v < 0 \<longrightarrow> hd t = 45)))"
proof -
  have d: "fst (skip_atoi (decimal n) 0) = int n" for n using skip_atoi_decimal[of n "[]" 0] by simp
  have val: "fst (skip_atoi (if sint v < 0 then tl (decimal_text v) else decimal_text v) 0) = \<bar>sint v\<bar>"
    by (simp add: decimal_text_def d abs_sint)
  show ?thesis
  proof (rule returns_mono[OF vsnprintf_decimal[OF assms]], clarify)
    fix r m' assume m': "unat r = length (decimal_text v)" "\<forall>i<unat r. m' (buf + of_nat i) = decimal_text v ! i" "m' (buf + r) = 0"
    have t: "map (\<lambda>i. m' (buf + of_nat i)) [0..<unat r] = decimal_text v"
      using m'(1,2) by (intro nth_equalityI) simp_all
    show "let t = map (\<lambda>i. m' (buf + of_nat i)) [0..<unat r]
      in m' (buf + r) = 0 \<and>
         fst (skip_atoi (if sint v < 0 then tl t else t) 0) = \<bar>sint v\<bar> \<and> (sint v < 0 \<longrightarrow> hd t = 45)"
      unfolding t Let_def using m'(3) val by (simp add: decimal_text_def)
  qed
qed

theorem printf_decimal_round_trip_witness:
  "returns (vsnprintf 100 16 [37, 100] [Arg_int (- 42)] (\<lambda>_. 7)) (\<lambda>(r, m').
     (let t = map (\<lambda>i. m' (100 + of_nat i)) [0..<unat r]
      in m' (100 + r) = 0 \<and> fst (skip_atoi (tl t) 0) = 42 \<and> hd t = 45))"
  by (rule returns_mono[OF printf_decimal_round_trip[of 16 100 "- 42" "\<lambda>_. 7"]]) (auto simp: Let_def)

end
