(* ===== verification/Ring_Index.thy ===== *)
theory Ring_Index
  imports Fifo_Spec
begin

unbundle bit_operations_syntax

text \<open>
  Arrays used as rings: running 16 bit indices whose low bits, selected by the mask \<^verbatim>\<open>size - 1\<close>, are
  positions in the array.  The ring buffer, the data queue and the serial buffers of the driver
  framework share these facts.
\<close>

section \<open>Masks\<close>

text \<open>A size whose mask works: a power of two.\<close>

definition pow2 :: "nat \<Rightarrow> bool" where
  "pow2 n \<longleftrightarrow> (\<exists>j. n = 2 ^ j)"

lemma pow2_pos: "pow2 n \<Longrightarrow> 0 < n"
  by (auto simp: pow2_def)

lemma mask_mod:
  fixes x s :: u16
  assumes "pow2 (unat s)"
  shows "unat (x AND (s - 1)) = unat x mod unat s"
proof -
  obtain j where j: "unat s = 2 ^ j" using assms by (auto simp: pow2_def)
  have "s = of_nat (unat s)" by simp
  also have "\<dots> = 2 ^ j" by (subst j) simp
  finally have "s = 2 ^ j" .
  then have "x AND (s - 1) = take_bit j x" by (simp add: take_bit_eq_mask mask_eq_exp_minus_1)
  then have "unat (x AND (s - 1)) = take_bit j (unat x)" by (simp add: unsigned_take_bit_eq)
  then show ?thesis using j by (simp add: take_bit_eq_mod)
qed

lemma pow2_dvd:
  fixes s :: u16
  assumes "pow2 (unat s)"
  shows "unat s dvd 65536"
proof -
  obtain j where j: "unat s = 2 ^ j" using assms by (auto simp: pow2_def)
  have "(2 :: nat) ^ j < 2 ^ 16" using j unsigned_less[of s, where 'a = nat] by simp
  then have "j \<le> 16" using power_strict_increasing_iff[of "2 :: nat" j 16] by simp
  then have "(2 :: nat) ^ j dvd 2 ^ 16" by (rule le_imp_power_dvd)
  then show ?thesis using j by simp
qed

text \<open>Advancing an index wraps at 16 bits, which the position does not notice.\<close>

lemma add_mod_size:
  fixes x s :: u16
  assumes "pow2 (unat s)"
  shows "unat (x + of_nat n) mod unat s = (unat x + n) mod unat s"
proof -
  have "unat (x + of_nat n) = (unat x + n) mod 65536" by (simp add: unat_word_ariths unat_of_nat mod_simps)
  then show ?thesis using mod_mod_cancel[OF pow2_dvd[OF assms]] by simp
qed

lemma unat_diff_add:
  fixes w r :: u16
  assumes "unat (w - r) + n < 65536"
  shows "unat (w + of_nat n - r) = unat (w - r) + n"
proof -
  have "w + of_nat n - r = (w - r) + of_nat n" by simp
  also have "unat \<dots> = unat (w - r) + n" using assms by (simp add: unat_word_ariths unat_of_nat)
  finally show ?thesis .
qed

lemma unat_diff_sub:
  fixes w r :: u16
  assumes "n \<le> unat (w - r)"
  shows "unat (w - (r + of_nat n)) = unat (w - r) - n"
proof -
  have n: "unat (of_nat n :: u16) = n"
    using assms unsigned_less[of "w - r", where 'a = nat] by (simp add: unat_of_nat)
  then have "(of_nat n :: u16) \<le> w - r" using assms by (simp add: word_le_nat_alt)
  then have "unat ((w - r) - of_nat n) = unat (w - r) - n" using n by (simp add: unat_sub)
  then show ?thesis by (simp add: diff_diff_eq)
qed

text \<open>The difference of two indices as the \<^verbatim>\<open>int\<close> the C expression computes.\<close>

lemma index_diff_int: "uint w - uint r = (if r \<le> w then int (unat (w - r)) else int (unat (w - r)) - 65536)" for w r :: u16
proof (cases "r \<le> w")
  case True
  then show ?thesis by (simp add: unat_sub word_le_nat_alt of_nat_diff)
next
  case False
  then have "unat w < unat r" by (simp add: word_le_nat_alt)
  then show ?thesis using False unsigned_less[of r, where 'a = nat] by (simp add: unat_sub_if' )
qed

section \<open>Windows\<close>

text \<open>The \<open>n\<close> entries of the ring from position \<open>r\<close> on.\<close>

definition window :: "'a list \<Rightarrow> nat \<Rightarrow> nat \<Rightarrow> 'a list" where
  "window xs r n = map (\<lambda>i. xs ! ((r + i) mod length xs)) [0..<n]"

lemma length_window [simp]: "length (window xs r n) = n"
  by (simp add: window_def)

lemma window_0 [simp]: "window xs r 0 = []"
  by (simp add: window_def)

lemma nth_window [simp]: "i < n \<Longrightarrow> window xs r n ! i = xs ! ((r + i) mod length xs)"
  by (simp add: window_def)

lemma window_cong: "r mod length xs = r' mod length xs \<Longrightarrow> window xs r n = window xs r' n"
  unfolding window_def by (intro map_cong refl arg_cong[of _ _ "(!) xs"]) (metis mod_add_left_eq)

lemma window_add: "window xs r (n + m) = window xs r n @ window xs (r + n) m"
  by (rule nth_equalityI) (auto simp: nth_append add.assoc)

lemma take_window: "m \<le> n \<Longrightarrow> take m (window xs r n) = window xs r m"
  by (rule nth_equalityI) auto

lemma drop_window: "m \<le> n \<Longrightarrow> drop m (window xs r n) = window xs (r + m) (n - m)"
  by (rule nth_equalityI) (auto simp: add.assoc)

lemma window_Cons: "0 < n \<Longrightarrow> window xs r n = xs ! (r mod length xs) # window xs (Suc r) (n - 1)"
  using window_add[of xs r 1 "n - 1"] by (simp add: window_def)

text \<open>Writing behind the window: the positions it covers are not touched.\<close>

lemma mod_window_inj:
  fixes L :: nat
  assumes "i < L" "j < L" "(r + i) mod L = (r + j) mod L"
  shows "i = j"
proof (rule ccontr)
  have *: "False" if "a < b" "b < L" "(r + a) mod L = (r + b) mod L" for a b
  proof -
    have "L dvd (r + b) - (r + a)" using that(1,3) by (intro mod_eq_dvd_iff_nat[THEN iffD1]) simp_all
    then show False using that(1,2) by (auto dest: dvd_imp_le)
  qed
  assume "i \<noteq> j"
  then consider "i < j" | "j < i" by linarith
  then show False using *[of i j] *[of j i] assms by cases auto
qed

lemma window_put:
  assumes "length xs' = length xs" "n + length vs \<le> length xs"
    "\<And>i. i < length vs \<Longrightarrow> xs' ! ((r + n + i) mod length xs) = vs ! i"
    "\<And>i. i < n \<Longrightarrow> xs' ! ((r + i) mod length xs) = xs ! ((r + i) mod length xs)"
  shows "window xs' r (n + length vs) = window xs r n @ vs"
proof (rule nth_equalityI)
  fix i assume "i < length (window xs' r (n + length vs))"
  then have i: "i < n + length vs" by simp
  show "window xs' r (n + length vs) ! i = (window xs r n @ vs) ! i"
  proof (cases "i < n")
    case False
    then show ?thesis using i assms(1) assms(3)[of "i - n"] by (simp add: nth_append)
  qed (use i assms in \<open>simp add: nth_append\<close>)
qed simp

lemma window_snoc:
  assumes "n < length xs" "p = (r + n) mod length xs"
  shows "window (xs[p := v]) r (Suc n) = window xs r n @ [v]"
proof -
  have L: "0 < length xs" using assms(1) by linarith
  have "p \<noteq> (r + i) mod length xs" if "i < n" for i
    using mod_window_inj[of i "length xs" n r] that assms by auto
  moreover have "p < length xs" using L assms(2) by simp
  ultimately show ?thesis using window_put[of "xs[p := v]" xs n "[v]" r] assms by simp
qed

section \<open>Blocks of an array\<close>

text \<open>A copy of \<open>n\<close> elements of \<open>src\<close> into \<open>xs\<close> from position \<open>p\<close> on, by \<^verbatim>\<open>memcpy\<close>.  The count is a C \<^verbatim>\<open>int\<close>;
  a negative one, or one that leaves either array, is a fault.\<close>

definition memcpy_at :: "'a list \<Rightarrow> nat \<Rightarrow> 'a list \<Rightarrow> int \<Rightarrow> 'a list option" where
  "memcpy_at xs p src n =
     (if 0 \<le> n \<and> nat n \<le> length src \<and> p + nat n \<le> length xs
      then Some (take p xs @ take (nat n) src @ drop (p + nat n) xs) else None)"

definition memcpy_from :: "'a list \<Rightarrow> nat \<Rightarrow> int \<Rightarrow> 'a list option" where
  "memcpy_from xs p n = (if 0 \<le> n \<and> p + nat n \<le> length xs then Some (take (nat n) (drop p xs)) else None)"

lemma nth_block:
  assumes "p + m \<le> length xs" "m \<le> length vs" "i < length xs"
  shows "(take p xs @ take m vs @ drop (p + m) xs) ! i = (if p \<le> i \<and> i < p + m then vs ! (i - p) else xs ! i)"
  using assms by (auto simp: nth_append min_def)

text \<open>The two copies of a write that passes the end of the array.\<close>

lemma mod_past_end: "p < L \<Longrightarrow> L - p \<le> i \<Longrightarrow> i < L \<Longrightarrow> (p + i) mod L = i - (L - p)" for p L :: nat
  by (cases "p + i < L") (simp_all add: mod_if add.commute)

lemma nth_two_blocks:
  assumes "p < length xs" "length xs - p \<le> m" "m \<le> length xs" "m \<le> length vs" "i < length xs"
  defines "c \<equiv> length xs - p"
  defines "ys \<equiv> take p xs @ take c vs"
  shows "(take (m - c) (drop c vs) @ drop (m - c) ys) ! ((p + i) mod length xs) =
         (if i < m then vs ! i else xs ! ((p + i) mod length xs))"
proof -
  have mc: "m - c \<le> p" "c \<le> length vs" "length ys = length xs" using assms(1-4) by (auto simp: c_def ys_def)
  have len: "length (take (m - c) (drop c vs)) = m - c" using assms(4) by simp
  show ?thesis
  proof (cases "i < c")
    case True
    then have e: "(p + i) mod length xs = p + i" unfolding c_def by simp
    have "ys ! (p + i) = vs ! i" using True mc assms(1) by (simp add: ys_def nth_append)
    moreover have "i < m" using True assms(2) by (simp add: c_def)
    moreover have "\<not> p + i < m - c" "m - c + (p + i - (m - c)) = p + i" using mc(1) by linarith+
    ultimately show ?thesis using mc len assms(5) True by (simp add: e nth_append c_def)
  next
    case False
    then have e: "(p + i) mod length xs = i - c" using mod_past_end[of p "length xs" i] assms(1,5) by (simp add: c_def)
    have lt: "i - c < p" using False assms(1,5) unfolding c_def by arith
    have il: "m - c \<le> length ys" using mc assms(1) by linarith
    have y: "ys ! (i - c) = xs ! (i - c)" using lt assms(1) by (simp add: ys_def nth_append)
    show ?thesis
    proof (cases "i < m")
      case True
      then have "i - c < m - c" using False by linarith
      then show ?thesis using True False len mc by (simp add: e nth_append)
    next
      case F: False
      then have "\<not> i - c < m - c" "m - c + (i - c - (m - c)) = i - c" using False by linarith+
      then have "(take (m - c) (drop c vs) @ drop (m - c) ys) ! (i - c) = ys ! (i - c)"
        using len nth_drop[OF il] by (simp only: nth_append if_False)
      then show ?thesis using F y by (simp add: e)
    qed
  qed
qed

lemma window_block:
  assumes "p + n \<le> length xs"
  shows "window xs p n = take n (drop p xs)"
proof (rule nth_equalityI)
  fix i assume "i < length (window xs p n)"
  then show "window xs p n ! i = take n (drop p xs) ! i" using assms by simp
qed (use assms in simp)

lemma window_two_blocks:
  assumes "p < length xs" "length xs - p \<le> n" "n \<le> length xs"
  shows "window xs p n = drop p xs @ take (n - (length xs - p)) xs"
proof (rule nth_equalityI)
  fix i assume "i < length (window xs p n)"
  then show "window xs p n ! i = (drop p xs @ take (n - (length xs - p)) xs) ! i"
    using assms mod_past_end[of p "length xs" i] by (cases "i < length xs - p") (simp_all add: nth_append)
qed (use assms in simp)

end
