(* ===== verification/Ring_Buffer.thy ===== *)
theory Ring_Buffer
  imports Ring_Index
begin

unbundle bit_operations_syntax

text \<open>
  The ring buffer of the driver framework, \<^verbatim>\<open>components/drivers/src/ringbuffer.c\<close>.  The memory behind
  \<^verbatim>\<open>buffer_ptr\<close> is the list \<open>rb_buffer\<close>; an access outside it gives \<open>None\<close>.  Index arithmetic is written
  with the promotions of C: a difference of two 16 bit indices is an \<^verbatim>\<open>int\<close>.
\<close>

section \<open>The code\<close>

record rt_ringbuffer =
  rb_read_index :: u16
  rb_write_index :: u16
  rb_buffer :: "u8 list"
  rb_size :: u16

definition rt_ringbuffer_init :: "u8 list \<Rightarrow> u16 \<Rightarrow> rt_ringbuffer" where
  "rt_ringbuffer_init pool sz =
     \<lparr>rb_read_index = 0, rb_write_index = 0, rb_buffer = pool, rb_size = rt_align_down sz\<rparr>"

text \<open>The argument \<open>ptr\<close> is the list of the bytes that can be read through the pointer.\<close>

definition rt_ringbuffer_put :: "u8 list \<Rightarrow> u16 \<Rightarrow> rt_ringbuffer \<Rightarrow> (u32 \<times> rt_ringbuffer) option" where
  "rt_ringbuffer_put ptr len rb =
     (let mask = rb_size rb - 1;
          sz = rb_size rb - (rb_write_index rb - rb_read_index rb)
      in if sz = 0 then Some (0, rb)
         else do {
           let len = (if sz < len then sz else len);
           let wp = rb_write_index rb AND mask;
           let room = uint (rb_size rb) - uint wp;
           buf \<leftarrow> (if room > uint len then memcpy_at (rb_buffer rb) (unat wp) ptr (uint len)
                  else do { b1 \<leftarrow> memcpy_at (rb_buffer rb) (unat wp) ptr room;
                            memcpy_at b1 0 (drop (nat room) ptr) (uint len - room) });
           Some (ucast len, rb\<lparr>rb_buffer := buf, rb_write_index := rb_write_index rb + len\<rparr>) })"

definition rt_ringbuffer_putchar :: "u8 \<Rightarrow> rt_ringbuffer \<Rightarrow> (u32 \<times> rt_ringbuffer) option" where
  "rt_ringbuffer_putchar ch rb =
     (let mask = rb_size rb - 1
      in if uint (rb_write_index rb) - uint (rb_read_index rb) = uint (rb_size rb) then Some (0, rb)
         else let p = unat (rb_write_index rb AND mask)
              in if p < length (rb_buffer rb)
                 then Some (1, rb\<lparr>rb_buffer := (rb_buffer rb)[p := ch], rb_write_index := rb_write_index rb + 1\<rparr>)
                 else None)"

text \<open>The bytes stored through \<^verbatim>\<open>ptr\<close> are the second result.  The number of stored bytes is computed in the
  32 bit type \<^verbatim>\<open>rt_size_t\<close>.\<close>

definition rt_ringbuffer_get :: "u16 \<Rightarrow> rt_ringbuffer \<Rightarrow> (u32 \<times> u8 list \<times> rt_ringbuffer) option" where
  "rt_ringbuffer_get len rb =
     (let mask = rb_size rb - 1;
          sz = (word_of_int (uint (rb_write_index rb) - uint (rb_read_index rb)) :: u32)
      in if sz = 0 then Some (0, [], rb)
         else do {
           let len = (if sz < ucast len then ucast sz else len);
           let rp = rb_read_index rb AND mask;
           let room = uint (rb_size rb) - uint rp;
           out \<leftarrow> (if room \<ge> uint len then memcpy_from (rb_buffer rb) (unat rp) (uint len)
                  else do { o1 \<leftarrow> memcpy_from (rb_buffer rb) (unat rp) room;
                            o2 \<leftarrow> memcpy_from (rb_buffer rb) 0 (uint len - uint (rb_size rb) + uint rp);
                            Some (o1 @ o2) });
           Some (ucast len, out, rb\<lparr>rb_read_index := rb_read_index rb + len\<rparr>) })"

definition rt_ringbuffer_getchar :: "rt_ringbuffer \<Rightarrow> (u32 \<times> u8 option \<times> rt_ringbuffer) option" where
  "rt_ringbuffer_getchar rb =
     (if rb_read_index rb = rb_write_index rb then Some (0, None, rb)
      else let mask = rb_size rb - 1; p = unat (rb_read_index rb AND mask)
           in if p < length (rb_buffer rb)
              then Some (1, Some (rb_buffer rb ! p), rb\<lparr>rb_read_index := rb_read_index rb + 1\<rparr>)
              else None)"

definition rt_ringbuffer_get_size :: "rt_ringbuffer \<Rightarrow> u16" where
  "rt_ringbuffer_get_size rb = rb_size rb"

section \<open>The queue it holds\<close>

definition rb_count :: "rt_ringbuffer \<Rightarrow> nat" where
  "rb_count rb = unat (rb_write_index rb - rb_read_index rb)"

definition rb_ok :: "rt_ringbuffer \<Rightarrow> bool" where
  "rb_ok rb \<longleftrightarrow> pow2 (unat (rb_size rb)) \<and> length (rb_buffer rb) = unat (rb_size rb) \<and> rb_count rb \<le> unat (rb_size rb)"

definition rb_contents :: "rt_ringbuffer \<Rightarrow> u8 list" where
  "rb_contents rb = window (rb_buffer rb) (unat (rb_read_index rb)) (rb_count rb)"

text \<open>The difference of the indices does not wrap.\<close>

definition rb_unwrapped :: "rt_ringbuffer \<Rightarrow> bool" where
  "rb_unwrapped rb \<longleftrightarrow> rb_read_index rb \<le> rb_write_index rb"

lemma length_rb_contents [simp]: "length (rb_contents rb) = rb_count rb"
  by (simp add: rb_contents_def)

lemma length_buffer: "rb_ok rb \<Longrightarrow> length (rb_buffer rb) = unat (rb_size rb)"
  by (simp add: rb_ok_def)

lemma rb_init_ok:
  assumes "pow2 (unat sz)" "4 \<le> unat sz" "length pool = unat sz"
  shows "rb_ok (rt_ringbuffer_init pool sz)" "rb_contents (rt_ringbuffer_init pool sz) = []"
    "rb_size (rt_ringbuffer_init pool sz) = sz"
proof -
  obtain j where j: "unat sz = 2 ^ j" using assms(1) by (auto simp: pow2_def)
  have "(2 :: nat) ^ 2 \<le> 2 ^ j" using assms(2) j by simp
  then have "2 \<le> j" using power_increasing_iff[of "2 :: nat" 2 j] by simp
  then have dvd: "(2 :: nat) ^ 2 dvd 2 ^ j" by (rule le_imp_power_dvd)
  have "unat (sz AND (4 - 1)) = unat sz mod unat (4 :: u16)" by (rule mask_mod) (auto simp: pow2_def intro: exI[of _ 2])
  then have "sz AND 3 = 0" using dvd j by (simp add: word_unat_eq_iff dvd_eq_mod_eq_0)
  then have no: "\<not> (bit sz n \<and> bit (3 :: u16) n)" for n by (metis bit_0_eq bit_and_iff bot_apply bot_bool_def)
  have "sz AND NOT 3 = sz"
  proof (rule bit_eqI)
    fix n show "bit (sz AND NOT 3) n = bit sz n"
      unfolding bit_and_iff bit_not_iff using no[of n] impossible_bit[where a = sz and n = n] by blast
  qed
  then show "rb_size (rt_ringbuffer_init pool sz) = sz" by (simp add: rt_ringbuffer_init_def rt_align_down_def)
  then show "rb_ok (rt_ringbuffer_init pool sz)" using assms by (simp add: rb_ok_def rt_ringbuffer_init_def rb_count_def)
  show "rb_contents (rt_ringbuffer_init pool sz) = []"
    by (simp add: rb_contents_def rt_ringbuffer_init_def rb_count_def)
qed

section \<open>Single characters\<close>

lemma putchar_room:
  assumes ok: "rb_ok rb" and room: "rb_count rb < unat (rb_size rb)"
  shows "returns (rt_ringbuffer_putchar ch rb) (\<lambda>(n, rb'). n = 1 \<and> rb_ok rb' \<and> rb_contents rb' = rb_contents rb @ [ch] \<and>
     rb_size rb' = rb_size rb \<and> rb_read_index rb' = rb_read_index rb)"
proof -
  let ?w = "rb_write_index rb" and ?r = "rb_read_index rb" and ?L = "unat (rb_size rb)"
  have p2: "pow2 ?L" and len: "length (rb_buffer rb) = ?L" using ok by (simp_all add: rb_ok_def)
  have pos: "0 < ?L" by (rule pow2_pos[OF p2])
  have L: "?L < 65536" using unsigned_less[of "rb_size rb", where 'a = nat] by simp
  have notfull: "uint ?w - uint ?r \<noteq> uint (rb_size rb)"
    using room unsigned_less[of "?w - ?r", where 'a = int] uint_ge_0[of "rb_size rb"]
    by (auto simp: index_diff_int rb_count_def word_less_nat_alt[symmetric] word_less_def)
  define p where "p = unat (?w AND (rb_size rb - 1))"
  have p: "p = unat ?w mod ?L" unfolding p_def by (rule mask_mod[OF p2])
  have "unat (?r + of_nat (rb_count rb)) mod ?L = (unat ?r + rb_count rb) mod ?L" by (rule add_mod_size[OF p2])
  then have pw: "p = (unat ?r + rb_count rb) mod ?L" by (simp add: p rb_count_def)
  let ?rb = "rb\<lparr>rb_buffer := (rb_buffer rb)[p := ch], rb_write_index := ?w + 1\<rparr>"
  have pl: "p < ?L" using p pos by simp
  have c: "rb_count ?rb = Suc (rb_count rb)"
    using unat_diff_add[of ?w ?r 1] room L by (simp add: rb_count_def)
  have ring: "rb_buffer ?rb = (rb_buffer rb)[p := ch]" by simp
  have "rb_contents ?rb = rb_contents rb @ [ch]"
    unfolding rb_contents_def c ring using window_snoc[of "rb_count rb" "rb_buffer rb" p "unat ?r" ch] pw room
    by (simp add: length_buffer[OF ok])
  moreover have "rb_ok ?rb" using ok room c by (simp add: rb_ok_def)
  moreover have "rt_ringbuffer_putchar ch rb = Some (1, ?rb)"
    using notfull pl len by (simp add: rt_ringbuffer_putchar_def p_def Let_def)
  ultimately show ?thesis by simp
qed

lemma putchar_full:
  assumes "rb_ok rb" "rb_count rb = unat (rb_size rb)" "rb_unwrapped rb"
  shows "rt_ringbuffer_putchar ch rb = Some (0, rb)"
  using assms by (simp add: rt_ringbuffer_putchar_def index_diff_int rb_count_def rb_unwrapped_def)

lemma getchar_some:
  assumes ok: "rb_ok rb" and c: "rb_contents rb = v # vs"
  shows "returns (rt_ringbuffer_getchar rb) (\<lambda>(n, ch, rb'). n = 1 \<and> ch = Some v \<and> rb_ok rb' \<and> rb_contents rb' = vs \<and>
     rb_size rb' = rb_size rb)"
proof -
  let ?w = "rb_write_index rb" and ?r = "rb_read_index rb" and ?L = "unat (rb_size rb)"
  have p2: "pow2 ?L" and len: "length (rb_buffer rb) = ?L" using ok by (simp_all add: rb_ok_def)
  have pos: "0 < ?L" by (rule pow2_pos[OF p2])
  have n: "rb_count rb = Suc (length vs)" using c by (metis length_rb_contents length_Cons)
  then have ne: "?r \<noteq> ?w" by (auto simp: rb_count_def)
  let ?rb = "rb\<lparr>rb_read_index := ?r + 1\<rparr>"
  have cnt: "rb_count ?rb = length vs" using unat_diff_sub[of 1 ?w ?r] n by (simp add: rb_count_def)
  have win: "rb_contents rb = rb_buffer rb ! (unat ?r mod ?L) # window (rb_buffer rb) (Suc (unat ?r)) (length vs)"
    using window_Cons[of "rb_count rb" "rb_buffer rb" "unat ?r"] n by (simp add: rb_contents_def length_buffer[OF ok])
  have "window (rb_buffer rb) (unat (?r + 1)) (length vs) = window (rb_buffer rb) (Suc (unat ?r)) (length vs)"
    using add_mod_size[OF p2, of ?r 1] by (intro window_cong) (simp add: length_buffer[OF ok])
  then have "rb_contents ?rb = vs" using win c cnt by (simp add: rb_contents_def)
  moreover have "rb_ok ?rb" using ok cnt n by (simp add: rb_ok_def)
  moreover have "rt_ringbuffer_getchar rb = Some (1, Some v, ?rb)"
    using ne len pos win c mask_mod[OF p2, of ?r]
    by (simp add: rt_ringbuffer_getchar_def Let_def)
  ultimately show ?thesis by simp
qed

lemma getchar_empty: "rb_contents rb = [] \<Longrightarrow> rt_ringbuffer_getchar rb = Some (0, None, rb)"
  using length_rb_contents[of rb] by (simp add: rt_ringbuffer_getchar_def rb_count_def unat_eq_zero)

text \<open>The character operations keep the contract of a bounded queue.\<close>

definition rb_put1 :: "u8 \<Rightarrow> rt_ringbuffer \<Rightarrow> rt_ringbuffer" where
  "rb_put1 ch rb = snd (the (rt_ringbuffer_putchar ch rb))"

definition rb_get1 :: "rt_ringbuffer \<Rightarrow> u8 \<times> rt_ringbuffer" where
  "rb_get1 rb = (case the (rt_ringbuffer_getchar rb) of (n, ch, rb') \<Rightarrow> (the ch, rb'))"

interpretation rb_fifo: fifo rb_ok rb_contents "\<lambda>rb. unat (rb_size rb)" "\<lambda>_ _. True" rb_put1 rb_get1
proof
  fix s v assume "rb_ok s" "length (rb_contents s) < unat (rb_size s)"
  then show "rb_ok (rb_put1 v s) \<and> rb_contents (rb_put1 v s) = rb_contents s @ [v] \<and>
      unat (rb_size (rb_put1 v s)) = unat (rb_size s) \<and> (\<lambda>_. True) = (\<lambda>_. True)"
    using putchar_room[of s v] by (auto simp: rb_put1_def returns_def)
next
  fix s v vs assume "rb_ok s" "rb_contents s = v # vs"
  then show "fst (rb_get1 s) = v \<and> rb_ok (snd (rb_get1 s)) \<and> rb_contents (snd (rb_get1 s)) = vs \<and>
      unat (rb_size (snd (rb_get1 s))) = unat (rb_size s)"
    using getchar_some[of s v vs] by (auto simp: rb_get1_def returns_def)
qed

section \<open>Blocks of bytes\<close>

lemma memcpy_at_put:
  assumes "length xs = L" "p < L" "m \<le> L" "m \<le> length vs"
  obtains ys where "(if int L - int p > int m then memcpy_at xs p vs (int m)
      else do { b1 \<leftarrow> memcpy_at xs p vs (int L - int p);
                memcpy_at b1 0 (drop (nat (int L - int p)) vs) (int m - (int L - int p)) }) = Some ys"
    "length ys = L" "\<And>i. i < L \<Longrightarrow> ys ! ((p + i) mod L) = (if i < m then vs ! i else xs ! ((p + i) mod L))"
proof (cases "p + m < L")
  case True
  let ?ys = "take p xs @ take m vs @ drop (p + m) xs"
  have "?ys ! ((p + i) mod L) = (if i < m then vs ! i else xs ! ((p + i) mod L))" if i: "i < L" for i
  proof (cases "p + i < L")
    case False
    then have "(p + i) mod L = i - (L - p)" using mod_past_end[OF assms(2) _ i] by simp
    moreover have "i - (L - p) < p" "\<not> i < m" using False True i by linarith+
    ultimately show ?thesis using assms True by (subst nth_block) auto
  qed (use assms True in \<open>subst nth_block, auto\<close>)
  moreover have "int L - int p > int m" using True by linarith
  ultimately show thesis using that[of ?ys] assms True by (auto simp: memcpy_at_def)
next
  case False
  define c where "c = L - p"
  let ?b = "take p xs @ take c vs" let ?ys = "take (m - c) (drop c vs) @ drop (m - c) ?b"
  have c: "int L - int p = int c" "c \<le> m" "p + c = L" using assms(2) False by (auto simp: c_def)
  have m1: "memcpy_at xs p vs (int c) = Some ?b" using assms c by (simp add: memcpy_at_def)
  have m2: "memcpy_at ?b 0 (drop c vs) (int m - int c) = Some ?ys"
  proof -
    have "m - c \<le> length vs - c" "m - c \<le> L" using assms by linarith+
    then show ?thesis using assms c by (simp add: memcpy_at_def nat_diff_distrib)
  qed
  have m3: "?ys ! ((p + i) mod L) = (if i < m then vs ! i else xs ! ((p + i) mod L))" if "i < L" for i
    using nth_two_blocks[of p xs m vs i] assms c that by (simp add: c_def)
  have "\<not> int c > int m" using c by simp
  then show thesis
    by (intro that[of ?ys] m3) (simp_all only: c(1) m1 m2 if_False bind.bind_lunit nat_int, use assms c in simp)
qed

lemma memcpy_from_window:
  assumes "length xs = L" "p < L" "m \<le> L"
  shows "(if int L - int p \<ge> int m then memcpy_from xs p (int m)
      else do { o1 \<leftarrow> memcpy_from xs p (int L - int p); o2 \<leftarrow> memcpy_from xs 0 (int m - int L + int p); Some (o1 @ o2) }) =
    Some (window xs p m)"
proof (cases "p + m \<le> L")
  case True
  then show ?thesis using assms by (simp add: memcpy_from_def window_block)
next
  case False
  then have "nat (int L - int p) = L - p" "nat (int m - int L + int p) = m - (L - p)" using assms by linarith+
  then show ?thesis using False assms window_two_blocks[of p xs m] by (simp add: memcpy_from_def)
qed

lemma put_returns:
  assumes ok: "rb_ok rb" and n: "n = min (unat len) (unat (rb_size rb) - rb_count rb)" "n \<le> length ptr"
  shows "returns (rt_ringbuffer_put ptr len rb) (\<lambda>(r, rb'). unat r = n \<and> rb_ok rb' \<and>
     rb_contents rb' = rb_contents rb @ take n ptr \<and> rb_size rb' = rb_size rb \<and> rb_read_index rb' = rb_read_index rb)"
proof -
  let ?w = "rb_write_index rb" and ?r = "rb_read_index rb" and ?L = "unat (rb_size rb)"
  have p2: "pow2 ?L" and len: "length (rb_buffer rb) = ?L" and cl: "rb_count rb \<le> ?L" using ok by (simp_all add: rb_ok_def)
  have L: "?L < 65536" using unsigned_less[of "rb_size rb", where 'a = nat] by simp
  define sz where "sz = rb_size rb - (?w - ?r)"
  have sz: "unat sz = ?L - rb_count rb" using cl by (simp add: sz_def rb_count_def unat_sub word_le_nat_alt)
  define l where "l = (if sz < len then sz else len)"
  have l: "unat l = n" using n sz by (auto simp: l_def word_less_nat_alt)
  show ?thesis
  proof (cases "sz = 0")
    case True
    then have "n = 0" using sz n by simp
    then show ?thesis using True ok by (simp add: rt_ringbuffer_put_def sz_def Let_def)
  next
    case False
    let ?p = "unat ?w mod ?L"
    have p: "unat (?w AND (rb_size rb - 1)) = ?p" by (rule mask_mod[OF p2])
    have pl: "?p < ?L" using pow2_pos[OF p2] by simp
    have u: "uint l = int n" "uint (rb_size rb) = int ?L" "uint (?w AND (rb_size rb - 1)) = int ?p"
      by (simp_all only: uint_nat l p)
    have nL: "n \<le> ?L" using n by simp
    obtain ys where ys: "(if int ?L - int ?p > int n then memcpy_at (rb_buffer rb) ?p ptr (int n)
      else do { b1 \<leftarrow> memcpy_at (rb_buffer rb) ?p ptr (int ?L - int ?p);
                memcpy_at b1 0 (drop (nat (int ?L - int ?p)) ptr) (int n - (int ?L - int ?p)) }) = Some ys"
      "length ys = ?L" "\<And>i. i < ?L \<Longrightarrow> ys ! ((?p + i) mod ?L) = (if i < n then ptr ! i else rb_buffer rb ! ((?p + i) mod ?L))"
      by (rule memcpy_at_put[OF len pl nL n(2)]) blast
    let ?rb = "rb\<lparr>rb_buffer := ys, rb_write_index := ?w + l\<rparr>"
    have eq: "rt_ringbuffer_put ptr len rb = Some (ucast l, ?rb)"
      unfolding rt_ringbuffer_put_def Let_def sz_def[symmetric] l_def[symmetric] u p
      by (simp only: False if_False ys(1) bind.bind_lunit)
    have lw: "l = of_nat n" by (simp add: l[symmetric])
    have cn: "rb_count rb + n \<le> ?L" using n cl by simp
    have cnt: "rb_count ?rb = rb_count rb + n"
      using unat_diff_add[of ?w ?r n] cn L by (simp add: rb_count_def lw)
    have "unat (?r + of_nat (rb_count rb)) mod ?L = (unat ?r + rb_count rb) mod ?L" by (rule add_mod_size[OF p2])
    then have pw: "?p = (unat ?r + rb_count rb) mod ?L" by (simp add: rb_count_def)
    have "window ys (unat ?r) (rb_count rb + length (take n ptr)) = window (rb_buffer rb) (unat ?r) (rb_count rb) @ take n ptr"
    proof (rule window_put)
      fix i assume "i < length (take n ptr)"
      then show "ys ! ((unat ?r + rb_count rb + i) mod length (rb_buffer rb)) = take n ptr ! i"
        using ys(3)[of i] n(2) nL unfolding pw by (simp add: len mod_add_left_eq)
    next
      fix i assume i: "i < rb_count rb"
      let ?j = "?L - rb_count rb + i"
      have j: "unat ?r + rb_count rb + ?j = unat ?r + i + ?L" "?j < ?L" "\<not> ?j < n" using i cl cn by linarith+
      have "(?p + ?j) mod ?L = (unat ?r + i) mod ?L" unfolding pw mod_add_left_eq j(1) by simp
      then show "ys ! ((unat ?r + i) mod length (rb_buffer rb)) = rb_buffer rb ! ((unat ?r + i) mod length (rb_buffer rb))"
        using ys(3)[OF j(2)] j(3) by (simp only: len if_False)
    qed (use ys(2) len cn n(2) in simp_all)
    then have "rb_contents ?rb = rb_contents rb @ take n ptr" using n(2) cnt by (simp add: rb_contents_def)
    moreover have "rb_ok ?rb" using ok cnt cn ys(2) by (simp add: rb_ok_def)
    ultimately show ?thesis using eq l by simp
  qed
qed

lemma get_returns:
  assumes ok: "rb_ok rb" and uw: "rb_unwrapped rb" and n: "n = min (unat len) (rb_count rb)"
  shows "returns (rt_ringbuffer_get len rb) (\<lambda>(r, out, rb'). unat r = n \<and> out = take n (rb_contents rb) \<and> rb_ok rb' \<and>
     rb_contents rb' = drop n (rb_contents rb) \<and> rb_size rb' = rb_size rb \<and> rb_unwrapped rb')"
proof -
  let ?w = "rb_write_index rb" and ?r = "rb_read_index rb" and ?L = "unat (rb_size rb)"
  have p2: "pow2 ?L" and len: "length (rb_buffer rb) = ?L" and cl: "rb_count rb \<le> ?L" using ok by (simp_all add: rb_ok_def)
  have L: "?L < 65536" using unsigned_less[of "rb_size rb", where 'a = nat] by simp
  define sz where "sz = (word_of_int (uint ?w - uint ?r) :: u32)"
  have sz': "sz = of_nat (rb_count rb)"
    using uw by (simp add: sz_def index_diff_int rb_unwrapped_def rb_count_def)
  then have sz: "unat sz = rb_count rb" using cl L by (simp add: unat_of_nat)
  define l where "l = (if sz < ucast len then ucast sz else len)"
  have l: "unat l = n"
    using n sz cl L by (auto simp: l_def word_less_nat_alt unsigned_ucast_eq take_bit_nat_eq_self)
  have nL: "n \<le> ?L" using n cl by simp
  show ?thesis
  proof (cases "sz = 0")
    case True
    then have "rb_count rb = 0" "n = 0" using sz n by simp_all
    then show ?thesis using True ok uw by (simp add: rt_ringbuffer_get_def sz_def)
  next
    case False
    let ?p = "unat ?r mod ?L"
    have p: "unat (?r AND (rb_size rb - 1)) = ?p" by (rule mask_mod[OF p2])
    have pl: "?p < ?L" using pow2_pos[OF p2] by simp
    have u: "uint l = int n" "uint (rb_size rb) = int ?L" "uint (?r AND (rb_size rb - 1)) = int ?p"
      by (simp_all only: uint_nat l p)
    let ?rb = "rb\<lparr>rb_read_index := ?r + l\<rparr>"
    have "window (rb_buffer rb) ?p n = take n (rb_contents rb)"
      using window_cong[of ?p "rb_buffer rb" "unat ?r" n] n by (simp add: rb_contents_def take_window len)
    then have eq: "rt_ringbuffer_get len rb = Some (ucast l, take n (rb_contents rb), ?rb)"
      unfolding rt_ringbuffer_get_def Let_def sz_def[symmetric] l_def[symmetric] u p
      by (simp only: False if_False memcpy_from_window[OF len pl nL] bind.bind_lunit)
    have lw: "l = of_nat n" by (simp add: l[symmetric])
    have cnt: "rb_count ?rb = rb_count rb - n" using unat_diff_sub[of n ?w ?r] n by (simp add: rb_count_def lw)
    have "rb_contents ?rb = window (rb_buffer rb) (unat ?r + n) (rb_count rb - n)"
      unfolding rb_contents_def cnt using add_mod_size[OF p2, of ?r n]
      by (simp add: lw) (intro window_cong, simp add: len)
    then have "rb_contents ?rb = drop n (rb_contents rb)" using n by (simp add: rb_contents_def drop_window)
    moreover have "rb_ok ?rb" using p2 len cl by (simp add: rb_ok_def cnt)
    moreover have "rb_unwrapped ?rb"
    proof -
      have "unat ?r + n \<le> unat ?w" using uw n by (simp add: rb_count_def rb_unwrapped_def unat_sub word_le_nat_alt)
      moreover from this have "unat (?r + l) = unat ?r + n"
        using l unsigned_less[of ?w, where 'a = nat] by (simp add: unat_word_ariths)
      ultimately show ?thesis by (simp add: rb_unwrapped_def word_le_nat_alt)
    qed
    ultimately show ?thesis using eq l by simp
  qed
qed

text \<open>After the write index has wrapped, the 32 bit difference in \<^verbatim>\<open>rt_ringbuffer_get\<close> is huge and the amount is
  not limited, and the test for a full buffer in \<^verbatim>\<open>rt_ringbuffer_putchar\<close> fails.\<close>

lemma get_wrapped_unlimited:
  assumes "\<not> rb_unwrapped rb" "rb_ok rb" "unat len \<le> unat (rb_size rb)"
  shows "returns (rt_ringbuffer_get len rb) (\<lambda>(r, out, rb'). unat r = unat len \<and> length out = unat len)"
proof -
  let ?w = "rb_write_index rb" and ?r = "rb_read_index rb" and ?L = "unat (rb_size rb)"
  have p2: "pow2 ?L" and bl: "length (rb_buffer rb) = ?L" using assms by (simp_all add: rb_ok_def)
  define sz where "sz = (word_of_int (uint ?w - uint ?r) :: u32)"
  have lt: "uint ?w < uint ?r" using assms(1) by (simp add: rb_unwrapped_def word_le_def)
  have bound: "0 \<le> uint ?w" "uint ?r < 65536" using unsigned_less[of ?r, where 'a = int] by simp_all
  have "uint sz = (uint ?w - uint ?r + 4294967296) mod 4294967296" unfolding sz_def by (subst uint_word_of_int) simp
  also have "\<dots> = uint ?w - uint ?r + 4294967296" using lt bound by (intro mod_pos_pos_trivial; linarith)
  finally have "uint sz = uint ?w - uint ?r + 4294967296" .
  then have big: "uint sz > 65535" using bound by linarith
  then have ne: "sz \<noteq> 0" by auto
  have "\<not> sz < ucast len" using big unsigned_less[of len, where 'a = int] by (simp add: word_less_def unsigned_ucast_eq take_bit_int_eq_self)
  then have l: "(if sz < ucast len then ucast sz else len) = len" by simp
  let ?p = "unat ?r mod ?L"
  have p: "unat (?r AND (rb_size rb - 1)) = ?p" by (rule mask_mod[OF p2])
  have pl: "?p < ?L" using pow2_pos[OF p2] by simp
  have u: "uint len = int (unat len)" "uint (rb_size rb) = int ?L" "uint (?r AND (rb_size rb - 1)) = int ?p"
    by (simp_all only: uint_nat p)
  show ?thesis
    unfolding rt_ringbuffer_get_def Let_def sz_def[symmetric] l u p
    by (simp only: ne if_False memcpy_from_window[OF bl pl assms(3)] bind.bind_lunit) simp
qed

lemma putchar_full_wrapped:
  assumes "\<not> rb_unwrapped rb" "rb_ok rb"
  shows "returns (rt_ringbuffer_putchar ch rb) (\<lambda>(r, rb'). r = 1)"
proof -
  have "uint (rb_write_index rb) - uint (rb_read_index rb) \<noteq> uint (rb_size rb)"
    using assms(1) uint_ge_0[of "rb_size rb"] unfolding rb_unwrapped_def word_le_def by linarith
  moreover have "unat (rb_write_index rb AND (rb_size rb - 1)) < length (rb_buffer rb)"
    using assms(2) by (auto simp: rb_ok_def mask_mod pow2_pos)
  ultimately show ?thesis by (simp add: rt_ringbuffer_putchar_def Let_def)
qed

section \<open>Sequences of transfers\<close>

text \<open>What a client of the buffer sees, and what a queue of at most \<open>cap\<close> bytes shows it.\<close>

datatype transfer = Put "u8 list" | Get u16

fun rb_transfer :: "transfer \<Rightarrow> rt_ringbuffer \<Rightarrow> ((nat \<times> u8 list) \<times> rt_ringbuffer) option" where
  "rb_transfer (Put bs) rb = do { (r, rb') \<leftarrow> rt_ringbuffer_put bs (of_nat (length bs)) rb; Some ((unat r, []), rb') }"
| "rb_transfer (Get n) rb = do { (r, out, rb') \<leftarrow> rt_ringbuffer_get n rb; Some ((unat r, out), rb') }"

fun rb_transfers :: "transfer list \<Rightarrow> rt_ringbuffer \<Rightarrow> ((nat \<times> u8 list) list \<times> rt_ringbuffer) option" where
  "rb_transfers [] rb = Some ([], rb)"
| "rb_transfers (x # xs) rb = do { (o1, rb1) \<leftarrow> rb_transfer x rb; (os, rb2) \<leftarrow> rb_transfers xs rb1; Some (o1 # os, rb2) }"

fun queue_transfer :: "nat \<Rightarrow> transfer \<Rightarrow> u8 list \<Rightarrow> (nat \<times> u8 list) \<times> u8 list" where
  "queue_transfer cap (Put bs) q = (let n = min (length bs) (cap - length q) in ((n, []), q @ take n bs))"
| "queue_transfer cap (Get n) q = ((min (unat n) (length q), take (unat n) q), drop (unat n) q)"

fun queue_transfers :: "nat \<Rightarrow> transfer list \<Rightarrow> u8 list \<Rightarrow> (nat \<times> u8 list) list \<times> u8 list" where
  "queue_transfers cap [] q = ([], q)"
| "queue_transfers cap (x # xs) q =
     (let (o1, q1) = queue_transfer cap x q; (os, q2) = queue_transfers cap xs q1 in (o1 # os, q2))"

fun put_total :: "transfer list \<Rightarrow> nat" where
  "put_total [] = 0"
| "put_total (Put bs # xs) = length bs + put_total xs"
| "put_total (Get n # xs) = put_total xs"

lemma unwrapped_write:
  assumes "rb_unwrapped rb"
  shows "unat (rb_write_index rb) = unat (rb_read_index rb) + rb_count rb"
  using assms by (simp add: rb_unwrapped_def rb_count_def unat_sub word_le_nat_alt)

lemma unwrappedI:
  assumes "unat (rb_read_index rb) + rb_count rb < 65536"
  shows "rb_unwrapped rb"
proof -
  have "unat (rb_read_index rb + (rb_write_index rb - rb_read_index rb)) = unat (rb_read_index rb) + rb_count rb"
    using assms unfolding rb_count_def by (subst unat_add_lem[THEN iffD1]) simp_all
  then have "unat (rb_write_index rb) = unat (rb_read_index rb) + rb_count rb" by simp
  then show ?thesis by (simp add: rb_unwrapped_def word_le_nat_alt)
qed

lemma get_keeps_write:
  "rt_ringbuffer_get len rb = Some (r, out, rb') \<Longrightarrow> rb_write_index rb' = rb_write_index rb"
  by (auto simp: rt_ringbuffer_get_def Let_def split: if_splits bind_splits)

text \<open>As long as less than \<open>2 ^ 16\<close> bytes are written in all, the buffer is a bounded queue of bytes.\<close>

lemma transfers_refine:
  "rb_ok rb \<Longrightarrow> rb_unwrapped rb \<Longrightarrow> unat (rb_write_index rb) + put_total xs < 65536 \<Longrightarrow>
   returns (rb_transfers xs rb) (\<lambda>(os, rb'). (os, rb_contents rb') = queue_transfers (unat (rb_size rb)) xs (rb_contents rb) \<and>
     rb_ok rb' \<and> rb_unwrapped rb' \<and> rb_size rb' = rb_size rb)"
proof (induction xs arbitrary: rb)
  case (Cons x xs)
  have "returns (rb_transfer x rb) (\<lambda>(o1, rb'). (o1, rb_contents rb') = queue_transfer (unat (rb_size rb)) x (rb_contents rb) \<and>
     rb_ok rb' \<and> rb_unwrapped rb' \<and> rb_size rb' = rb_size rb \<and> unat (rb_write_index rb') + put_total xs < 65536)"
  proof (cases x)
    case (Put bs)
    define n where "n = min (length bs) (unat (rb_size rb) - rb_count rb)"
    have len: "unat (of_nat (length bs) :: u16) = length bs" using Cons.prems(3) by (simp add: Put unat_of_nat)
    from put_returns[OF Cons.prems(1), of n "of_nat (length bs)" bs] obtain r rb' where
      p: "rt_ringbuffer_put bs (of_nat (length bs)) rb = Some (r, rb')" "unat r = n" "rb_ok rb'"
      "rb_contents rb' = rb_contents rb @ take n bs" "rb_size rb' = rb_size rb" "rb_read_index rb' = rb_read_index rb"
      by (auto simp: returns_def len n_def)
    have c: "rb_count rb' = rb_count rb + n" using arg_cong[OF p(4), of length] by (simp add: n_def)
    have w: "unat (rb_read_index rb') + rb_count rb' + put_total xs < 65536"
      using Cons.prems(3) unwrapped_write[OF Cons.prems(2)] by (simp add: c p(6) Put n_def)
    then have uw: "rb_unwrapped rb'" by (intro unwrappedI) simp
    show ?thesis using p w uw unwrapped_write[OF uw] by (simp add: Put Let_def n_def)
  next
    case (Get len)
    from get_returns[OF Cons.prems(1,2) refl, of len] obtain r out rb' where
      g: "rt_ringbuffer_get len rb = Some (r, out, rb')" "unat r = min (unat len) (rb_count rb)"
      "out = take (min (unat len) (rb_count rb)) (rb_contents rb)" "rb_ok rb'"
      "rb_contents rb' = drop (min (unat len) (rb_count rb)) (rb_contents rb)" "rb_size rb' = rb_size rb" "rb_unwrapped rb'"
      by (auto simp: returns_def)
    have t: "take (min (unat len) (rb_count rb)) (rb_contents rb) = take (unat len) (rb_contents rb)"
      "drop (min (unat len) (rb_count rb)) (rb_contents rb) = drop (unat len) (rb_contents rb)" by (simp_all add: min_def)
    show ?thesis using g Cons.prems(3) by (simp add: Get t get_keeps_write[OF g(1)])
  qed
  then obtain o1 rb1 where s1: "rb_transfer x rb = Some (o1, rb1)" "(o1, rb_contents rb1) = queue_transfer (unat (rb_size rb)) x (rb_contents rb)"
    "rb_ok rb1" "rb_unwrapped rb1" "rb_size rb1 = rb_size rb" "unat (rb_write_index rb1) + put_total xs < 65536" by (auto simp: returns_def)
  from Cons.IH[OF s1(3,4,6)] show ?case
    using s1 by (auto simp: s1(2)[symmetric] split: prod.splits elim!: returns_mono)
qed simp

end
