(* ===== verification/Completion.thy ===== *)
theory Completion
  imports Semaphore
begin

unbundle bit_operations_syntax

text \<open>
  Completions, \<^verbatim>\<open>components/drivers/src/completion.c\<close>.  The structure is passed along with the kernel
  state; \<open>c\<close> is its address, under which its wait queue is found.  Waiting in line behind the others,
  which the completion, the data queue and the pipe write out in place, is \<open>suspend_on\<close>.
\<close>

section \<open>The code\<close>

definition suspend_on :: "thead \<Rightarrow> tid \<Rightarrow> kernel \<Rightarrow> kernel" where
  "suspend_on h t k = upd_tlists (st_append h t) (snd (rt_thread_suspend t k))"

definition resume_first :: "thead \<Rightarrow> kernel \<Rightarrow> kernel option" where
  "resume_first h k =
     (case k_tlists k h of
        [] \<Rightarrow> Some k
      | t # _ \<Rightarrow> rt_schedule (snd (rt_thread_resume t k)))"

record rt_completion =
  c_flag :: u32

abbreviation RT_COMPLETED :: u32 where "RT_COMPLETED \<equiv> 1"
abbreviation RT_UNCOMPLETED :: u32 where "RT_UNCOMPLETED \<equiv> 0"

definition rt_completion_init :: "ptr \<Rightarrow> rt_completion \<times> kernel \<Rightarrow> rt_completion \<times> kernel" where
  "rt_completion_init c s =
     ((fst s)\<lparr>c_flag := RT_UNCOMPLETED\<rparr>, upd_tlists (\<lambda>L. L(Comp_Q c := [])) (snd s))"

text \<open>What \<^verbatim>\<open>rt_completion_wait\<close> does when the waiting thread runs again.\<close>

definition rt_completion_wait_resumed :: "tid \<Rightarrow> rt_completion \<times> kernel \<Rightarrow> rt_err \<times> rt_completion \<times> kernel" where
  "rt_completion_wait_resumed t s = (t_error (thread (snd s) t), (fst s)\<lparr>c_flag := RT_UNCOMPLETED\<rparr>, snd s)"

definition rt_completion_wait :: "ptr \<Rightarrow> u32 \<Rightarrow> rt_completion \<times> kernel \<Rightarrow> (rt_err outcome \<times> rt_completion \<times> kernel) option" where
  "rt_completion_wait c timeout s =
     (let (cp, k) = s
      in if c_flag cp \<noteq> RT_COMPLETED then
           do { rt_assert (k_tlists k (Comp_Q c) = []);
                if timeout = 0 then Some (Done (-RT_ETIMEOUT), cp, k)
                else do {
                  t \<leftarrow> rt_thread_self k;
                  let k1 = upd_thread t (\<lambda>th. th\<lparr>t_error := RT_EOK\<rparr>) k;
                  let k2 = suspend_on (Comp_Q c) t k1;
                  rt_assert (k_interrupt_nest k2 = 0);
                  k3 \<leftarrow> block_rest t timeout k2;
                  if k_current k3 = Some t
                  then let (r, s') = rt_completion_wait_resumed t (cp, k3) in Some (Done r, s')
                  else Some (Blocked, cp, k3) } }
         else Some (Done RT_EOK, cp, k))"

definition rt_completion_done :: "ptr \<Rightarrow> rt_completion \<times> kernel \<Rightarrow> (rt_completion \<times> kernel) option" where
  "rt_completion_done c s =
     (let (cp, k) = s
      in if c_flag cp = RT_COMPLETED then Some (cp, k)
         else do { k1 \<leftarrow> resume_first (Comp_Q c) k; Some (cp\<lparr>c_flag := RT_COMPLETED\<rparr>, k1) })"

section \<open>Waiting in line\<close>

lemma suspend_on_fifo: "suspend_on h t k = rt_ipc_list_suspend h t RT_IPC_FLAG_FIFO k"
  by (simp add: suspend_on_def rt_ipc_list_suspend_def)

lemma suspend_block_returns:
  assumes "kernel_inv k" "wait_queue h" "may_block t k" "time_ok time"
  shows "returns (block_rest t time (suspend_on h t k))
     (\<lambda>k'. kernel_inv k' \<and> runnable k' \<and> waiting h t RT_IPC_FLAG_FIFO time k k')"
  using ipc_block_returns[OF assms(1-3) _ assms(4), of RT_IPC_FLAG_FIFO] by (simp add: ipc_block_def suspend_on_fifo)

lemma suspend_on_nest [simp]: "k_interrupt_nest (suspend_on h t k) = k_interrupt_nest k"
  by (simp add: suspend_on_def)

lemma resume_first_empty: "k_tlists k h = [] \<Longrightarrow> resume_first h k = Some k"
  by (simp add: resume_first_def)

lemma resume_first_wakes:
  assumes "kinv b B k" "k_current k \<noteq> None" "wait_queue h" "k_tlists k h = t # ts"
  shows "returns (resume_first h k) (\<lambda>k'. kinv b B k' \<and> runnable k' \<and> woken h t k k')"
proof -
  have "resume_first h k = Option.bind (rt_ipc_list_resume h k) rt_schedule"
    using assms(4) by (simp add: resume_first_def rt_ipc_list_resume_def)
  then show ?thesis using resume_schedule_returns[OF assms] by simp
qed

lemma woken_thread: "woken h t k k' \<Longrightarrow> thread k' t = (thread k t)\<lparr>t_stat := RT_THREAD_READY\<rparr>"
  by (simp add: woken_def)

section \<open>The operations\<close>

lemma completion_wait_done: "c_flag cp = RT_COMPLETED \<Longrightarrow> rt_completion_wait c timeout (cp, k) = Some (Done RT_EOK, cp, k)"
  by (simp add: rt_completion_wait_def)

lemma completion_wait_poll:
  "c_flag cp \<noteq> RT_COMPLETED \<Longrightarrow> k_tlists k (Comp_Q c) = [] \<Longrightarrow>
   rt_completion_wait c 0 (cp, k) = Some (Done (-RT_ETIMEOUT), cp, k)"
  by (simp add: rt_completion_wait_def)

lemma completion_wait_blocks:
  assumes inv: "kernel_inv k" and f: "c_flag cp \<noteq> RT_COMPLETED" "k_tlists k (Comp_Q c) = []"
    and time: "time \<noteq> 0" "time_ok time" and irq: "k_interrupt_nest k = 0" and blk: "may_block t k"
  defines "k1 \<equiv> upd_thread t (\<lambda>th. th\<lparr>t_error := RT_EOK\<rparr>) k"
  shows "returns (rt_completion_wait c time (cp, k)) (\<lambda>(r, cp', k'). r = Blocked \<and> cp' = cp \<and> kernel_inv k' \<and> runnable k' \<and>
     waiting (Comp_Q c) t RT_IPC_FLAG_FIFO time k1 k')"
proof -
  have cur: "k_current k = Some t" using blk by (simp add: may_block_def)
  have "kernel_inv k1" "may_block t k1" using inv blk by (simp_all add: k1_def)
  from suspend_block_returns[OF this(1) wait_queue_simps(10) this(2) time(2), of c]
  obtain k3 where e: "block_rest t time (suspend_on (Comp_Q c) t k1) = Some k3"
    and p: "kernel_inv k3" "runnable k3" "waiting (Comp_Q c) t RT_IPC_FLAG_FIFO time k1 k3" by (auto elim: returnsE)
  show ?thesis
    unfolding rt_completion_wait_def rt_thread_self_def cur Let_def prod.case
    using f time(1) irq p waiting_away[OF p(3)] by (simp add: e[unfolded k1_def])
qed

text \<open>The hand-over: \<^verbatim>\<open>rt_completion_done\<close> makes the waiting thread ready, and its wait then ends with success and
  an uncompleted flag.\<close>

lemma completion_done_wakes:
  assumes inv: "kernel_inv k" and cur: "k_current k \<noteq> None" and f: "c_flag cp \<noteq> RT_COMPLETED"
    and q: "k_tlists k (Comp_Q c) = [t]" and e: "t_error (thread k t) = RT_EOK"
  shows "returns (rt_completion_done c (cp, k)) (\<lambda>(cp', k'). kernel_inv k' \<and> runnable k' \<and> stat k' t = RT_THREAD_READY \<and>
     k_tlists k' (Comp_Q c) = [] \<and> c_flag cp' = RT_COMPLETED \<and>
     fst (rt_completion_wait_resumed t (cp', k')) = RT_EOK \<and>
     c_flag (fst (snd (rt_completion_wait_resumed t (cp', k')))) = RT_UNCOMPLETED)"
proof -
  note w = resume_first_wakes[OF inv cur wait_queue_simps(10) q]
  show ?thesis
    unfolding rt_completion_done_def Let_def prod.case using f
    by (auto simp: woken_def same_objs_def q e rt_completion_wait_resumed_def intro!: returns_mono[OF w])
qed

lemma completion_done_early:
  assumes "c_flag cp \<noteq> RT_COMPLETED" "k_tlists k (Comp_Q c) = []"
  shows "rt_completion_done c (cp, k) = Some (cp\<lparr>c_flag := RT_COMPLETED\<rparr>, k)"
  using assms by (simp add: rt_completion_done_def resume_first_empty)

end
