(* ===== verification/Device.thy ===== *)
theory Device
  imports Clock Kernel_Heap
begin

unbundle bit_operations_syntax

text \<open>
  The device layer, \<^verbatim>\<open>src/device.c\<close>, and the error variable of \<^verbatim>\<open>src/kservice.c\<close>.  A device is a kernel
  object with flags, two call-backs and the handlers of its driver.  The type \<open>'x\<close> is the memory of the
  drivers; the handlers are the functions \<open>ops h\<close> where \<open>h\<close> is stored in the device: a driver stores its
  six handlers together.  The state of the system that a driver sees is the record \<open>sys\<close>.
\<close>

section \<open>State\<close>

record rt_device =
  d_type :: nat
  d_flag :: u16
  d_open_flag :: u16
  d_rx_indicate :: "ptr option"
  d_tx_complete :: "ptr option"
  d_handlers :: ptr
  d_user_data :: u32

text \<open>The message of \<^verbatim>\<open>rt_kprintf\<close> about a device that failed to initialise.\<close>

datatype message = Init_failed "u8 list" rt_err

record 'x sys =
  sys_kernel :: kernel
  sys_errno :: rt_err
  sys_devs :: "ptr \<Rightarrow> rt_device"
  sys_msgs :: "message list"
  sys_drv :: 'x

abbreviation dev :: "'x sys \<Rightarrow> ptr \<Rightarrow> rt_device" where
  "dev s p \<equiv> sys_devs s p"

definition upd_dev :: "ptr \<Rightarrow> (rt_device \<Rightarrow> rt_device) \<Rightarrow> 'x sys \<Rightarrow> 'x sys" where
  "upd_dev p f s = s\<lparr>sys_devs := (sys_devs s)(p := f (sys_devs s p))\<rparr>"

definition say :: "message \<Rightarrow> 'x sys \<Rightarrow> 'x sys" where
  "say m s = s\<lparr>sys_msgs := sys_msgs s @ [m]\<rparr>"

text \<open>The handlers.  Reading gives the number and the bytes; a writer gets the address of the buffer and the
  bytes that lie there; \<open>'a\<close> is the type of what the argument of a control command points to.\<close>

record ('x, 'a) rt_device_ops =
  dop_init :: "(ptr \<Rightarrow> 'x sys \<Rightarrow> (rt_err outcome \<times> 'x sys) option) option"
  dop_open :: "(ptr \<Rightarrow> u16 \<Rightarrow> 'x sys \<Rightarrow> (rt_err outcome \<times> 'x sys) option) option"
  dop_close :: "(ptr \<Rightarrow> 'x sys \<Rightarrow> (rt_err outcome \<times> 'x sys) option) option"
  dop_read :: "(ptr \<Rightarrow> u32 \<Rightarrow> u32 \<Rightarrow> 'x sys \<Rightarrow> ((u32 \<times> u8 list) outcome \<times> 'x sys) option) option"
  dop_write :: "(ptr \<Rightarrow> u32 \<Rightarrow> u32 \<Rightarrow> u8 list \<Rightarrow> u32 \<Rightarrow> 'x sys \<Rightarrow> (u32 outcome \<times> 'x sys) option) option"
  dop_control :: "(ptr \<Rightarrow> u8 \<Rightarrow> 'a \<Rightarrow> 'x sys \<Rightarrow> (rt_err outcome \<times> 'x sys) option) option"

abbreviation RT_DEVICE_FLAG_RDWR :: u16 where "RT_DEVICE_FLAG_RDWR \<equiv> 0x003"
abbreviation RT_DEVICE_FLAG_STANDALONE :: u16 where "RT_DEVICE_FLAG_STANDALONE \<equiv> 0x008"
abbreviation RT_DEVICE_FLAG_ACTIVATED :: u16 where "RT_DEVICE_FLAG_ACTIVATED \<equiv> 0x010"
abbreviation RT_DEVICE_FLAG_SUSPENDED :: u16 where "RT_DEVICE_FLAG_SUSPENDED \<equiv> 0x020"
abbreviation RT_DEVICE_FLAG_STREAM :: u16 where "RT_DEVICE_FLAG_STREAM \<equiv> 0x040"
abbreviation RT_DEVICE_FLAG_INT_RX :: u16 where "RT_DEVICE_FLAG_INT_RX \<equiv> 0x100"
abbreviation RT_DEVICE_FLAG_INT_TX :: u16 where "RT_DEVICE_FLAG_INT_TX \<equiv> 0x400"
abbreviation RT_DEVICE_FLAG_DMA_TX :: u16 where "RT_DEVICE_FLAG_DMA_TX \<equiv> 0x800"
abbreviation RT_DEVICE_OFLAG_CLOSE :: u16 where "RT_DEVICE_OFLAG_CLOSE \<equiv> 0x000"
abbreviation RT_DEVICE_OFLAG_RDWR :: u16 where "RT_DEVICE_OFLAG_RDWR \<equiv> 0x003"
abbreviation RT_DEVICE_OFLAG_OPEN :: u16 where "RT_DEVICE_OFLAG_OPEN \<equiv> 0x008"

text \<open>\<^verbatim>\<open>flag & bits\<close> as a truth value.\<close>

definition has :: "'a::len word \<Rightarrow> 'a word \<Rightarrow> bool" where
  "has flag bits \<longleftrightarrow> flag AND bits \<noteq> 0"

section \<open>The error variable\<close>

definition rt_get_errno :: "'x sys \<Rightarrow> rt_err" where
  "rt_get_errno s =
     (if rt_interrupt_get_nest (sys_kernel s) \<noteq> 0 then sys_errno s
      else case rt_thread_self (sys_kernel s) of None \<Rightarrow> sys_errno s | Some t \<Rightarrow> t_error (thread (sys_kernel s) t))"

definition rt_set_errno :: "rt_err \<Rightarrow> 'x sys \<Rightarrow> 'x sys" where
  "rt_set_errno e s =
     (if rt_interrupt_get_nest (sys_kernel s) \<noteq> 0 then s\<lparr>sys_errno := e\<rparr>
      else case rt_thread_self (sys_kernel s) of
             None \<Rightarrow> s\<lparr>sys_errno := e\<rparr>
           | Some t \<Rightarrow> s\<lparr>sys_kernel := upd_thread t (\<lambda>th. th\<lparr>t_error := e\<rparr>) (sys_kernel s)\<rparr>)"

section \<open>The device functions\<close>

fun dev_of :: "obj \<Rightarrow> ptr option" where
  "dev_of (ODevice p) = Some p"
| "dev_of _ = None"

definition rt_device_find :: "cstr \<Rightarrow> kernel \<Rightarrow> (ptr option \<times> kernel) option" where
  "rt_device_find name k =
     do { let k1 = (if rt_thread_self k \<noteq> None then rt_enter_critical k else k);
          let r = find_name name RT_Object_Class_Device k1;
          k2 \<leftarrow> (if rt_thread_self k1 \<noteq> None then rt_exit_critical k1 else Some k1);
          Some (Option.bind r dev_of, k2) }"

definition rt_device_register :: "ptr option \<Rightarrow> cstr \<Rightarrow> u16 \<Rightarrow> 'x sys \<Rightarrow> (rt_err \<times> 'x sys) option" where
  "rt_device_register d name flags s =
     (case d of
        None \<Rightarrow> Some (-RT_ERROR, s)
      | Some p \<Rightarrow> do {
          (r, k) \<leftarrow> rt_device_find name (sys_kernel s);
          if r \<noteq> None then Some (-RT_ERROR, s\<lparr>sys_kernel := k\<rparr>)
          else Some (RT_EOK, upd_dev p (\<lambda>d. d\<lparr>d_flag := flags\<rparr>)
                 (s\<lparr>sys_kernel := rt_object_init (ODevice p) RT_Object_Class_Device name k\<rparr>)) })"

definition rt_device_unregister :: "ptr \<Rightarrow> 'x sys \<Rightarrow> rt_err \<times> 'x sys" where
  "rt_device_unregister p s = (RT_EOK, s\<lparr>sys_kernel := rt_object_detach (ODevice p) (sys_kernel s)\<rparr>)"

text \<open>Calling the initialisation handler, with the message on failure.\<close>

definition call_init :: "(ptr \<Rightarrow> 'x sys \<Rightarrow> (rt_err outcome \<times> 'x sys) option) \<Rightarrow> ptr \<Rightarrow> 'x sys \<Rightarrow> (rt_err outcome \<times> 'x sys) option" where
  "call_init init p s =
     bind_done (init p s) (\<lambda>result s1.
       if result \<noteq> RT_EOK
       then Some (Done result, say (Init_failed (o_name (k_objects (sys_kernel s1) (ODevice p))) result) s1)
       else Some (Done result, upd_dev p (\<lambda>d. d\<lparr>d_flag := d_flag d OR RT_DEVICE_FLAG_ACTIVATED\<rparr>) s1))"

text \<open>The node behind \<open>x\<close> in a list.\<close>

definition next_in :: "'b list \<Rightarrow> 'b \<Rightarrow> 'b option" where
  "next_in xs x = (case dropWhile (\<lambda>y. y \<noteq> x) xs of _ # y # _ \<Rightarrow> Some y | _ \<Rightarrow> None)"

partial_function (option) dev_init_from :: "(ptr \<Rightarrow> ('x, 'a) rt_device_ops) \<Rightarrow> obj option \<Rightarrow> 'x sys \<Rightarrow> (rt_err outcome \<times> 'x sys) option" where
  "dev_init_from ops node s =
     (case node of
        None \<Rightarrow> Some (Done RT_EOK, s)
      | Some x \<Rightarrow> do {
          p \<leftarrow> dev_of x;
          (r, s1) \<leftarrow> (case dop_init (ops (d_handlers (dev s p))) of
                     None \<Rightarrow> Some (Done RT_EOK, s)
                   | Some init \<Rightarrow> if has (d_flag (dev s p)) RT_DEVICE_FLAG_ACTIVATED then Some (Done RT_EOK, s)
                                  else call_init init p s);
          if r = Blocked then Some (Blocked, s1)
          else dev_init_from ops (next_in (k_container (sys_kernel s1) (unat RT_Object_Class_Device)) x) s1 })"

definition rt_device_init_all :: "(ptr \<Rightarrow> ('x, 'a) rt_device_ops) \<Rightarrow> 'x sys \<Rightarrow> (rt_err outcome \<times> 'x sys) option" where
  "rt_device_init_all ops s =
     dev_init_from ops (case k_container (sys_kernel s) (unat RT_Object_Class_Device) of [] \<Rightarrow> None | x # _ \<Rightarrow> Some x) s"

definition rt_device_init :: "(ptr \<Rightarrow> ('x, 'a) rt_device_ops) \<Rightarrow> ptr \<Rightarrow> 'x sys \<Rightarrow> (rt_err outcome \<times> 'x sys) option" where
  "rt_device_init ops p s =
     (case dop_init (ops (d_handlers (dev s p))) of
        None \<Rightarrow> Some (Done (-RT_ENOSYS), s)
      | Some init \<Rightarrow> if has (d_flag (dev s p)) RT_DEVICE_FLAG_ACTIVATED then Some (Done RT_EOK, s) else call_init init p s)"

text \<open>\<^verbatim>\<open>rt_device_open\<close> once the device is initialised.\<close>

definition dev_open_ready :: "(ptr \<Rightarrow> ('x, 'a) rt_device_ops) \<Rightarrow> ptr \<Rightarrow> u16 \<Rightarrow> 'x sys \<Rightarrow> (rt_err outcome \<times> 'x sys) option" where
  "dev_open_ready ops p oflag s =
     (if has (d_flag (dev s p)) RT_DEVICE_FLAG_STANDALONE \<and> has (d_open_flag (dev s p)) RT_DEVICE_OFLAG_OPEN
      then Some (Done (-RT_EBUSY), s)
      else bind_done (case dop_open (ops (d_handlers (dev s p))) of Some opn \<Rightarrow> opn p oflag s | None \<Rightarrow> Some (Done RT_EOK, s))
             (\<lambda>result s1.
               if result = RT_EOK \<or> result = -RT_ENOSYS
               then Some (Done result, upd_dev p (\<lambda>d. d\<lparr>d_open_flag := oflag OR RT_DEVICE_OFLAG_OPEN\<rparr>) s1)
               else Some (Done result, s1)))"

definition rt_device_open :: "(ptr \<Rightarrow> ('x, 'a) rt_device_ops) \<Rightarrow> ptr \<Rightarrow> u16 \<Rightarrow> 'x sys \<Rightarrow> (rt_err outcome \<times> 'x sys) option" where
  "rt_device_open ops p oflag s =
     bind_done (if has (d_flag (dev s p)) RT_DEVICE_FLAG_ACTIVATED then Some (Done RT_EOK, s)
                else case dop_init (ops (d_handlers (dev s p))) of
                       Some init \<Rightarrow> call_init init p s
                     | None \<Rightarrow> Some (Done RT_EOK, upd_dev p (\<lambda>d. d\<lparr>d_flag := d_flag d OR RT_DEVICE_FLAG_ACTIVATED\<rparr>) s))
       (\<lambda>result s1. if result \<noteq> RT_EOK then Some (Done result, s1) else dev_open_ready ops p oflag s1)"

text \<open>\<^verbatim>\<open>result\<close> has no value when the driver has no close handler: \<open>junk\<close> is what the variable happens to hold.\<close>

definition rt_device_close :: "rt_err \<Rightarrow> (ptr \<Rightarrow> ('x, 'a) rt_device_ops) \<Rightarrow> ptr \<Rightarrow> 'x sys \<Rightarrow> (rt_err outcome \<times> 'x sys) option" where
  "rt_device_close junk ops p s =
     bind_done (case dop_close (ops (d_handlers (dev s p))) of Some close \<Rightarrow> close p s | None \<Rightarrow> Some (Done junk, s))
       (\<lambda>result s1.
         if result = RT_EOK \<or> result = -RT_ENOSYS
         then Some (Done result, upd_dev p (\<lambda>d. d\<lparr>d_open_flag := RT_DEVICE_OFLAG_CLOSE\<rparr>) s1)
         else Some (Done result, s1))"

definition rt_device_read :: "(ptr \<Rightarrow> ('x, 'a) rt_device_ops) \<Rightarrow> ptr \<Rightarrow> u32 \<Rightarrow> u32 \<Rightarrow> 'x sys \<Rightarrow>
    ((u32 \<times> u8 list) outcome \<times> 'x sys) option" where
  "rt_device_read ops p pos sz s =
     (case dop_read (ops (d_handlers (dev s p))) of
        Some rd \<Rightarrow> rd p pos sz s
      | None \<Rightarrow> Some (Done (0, []), rt_set_errno (-RT_ENOSYS) s))"

definition rt_device_write :: "(ptr \<Rightarrow> ('x, 'a) rt_device_ops) \<Rightarrow> ptr \<Rightarrow> u32 \<Rightarrow> u32 \<Rightarrow> u8 list \<Rightarrow> u32 \<Rightarrow> 'x sys \<Rightarrow>
    (u32 outcome \<times> 'x sys) option" where
  "rt_device_write ops p pos buffer bs sz s =
     (case dop_write (ops (d_handlers (dev s p))) of
        Some wr \<Rightarrow> wr p pos buffer bs sz s
      | None \<Rightarrow> Some (Done 0, rt_set_errno (-RT_ENOSYS) s))"

definition rt_device_control :: "(ptr \<Rightarrow> ('x, 'a) rt_device_ops) \<Rightarrow> ptr \<Rightarrow> u8 \<Rightarrow> 'a \<Rightarrow> 'x sys \<Rightarrow> (rt_err outcome \<times> 'x sys) option" where
  "rt_device_control ops p cmd arg s =
     (case dop_control (ops (d_handlers (dev s p))) of
        Some control \<Rightarrow> control p cmd arg s | None \<Rightarrow> Some (Done (-RT_ENOSYS), s))"

definition rt_device_set_rx_indicate :: "ptr \<Rightarrow> ptr option \<Rightarrow> 'x sys \<Rightarrow> rt_err \<times> 'x sys" where
  "rt_device_set_rx_indicate p f s = (RT_EOK, upd_dev p (\<lambda>d. d\<lparr>d_rx_indicate := f\<rparr>) s)"

definition rt_device_set_tx_complete :: "ptr \<Rightarrow> ptr option \<Rightarrow> 'x sys \<Rightarrow> rt_err \<times> 'x sys" where
  "rt_device_set_tx_complete p f s = (RT_EOK, upd_dev p (\<lambda>d. d\<lparr>d_tx_complete := f\<rparr>) s)"

section \<open>Properties\<close>

lemma upd_dev_fields [simp]:
  "sys_kernel (upd_dev p f s) = sys_kernel s" "sys_errno (upd_dev p f s) = sys_errno s"
  "sys_devs (upd_dev p f s) = (sys_devs s)(p := f (sys_devs s p))" "sys_msgs (upd_dev p f s) = sys_msgs s"
  "sys_drv (upd_dev p f s) = sys_drv s"
  by (simp_all add: upd_dev_def)

lemma set_errno_fields [simp]:
  "sys_devs (rt_set_errno e s) = sys_devs s" "sys_drv (rt_set_errno e s) = sys_drv s" "sys_msgs (rt_set_errno e s) = sys_msgs s"
  by (simp_all add: rt_set_errno_def split: option.splits)

lemma errno_round_trip: "rt_get_errno (rt_set_errno e s) = e"
  by (auto simp: rt_get_errno_def rt_set_errno_def rt_interrupt_get_nest_def rt_thread_self_def split: option.splits)

lemma has_or [simp]: "has (f OR b) b \<longleftrightarrow> b \<noteq> 0"
proof -
  have "(f OR b) AND b = b" by (rule bit_eqI) (auto simp: bit_and_iff bit_or_iff)
  then show ?thesis by (simp add: has_def)
qed

lemma has_or_other: "has (f OR b) c \<longleftrightarrow> has f c \<or> has b c"
proof -
  have "(f OR b) AND c = (f AND c) OR (b AND c)" by (rule bit_eqI) (auto simp: bit_and_iff bit_or_iff)
  moreover have "x OR y = 0 \<longleftrightarrow> x = 0 \<and> y = 0" for x y :: "'a word" by (rule or_eq_0_iff)
  ultimately show ?thesis by (simp add: has_def)
qed

text \<open>Looking a device up leaves and enters the critical section, which may run the scheduler; the devices are
  not touched.\<close>

lemma kinv_lock [simp]: "kinv b B (k\<lparr>k_lock_nest := n\<rparr>) \<longleftrightarrow> kinv b B k"
  by (rule kinv_cong) (simp_all add: same_threads_def same_timers_def)

lemma critical_returns:
  assumes "kernel_inv k" "runnable k"
  shows "returns (rt_exit_critical (rt_enter_critical k)) (\<lambda>k'. kernel_inv k' \<and> runnable k' \<and>
     k_threads k' = k_threads k \<and> k_tlists k' = k_tlists k \<and> k_container k' = k_container k \<and> k_objects k' = k_objects k)"
proof (cases "sint (k_lock_nest k) \<le> 0")
  case True
  let ?k = "k\<lparr>k_lock_nest := 0\<rparr>"
  have "returns (rt_schedule ?k) (\<lambda>k'. kinv (k_tick k) (HALF - 1) k' \<and> runnable k' \<and> scheduled ?k k')"
    using assms by (intro schedule_returns) (simp_all add: runnable_def)
  then show ?thesis
    using True by (auto simp: rt_exit_critical_def rt_enter_critical_def Let_def scheduled_frame elim!: returns_mono)
next
  case False
  then show ?thesis using assms by (simp add: rt_exit_critical_def rt_enter_critical_def Let_def runnable_def)
qed

definition may_look_up :: "kernel \<Rightarrow> bool" where
  "may_look_up k \<longleftrightarrow> k_current k = None \<or> kernel_inv k \<and> runnable k"

lemma device_find_returns:
  assumes "may_look_up k"
  shows "returns (rt_device_find name k) (\<lambda>(r, k'). r = Option.bind (find_name name RT_Object_Class_Device k) dev_of \<and>
     may_look_up k' \<and> k_container k' = k_container k \<and> k_objects k' = k_objects k)"
proof (cases "k_current k")
  case None
  then show ?thesis using assms by (simp add: rt_device_find_def rt_thread_self_def)
next
  case (Some t)
  then have "kernel_inv k" "runnable k" using assms by (auto simp: may_look_up_def)
  then show ?thesis
    using Some critical_returns[of k]
    by (auto simp: rt_device_find_def rt_thread_self_def Let_def may_look_up_def elim!: returns_mono)
qed

lemma find_name_cong:
  "k_container k' = k_container k \<Longrightarrow> k_objects k' = k_objects k \<Longrightarrow> find_name name c k' = find_name name c k"
  by (simp add: find_name_def)

lemma may_look_up_init [simp]: "may_look_up (rt_object_init (ODevice p) c name k) \<longleftrightarrow> may_look_up k"
proof -
  have "kinv b B (rt_object_init (ODevice p) c name k) \<longleftrightarrow> kinv b B k" for b B
    by (rule kinv_cong) (simp_all add: same_threads_def same_timers_def)
  then show ?thesis by (simp add: may_look_up_def runnable_def)
qed

lemma register_taken:
  assumes k: "may_look_up (sys_kernel s)" and f: "find_name name RT_Object_Class_Device (sys_kernel s) = Some (ODevice q)"
  shows "returns (rt_device_register (Some p) name flags s) (\<lambda>(r, s'). r = -RT_ERROR \<and> sys_devs s' = sys_devs s)"
proof -
  from device_find_returns[OF k, of name] obtain k1 where "rt_device_find name (sys_kernel s) = Some (Some q, k1)"
    using f by (auto simp: returns_def)
  then show ?thesis by (simp add: rt_device_register_def)
qed

text \<open>A device is registered under the first \<^verbatim>\<open>RT_NAME_MAX\<close> characters of its name, is found under every name that
  has the same ones, and keeps other devices from being registered under such a name.\<close>

lemma register_returns:
  assumes k: "may_look_up (sys_kernel s)" and new: "find_name name RT_Object_Class_Device (sys_kernel s) = None"
    and same: "visible name RT_NAME_MAX = visible name' RT_NAME_MAX"
  shows "returns (rt_device_register (Some p) name flags s) (\<lambda>(r, s'). r = RT_EOK \<and> d_flag (dev s' p) = flags \<and>
     may_look_up (sys_kernel s') \<and> find_name name' RT_Object_Class_Device (sys_kernel s') = Some (ODevice p) \<and>
     returns (rt_device_register (Some p') name' flags' s') (\<lambda>(r', s''). r' = -RT_ERROR \<and> sys_devs s'' = sys_devs s'))"
proof -
  from device_find_returns[OF k, of name] obtain k1 where k1: "rt_device_find name (sys_kernel s) = Some (None, k1)"
    "may_look_up k1" using new by (auto simp: returns_def)
  let ?k = "rt_object_init (ODevice p) RT_Object_Class_Device name k1"
  let ?s = "upd_dev p (\<lambda>d. d\<lparr>d_flag := flags\<rparr>) (s\<lparr>sys_kernel := ?k\<rparr>)"
  have f: "find_name name' RT_Object_Class_Device ?k = Some (ODevice p)" by (rule find_name_init[OF same])
  have k2: "may_look_up ?k" using k1 by simp
  then have "returns (rt_device_register (Some p') name' flags' ?s) (\<lambda>(r, s''). r = -RT_ERROR \<and> sys_devs s'' = sys_devs ?s)"
    using f by (intro register_taken) simp_all
  moreover have "rt_device_register (Some p) name flags s = Some (RT_EOK, ?s)" using k1 by (simp add: rt_device_register_def)
  ultimately show ?thesis using f k2 by simp
qed

text \<open>Opening: the device is initialised at most once, and a stand-alone device is opened at most once.\<close>

lemma open_busy:
  assumes "has (d_flag (dev s p)) RT_DEVICE_FLAG_ACTIVATED" "has (d_flag (dev s p)) RT_DEVICE_FLAG_STANDALONE"
    "has (d_open_flag (dev s p)) RT_DEVICE_OFLAG_OPEN"
  shows "rt_device_open ops p oflag s = Some (Done (-RT_EBUSY), s)"
  using assms by (simp add: rt_device_open_def dev_open_ready_def)

lemma open_init_failed:
  assumes "\<not> has (d_flag (dev s p)) RT_DEVICE_FLAG_ACTIVATED" "dop_init (ops (d_handlers (dev s p))) = Some init"
    "init p s = Some (Done e, s1)" "e \<noteq> RT_EOK"
  shows "rt_device_open ops p oflag s =
     Some (Done e, say (Init_failed (o_name (k_objects (sys_kernel s1) (ODevice p))) e) s1)"
  using assms by (simp add: rt_device_open_def call_init_def)

end
