(* ===== verification/Pipe.thy ===== *)
theory Pipe
  imports Ring_Buffer Completion Device
begin

unbundle bit_operations_syntax

text \<open>
  Pipe devices, \<^verbatim>\<open>components/drivers/src/pipe.c\<close>: a ring buffer between writing and reading threads, as a
  driver of the device layer.  A reader waits while the pipe is empty and a writer while it is full;
  neither can time out.
\<close>

section \<open>The code\<close>

record rt_pipe =
  pipe_ringbuffer :: rt_ringbuffer
  pipe_buffer_ptr :: u32

text \<open>The memory of the driver: the pipes, and the variable \<^verbatim>\<open>_pipe\<close>.\<close>

record pipes =
  ps_pipes :: "ptr \<Rightarrow> rt_pipe"
  ps_first :: "ptr option"

abbreviation ring_of :: "pipes sys \<Rightarrow> ptr \<Rightarrow> rt_ringbuffer" where
  "ring_of s p \<equiv> pipe_ringbuffer (ps_pipes (sys_drv s) p)"

definition set_ring :: "ptr \<Rightarrow> rt_ringbuffer \<Rightarrow> pipes sys \<Rightarrow> pipes sys" where
  "set_ring p rb s = s\<lparr>sys_drv := (sys_drv s)\<lparr>ps_pipes := (ps_pipes (sys_drv s))(p := (ps_pipes (sys_drv s) p)\<lparr>pipe_ringbuffer := rb\<rparr>)\<rparr>\<rparr>"

text \<open>A thread that is woken looks at the pipe again: the rest of its call is the call itself.\<close>

partial_function (option) rt_pipe_read :: "ptr \<Rightarrow> u32 \<Rightarrow> u32 \<Rightarrow> pipes sys \<Rightarrow> ((u32 \<times> u8 list) outcome \<times> pipes sys) option" where
  "rt_pipe_read p pos sz s =
     do { rt_assert (k_interrupt_nest (sys_kernel s) = 0);
          (n, bs, rb) \<leftarrow> rt_ringbuffer_get (ucast sz) (ring_of s p);
          let s1 = set_ring p rb s;
          if n = 0 then do {
            t \<leftarrow> rt_thread_self (sys_kernel s1);
            k1 \<leftarrow> rt_schedule (suspend_on (Pipe_Read_Q p) t (sys_kernel s1));
            let s2 = s1\<lparr>sys_kernel := k1\<rparr>;
            if k_current k1 = Some t then rt_pipe_read p pos sz s2 else Some (Blocked, s2) }
          else do {
            k1 \<leftarrow> resume_first (Pipe_Write_Q p) (sys_kernel s1);
            Some (Done (n, bs), s1\<lparr>sys_kernel := k1\<rparr>) } }"

partial_function (option) pipe_write_loop :: "ptr \<Rightarrow> u8 list \<Rightarrow> u32 \<Rightarrow> pipes sys \<Rightarrow> (u32 outcome \<times> pipes sys) option" where
  "pipe_write_loop p bs sz s =
     do { (n, rb) \<leftarrow> rt_ringbuffer_put bs (ucast sz) (ring_of s p);
          let s1 = set_ring p rb s;
          if n = 0 then do {
            t \<leftarrow> rt_thread_self (sys_kernel s1);
            k1 \<leftarrow> rt_schedule (suspend_on (Pipe_Write_Q p) t (sys_kernel s1));
            let s2 = s1\<lparr>sys_kernel := k1\<rparr>;
            if k_current k1 = Some t then pipe_write_loop p bs sz s2 else Some (Blocked, s2) }
          else do {
            k1 \<leftarrow> resume_first (Pipe_Read_Q p) (sys_kernel s1);
            Some (Done n, s1\<lparr>sys_kernel := k1\<rparr>) } }"

definition rt_pipe_write :: "ptr \<Rightarrow> u32 \<Rightarrow> u32 \<Rightarrow> u8 list \<Rightarrow> u32 \<Rightarrow> pipes sys \<Rightarrow> (u32 outcome \<times> pipes sys) option" where
  "rt_pipe_write p pos buffer bs sz s =
     do { let s1 = (if ps_first (sys_drv s) = None then s\<lparr>sys_drv := (sys_drv s)\<lparr>ps_first := Some p\<rparr>\<rparr> else s);
          rt_assert (k_interrupt_nest (sys_kernel s1) = 0);
          pipe_write_loop p bs sz s1 }"

definition rt_pipe_control :: "ptr \<Rightarrow> u8 \<Rightarrow> 'a \<Rightarrow> pipes sys \<Rightarrow> (rt_err outcome \<times> pipes sys) option" where
  "rt_pipe_control p cmd args s = Some (Done RT_EOK, s)"

definition pipe_ops :: "(pipes, 'a) rt_device_ops" where
  "pipe_ops = \<lparr>dop_init = None, dop_open = None, dop_close = None, dop_read = Some rt_pipe_read,
     dop_write = Some rt_pipe_write, dop_control = Some rt_pipe_control\<rparr>"

text \<open>\<^verbatim>\<open>sizeof(struct rt_pipe_device)\<close>: a device of 64 bytes, a ring buffer of 12 and two list heads.\<close>

abbreviation pipe_size :: u32 where "pipe_size \<equiv> 92"

abbreviation RT_Device_Class_Char :: nat where "RT_Device_Class_Char \<equiv> 0"

text \<open>Running an operation on the heap and the bytes of the memory.\<close>

definition on_heap :: "(bytes \<times> kernel \<Rightarrow> ('a outcome \<times> bytes \<times> kernel) option) \<Rightarrow> bytes \<times> 'x sys \<Rightarrow>
    ('a outcome \<times> bytes \<times> 'x sys) option" where
  "on_heap f st =
     do { (r, b, k) \<leftarrow> f (fst st, sys_kernel (snd st)); Some (r, b, (snd st)\<lparr>sys_kernel := k\<rparr>) }"

text \<open>The pipe's structure has been cleared by \<^verbatim>\<open>rt_calloc\<close>; \<open>h\<close> is where the handlers of the driver are found.\<close>

definition pipe_setup :: "ptr \<Rightarrow> cstr \<Rightarrow> u32 \<Rightarrow> ptr \<Rightarrow> u32 \<Rightarrow> bytes \<times> pipes sys \<Rightarrow> (rt_err outcome \<times> bytes \<times> pipes sys) option" where
  "pipe_setup h name sz p mem st =
     (let (b, s) = st;
          k1 = upd_tlists (\<lambda>L. L(Pipe_Read_Q p := [], Pipe_Write_Q p := [])) (sys_kernel s);
          rb = rt_ringbuffer_init (map (\<lambda>i. b (mem + of_nat i)) [0..<unat sz]) (ucast sz);
          s1 = s\<lparr>sys_kernel := k1, sys_drv := (sys_drv s)\<lparr>ps_pipes := (ps_pipes (sys_drv s))
                 (p := \<lparr>pipe_ringbuffer = rb, pipe_buffer_ptr = mem\<rparr>)\<rparr>\<rparr>;
          s2 = upd_dev p (\<lambda>_. \<lparr>d_type = RT_Device_Class_Char, d_flag = 0, d_open_flag = 0, d_rx_indicate = None,
                 d_tx_complete = None, d_handlers = h, d_user_data = 0\<rparr>) s1
      in do { (r, s3) \<leftarrow> rt_device_register (Some p) name RT_DEVICE_FLAG_RDWR s2; Some (Done r, b, s3) })"

definition rt_pipe_create :: "ptr \<Rightarrow> cstr \<Rightarrow> u32 \<Rightarrow> bytes \<times> pipes sys \<Rightarrow> (rt_err outcome \<times> bytes \<times> pipes sys) option" where
  "rt_pipe_create h name n st =
     (let sz = rt_align n
      in bind_done (on_heap (rt_calloc 1 pipe_size) st) (\<lambda>p st1.
           if p \<noteq> 0 then
             bind_done (on_heap (on_kernel (rt_malloc sz)) st1) (\<lambda>mem st2.
               if mem = 0 then
                 bind_done (on_heap (on_kernel (rt_free p)) st2) (\<lambda>_ st3. Some (Done (-RT_ENOMEM), st3))
               else pipe_setup h name sz (unat p) mem st2)
           else Some (Done (-RT_ENOMEM), st1)))"

definition rt_pipe_destroy :: "ptr \<Rightarrow> bytes \<times> pipes sys \<Rightarrow> (unit outcome \<times> bytes \<times> pipes sys) option" where
  "rt_pipe_destroy p st =
     (if p = 0 then Some (Done (), st)
      else
        let (r, s1) = rt_device_unregister p (snd st)
        in bind_done (on_heap (on_kernel (rt_free (pipe_buffer_ptr (ps_pipes (sys_drv s1) p)))) (fst st, s1))
             (\<lambda>_. on_heap (on_kernel (rt_free (of_nat p)))))"

section \<open>Transfers\<close>

lemma set_ring_fields [simp]:
  "sys_kernel (set_ring p rb s) = sys_kernel s" "ring_of (set_ring p rb s) p = rb" "sys_devs (set_ring p rb s) = sys_devs s"
  "p' \<noteq> p \<Longrightarrow> ring_of (set_ring p rb s) p' = ring_of s p'"
  by (simp_all add: set_ring_def)

lemma sys_kernel_frame [simp]:
  "ring_of (s\<lparr>sys_kernel := k\<rparr>) p = ring_of s p" "set_ring p rb (s\<lparr>sys_kernel := k\<rparr>) = (set_ring p rb s)\<lparr>sys_kernel := k\<rparr>"
  by (simp_all add: set_ring_def)

lemma resume_first_returns:
  assumes inv: "kernel_inv k" and run: "runnable k" and h: "wait_queue h"
  shows "returns (resume_first h k) (\<lambda>k'. kernel_inv k' \<and> runnable k' \<and> served h k k' \<and> same_objs k' k)"
proof (cases "k_tlists k h")
  case Nil
  then show ?thesis using inv run by (simp add: resume_first_empty served_def)
next
  case (Cons t ts)
  have cur: "k_current k \<noteq> None" using run by (simp add: runnable_def)
  show ?thesis
    by (rule returns_mono[OF resume_first_wakes[OF inv cur h Cons]]) (simp add: woken_def served_def Cons same_objs_def)
qed

lemma u32_eq_unat: "n = 0 \<longleftrightarrow> unat n = 0" for n :: u32
  by (simp add: unat_eq_zero)

text \<open>A read of a pipe that holds something: the oldest bytes, as many as there are and were asked for, and the
  first waiting writer becomes ready.\<close>

lemma pipe_read_returns:
  assumes inv: "kernel_inv (sys_kernel s)" and run: "runnable (sys_kernel s)" and irq: "k_interrupt_nest (sys_kernel s) = 0"
    and ok: "rb_ok (ring_of s p)" "rb_unwrapped (ring_of s p)"
    and n: "n = min (unat (ucast sz :: u16)) (rb_count (ring_of s p))" "0 < n"
  shows "returns (rt_pipe_read p pos sz s) (\<lambda>(r, s'). (\<exists>m. r = Done (m, take n (rb_contents (ring_of s p))) \<and> unat m = n) \<and>
     rb_ok (ring_of s' p) \<and> rb_unwrapped (ring_of s' p) \<and> rb_contents (ring_of s' p) = drop n (rb_contents (ring_of s p)) \<and>
     kernel_inv (sys_kernel s') \<and> runnable (sys_kernel s') \<and> served (Pipe_Write_Q p) (sys_kernel s) (sys_kernel s'))"
proof -
  from get_returns[OF ok n(1)] obtain m rb where g: "rt_ringbuffer_get (ucast sz) (ring_of s p) = Some (m, take n (rb_contents (ring_of s p)), rb)"
    "unat m = n" "rb_ok rb" "rb_contents rb = drop n (rb_contents (ring_of s p))" "rb_unwrapped rb" by (auto simp: returns_def)
  from resume_first_returns[OF inv run wait_queue_simps(14), of p] obtain k' where k': "resume_first (Pipe_Write_Q p) (sys_kernel s) = Some k'"
    "kernel_inv k'" "runnable k'" "served (Pipe_Write_Q p) (sys_kernel s) k'" by (auto simp: returns_def)
  have "m \<noteq> 0" using g(2) n(2) by (simp add: u32_eq_unat)
  then have "rt_pipe_read p pos sz s = Some (Done (m, take n (rb_contents (ring_of s p))), (set_ring p rb s)\<lparr>sys_kernel := k'\<rparr>)"
    by (subst rt_pipe_read.simps) (simp add: irq g(1) k'(1))
  then show ?thesis using g k' by simp
qed

lemma pipe_read_empty:
  assumes inv: "kernel_inv (sys_kernel s)" and irq: "k_interrupt_nest (sys_kernel s) = 0" and blk: "may_block t (sys_kernel s)"
    and ok: "rb_ok (ring_of s p)" "rb_unwrapped (ring_of s p)" "rb_contents (ring_of s p) = []"
  shows "returns (rt_pipe_read p pos sz s) (\<lambda>(r, s'). r = Blocked \<and> rb_contents (ring_of s' p) = [] \<and> rb_ok (ring_of s' p) \<and>
     kernel_inv (sys_kernel s') \<and> runnable (sys_kernel s') \<and>
     waiting (Pipe_Read_Q p) t RT_IPC_FLAG_FIFO 0 (sys_kernel s) (sys_kernel s'))"
proof -
  have cur: "k_current (sys_kernel s) = Some t" using blk by (simp add: may_block_def)
  have c0: "rb_count (ring_of s p) = 0" using ok(3) length_rb_contents[of "ring_of s p"] by simp
  from get_returns[OF ok(1,2), of 0 "ucast sz"] obtain rb where g: "rt_ringbuffer_get (ucast sz) (ring_of s p) = Some (0, [], rb)"
    "rb_ok rb" "rb_contents rb = []" using c0 ok(3) by (auto simp: returns_def unat_eq_zero)
  have "returns (block_rest t 0 (suspend_on (Pipe_Read_Q p) t (sys_kernel s)))
     (\<lambda>k'. kernel_inv k' \<and> runnable k' \<and> waiting (Pipe_Read_Q p) t RT_IPC_FLAG_FIFO 0 (sys_kernel s) k')"
    by (rule suspend_block_returns[OF inv wait_queue_simps(13) blk]) (simp add: time_ok_def)
  then obtain k' where e: "rt_schedule (suspend_on (Pipe_Read_Q p) t (sys_kernel s)) = Some k'"
    and k': "kernel_inv k'" "runnable k'" "waiting (Pipe_Read_Q p) t RT_IPC_FLAG_FIFO 0 (sys_kernel s) k'"
    by (auto simp: block_rest_def elim: returnsE)
  have "rt_pipe_read p pos sz s = Some (Blocked, (set_ring p rb s)\<lparr>sys_kernel := k'\<rparr>)"
    using waiting_away[OF k'(3)] by (subst rt_pipe_read.simps) (simp add: irq g(1) rt_thread_self_def cur e)
  then show ?thesis using g k' by simp
qed

lemma pipe_write_returns:
  assumes inv: "kernel_inv (sys_kernel s)" and run: "runnable (sys_kernel s)" and irq: "k_interrupt_nest (sys_kernel s) = 0"
    and ok: "rb_ok (ring_of s p)"
    and n: "n = min (unat (ucast sz :: u16)) (unat (rb_size (ring_of s p)) - rb_count (ring_of s p))" "0 < n" "n \<le> length bs"
  shows "returns (rt_pipe_write p pos buffer bs sz s) (\<lambda>(r, s'). (\<exists>m. r = Done m \<and> unat m = n) \<and>
     rb_ok (ring_of s' p) \<and> rb_contents (ring_of s' p) = rb_contents (ring_of s p) @ take n bs \<and>
     rb_size (ring_of s' p) = rb_size (ring_of s p) \<and> rb_read_index (ring_of s' p) = rb_read_index (ring_of s p) \<and>
     kernel_inv (sys_kernel s') \<and> runnable (sys_kernel s') \<and> served (Pipe_Read_Q p) (sys_kernel s) (sys_kernel s') \<and>
     k_interrupt_nest (sys_kernel s') = 0)"
proof -
  define s1 where "s1 = (if ps_first (sys_drv s) = None then s\<lparr>sys_drv := (sys_drv s)\<lparr>ps_first := Some p\<rparr>\<rparr> else s)"
  have s1: "ring_of s1 p = ring_of s p" "sys_kernel s1 = sys_kernel s" by (simp_all add: s1_def)
  from put_returns[OF ok n(1,3)] obtain m rb where g: "rt_ringbuffer_put bs (ucast sz) (ring_of s p) = Some (m, rb)"
    "unat m = n" "rb_ok rb" "rb_contents rb = rb_contents (ring_of s p) @ take n bs" "rb_size rb = rb_size (ring_of s p)"
    "rb_read_index rb = rb_read_index (ring_of s p)" by (auto simp: returns_def)
  from resume_first_returns[OF inv run wait_queue_simps(13), of p] obtain k' where k': "resume_first (Pipe_Read_Q p) (sys_kernel s) = Some k'"
    "kernel_inv k'" "runnable k'" "served (Pipe_Read_Q p) (sys_kernel s) k'" "same_objs k' (sys_kernel s)" by (auto simp: returns_def)
  have "m \<noteq> 0" using g(2) n(2) by (simp add: u32_eq_unat)
  then have "pipe_write_loop p bs sz s1 = Some (Done m, (set_ring p rb s1)\<lparr>sys_kernel := k'\<rparr>)"
    by (subst pipe_write_loop.simps) (simp add: s1 g(1) k'(1))
  then have "rt_pipe_write p pos buffer bs sz s = Some (Done m, (set_ring p rb s1)\<lparr>sys_kernel := k'\<rparr>)"
    using irq by (simp add: rt_pipe_write_def Let_def s1 flip: s1_def)
  then show ?thesis using g k' irq by (simp add: same_objs_def)
qed

lemma pipe_write_full:
  assumes inv: "kernel_inv (sys_kernel s)" and irq: "k_interrupt_nest (sys_kernel s) = 0" and blk: "may_block t (sys_kernel s)"
    and ok: "rb_ok (ring_of s p)" "rb_count (ring_of s p) = unat (rb_size (ring_of s p))"
  shows "returns (rt_pipe_write p pos buffer bs sz s) (\<lambda>(r, s'). r = Blocked \<and>
     rb_contents (ring_of s' p) = rb_contents (ring_of s p) \<and> kernel_inv (sys_kernel s') \<and> runnable (sys_kernel s') \<and>
     waiting (Pipe_Write_Q p) t RT_IPC_FLAG_FIFO 0 (sys_kernel s) (sys_kernel s'))"
proof -
  define s1 where "s1 = (if ps_first (sys_drv s) = None then s\<lparr>sys_drv := (sys_drv s)\<lparr>ps_first := Some p\<rparr>\<rparr> else s)"
  have s1: "ring_of s1 p = ring_of s p" "sys_kernel s1 = sys_kernel s" by (simp_all add: s1_def)
  have cur: "k_current (sys_kernel s) = Some t" using blk by (simp add: may_block_def)
  from put_returns[OF ok(1), of 0 "ucast sz" bs] obtain rb where g: "rt_ringbuffer_put bs (ucast sz) (ring_of s p) = Some (0, rb)"
    "rb_contents rb = rb_contents (ring_of s p)" using ok(2) by (auto simp: returns_def unat_eq_zero)
  have "returns (block_rest t 0 (suspend_on (Pipe_Write_Q p) t (sys_kernel s)))
     (\<lambda>k'. kernel_inv k' \<and> runnable k' \<and> waiting (Pipe_Write_Q p) t RT_IPC_FLAG_FIFO 0 (sys_kernel s) k')"
    by (rule suspend_block_returns[OF inv wait_queue_simps(14) blk]) (simp add: time_ok_def)
  then obtain k' where e: "rt_schedule (suspend_on (Pipe_Write_Q p) t (sys_kernel s)) = Some k'"
    and k': "kernel_inv k'" "runnable k'" "waiting (Pipe_Write_Q p) t RT_IPC_FLAG_FIFO 0 (sys_kernel s) k'"
    by (auto simp: block_rest_def elim: returnsE)
  have "pipe_write_loop p bs sz s1 = Some (Blocked, (set_ring p rb s1)\<lparr>sys_kernel := k'\<rparr>)"
    using waiting_away[OF k'(3)] by (subst pipe_write_loop.simps) (simp add: s1 g(1) rt_thread_self_def cur e)
  then have "rt_pipe_write p pos buffer bs sz s = Some (Blocked, (set_ring p rb s1)\<lparr>sys_kernel := k'\<rparr>)"
    using irq by (simp add: rt_pipe_write_def Let_def s1 flip: s1_def)
  then show ?thesis using g k' by simp
qed

end
