(* ===== verification/Data_Queue.thy ===== *)
theory Data_Queue
  imports Ring_Index Completion Kernel_Heap
begin

unbundle bit_operations_syntax

text \<open>
  Data queues, \<^verbatim>\<open>components/drivers/src/dataqueue.c\<close>: a ring of (pointer, size) items with a queue of
  waiting writers and one of waiting readers.  The structure is passed along with the kernel state; \<open>q\<close>
  is its address.  \<open>evt\<close> stands for the notification functions of the user: it runs the one at an
  address on an event.
\<close>

section \<open>The code\<close>

type_synonym data_item = "u32 \<times> u32"

record rt_data_queue =
  dq_size :: u16
  dq_lwm :: u16
  dq_waiting_lwm :: bool
  dq_get_index :: u16
  dq_put_index :: u16
  dq_queue_addr :: u32
  dq_queue :: "data_item list"
  dq_evt_notify :: "ptr option"

type_synonym dqs = "rt_data_queue \<times> kernel"
type_synonym notify = "ptr \<Rightarrow> u32 \<Rightarrow> dqs \<Rightarrow> dqs option"

abbreviation RT_DATAQUEUE_EVENT_POP :: u32 where "RT_DATAQUEUE_EVENT_POP \<equiv> 1"
abbreviation RT_DATAQUEUE_EVENT_PUSH :: u32 where "RT_DATAQUEUE_EVENT_PUSH \<equiv> 2"
abbreviation RT_DATAQUEUE_EVENT_LWM :: u32 where "RT_DATAQUEUE_EVENT_LWM \<equiv> 3"

text \<open>The items that lie in the memory \<open>b\<close> from address \<open>p\<close> on.\<close>

definition dq_items :: "bytes \<Rightarrow> u32 \<Rightarrow> nat \<Rightarrow> data_item list" where
  "dq_items b p n = map (\<lambda>i. (load32 (p + 8 * of_nat i) b, load32 (p + 8 * of_nat i + 4) b)) [0..<n]"

definition rt_data_queue_init :: "ptr \<Rightarrow> u16 \<Rightarrow> u16 \<Rightarrow> ptr option \<Rightarrow> bytes \<Rightarrow> dqs \<Rightarrow> (rt_err outcome \<times> dqs) option" where
  "rt_data_queue_init q sz lwm evt_notify b s =
     (let dq = (fst s)\<lparr>dq_evt_notify := evt_notify, dq_size := sz, dq_lwm := lwm, dq_waiting_lwm := False,
                 dq_get_index := 0, dq_put_index := 0\<rparr>;
          k = upd_tlists (\<lambda>L. L(Dq_Push_Q q := [], Dq_Pop_Q q := [])) (snd s)
      in bind_done (on_kernel (rt_malloc (8 * ucast sz)) (dq, k)) (\<lambda>p (dq, k).
           let dq1 = dq\<lparr>dq_queue_addr := p, dq_queue := dq_items b p (unat sz)\<rparr>
           in Some (Done (if p = 0 then -RT_ENOMEM else RT_EOK), dq1, k)))"

definition dq_event :: "notify \<Rightarrow> u32 \<Rightarrow> dqs \<Rightarrow> dqs option" where
  "dq_event evt e s = (case dq_evt_notify (fst s) of None \<Rightarrow> Some s | Some f \<Rightarrow> evt f e s)"

definition dq_store :: "data_item \<Rightarrow> rt_data_queue \<Rightarrow> rt_data_queue option" where
  "dq_store item dq =
     (let mask = dq_size dq - 1; p = unat (dq_put_index dq AND mask)
      in if p < length (dq_queue dq)
         then Some (dq\<lparr>dq_queue := (dq_queue dq)[p := item], dq_put_index := dq_put_index dq + 1\<rparr>) else None)"

definition dq_load :: "rt_data_queue \<Rightarrow> data_item option" where
  "dq_load dq =
     (let mask = dq_size dq - 1; p = unat (dq_get_index dq AND mask)
      in if p < length (dq_queue dq) then Some (dq_queue dq ! p) else None)"

text \<open>The rest of \<^verbatim>\<open>rt_data_queue_push\<close> when there is room.\<close>

definition dq_push_store :: "notify \<Rightarrow> ptr \<Rightarrow> data_item \<Rightarrow> dqs \<Rightarrow> (rt_err outcome \<times> dqs) option" where
  "dq_push_store evt q item s =
     do { dq \<leftarrow> dq_store item (fst s);
          case k_tlists (snd s) (Dq_Pop_Q q) of
            [] \<Rightarrow> do { s1 \<leftarrow> dq_event evt RT_DATAQUEUE_EVENT_PUSH (dq, snd s); Some (Done RT_EOK, s1) }
          | t # _ \<Rightarrow> do { k1 \<leftarrow> rt_schedule (snd (rt_thread_resume t (snd s))); Some (Done RT_EOK, dq, k1) } }"

text \<open>A thread that finds the queue full waits in line and, when it is woken without an error, looks again.
  The call is the recursion when the thread has not left the processor, and \<open>rt_data_queue_push_resumed\<close>
  when it runs again later.\<close>

partial_function (option) rt_data_queue_push :: "notify \<Rightarrow> ptr \<Rightarrow> data_item \<Rightarrow> u32 \<Rightarrow> dqs \<Rightarrow> (rt_err outcome \<times> dqs) option" where
  "rt_data_queue_push evt q item timeout s =
     (if uint (dq_put_index (fst s)) - uint (dq_get_index (fst s)) = uint (dq_size (fst s)) then
        let dq = (fst s)\<lparr>dq_waiting_lwm := True\<rparr>; k = snd s
        in if timeout = 0 then Some (Done (-RT_ETIMEOUT), dq, k)
           else do {
             rt_assert (k_interrupt_nest k = 0);
             t \<leftarrow> rt_thread_self k;
             let k1 = suspend_on (Dq_Push_Q q) t (upd_thread t (\<lambda>th. th\<lparr>t_error := RT_EOK\<rparr>) k);
             k2 \<leftarrow> block_rest t timeout k1;
             if k_current k2 = Some t then
               if t_error (thread k2 t) \<noteq> RT_EOK then Some (Done (t_error (thread k2 t)), dq, k2)
               else rt_data_queue_push evt q item timeout (dq, k2)
             else Some (Blocked, dq, k2) }
      else dq_push_store evt q item s)"

definition rt_data_queue_push_resumed :: "notify \<Rightarrow> ptr \<Rightarrow> data_item \<Rightarrow> u32 \<Rightarrow> tid \<Rightarrow> dqs \<Rightarrow> (rt_err outcome \<times> dqs) option" where
  "rt_data_queue_push_resumed evt q item timeout t s =
     (if t_error (thread (snd s) t) \<noteq> RT_EOK then Some (Done (t_error (thread (snd s) t)), s)
      else rt_data_queue_push evt q item timeout s)"

text \<open>The results of \<^verbatim>\<open>rt_data_queue_pop\<close>: the value it returns, the item it has stored through its pointers, and
  whether it has enabled the interrupts again.\<close>

type_synonym pop_result = "rt_err outcome \<times> data_item option \<times> bool"

text \<open>The rest of \<^verbatim>\<open>rt_data_queue_pop\<close> when there is an item; \<open>dq_pop_rest\<close> is what is left of it after it has woken
  a writer that took the processor.  In an interrupt the processor is given up only at its end.\<close>

definition dq_pop_rest :: "notify \<Rightarrow> dqs \<Rightarrow> (rt_err \<times> dqs) option" where
  "dq_pop_rest evt s = do { s1 \<leftarrow> dq_event evt RT_DATAQUEUE_EVENT_LWM s; Some (RT_EOK, s1) }"

definition dq_pop_load :: "notify \<Rightarrow> ptr \<Rightarrow> dqs \<Rightarrow> (pop_result \<times> dqs) option" where
  "dq_pop_load evt q s =
     do { item \<leftarrow> dq_load (fst s);
          let dq = (fst s)\<lparr>dq_get_index := dq_get_index (fst s) + 1\<rparr>;
          let k = snd s;
          if dq_waiting_lwm dq \<and> uint (dq_put_index dq) - uint (dq_get_index dq) \<le> uint (dq_lwm dq) then
            let dq1 = dq\<lparr>dq_waiting_lwm := False\<rparr>
            in case k_tlists k (Dq_Push_Q q) of
                 [] \<Rightarrow> do { (r, s1) \<leftarrow> dq_pop_rest evt (dq1, k); Some ((Done r, Some item, False), s1) }
               | t # _ \<Rightarrow> do {
                   k1 \<leftarrow> rt_schedule (snd (rt_thread_resume t k));
                   if k_current k1 = k_current k \<or> k_interrupt_nest k \<noteq> 0
                   then do { (r, s1) \<leftarrow> dq_pop_rest evt (dq1, k1); Some ((Done r, Some item, True), s1) }
                   else Some ((Blocked, Some item, True), dq1, k1) }
          else do { s1 \<leftarrow> dq_event evt RT_DATAQUEUE_EVENT_POP (dq, k); Some ((Done RT_EOK, Some item, True), s1) } }"

partial_function (option) rt_data_queue_pop :: "notify \<Rightarrow> ptr \<Rightarrow> u32 \<Rightarrow> dqs \<Rightarrow> (pop_result \<times> dqs) option" where
  "rt_data_queue_pop evt q timeout s =
     (if dq_get_index (fst s) = dq_put_index (fst s) then
        let dq = fst s; k = snd s
        in if timeout = 0 then Some ((Done (-RT_ETIMEOUT), None, True), s)
           else do {
             rt_assert (k_interrupt_nest k = 0);
             t \<leftarrow> rt_thread_self k;
             let k1 = suspend_on (Dq_Pop_Q q) t (upd_thread t (\<lambda>th. th\<lparr>t_error := RT_EOK\<rparr>) k);
             k2 \<leftarrow> block_rest t timeout k1;
             if k_current k2 = Some t then
               if t_error (thread k2 t) \<noteq> RT_EOK then Some ((Done (t_error (thread k2 t)), None, True), dq, k2)
               else rt_data_queue_pop evt q timeout (dq, k2)
             else Some ((Blocked, None, True), dq, k2) }
      else dq_pop_load evt q s)"

definition rt_data_queue_pop_resumed :: "notify \<Rightarrow> ptr \<Rightarrow> u32 \<Rightarrow> tid \<Rightarrow> dqs \<Rightarrow> (pop_result \<times> dqs) option" where
  "rt_data_queue_pop_resumed evt q timeout t s =
     (if t_error (thread (snd s) t) \<noteq> RT_EOK then Some ((Done (t_error (thread (snd s) t)), None, True), s)
      else rt_data_queue_pop evt q timeout s)"

definition rt_data_queue_peak :: "rt_data_queue \<Rightarrow> (rt_err \<times> data_item option) option" where
  "rt_data_queue_peak dq =
     (if dq_get_index dq = dq_put_index dq then Some (-RT_EEMPTY, None)
      else do { item \<leftarrow> dq_load dq; Some (RT_EOK, Some item) })"

definition rt_data_queue_reset :: "ptr \<Rightarrow> kernel \<Rightarrow> kernel option" where
  "rt_data_queue_reset q k =
     do { k1 \<leftarrow> rt_ipc_list_resume_all (Dq_Pop_Q q) (rt_enter_critical k);
          k2 \<leftarrow> rt_ipc_list_resume_all (Dq_Push_Q q) k1;
          k3 \<leftarrow> rt_exit_critical k2;
          rt_schedule k3 }"

section \<open>The queue it holds\<close>

definition dq_count :: "rt_data_queue \<Rightarrow> nat" where
  "dq_count dq = unat (dq_put_index dq - dq_get_index dq)"

definition dq_ok :: "rt_data_queue \<Rightarrow> bool" where
  "dq_ok dq \<longleftrightarrow> pow2 (unat (dq_size dq)) \<and> length (dq_queue dq) = unat (dq_size dq) \<and> dq_count dq \<le> unat (dq_size dq)"

definition dq_contents :: "rt_data_queue \<Rightarrow> data_item list" where
  "dq_contents dq = window (dq_queue dq) (unat (dq_get_index dq)) (dq_count dq)"

lemma length_dq_contents [simp]: "length (dq_contents dq) = dq_count dq"
  by (simp add: dq_contents_def)

lemma dq_empty_iff: "dq_contents dq = [] \<longleftrightarrow> dq_get_index dq = dq_put_index dq"
  using length_0_conv[of "dq_contents dq"] by (auto simp: dq_count_def unat_eq_zero simp del: length_0_conv)

lemma dq_waiting_ok [simp]:
  "dq_ok (dq\<lparr>dq_waiting_lwm := w\<rparr>) \<longleftrightarrow> dq_ok dq" "dq_contents (dq\<lparr>dq_waiting_lwm := w\<rparr>) = dq_contents dq"
  by (simp_all add: dq_ok_def dq_contents_def dq_count_def)

lemma dq_store_ok:
  assumes ok: "dq_ok dq" and room: "dq_count dq < unat (dq_size dq)"
  shows "returns (dq_store item dq) (\<lambda>dq'. dq_ok dq' \<and> dq_contents dq' = dq_contents dq @ [item] \<and> dq_size dq' = dq_size dq \<and>
     dq_evt_notify dq' = dq_evt_notify dq \<and> dq_get_index dq' = dq_get_index dq \<and> dq_put_index dq' = dq_put_index dq + 1 \<and>
     dq_lwm dq' = dq_lwm dq \<and> dq_waiting_lwm dq' = dq_waiting_lwm dq)"
proof -
  let ?w = "dq_put_index dq" and ?r = "dq_get_index dq" and ?L = "unat (dq_size dq)"
  have p2: "pow2 ?L" and len: "length (dq_queue dq) = ?L" using ok by (simp_all add: dq_ok_def)
  have L: "?L < 65536" using unsigned_less[of "dq_size dq", where 'a = nat] by simp
  define p where "p = unat (?w AND (dq_size dq - 1))"
  have "unat (?r + of_nat (dq_count dq)) mod ?L = (unat ?r + dq_count dq) mod ?L" by (rule add_mod_size[OF p2])
  then have p: "p = (unat ?r + dq_count dq) mod ?L" by (simp add: p_def mask_mod[OF p2] dq_count_def)
  let ?dq = "dq\<lparr>dq_queue := (dq_queue dq)[p := item], dq_put_index := ?w + 1\<rparr>"
  have c: "dq_count ?dq = Suc (dq_count dq)" using unat_diff_add[of ?w ?r 1] room L by (simp add: dq_count_def)
  have "dq_contents ?dq = dq_contents dq @ [item]"
    unfolding dq_contents_def c using window_snoc[of "dq_count dq" "dq_queue dq" p "unat ?r" item] p room by (simp add: len)
  moreover have "dq_ok ?dq" using ok room c by (simp add: dq_ok_def)
  moreover have "dq_store item dq = Some ?dq" using p pow2_pos[OF p2] by (simp add: dq_store_def len Let_def flip: p_def)
  ultimately show ?thesis by simp
qed

lemma dq_load_ok:
  assumes ok: "dq_ok dq" and c: "dq_contents dq = v # vs"
  defines "dq' \<equiv> dq\<lparr>dq_get_index := dq_get_index dq + 1\<rparr>"
  shows "dq_load dq = Some v" "dq_ok dq'" "dq_contents dq' = vs"
proof -
  let ?w = "dq_put_index dq" and ?r = "dq_get_index dq" and ?L = "unat (dq_size dq)"
  have p2: "pow2 ?L" and len: "length (dq_queue dq) = ?L" using ok by (simp_all add: dq_ok_def)
  have n: "dq_count dq = Suc (length vs)" using c by (metis length_dq_contents length_Cons)
  have cnt: "dq_count dq' = length vs" using unat_diff_sub[of 1 ?w ?r] n by (simp add: dq_count_def dq'_def)
  have win: "dq_contents dq = dq_queue dq ! (unat ?r mod ?L) # window (dq_queue dq) (Suc (unat ?r)) (length vs)"
    using window_Cons[of "dq_count dq" "dq_queue dq" "unat ?r"] n by (simp add: dq_contents_def len)
  have "window (dq_queue dq) (unat (?r + 1)) (length vs) = window (dq_queue dq) (Suc (unat ?r)) (length vs)"
    using add_mod_size[OF p2, of ?r 1] by (intro window_cong) (simp add: len)
  then show "dq_contents dq' = vs" using win c cnt by (simp add: dq_contents_def dq'_def)
  show "dq_ok dq'" using p2 len cnt n ok by (simp add: dq_ok_def dq'_def)
  show "dq_load dq = Some v" using win c mask_mod[OF p2, of ?r] pow2_pos[OF p2] by (simp add: dq_load_def Let_def len)
qed

definition dq_put1 :: "data_item \<Rightarrow> rt_data_queue \<Rightarrow> rt_data_queue" where
  "dq_put1 item dq = the (dq_store item dq)"

definition dq_get1 :: "rt_data_queue \<Rightarrow> data_item \<times> rt_data_queue" where
  "dq_get1 dq = (the (dq_load dq), dq\<lparr>dq_get_index := dq_get_index dq + 1\<rparr>)"

interpretation dq_fifo: fifo dq_ok dq_contents "\<lambda>dq. unat (dq_size dq)" "\<lambda>_ _. True" dq_put1 dq_get1
proof
  fix s v assume "dq_ok s" "length (dq_contents s) < unat (dq_size s)"
  then show "dq_ok (dq_put1 v s) \<and> dq_contents (dq_put1 v s) = dq_contents s @ [v] \<and>
      unat (dq_size (dq_put1 v s)) = unat (dq_size s) \<and> (\<lambda>_. True) = (\<lambda>_. True)"
    using dq_store_ok[of s v] by (auto simp: dq_put1_def returns_def)
qed (auto simp: dq_get1_def dq_load_ok)

section \<open>Writers\<close>

lemma dq_event_none [simp]: "dq_evt_notify dq = None \<Longrightarrow> dq_event evt e (dq, k) = Some (dq, k)"
  by (simp add: dq_event_def)

lemma dq_not_full:
  "dq_ok dq \<Longrightarrow> dq_count dq < unat (dq_size dq) \<Longrightarrow> uint (dq_put_index dq) - uint (dq_get_index dq) \<noteq> uint (dq_size dq)"
  using unsigned_less[of "dq_put_index dq - dq_get_index dq", where 'a = int] uint_ge_0[of "dq_size dq"]
  by (auto simp: index_diff_int dq_count_def word_less_nat_alt[symmetric] word_less_def)

lemma dq_full_iff:
  "dq_get_index dq \<le> dq_put_index dq \<Longrightarrow>
   uint (dq_put_index dq) - uint (dq_get_index dq) = uint (dq_size dq) \<longleftrightarrow> dq_count dq = unat (dq_size dq)"
  by (simp add: index_diff_int dq_count_def word_uint_eq_iff[symmetric] word_unat_eq_iff)

lemma push_room:
  assumes ok: "dq_ok dq" and room: "dq_count dq < unat (dq_size dq)" and none: "dq_evt_notify dq = None"
    and inv: "kernel_inv k" and run: "runnable k"
  shows "returns (rt_data_queue_push evt q item timeout (dq, k)) (\<lambda>(r, dq', k'). r = Done RT_EOK \<and> dq_ok dq' \<and>
     dq_contents dq' = dq_contents dq @ [item] \<and> kernel_inv k' \<and> runnable k' \<and> served (Dq_Pop_Q q) k k' \<and>
     dq_evt_notify dq' = None \<and> dq_get_index dq' = dq_get_index dq \<and> dq_put_index dq' = dq_put_index dq + 1 \<and>
     dq_lwm dq' = dq_lwm dq \<and> dq_waiting_lwm dq' = dq_waiting_lwm dq)"
proof -
  from dq_store_ok[OF ok room, of item] obtain dq' where d: "dq_store item dq = Some dq'" "dq_ok dq'"
    "dq_contents dq' = dq_contents dq @ [item]" "dq_evt_notify dq' = None"
    "dq_get_index dq' = dq_get_index dq" "dq_put_index dq' = dq_put_index dq + 1"
    "dq_lwm dq' = dq_lwm dq" "dq_waiting_lwm dq' = dq_waiting_lwm dq" using none by (auto simp: returns_def)
  have eq: "rt_data_queue_push evt q item timeout (dq, k) = dq_push_store evt q item (dq, k)"
    by (subst rt_data_queue_push.simps) (simp add: dq_not_full[OF ok room])
  show ?thesis
  proof (cases "k_tlists k (Dq_Pop_Q q)")
    case Nil
    then show ?thesis using d inv run by (simp add: eq dq_push_store_def served_def)
  next
    case (Cons t ts)
    have cur: "k_current k \<noteq> None" using run by (simp add: runnable_def)
    from resume_first_wakes[OF inv cur _ Cons] obtain k' where k': "rt_schedule (snd (rt_thread_resume t k)) = Some k'"
      "kinv (k_tick k) (HALF - 1) k'" "runnable k'" "woken (Dq_Pop_Q q) t k k'"
      by (auto simp: resume_first_def Cons elim: returnsE)
    then show ?thesis using d by (simp add: eq dq_push_store_def Cons served_def woken_def same_objs_def)
  qed
qed

lemma push_full_poll:
  assumes "dq_get_index dq \<le> dq_put_index dq" "dq_count dq = unat (dq_size dq)"
  shows "rt_data_queue_push evt q item 0 (dq, k) = Some (Done (-RT_ETIMEOUT), dq\<lparr>dq_waiting_lwm := True\<rparr>, k)"
  by (subst rt_data_queue_push.simps) (simp add: dq_full_iff[OF assms(1)] assms(2))

lemma push_full_blocks:
  assumes full: "dq_get_index dq \<le> dq_put_index dq" "dq_count dq = unat (dq_size dq)" and inv: "kernel_inv k"
    and time: "time \<noteq> 0" "time_ok time" and irq: "k_interrupt_nest k = 0" and blk: "may_block t k"
  defines "k1 \<equiv> upd_thread t (\<lambda>th. th\<lparr>t_error := RT_EOK\<rparr>) k"
  shows "returns (rt_data_queue_push evt q item time (dq, k)) (\<lambda>(r, dq', k'). r = Blocked \<and>
     dq' = dq\<lparr>dq_waiting_lwm := True\<rparr> \<and> kernel_inv k' \<and> runnable k' \<and> waiting (Dq_Push_Q q) t RT_IPC_FLAG_FIFO time k1 k')"
proof -
  have cur: "k_current k = Some t" using blk by (simp add: may_block_def)
  have "kernel_inv k1" "may_block t k1" using inv blk by (simp_all add: k1_def)
  from suspend_block_returns[OF this(1) wait_queue_simps(11) this(2) time(2), of q]
  obtain k3 where e: "block_rest t time (suspend_on (Dq_Push_Q q) t k1) = Some k3"
    and p: "kernel_inv k3" "runnable k3" "waiting (Dq_Push_Q q) t RT_IPC_FLAG_FIFO time k1 k3" by (auto elim: returnsE)
  show ?thesis
    by (subst rt_data_queue_push.simps)
      (use time(1) irq p waiting_away[OF p(3)] in \<open>simp add: dq_full_iff[OF full(1)] full(2) rt_thread_self_def cur e[unfolded k1_def]\<close>)
qed

section \<open>Readers\<close>

text \<open>The condition under which a reader wakes the first waiting writer: a writer has found the queue full
  since the last time, and the queue has run down to the low-water mark.\<close>

definition dq_low :: "rt_data_queue \<Rightarrow> bool" where
  "dq_low dq \<longleftrightarrow> dq_waiting_lwm dq \<and> dq_count dq - 1 \<le> unat (dq_lwm dq)"

lemma dq_low_iff:
  assumes c: "dq_contents dq = v # vs" and ord: "dq_get_index dq < dq_put_index dq"
  shows "uint (dq_put_index dq) - uint (dq_get_index dq + 1) \<le> uint (dq_lwm dq) \<longleftrightarrow> dq_count dq - 1 \<le> unat (dq_lwm dq)"
proof -
  have n: "dq_count dq \<noteq> 0" using c length_dq_contents[of dq] by auto
  have s: "unat (dq_get_index dq + 1) = Suc (unat (dq_get_index dq))"
    using ord by (intro unat_succ) auto
  then have le: "dq_get_index dq + 1 \<le> dq_put_index dq" using ord by (simp add: word_le_nat_alt word_less_nat_alt)
  have "unat (dq_put_index dq - (dq_get_index dq + of_nat 1)) = dq_count dq - 1"
    unfolding dq_count_def by (rule unat_diff_sub) (use n in \<open>simp add: dq_count_def\<close>)
  then have "uint (dq_put_index dq) - uint (dq_get_index dq + 1) = int (dq_count dq - 1)"
    using le by (simp only: index_diff_int if_True of_nat_1)
  then show ?thesis by (simp only: uint_nat) linarith
qed

lemma pop_some:
  assumes ok: "dq_ok dq" and c: "dq_contents dq = v # vs" and ord: "dq_get_index dq < dq_put_index dq"
    and none: "dq_evt_notify dq = None" and inv: "kernel_inv k" and run: "runnable k"
  shows "returns (rt_data_queue_pop evt q timeout (dq, k)) (\<lambda>((r, item, en), dq', k'). item = Some v \<and>
     (r = (if k_current k' = k_current k \<or> k_interrupt_nest k \<noteq> 0 then Done RT_EOK else Blocked)) \<and>
     dq_ok dq' \<and> dq_contents dq' = vs \<and> kernel_inv k' \<and> runnable k' \<and>
     (if dq_low dq then served (Dq_Push_Q q) k k' \<and> en = (k_tlists k (Dq_Push_Q q) \<noteq> []) else k' = k \<and> en))"
proof -
  let ?dq = "dq\<lparr>dq_get_index := dq_get_index dq + 1\<rparr>"
  note l = dq_load_ok[OF ok c]
  have ne: "dq_get_index dq \<noteq> dq_put_index dq" using ord by auto
  have eq: "rt_data_queue_pop evt q timeout (dq, k) = dq_pop_load evt q (dq, k)"
    by (subst rt_data_queue_pop.simps) (simp add: ne)
  note low = dq_low_iff[OF c ord]
  consider "\<not> dq_low dq" | "dq_low dq" "k_tlists k (Dq_Push_Q q) = []" | t ts where "dq_low dq" "k_tlists k (Dq_Push_Q q) = t # ts"
    by (cases "k_tlists k (Dq_Push_Q q)") auto
  then show ?thesis
  proof cases
    case 1
    then show ?thesis using l none inv run low by (auto simp: eq dq_pop_load_def dq_low_def Let_def)
  next
    case 2
    then show ?thesis using l none inv run low by (simp add: eq dq_pop_load_def dq_low_def Let_def served_def dq_pop_rest_def)
  next
    case 3
    have cur: "k_current k \<noteq> None" using run by (simp add: runnable_def)
    from resume_first_wakes[OF inv cur _ 3(2)] obtain k' where k': "rt_schedule (snd (rt_thread_resume t k)) = Some k'"
      "kinv (k_tick k) (HALF - 1) k'" "runnable k'" "woken (Dq_Push_Q q) t k k'"
      by (auto simp: resume_first_def 3(2) elim: returnsE)
    then show ?thesis using l none low 3
      by (simp add: eq dq_pop_load_def dq_low_def Let_def dq_pop_rest_def served_def woken_def same_objs_def)
  qed
qed

lemma pop_empty_poll:
  "dq_contents dq = [] \<Longrightarrow> rt_data_queue_pop evt q 0 (dq, k) = Some ((Done (-RT_ETIMEOUT), None, True), dq, k)"
  using length_dq_contents[of dq] by (subst rt_data_queue_pop.simps) (simp add: dq_count_def unat_eq_zero)

lemma pop_empty_blocks:
  assumes empty: "dq_contents dq = []" and inv: "kernel_inv k"
    and time: "time \<noteq> 0" "time_ok time" and irq: "k_interrupt_nest k = 0" and blk: "may_block t k"
  defines "k1 \<equiv> upd_thread t (\<lambda>th. th\<lparr>t_error := RT_EOK\<rparr>) k"
  shows "returns (rt_data_queue_pop evt q time (dq, k)) (\<lambda>((r, item, en), dq', k'). r = Blocked \<and> item = None \<and> en \<and>
     dq' = dq \<and> kernel_inv k' \<and> runnable k' \<and> waiting (Dq_Pop_Q q) t RT_IPC_FLAG_FIFO time k1 k')"
proof -
  have cur: "k_current k = Some t" using blk by (simp add: may_block_def)
  have ix: "dq_get_index dq = dq_put_index dq" using empty length_dq_contents[of dq] by (simp add: dq_count_def unat_eq_zero)
  have "kernel_inv k1" "may_block t k1" using inv blk by (simp_all add: k1_def)
  from suspend_block_returns[OF this(1) wait_queue_simps(12) this(2) time(2), of q]
  obtain k3 where e: "block_rest t time (suspend_on (Dq_Pop_Q q) t k1) = Some k3"
    and p: "kernel_inv k3" "runnable k3" "waiting (Dq_Pop_Q q) t RT_IPC_FLAG_FIFO time k1 k3" by (auto elim: returnsE)
  show ?thesis
    by (subst rt_data_queue_pop.simps)
      (use time(1) irq p waiting_away[OF p(3)] in \<open>simp add: ix rt_thread_self_def cur e[unfolded k1_def]\<close>)
qed

text \<open>Looking at the first item takes nothing out.\<close>

lemma peak_head:
  "dq_ok dq \<Longrightarrow> rt_data_queue_peak dq = Some (case dq_contents dq of [] \<Rightarrow> (-RT_EEMPTY, None) | v # vs \<Rightarrow> (RT_EOK, Some v))"
  using dq_load_ok(1)[of dq] dq_empty_iff[of dq] by (cases "dq_contents dq") (auto simp: rt_data_queue_peak_def)

text \<open>A size that is not a power of two, such as the 40 of \<^verbatim>\<open>RT_SERIAL_TX_DATAQUEUE_SIZE\<close>: the mask 39 maps the ninth
  item on the first.\<close>

lemma dq_size_40_overwrites:
  assumes "dq_size dq = 40" "length (dq_queue dq) = 40" "dq_get_index dq = 0" "dq_put_index dq = 8"
  shows "returns (dq_store item dq) (\<lambda>dq'. dq_load dq' = Some item)"
  using assms by (simp add: dq_store_def dq_load_def)

end
