(* ===== verification/Serial.thy ===== *)
theory Serial
  imports Data_Queue Device
begin

unbundle bit_operations_syntax

text \<open>
  The serial driver framework, \<^verbatim>\<open>components/drivers/serial/serial.c\<close> with \<^verbatim>\<open>drivers/serial.h\<close>: receive and
  transmit buffers between the interrupts of a UART and the device layer.  The UART driver below it is
  the record \<open>rt_uart_ops\<close> of functions on its own state \<open>'h\<close>.  \<open>evt\<close> and \<open>cb\<close> run notification functions
  and call-backs of the user, given by their addresses.
\<close>

section \<open>The buffers\<close>

record serial_ringbuffer =
  sr_buffer :: "u8 list"
  sr_put_index :: u16
  sr_get_index :: u16

abbreviation SERIAL_RBUFFER_SIZE :: nat where "SERIAL_RBUFFER_SIZE \<equiv> 128"

definition serial_ringbuffer_init :: "serial_ringbuffer \<Rightarrow> serial_ringbuffer" where
  "serial_ringbuffer_init rb = \<lparr>sr_buffer = replicate SERIAL_RBUFFER_SIZE 0, sr_put_index = 0, sr_get_index = 0\<rparr>"

definition sr_next :: "u16 \<Rightarrow> u16" where
  "sr_next i = (i + 1) AND (128 - 1)"

definition serial_ringbuffer_putc :: "u8 \<Rightarrow> serial_ringbuffer \<Rightarrow> serial_ringbuffer option" where
  "serial_ringbuffer_putc ch rb =
     (if unat (sr_put_index rb) < length (sr_buffer rb) then
        let rb1 = rb\<lparr>sr_buffer := (sr_buffer rb)[unat (sr_put_index rb) := ch], sr_put_index := sr_next (sr_put_index rb)\<rparr>
        in Some (if sr_put_index rb1 = sr_get_index rb1 then rb1\<lparr>sr_get_index := sr_next (sr_get_index rb1)\<rparr> else rb1)
      else None)"

definition serial_ringbuffer_putchar :: "u8 \<Rightarrow> serial_ringbuffer \<Rightarrow> (int \<times> serial_ringbuffer) option" where
  "serial_ringbuffer_putchar ch rb =
     (let next_index = sr_next (sr_put_index rb)
      in if next_index \<noteq> sr_get_index rb then
           if unat (sr_put_index rb) < length (sr_buffer rb)
           then Some (1, rb\<lparr>sr_buffer := (sr_buffer rb)[unat (sr_put_index rb) := ch], sr_put_index := next_index\<rparr>)
           else None
         else Some (- 1, rb))"

definition serial_ringbuffer_getc :: "serial_ringbuffer \<Rightarrow> (int \<times> serial_ringbuffer) option" where
  "serial_ringbuffer_getc rb =
     (if sr_get_index rb \<noteq> sr_put_index rb then
        if unat (sr_get_index rb) < length (sr_buffer rb)
        then Some (uint (sr_buffer rb ! unat (sr_get_index rb)), rb\<lparr>sr_get_index := sr_next (sr_get_index rb)\<rparr>)
        else None
      else Some (- 1, rb))"

definition serial_ringbuffer_size :: "serial_ringbuffer \<Rightarrow> u32" where
  "serial_ringbuffer_size rb = (ucast (sr_put_index rb) - ucast (sr_get_index rb)) AND (128 - 1)"

section \<open>The driver\<close>

record serial_configure =
  cfg_baud_rate :: u32
  cfg_data_bits :: u32
  cfg_stop_bits :: u32
  cfg_parity :: u32
  cfg_bit_order :: u32
  cfg_invert :: u32

record 'h rt_uart_ops =
  op_configure :: "(serial_configure \<Rightarrow> 'h \<Rightarrow> (rt_err \<times> 'h)) option"
  op_control :: "u32 \<Rightarrow> u32 \<Rightarrow> 'h \<Rightarrow> rt_err \<times> 'h"
  op_putc :: "u8 \<Rightarrow> 'h \<Rightarrow> int \<times> 'h"
  op_getc :: "'h \<Rightarrow> int \<times> 'h"
  op_dma_transmit :: "u32 \<Rightarrow> u32 \<Rightarrow> 'h \<Rightarrow> u32 \<times> 'h"

record 'h rt_serial =
  se_config :: serial_configure
  se_int_rx :: serial_ringbuffer
  se_int_tx :: serial_ringbuffer
  se_tx_dq :: rt_data_queue
  se_tx_busy :: bool
  se_hw :: 'h

text \<open>The serial devices, by address.\<close>

type_synonym 'h serials = "ptr \<Rightarrow> 'h rt_serial"

abbreviation serial :: "'h serials sys \<Rightarrow> ptr \<Rightarrow> 'h rt_serial" where
  "serial s p \<equiv> sys_drv s p"

definition upd_serial :: "ptr \<Rightarrow> ('h rt_serial \<Rightarrow> 'h rt_serial) \<Rightarrow> 'h serials sys \<Rightarrow> 'h serials sys" where
  "upd_serial p f s = s\<lparr>sys_drv := (sys_drv s)(p := f (sys_drv s p))\<rparr>"

type_synonym 'h callbacks = "ptr \<Rightarrow> ptr \<Rightarrow> u32 \<Rightarrow> 'h serials sys \<Rightarrow> 'h serials sys option"

definition call_back :: "'h callbacks \<Rightarrow> ptr option \<Rightarrow> ptr \<Rightarrow> u32 \<Rightarrow> 'h serials sys \<Rightarrow> 'h serials sys option" where
  "call_back cb f p arg s = (case f of None \<Rightarrow> Some s | Some a \<Rightarrow> cb a p arg s)"

abbreviation RT_DEVICE_CTRL_RESUME :: u8 where "RT_DEVICE_CTRL_RESUME \<equiv> 0x01"
abbreviation RT_DEVICE_CTRL_SUSPEND :: u8 where "RT_DEVICE_CTRL_SUSPEND \<equiv> 0x02"
abbreviation RT_DEVICE_CTRL_CONFIG :: u8 where "RT_DEVICE_CTRL_CONFIG \<equiv> 0x03"
abbreviation RT_DEVICE_CTRL_SET_INT :: u32 where "RT_DEVICE_CTRL_SET_INT \<equiv> 0x10"
abbreviation RT_DEVICE_CTRL_CLR_INT :: u32 where "RT_DEVICE_CTRL_CLR_INT \<equiv> 0x11"
abbreviation RT_SERIAL_RX_INT :: u32 where "RT_SERIAL_RX_INT \<equiv> 0x01"
abbreviation RT_SERIAL_TX_INT :: u32 where "RT_SERIAL_TX_INT \<equiv> 0x02"
abbreviation RT_SERIAL_TX_DATAQUEUE_SIZE :: u16 where "RT_SERIAL_TX_DATAQUEUE_SIZE \<equiv> 40"
abbreviation RT_SERIAL_TX_DATAQUEUE_LWM :: u16 where "RT_SERIAL_TX_DATAQUEUE_LWM \<equiv> 30"

text \<open>The data queue of a device is at an address of its own.\<close>

definition tx_dq_addr :: "ptr \<Rightarrow> ptr" where
  "tx_dq_addr p = p + 1"

text \<open>Running an operation of the data queue of a serial device.\<close>

definition with_dq :: "ptr \<Rightarrow> (dqs \<Rightarrow> ('a \<times> dqs) option) \<Rightarrow> 'h serials sys \<Rightarrow> ('a \<times> 'h serials sys) option" where
  "with_dq p f s =
     do { (r, dq, k) \<leftarrow> f (se_tx_dq (serial s p), sys_kernel s);
          Some (r, (upd_serial p (\<lambda>se. se\<lparr>se_tx_dq := dq\<rparr>) s)\<lparr>sys_kernel := k\<rparr>) }"

text \<open>\<^verbatim>\<open>rt_serial_init\<close> after the hardware has been configured; \<open>b\<close> is the memory, for the items of the queue.\<close>

definition serial_init_buffers :: "bytes \<Rightarrow> ptr \<Rightarrow> 'h serials sys \<Rightarrow> (rt_err outcome \<times> 'h serials sys) option" where
  "serial_init_buffers b p s =
     (let fl = d_flag (dev s p);
          s1 = (if has fl RT_DEVICE_FLAG_INT_RX then upd_serial p (\<lambda>se. se\<lparr>se_int_rx := serial_ringbuffer_init (se_int_rx se)\<rparr>) s else s);
          s2 = (if has fl RT_DEVICE_FLAG_INT_TX then upd_serial p (\<lambda>se. se\<lparr>se_int_tx := serial_ringbuffer_init (se_int_tx se)\<rparr>) s1 else s1)
      in bind_done
           (if has fl RT_DEVICE_FLAG_DMA_TX
            then with_dq p (rt_data_queue_init (tx_dq_addr p) RT_SERIAL_TX_DATAQUEUE_SIZE RT_SERIAL_TX_DATAQUEUE_LWM None b)
                   (upd_serial p (\<lambda>se. se\<lparr>se_tx_busy := False\<rparr>) s2)
            else Some (Done RT_EOK, s2))
           (\<lambda>_ s3. Some (Done RT_EOK, upd_dev p (\<lambda>d. d\<lparr>d_flag := d_flag d OR RT_DEVICE_FLAG_ACTIVATED\<rparr>) s3)))"

definition rt_serial_init :: "bytes \<Rightarrow> 'h rt_uart_ops \<Rightarrow> ptr \<Rightarrow> 'h serials sys \<Rightarrow> (rt_err outcome \<times> 'h serials sys) option" where
  "rt_serial_init b uops p s =
     (if \<not> has (d_flag (dev s p)) RT_DEVICE_FLAG_ACTIVATED then
        case op_configure uops of
          Some configure \<Rightarrow>
            let (result, hw) = configure (se_config (serial s p)) (se_hw (serial s p));
                s1 = upd_serial p (\<lambda>se. se\<lparr>se_hw := hw\<rparr>) s
            in if result \<noteq> RT_EOK then Some (Done result, s1) else serial_init_buffers b p s1
        | None \<Rightarrow> serial_init_buffers b p s
      else Some (Done RT_EOK, s))"

definition serial_int_flags :: "u16 \<Rightarrow> u32" where
  "serial_int_flags flag =
     (if has flag RT_DEVICE_FLAG_INT_RX then RT_SERIAL_RX_INT else 0) OR
     (if has flag RT_DEVICE_FLAG_INT_TX then RT_SERIAL_TX_INT else 0)"

definition serial_ctrl_int :: "u32 \<Rightarrow> 'h rt_uart_ops \<Rightarrow> ptr \<Rightarrow> 'h serials sys \<Rightarrow> 'h serials sys" where
  "serial_ctrl_int cmd uops p s =
     (let int_flags = serial_int_flags (d_flag (dev s p))
      in if int_flags \<noteq> 0
         then upd_serial p (\<lambda>se. se\<lparr>se_hw := snd (op_control uops cmd int_flags (se_hw se))\<rparr>) s else s)"

definition rt_serial_open :: "'h rt_uart_ops \<Rightarrow> ptr \<Rightarrow> u16 \<Rightarrow> 'h serials sys \<Rightarrow> (rt_err outcome \<times> 'h serials sys) option" where
  "rt_serial_open uops p oflag s = Some (Done RT_EOK, serial_ctrl_int RT_DEVICE_CTRL_SET_INT uops p s)"

definition rt_serial_close :: "'h rt_uart_ops \<Rightarrow> ptr \<Rightarrow> 'h serials sys \<Rightarrow> (rt_err outcome \<times> 'h serials sys) option" where
  "rt_serial_close uops p s = Some (Done RT_EOK, serial_ctrl_int RT_DEVICE_CTRL_CLR_INT uops p s)"

text \<open>The two reading loops: from the buffer until it is empty, and from the hardware.\<close>

fun serial_take :: "nat \<Rightarrow> serial_ringbuffer \<Rightarrow> (u8 list \<times> serial_ringbuffer) option" where
  "serial_take 0 rb = Some ([], rb)"
| "serial_take (Suc n) rb =
     do { (ch, rb1) \<leftarrow> serial_ringbuffer_getc rb;
          if ch = - 1 then Some ([], rb1)
          else do { (cs, rb2) \<leftarrow> serial_take n rb1; Some (word_of_int ch # cs, rb2) } }"

fun serial_poll_read :: "'h rt_uart_ops \<Rightarrow> nat \<Rightarrow> 'h \<Rightarrow> u8 list \<times> 'h" where
  "serial_poll_read uops 0 hw = ([], hw)"
| "serial_poll_read uops (Suc n) hw =
     (let (ch, hw1) = op_getc uops hw; (cs, hw2) = serial_poll_read uops n hw1 in (word_of_int ch # cs, hw2))"

definition rt_serial_read :: "'h rt_uart_ops \<Rightarrow> ptr \<Rightarrow> u32 \<Rightarrow> u32 \<Rightarrow> 'h serials sys \<Rightarrow>
    ((u32 \<times> u8 list) outcome \<times> 'h serials sys) option" where
  "rt_serial_read uops p pos sz s =
     do { (cs, s1) \<leftarrow>
            (if has (d_flag (dev s p)) RT_DEVICE_FLAG_INT_RX
             then do { (cs, rb) \<leftarrow> serial_take (unat sz) (se_int_rx (serial s p));
                       Some (cs, upd_serial p (\<lambda>se. se\<lparr>se_int_rx := rb\<rparr>) s) }
             else let (cs, hw) = serial_poll_read uops (unat sz) (se_hw (serial s p))
                  in Some (cs, upd_serial p (\<lambda>se. se\<lparr>se_hw := hw\<rparr>) s));
          Some (Done (of_nat (length cs), cs), if cs = [] then rt_set_errno (-RT_EEMPTY) s1 else s1) }"

text \<open>Moving characters from the transmit buffer to the hardware: until it is full, or the buffer is empty.  A
  character 0 counts as the end of the data.\<close>

partial_function (option) serial_put :: "'h rt_uart_ops \<Rightarrow> 'h callbacks \<Rightarrow> ptr \<Rightarrow> nat \<Rightarrow> 'h serials sys \<Rightarrow> (nat \<times> 'h serials sys) option" where
  "serial_put uops cb p count s =
     do { (ch, rb) \<leftarrow> serial_ringbuffer_getc (se_int_tx (serial s p));
          let s1 = upd_serial p (\<lambda>se. se\<lparr>se_int_tx := rb\<rparr>) s;
          if ch > 0 then
            let (remain, hw) = op_putc uops (word_of_int ch) (se_hw (serial s1 p));
                s2 = upd_serial p (\<lambda>se. se\<lparr>se_hw := hw\<rparr>) s1
            in if remain = 0 then Some (count + 1, s2) else serial_put uops cb p (count + 1) s2
          else if count = 0 then
            do { s2 \<leftarrow> call_back cb (d_tx_complete (dev s1 p)) p 0 (upd_serial p (\<lambda>se. se\<lparr>se_tx_busy := False\<rparr>) s1);
                 Some (count, s2) }
          else Some (count, s1) }"

text \<open>Filling the transmit buffer: \<open>n\<close> characters of \<open>bs\<close>, as long as there is room; the result is how many.\<close>

fun serial_fill :: "u8 list \<Rightarrow> nat \<Rightarrow> serial_ringbuffer \<Rightarrow> (nat \<times> serial_ringbuffer) option" where
  "serial_fill bs 0 rb = Some (0, rb)"
| "serial_fill [] (Suc n) rb = None"
| "serial_fill (b # bs) (Suc n) rb =
     do { (r, rb1) \<leftarrow> serial_ringbuffer_putchar b rb;
          if r \<noteq> - 1 then do { (m, rb2) \<leftarrow> serial_fill bs n rb1; Some (Suc m, rb2) } else Some (0, rb1) }"

fun serial_poll_write :: "'h rt_uart_ops \<Rightarrow> bool \<Rightarrow> u8 list \<Rightarrow> nat \<Rightarrow> 'h \<Rightarrow> 'h option" where
  "serial_poll_write uops stream bs 0 hw = Some hw"
| "serial_poll_write uops stream [] (Suc n) hw = None"
| "serial_poll_write uops stream (b # bs) (Suc n) hw =
     (let hw1 = (if b = 10 \<and> stream then snd (op_putc uops 13 hw) else hw)
      in serial_poll_write uops stream bs n (snd (op_putc uops b hw1)))"

text \<open>The DMA branch of \<^verbatim>\<open>rt_serial_write\<close>: what follows the push, and what follows the pop.\<close>

definition serial_dma_go :: "'h rt_uart_ops \<Rightarrow> ptr \<Rightarrow> rt_err \<Rightarrow> data_item option \<Rightarrow> 'h serials sys \<Rightarrow> 'h serials sys" where
  "serial_dma_go uops p r item s =
     (case item of
        Some (data_ptr, data_size) \<Rightarrow>
          if r = RT_EOK
          then upd_serial p (\<lambda>se. se\<lparr>se_hw := snd (op_dma_transmit uops data_ptr data_size (se_hw se))\<rparr>) s else s
      | None \<Rightarrow> s)"

definition serial_dma_pushed :: "notify \<Rightarrow> 'h rt_uart_ops \<Rightarrow> ptr \<Rightarrow> u32 \<Rightarrow> rt_err \<Rightarrow> 'h serials sys \<Rightarrow>
    (u32 outcome \<times> 'h serials sys) option" where
  "serial_dma_pushed evt uops p sz result s =
     (if result = RT_EOK then
        if \<not> se_tx_busy (serial s p) then
          do { ((r, item, en), s1) \<leftarrow> with_dq p (rt_data_queue_pop evt (tx_dq_addr p) 0)
                                       (upd_serial p (\<lambda>se. se\<lparr>se_tx_busy := True\<rparr>) s);
               case r of
                 Done e \<Rightarrow> Some (Done sz, serial_dma_go uops p e item s1)
               | Blocked \<Rightarrow> Some (Blocked, s1) }
        else Some (Done sz, s)
      else Some (Done 0, rt_set_errno result s))"

text \<open>Behind the filling loop of \<^verbatim>\<open>rt_serial_write\<close>: when nobody is sending the caller starts it.  It is one step here; the
  code has enabled the interrupts again by then, so that a transmit interrupt can come in between.\<close>

definition serial_kick :: "'h rt_uart_ops \<Rightarrow> 'h callbacks \<Rightarrow> ptr \<Rightarrow> 'h serials sys \<Rightarrow> 'h serials sys option" where
  "serial_kick uops cb p s =
     (if \<not> se_tx_busy (serial s p)
      then do { (c, s1) \<leftarrow> serial_put uops cb p 0 (upd_serial p (\<lambda>se. se\<lparr>se_tx_busy := True\<rparr>) s); Some s1 }
      else Some s)"

definition rt_serial_write :: "notify \<Rightarrow> 'h callbacks \<Rightarrow> 'h rt_uart_ops \<Rightarrow> ptr \<Rightarrow> u32 \<Rightarrow> u32 \<Rightarrow> u8 list \<Rightarrow> u32 \<Rightarrow>
    'h serials sys \<Rightarrow> (u32 outcome \<times> 'h serials sys) option" where
  "rt_serial_write evt cb uops p pos buffer bs sz s =
     (let fl = d_flag (dev s p);
          finish = (\<lambda>n s. Some (Done (of_nat n), if n = 0 then rt_set_errno (-RT_EFULL) s else s))
      in if has fl RT_DEVICE_FLAG_INT_TX then
           do { (n, rb) \<leftarrow> serial_fill bs (unat sz) (se_int_tx (serial s p));
                s1 \<leftarrow> serial_kick uops cb p (upd_serial p (\<lambda>se. se\<lparr>se_int_tx := rb\<rparr>) s);
                finish n s1 }
         else if has fl RT_DEVICE_FLAG_DMA_TX then
           do { rt_assert (\<not> has fl RT_DEVICE_FLAG_STREAM);
                bind_done (with_dq p (rt_data_queue_push evt (tx_dq_addr p) (buffer, sz) 20) s)
                  (serial_dma_pushed evt uops p sz) }
         else
           do { hw \<leftarrow> serial_poll_write uops (has fl RT_DEVICE_FLAG_STREAM) bs (unat sz) (se_hw (serial s p));
                finish (unat sz) (upd_serial p (\<lambda>se. se\<lparr>se_hw := hw\<rparr>) s) })"

definition rt_serial_control :: "'h rt_uart_ops \<Rightarrow> ptr \<Rightarrow> u8 \<Rightarrow> serial_configure \<Rightarrow> 'h serials sys \<Rightarrow>
    (rt_err outcome \<times> 'h serials sys) option" where
  "rt_serial_control uops p cmd args s =
     (if cmd = RT_DEVICE_CTRL_SUSPEND then
        Some (Done RT_EOK, upd_dev p (\<lambda>d. d\<lparr>d_flag := d_flag d OR RT_DEVICE_FLAG_SUSPENDED\<rparr>) s)
      else if cmd = RT_DEVICE_CTRL_RESUME then
        Some (Done RT_EOK, upd_dev p (\<lambda>d. d\<lparr>d_flag := d_flag d AND NOT RT_DEVICE_FLAG_SUSPENDED\<rparr>) s)
      else if cmd = RT_DEVICE_CTRL_CONFIG then
        do { configure \<leftarrow> op_configure uops;
             Some (Done RT_EOK, upd_serial p (\<lambda>se. se\<lparr>se_hw := snd (configure args (se_hw se))\<rparr>) s) }
      else Some (Done RT_EOK, s))"

definition serial_ops :: "bytes \<Rightarrow> notify \<Rightarrow> 'h callbacks \<Rightarrow> 'h rt_uart_ops \<Rightarrow> ('h serials, serial_configure) rt_device_ops" where
  "serial_ops b evt cb uops =
     \<lparr>dop_init = Some (rt_serial_init b uops), dop_open = Some (rt_serial_open uops), dop_close = Some (rt_serial_close uops),
      dop_read = Some (rt_serial_read uops), dop_write = Some (rt_serial_write evt cb uops),
      dop_control = Some (rt_serial_control uops)\<rparr>"

text \<open>\<open>h\<close> is where the handlers are found.  The flags are passed on as 16 bits.\<close>

definition rt_hw_serial_register :: "ptr \<Rightarrow> ptr \<Rightarrow> cstr \<Rightarrow> u32 \<Rightarrow> u32 \<Rightarrow> 'h serials sys \<Rightarrow> (rt_err \<times> 'h serials sys) option" where
  "rt_hw_serial_register h p name flag data s =
     rt_device_register (Some p) name (ucast flag)
       (upd_dev p (\<lambda>d. d\<lparr>d_type := 0, d_rx_indicate := None, d_tx_complete := None, d_handlers := h, d_user_data := data\<rparr>) s)"

section \<open>The interrupts\<close>

partial_function (option) serial_receive :: "'h rt_uart_ops \<Rightarrow> ptr \<Rightarrow> 'h serials sys \<Rightarrow> 'h serials sys option" where
  "serial_receive uops p s =
     (let (ch, hw) = op_getc uops (se_hw (serial s p));
          s1 = upd_serial p (\<lambda>se. se\<lparr>se_hw := hw\<rparr>) s
      in if ch = - 1 then Some s1
         else do { rb \<leftarrow> serial_ringbuffer_putc (word_of_int ch) (se_int_rx (serial s1 p));
                   serial_receive uops p (upd_serial p (\<lambda>se. se\<lparr>se_int_rx := rb\<rparr>) s1) })"

definition rt_hw_serial_char_isr :: "'h rt_uart_ops \<Rightarrow> ptr \<Rightarrow> 'h serials sys \<Rightarrow> 'h serials sys option" where
  "rt_hw_serial_char_isr uops p s =
     do { rt_assert (has (d_flag (dev s p)) RT_DEVICE_FLAG_INT_RX); serial_receive uops p s }"

definition rt_hw_serial_timeout_isr :: "'h callbacks \<Rightarrow> 'h rt_uart_ops \<Rightarrow> ptr \<Rightarrow> 'h serials sys \<Rightarrow> 'h serials sys option" where
  "rt_hw_serial_timeout_isr cb uops p s =
     do { rt_assert (has (d_flag (dev s p)) RT_DEVICE_FLAG_INT_RX);
          s1 \<leftarrow> serial_receive uops p s;
          call_back cb (d_rx_indicate (dev s1 p)) p (serial_ringbuffer_size (se_int_rx (serial s1 p))) s1 }"

definition rt_hw_serial_int_tx_isr :: "'h callbacks \<Rightarrow> 'h rt_uart_ops \<Rightarrow> ptr \<Rightarrow> 'h serials sys \<Rightarrow> 'h serials sys option" where
  "rt_hw_serial_int_tx_isr cb uops p s =
     do { rt_assert (has (d_flag (dev s p)) RT_DEVICE_FLAG_INT_TX);
          (c, s1) \<leftarrow> serial_put uops cb p 0 s;
          Some s1 }"

definition rt_hw_serial_dma_tx_isr :: "notify \<Rightarrow> 'h callbacks \<Rightarrow> 'h rt_uart_ops \<Rightarrow> ptr \<Rightarrow> 'h serials sys \<Rightarrow> 'h serials sys option" where
  "rt_hw_serial_dma_tx_isr evt cb uops p s =
     do { ((r, item, en), s1) \<leftarrow> with_dq p (rt_data_queue_pop evt (tx_dq_addr p) 0) s;
          let s2 = (if r = Done RT_EOK then serial_dma_go uops p RT_EOK item s1
                    else upd_serial p (\<lambda>se. se\<lparr>se_tx_busy := False\<rparr>) s1);
          call_back cb (d_tx_complete (dev s2 p)) p 0 s2 }"

section \<open>The buffers as queues\<close>

definition sr_ok :: "serial_ringbuffer \<Rightarrow> bool" where
  "sr_ok rb \<longleftrightarrow> length (sr_buffer rb) = 128 \<and> unat (sr_put_index rb) < 128 \<and> unat (sr_get_index rb) < 128"

definition sr_count :: "serial_ringbuffer \<Rightarrow> nat" where
  "sr_count rb = (unat (sr_put_index rb) + 128 - unat (sr_get_index rb)) mod 128"

definition sr_contents :: "serial_ringbuffer \<Rightarrow> u8 list" where
  "sr_contents rb = window (sr_buffer rb) (unat (sr_get_index rb)) (sr_count rb)"

lemma length_sr_contents [simp]: "length (sr_contents rb) = sr_count rb"
  by (simp add: sr_contents_def)

lemma unat_sr_next: "unat (sr_next i) = Suc (unat i) mod 128"
proof -
  have p2: "pow2 (unat (128 :: u16))" by (auto simp: pow2_def intro: exI[of _ 7])
  then show ?thesis using mask_mod[OF p2, of "i + 1"] add_mod_size[OF p2, of i 1] by (simp add: sr_next_def)
qed

lemma sr_next_less [simp]: "unat (sr_next i) < 128"
  by (simp add: unat_sr_next)

lemma Suc_mod_128: "n < 128 \<Longrightarrow> Suc n mod 128 = (if n = 127 then 0 else Suc n)"
  by auto

lemma sr_count_cases:
  "sr_ok rb \<Longrightarrow> sr_count rb = (if unat (sr_get_index rb) \<le> unat (sr_put_index rb)
     then unat (sr_put_index rb) - unat (sr_get_index rb) else unat (sr_put_index rb) + 128 - unat (sr_get_index rb))"
  by (auto simp: sr_count_def sr_ok_def mod_if)

lemma sr_count_less: "sr_count rb < 128"
  by (simp add: sr_count_def)

lemma sr_put_position: "sr_ok rb \<Longrightarrow> unat (sr_put_index rb) = (unat (sr_get_index rb) + sr_count rb) mod 128"
  by (auto simp: sr_count_cases sr_ok_def mod_if)

lemma sr_empty_iff: "sr_ok rb \<Longrightarrow> sr_contents rb = [] \<longleftrightarrow> sr_get_index rb = sr_put_index rb"
  using length_0_conv[of "sr_contents rb"]
  by (auto simp: sr_count_cases word_unat_eq_iff sr_ok_def simp del: length_0_conv split: if_splits)

lemma sr_full_iff: "sr_ok rb \<Longrightarrow> sr_next (sr_put_index rb) = sr_get_index rb \<longleftrightarrow> sr_count rb = 127"
  by (auto simp: sr_count_cases word_unat_eq_iff unat_sr_next Suc_mod_128 sr_ok_def split: if_splits)

lemma sr_init_ok: "sr_ok (serial_ringbuffer_init rb)" "sr_contents (serial_ringbuffer_init rb) = []"
  by (simp_all add: serial_ringbuffer_init_def sr_ok_def sr_contents_def sr_count_def)

text \<open>The store both writers do.\<close>

definition sr_append :: "u8 \<Rightarrow> serial_ringbuffer \<Rightarrow> serial_ringbuffer" where
  "sr_append ch rb = rb\<lparr>sr_buffer := (sr_buffer rb)[unat (sr_put_index rb) := ch], sr_put_index := sr_next (sr_put_index rb)\<rparr>"

lemma sr_append_ok: "sr_ok rb \<Longrightarrow> sr_ok (sr_append ch rb)"
  by (simp add: sr_ok_def sr_append_def)

lemma sr_append_room:
  assumes ok: "sr_ok rb" and room: "sr_count rb < 127"
  shows "sr_contents (sr_append ch rb) = sr_contents rb @ [ch]"
proof -
  have "sr_count (sr_append ch rb) = Suc (sr_count rb)"
    using ok room sr_append_ok[OF ok, of ch]
    by (auto simp: sr_count_cases[OF ok] sr_count_cases sr_append_def unat_sr_next Suc_mod_128 sr_ok_def split: if_splits)
  moreover have "length (sr_buffer rb) = 128" using ok by (simp add: sr_ok_def)
  ultimately show ?thesis
    using window_snoc[of "sr_count rb" "sr_buffer rb" _ "unat (sr_get_index rb)" ch] sr_put_position[OF ok] room
    by (simp add: sr_contents_def sr_append_def)
qed

lemma putchar_append:
  assumes "sr_ok rb"
  shows "serial_ringbuffer_putchar ch rb = Some (if sr_count rb < 127 then (1, sr_append ch rb) else (- 1, rb))"
  using assms sr_full_iff[OF assms] sr_count_less[of rb]
  by (auto simp: serial_ringbuffer_putchar_def Let_def sr_append_def sr_ok_def)

text \<open>Reading, and the dropping of the oldest character.\<close>

definition sr_drop :: "serial_ringbuffer \<Rightarrow> serial_ringbuffer" where
  "sr_drop rb = rb\<lparr>sr_get_index := sr_next (sr_get_index rb)\<rparr>"

lemma sr_drop_ok: "sr_ok rb \<Longrightarrow> sr_ok (sr_drop rb)"
  by (simp add: sr_ok_def sr_drop_def)

lemma sr_drop_contents:
  assumes ok: "sr_ok rb" and c: "sr_contents rb = v # vs"
  shows "sr_contents (sr_drop rb) = vs" "sr_buffer rb ! unat (sr_get_index rb) = v"
proof -
  have n: "sr_count rb = Suc (length vs)" using c by (metis length_sr_contents length_Cons)
  have len: "length (sr_buffer rb) = 128" "unat (sr_get_index rb) < 128" using ok by (simp_all add: sr_ok_def)
  have cnt: "sr_count (sr_drop rb) = length vs"
    using n ok sr_drop_ok[OF ok]
    by (auto simp: sr_count_cases[OF ok] sr_count_cases sr_drop_def unat_sr_next Suc_mod_128 sr_ok_def split: if_splits)
  have win: "sr_contents rb = sr_buffer rb ! unat (sr_get_index rb) # window (sr_buffer rb) (Suc (unat (sr_get_index rb))) (length vs)"
    using window_Cons[of "sr_count rb" "sr_buffer rb" "unat (sr_get_index rb)"] n len by (simp add: sr_contents_def)
  then show "sr_buffer rb ! unat (sr_get_index rb) = v" using c by simp
  have "window (sr_buffer rb) (unat (sr_next (sr_get_index rb))) (length vs) =
      window (sr_buffer rb) (Suc (unat (sr_get_index rb))) (length vs)"
    by (rule window_cong) (simp add: unat_sr_next len)
  then show "sr_contents (sr_drop rb) = vs" using win c cnt by (simp add: sr_contents_def sr_drop_def)
qed

lemma getc_eq:
  assumes ok: "sr_ok rb"
  shows "serial_ringbuffer_getc rb =
     Some (case sr_contents rb of [] \<Rightarrow> (- 1, rb) | v # vs \<Rightarrow> (uint v, sr_drop rb))"
proof (cases "sr_contents rb")
  case Nil
  then show ?thesis using sr_empty_iff[OF ok] by (simp add: serial_ringbuffer_getc_def)
next
  case (Cons v vs)
  then show ?thesis
    using sr_empty_iff[OF ok] sr_drop_contents(2)[OF ok Cons] ok
    by (auto simp: serial_ringbuffer_getc_def sr_drop_def sr_ok_def)
qed

text \<open>The interrupt's writer never refuses: with 127 characters waiting the oldest is lost.\<close>

lemma putc_eq:
  assumes ok: "sr_ok rb"
  shows "returns (serial_ringbuffer_putc ch rb) (\<lambda>rb'. sr_ok rb' \<and>
     sr_contents rb' = (if sr_count rb = 127 then tl (sr_contents rb) else sr_contents rb) @ [ch])"
proof (cases "sr_count rb = 127")
  case False
  then have "sr_count rb < 127" using sr_count_less[of rb] by simp
  then show ?thesis
    using False ok sr_full_iff[OF ok] sr_append_room[OF ok, of ch] sr_append_ok[OF ok, of ch]
    by (auto simp: serial_ringbuffer_putc_def Let_def sr_append_def sr_ok_def)
next
  case True
  have l: "unat (sr_put_index rb) < length (sr_buffer rb)" using ok by (simp add: sr_ok_def)
  obtain v vs where c: "sr_contents rb = v # vs" using True length_sr_contents[of rb] by (cases "sr_contents rb") auto
  let ?rb = "sr_drop rb"
  have cnt: "sr_count ?rb < 127" using sr_drop_contents(1)[OF ok c] length_sr_contents[of rb] length_sr_contents[of ?rb] c True by simp
  have "sr_next (sr_put_index rb) = sr_get_index rb" using True sr_full_iff[OF ok] by simp
  then have "serial_ringbuffer_putc ch rb = Some (sr_append ch ?rb)"
    using l by (simp add: serial_ringbuffer_putc_def Let_def sr_append_def sr_drop_def)
  then show ?thesis
    using sr_append_room[OF sr_drop_ok[OF ok] cnt] sr_append_ok[OF sr_drop_ok[OF ok]] sr_drop_contents(1)[OF ok c] c True by simp
qed

definition sr_put1 :: "u8 \<Rightarrow> serial_ringbuffer \<Rightarrow> serial_ringbuffer" where
  "sr_put1 ch rb = snd (the (serial_ringbuffer_putchar ch rb))"

definition sr_get1 :: "serial_ringbuffer \<Rightarrow> u8 \<times> serial_ringbuffer" where
  "sr_get1 rb = (case the (serial_ringbuffer_getc rb) of (ch, rb') \<Rightarrow> (word_of_int ch, rb'))"

interpretation sr_fifo: fifo sr_ok sr_contents "\<lambda>_. 127" "\<lambda>_ _. True" sr_put1 sr_get1
proof
  fix s v assume "sr_ok s" "length (sr_contents s) < 127"
  then show "sr_ok (sr_put1 v s) \<and> sr_contents (sr_put1 v s) = sr_contents s @ [v] \<and> (127 :: nat) = 127 \<and> (\<lambda>_. True) = (\<lambda>_. True)"
    by (simp add: sr_put1_def putchar_append sr_append_ok sr_append_room)
next
  fix s v vs assume "sr_ok s" "sr_contents s = v # vs"
  then show "fst (sr_get1 s) = v \<and> sr_ok (snd (sr_get1 s)) \<and> sr_contents (snd (sr_get1 s)) = vs \<and> (127 :: nat) = 127"
    by (simp add: sr_get1_def getc_eq sr_drop_ok sr_drop_contents)
qed

section \<open>Reading and writing\<close>

lemma upd_serial_fields [simp]:
  "sys_drv (upd_serial p f s) = (sys_drv s)(p := f (sys_drv s p))" "sys_devs (upd_serial p f s) = sys_devs s"
  "sys_kernel (upd_serial p f s) = sys_kernel s" "sys_errno (upd_serial p f s) = sys_errno s" "sys_msgs (upd_serial p f s) = sys_msgs s"
  by (simp_all add: upd_serial_def)

lemma upd_serial_twice [simp]: "upd_serial p f (upd_serial p g s) = upd_serial p (f \<circ> g) s"
  by (simp add: upd_serial_def)

lemma serial_take_returns:
  "sr_ok rb \<Longrightarrow> returns (serial_take n rb) (\<lambda>(cs, rb'). cs = take n (sr_contents rb) \<and> sr_ok rb' \<and>
     sr_contents rb' = drop n (sr_contents rb))"
proof (induction n arbitrary: rb)
  case (Suc n)
  show ?case
  proof (cases "sr_contents rb")
    case Nil
    then show ?thesis using Suc.prems by (simp add: getc_eq)
  next
    case (Cons v vs)
    have "returns (serial_take n (sr_drop rb)) (\<lambda>(cs, rb'). cs = take n vs \<and> sr_ok rb' \<and> sr_contents rb' = drop n vs)"
      using Suc.IH[OF sr_drop_ok[OF Suc.prems]] sr_drop_contents(1)[OF Suc.prems Cons] by simp
    moreover have "uint v \<noteq> - 1" using uint_ge_0[of v] by linarith
    ultimately show ?thesis using Suc.prems Cons by (auto simp: getc_eq elim!: returns_mono)
  qed
qed simp

lemma serial_fill_returns:
  "sr_ok rb \<Longrightarrow> n \<le> length bs \<Longrightarrow> returns (serial_fill bs n rb) (\<lambda>(m, rb'). m = min n (127 - sr_count rb) \<and> sr_ok rb' \<and>
     sr_contents rb' = sr_contents rb @ take m bs)"
proof (induction bs n rb rule: serial_fill.induct)
  case (3 b bs n rb)
  show ?case
  proof (cases "sr_count rb < 127")
    case True
    let ?rb = "sr_append b rb"
    have c: "sr_contents ?rb = sr_contents rb @ [b]" by (rule sr_append_room[OF 3(2) True])
    then have cnt: "sr_count ?rb = Suc (sr_count rb)" using length_sr_contents[of ?rb] by simp
    have "returns (serial_fill bs n ?rb) (\<lambda>(m, rb'). m = min n (127 - sr_count ?rb) \<and> sr_ok rb' \<and>
        sr_contents rb' = sr_contents ?rb @ take m bs)"
      using 3(1)[of "(1, ?rb)" 1 ?rb] sr_append_ok[OF 3(2), of b] 3(2,3) True by (simp add: putchar_append)
    then show ?thesis using True c cnt 3(2) by (auto simp: putchar_append elim!: returns_mono)
  next
    case False
    then show ?thesis using 3(2) sr_count_less[of rb] by (simp add: putchar_append)
  qed
qed simp_all

text \<open>Reading takes the oldest received characters, and tells when there is none.\<close>

lemma serial_read_returns:
  assumes fl: "has (d_flag (dev s p)) RT_DEVICE_FLAG_INT_RX" and ok: "sr_ok (se_int_rx (serial s p))"
  shows "returns (rt_serial_read uops p pos sz s) (\<lambda>(r, s'). let cs = take (unat sz) (sr_contents (se_int_rx (serial s p))) in
     r = Done (of_nat (length cs), cs) \<and> sr_ok (se_int_rx (serial s' p)) \<and>
     sr_contents (se_int_rx (serial s' p)) = drop (unat sz) (sr_contents (se_int_rx (serial s p))) \<and>
     (cs = [] \<longrightarrow> rt_get_errno s' = -RT_EEMPTY))"
proof -
  from serial_take_returns[OF ok, of "unat sz"] obtain rb where rb:
    "serial_take (unat sz) (se_int_rx (serial s p)) = Some (take (unat sz) (sr_contents (se_int_rx (serial s p))), rb)" "sr_ok rb"
    "sr_contents rb = drop (unat sz) (sr_contents (se_int_rx (serial s p)))" by (auto simp: returns_def)
  then show ?thesis using fl by (simp add: rt_serial_read_def Let_def errno_round_trip)
qed

section \<open>What the hardware promises\<close>

text \<open>The output of a device: what was sent and what waits in the buffer.  An idle device has nothing waiting
  and a transmitter that takes a character.\<close>

definition tx_stream :: "('h \<Rightarrow> u8 list) \<Rightarrow> 'h rt_serial \<Rightarrow> u8 list" where
  "tx_stream sent se = sent (se_hw se) @ sr_contents (se_int_tx se)"

definition tx_ok :: "('h \<Rightarrow> nat) \<Rightarrow> 'h rt_serial \<Rightarrow> bool" where
  "tx_ok room se \<longleftrightarrow> sr_ok (se_int_tx se) \<and> 0 \<notin> set (sr_contents (se_int_tx se)) \<and>
     (\<not> se_tx_busy se \<longrightarrow> sr_contents (se_int_tx se) = [] \<and> 0 < room (se_hw se))"

text \<open>The interface to the transmitter: \<open>sent\<close> is what has been given to it, \<open>room\<close> how much more it takes before
  its next interrupt.\<close>

locale uart =
  fixes uops :: "'h rt_uart_ops"
    and sent :: "'h \<Rightarrow> u8 list"
    and room :: "'h \<Rightarrow> nat"
  assumes putc_ok: "0 < room h \<Longrightarrow> sent (snd (op_putc uops c h)) = sent h @ [c] \<and>
      room (snd (op_putc uops c h)) = room h - 1 \<and> fst (op_putc uops c h) = int (room h - 1)"
begin

text \<open>\<open>serial_put\<close> moves the oldest characters, as many as there are before the first zero and as fit; the zero it drops.
  If there was none, the transmitter is idle.\<close>

lemma serial_put_general:
  "sr_ok (se_int_tx (serial s p)) \<Longrightarrow> 0 < room (se_hw (serial s p)) \<Longrightarrow> d_tx_complete (dev s p) = None \<Longrightarrow>
   n = min (length (takeWhile (\<lambda>c. c \<noteq> 0) (sr_contents (se_int_tx (serial s p))))) (room (se_hw (serial s p))) \<Longrightarrow>
   returns (serial_put uops cb p count s) (\<lambda>(c, s'). c = count + n \<and>
     (\<exists>rb hw. s' = upd_serial p (\<lambda>se. se\<lparr>se_int_tx := rb, se_hw := hw, se_tx_busy := (if count + n = 0 then False else se_tx_busy se)\<rparr>) s \<and>
        sr_ok rb \<and> sr_contents rb = drop (if n < room (se_hw (serial s p)) then Suc n else n) (sr_contents (se_int_tx (serial s p))) \<and>
        sent hw = sent (se_hw (serial s p)) @ take n (sr_contents (se_int_tx (serial s p))) \<and>
        room hw = room (se_hw (serial s p)) - n))"
proof (induction "sr_contents (se_int_tx (serial s p))" arbitrary: s count n)
  case Nil
  let ?s1 = "upd_serial p (\<lambda>se. se\<lparr>se_int_tx := se_int_tx (serial s p), se_hw := se_hw (serial s p),
      se_tx_busy := (if count = 0 then False else se_tx_busy se)\<rparr>) s"
  have e: "sr_contents (se_int_tx (serial s p)) = []" using Nil.hyps by simp
  have g: "serial_ringbuffer_getc (se_int_tx (serial s p)) = Some (- 1, se_int_tx (serial s p))"
    using getc_eq[OF Nil.prems(1)] e by simp
  have "serial_put uops cb p count s = Some (count, ?s1)"
    by (subst serial_put.simps) (simp add: g Nil.prems(3) call_back_def upd_serial_def)
  then show ?case using e Nil.prems by auto
next
  case (Cons v vs)
  let ?rb = "se_int_tx (serial s p)" and ?hw = "se_hw (serial s p)"
  note c = Cons.hyps(2)[symmetric] and ok = Cons.prems(1)
  have d: "sr_contents (sr_drop ?rb) = vs" "sr_ok (sr_drop ?rb)" using sr_drop_contents(1)[OF ok c] sr_drop_ok[OF ok] by simp_all
  show ?case
  proof (cases "v = 0")
    case True
    let ?s1 = "upd_serial p (\<lambda>se. se\<lparr>se_int_tx := sr_drop ?rb, se_hw := ?hw, se_tx_busy := (if count = 0 then False else se_tx_busy se)\<rparr>) s"
    have "serial_put uops cb p count s = Some (count, ?s1)"
      by (subst serial_put.simps) (simp add: getc_eq[OF ok] c True Cons.prems(3) call_back_def upd_serial_def)
    then show ?thesis using Cons.prems(2,4) c d True by auto
  next
    case nz: False
    let ?hw1 = "snd (op_putc uops v ?hw)"
    let ?s2 = "upd_serial p (\<lambda>se. se\<lparr>se_int_tx := sr_drop ?rb, se_hw := ?hw1\<rparr>) s"
    have v: "0 < uint v" using nz uint_ge_0[of v] by (auto simp: word_uint_eq_iff order_le_less)
    note put = putc_ok[OF Cons.prems(2), of v]
    have eq: "serial_put uops cb p count s =
        (if room ?hw = 1 then Some (count + 1, ?s2) else serial_put uops cb p (count + 1) ?s2)"
      by (subst serial_put.simps) (use v put Cons.prems(2) in \<open>auto simp: getc_eq[OF ok] c case_prod_unfold Let_def comp_def\<close>)
    show ?thesis
    proof (cases "room ?hw = 1")
      case True
      then have "n = 1" using Cons.prems(4) c nz by simp
      then show ?thesis using True eq put d c
        by (auto intro!: exI[of _ "sr_drop ?rb"] exI[of _ ?hw1] arg_cong[where f = "\<lambda>f. upd_serial p f s"])
    next
      case False
      define k where "k = min (length (takeWhile (\<lambda>c. c \<noteq> 0) vs)) (room ?hw1)"
      have n: "n = Suc k" using Cons.prems(2,4) c nz put False by (simp add: k_def)
      have "returns (serial_put uops cb p (count + 1) ?s2) (\<lambda>(c, s'). c = count + 1 + k \<and>
        (\<exists>rb hw. s' = upd_serial p (\<lambda>se. se\<lparr>se_int_tx := rb, se_hw := hw, se_tx_busy := (if count + 1 + k = 0 then False else se_tx_busy se)\<rparr>) ?s2 \<and>
          sr_ok rb \<and> sr_contents rb = drop (if k < room ?hw1 then Suc k else k) vs \<and> sent hw = sent ?hw1 @ take k vs \<and> room hw = room ?hw1 - k))"
        using Cons.hyps(1)[of ?s2 k "count + 1"] d put False Cons.prems(2,3) by (simp add: k_def)
      then obtain rb hw where r: "serial_put uops cb p (count + 1) ?s2 = Some (count + n, upd_serial p (\<lambda>se. se\<lparr>se_int_tx := rb, se_hw := hw\<rparr>) s)"
        "sr_ok rb" "sr_contents rb = drop (if k < room ?hw1 then Suc k else k) vs" "sent hw = sent ?hw1 @ take k vs" "room hw = room ?hw1 - k"
        using n by (auto simp: returns_def comp_def)
      have "k < room ?hw1 \<longleftrightarrow> n < room ?hw" using n put Cons.prems(2) by auto
      then show ?thesis using eq False c put n r by (auto intro!: exI[of _ rb] exI[of _ hw])
    qed
  qed
qed

lemma serial_put_returns:
  assumes "sr_ok (se_int_tx (serial s p))" and nz: "0 \<notin> set (sr_contents (se_int_tx (serial s p)))" and "0 < room (se_hw (serial s p))"
    "d_tx_complete (dev s p) = None" and n: "n = min (sr_count (se_int_tx (serial s p))) (room (se_hw (serial s p)))"
  shows "returns (serial_put uops cb p count s) (\<lambda>(c, s'). c = count + n \<and>
     (\<exists>rb hw. s' = upd_serial p (\<lambda>se. se\<lparr>se_int_tx := rb, se_hw := hw, se_tx_busy := (if count + n = 0 then False else se_tx_busy se)\<rparr>) s \<and>
        sr_ok rb \<and> sr_contents rb = drop n (sr_contents (se_int_tx (serial s p))) \<and>
        sent hw = sent (se_hw (serial s p)) @ take n (sr_contents (se_int_tx (serial s p))) \<and>
        room hw = room (se_hw (serial s p)) - n))"
proof -
  let ?cs = "sr_contents (se_int_tx (serial s p))" and ?r = "room (se_hw (serial s p))"
  have t: "takeWhile (\<lambda>c. c \<noteq> 0) ?cs = ?cs" using nz by (intro takeWhile_eq_all_conv[THEN iffD2]) auto
  have "drop (if n < ?r then Suc n else n) ?cs = drop n ?cs" using n by auto
  then show ?thesis using serial_put_general[of s p n cb count, unfolded t] assms by simp
qed

lemma serial_write_returns:
  assumes fl: "has (d_flag (dev s p)) RT_DEVICE_FLAG_INT_TX" and ok: "tx_ok room (serial s p)" and cbs: "d_tx_complete (dev s p) = None"
    and bs: "unat sz \<le> length bs" "0 \<notin> set bs"
  defines "n \<equiv> min (unat sz) (127 - sr_count (se_int_tx (serial s p)))"
  shows "returns (rt_serial_write evt cb uops p pos buffer bs sz s) (\<lambda>(r, s'). r = Done (of_nat n) \<and>
     tx_stream sent (serial s' p) = tx_stream sent (serial s p) @ take n bs \<and> tx_ok room (serial s' p) \<and> sys_devs s' = sys_devs s \<and>
     (n = 0 \<longrightarrow> rt_get_errno s' = -RT_EFULL))"
proof -
  let ?se = "serial s p"
  have sr: "sr_ok (se_int_tx ?se)" using ok by (simp add: tx_ok_def)
  from serial_fill_returns[OF sr bs(1)] obtain rb where f: "serial_fill bs (unat sz) (se_int_tx ?se) = Some (n, rb)" "sr_ok rb"
    "sr_contents rb = sr_contents (se_int_tx ?se) @ take n bs" by (auto simp: returns_def n_def)
  have nz: "0 \<notin> set (sr_contents rb)" using ok bs(2) f(3) by (auto simp: tx_ok_def dest: in_set_takeD)
  have fin: "tx_stream sent (serial s' p) = tx_stream sent (serial s p) @ take n bs \<and> tx_ok room (serial s' p) \<and> sys_devs s' = sys_devs s \<Longrightarrow>
      returns (Some (Done (of_nat n), if n = 0 then rt_set_errno (-RT_EFULL) s' else s')) (\<lambda>(r, s'). r = Done (of_nat n) \<and>
     tx_stream sent (serial s' p) = tx_stream sent (serial s p) @ take n bs \<and> tx_ok room (serial s' p) \<and> sys_devs s' = sys_devs s \<and>
     (n = 0 \<longrightarrow> rt_get_errno s' = -RT_EFULL))" for s' by (auto simp: errno_round_trip)
  show ?thesis
  proof (cases "se_tx_busy ?se")
    case True
    let ?s1 = "upd_serial p (\<lambda>se. se\<lparr>se_int_tx := rb\<rparr>) s"
    have "rt_serial_write evt cb uops p pos buffer bs sz s = Some (Done (of_nat n), if n = 0 then rt_set_errno (-RT_EFULL) ?s1 else ?s1)"
      using fl f(1) True by (simp add: rt_serial_write_def serial_kick_def Let_def)
    then show ?thesis using fin[of ?s1] f nz True by (simp add: tx_stream_def tx_ok_def)
  next
    case False
    let ?s1 = "upd_serial p (\<lambda>se. se\<lparr>se_int_tx := rb, se_tx_busy := True\<rparr>) s"
    have rm: "0 < room (se_hw ?se)" using False ok by (simp add: tx_ok_def)
    define m where "m = min (sr_count rb) (room (se_hw ?se))"
    have "returns (serial_put uops cb p 0 ?s1) (\<lambda>(c, s'). c = 0 + m \<and>
     (\<exists>rb' hw. s' = upd_serial p (\<lambda>se. se\<lparr>se_int_tx := rb', se_hw := hw, se_tx_busy := (if 0 + m = 0 then False else se_tx_busy se)\<rparr>) ?s1 \<and>
        sr_ok rb' \<and> sr_contents rb' = drop m (sr_contents rb) \<and> sent hw = sent (se_hw ?se) @ take m (sr_contents rb) \<and>
        room hw = room (se_hw ?se) - m))"
      using serial_put_returns[of ?s1 p m cb 0] f(2) nz rm cbs by (simp add: m_def)
    then obtain rb' hw where put: "serial_put uops cb p 0 ?s1 = Some (m, upd_serial p (\<lambda>se. se\<lparr>se_int_tx := rb', se_hw := hw,
        se_tx_busy := (if m = 0 then False else True)\<rparr>) s)" "sr_ok rb'" "sr_contents rb' = drop m (sr_contents rb)"
        "sent hw = sent (se_hw ?se) @ take m (sr_contents rb)" "room hw = room (se_hw ?se) - m"
      by (auto simp: returns_def comp_def cong: if_cong)
    let ?s2 = "upd_serial p (\<lambda>se. se\<lparr>se_int_tx := rb', se_hw := hw, se_tx_busy := (if m = 0 then False else True)\<rparr>) s"
    have "rt_serial_write evt cb uops p pos buffer bs sz s = Some (Done (of_nat n), if n = 0 then rt_set_errno (-RT_EFULL) ?s2 else ?s2)"
      using fl f(1) False put(1) by (simp add: rt_serial_write_def serial_kick_def Let_def comp_def)
    moreover have "tx_ok room (serial ?s2 p)"
      using put f(2) nz rm length_sr_contents[of rb] by (auto simp: tx_ok_def m_def dest: in_set_dropD)
    moreover have "tx_stream sent (serial ?s2 p) = tx_stream sent ?se @ take n bs"
    proof -
      have "tx_stream sent (serial ?s2 p) = sent (se_hw ?se) @ sr_contents rb" using put(3,4) by (simp add: tx_stream_def)
      then show ?thesis using f(3) by (simp add: tx_stream_def)
    qed
    ultimately show ?thesis using fin[of ?s2] by simp
  qed
qed

text \<open>The transmit interrupt, when the transmitter takes characters again.\<close>

lemma tx_isr_returns:
  assumes fl: "has (d_flag (dev s p)) RT_DEVICE_FLAG_INT_TX" and ok: "tx_ok room (serial s p)" and cbs: "d_tx_complete (dev s p) = None"
    and rm: "0 < room (se_hw (serial s p))"
  defines "n \<equiv> min (sr_count (se_int_tx (serial s p))) (room (se_hw (serial s p)))"
  shows "returns (rt_hw_serial_int_tx_isr cb uops p s) (\<lambda>s'. tx_stream sent (serial s' p) = tx_stream sent (serial s p) \<and> tx_ok room (serial s' p) \<and>
     sys_devs s' = sys_devs s \<and> sys_kernel s' = sys_kernel s \<and>
     sr_contents (se_int_tx (serial s' p)) = drop n (sr_contents (se_int_tx (serial s p))) \<and>
     (n = 0 \<longrightarrow> \<not> se_tx_busy (serial s' p)))"
proof -
  let ?se = "serial s p"
  have sr: "sr_ok (se_int_tx ?se)" "0 \<notin> set (sr_contents (se_int_tx ?se))" using ok by (simp_all add: tx_ok_def)
  from serial_put_returns[OF sr rm cbs, of n cb 0] obtain rb hw where put:
    "serial_put uops cb p 0 s = Some (n, upd_serial p (\<lambda>se. se\<lparr>se_int_tx := rb, se_hw := hw,
        se_tx_busy := (if n = 0 then False else se_tx_busy se)\<rparr>) s)" "sr_ok rb"
    "sr_contents rb = drop n (sr_contents (se_int_tx ?se))" "sent hw = sent (se_hw ?se) @ take n (sr_contents (se_int_tx ?se))"
    "room hw = room (se_hw ?se) - n" by (auto simp: returns_def n_def cong: if_cong)
  have "sr_contents (se_int_tx ?se) = [] \<Longrightarrow> n = 0" using length_sr_contents[of "se_int_tx ?se"] by (simp add: n_def)
  then have nb: "n \<noteq> 0 \<Longrightarrow> se_tx_busy ?se" using ok by (auto simp: tx_ok_def)
  have "n = 0 \<Longrightarrow> length (sr_contents rb) = 0" using put(3) rm by (auto simp: n_def min_def split: if_splits)
  then have z: "n = 0 \<Longrightarrow> sr_contents rb = []" by (simp only: length_0_conv)
  have "0 \<notin> set (sr_contents rb)" using put(3) sr(2) by (auto dest: in_set_dropD)
  then have "tx_ok room (serial (upd_serial p (\<lambda>se. se\<lparr>se_int_tx := rb, se_hw := hw, se_tx_busy := (if n = 0 then False else se_tx_busy se)\<rparr>) s) p)"
    using put(2,5) nb z rm by (cases "n = 0") (simp_all add: tx_ok_def)
  then show ?thesis using put fl by (simp add: rt_hw_serial_int_tx_isr_def tx_stream_def)
qed

end

end
