(* ===== verification/Usart.thy ===== *)
theory Usart
  imports Serial
begin

unbundle bit_operations_syntax

text \<open>
  The drivers of the two serial ports of the board, \<^verbatim>\<open>bsp/driver_periph/usart/lpc1788_usart0.c\<close> and
  \<^verbatim>\<open>lpc1788_usart1.c\<close>, which differ in the registers they use.  The registers of a port are modelled by
  what the driver does with them: the bytes stored to \<^verbatim>\<open>THR\<close> so far; the receive FIFO, which \<^verbatim>\<open>LSR\<close> reports as
  non-empty and from which a read of \<^verbatim>\<open>RBR\<close> takes the oldest byte; whether the interrupt is enabled; and the
  configuration last passed to \<^verbatim>\<open>UART_Init\<close>.  Every device has buffers of its own here.  In the linked program
  \<^verbatim>\<open>serial_int_rx\<close> and \<^verbatim>\<open>serial_int_tx\<close> of the two files are common symbols, one pair for both ports, so that what is
  shown of a port holds while the other is not in use; the second port is never registered (\<open>usart1_not_registered\<close>).
\<close>

section \<open>The code\<close>

record uart_cfg =
  uc_baud_rate :: u32
  uc_parity :: nat
  uc_databits :: nat
  uc_stopbits :: nat

record usart =
  u_thr :: "u8 list"
  u_rx :: "u8 list"
  u_irq :: bool
  u_cfg :: "uart_cfg option"
  u_RecvFifoLength :: u8
  u_SendFifoLength :: u8
  u_SendPtr :: u32
  u_SendLength :: u32

abbreviation RT_EIO :: rt_err where "RT_EIO \<equiv> 8"
abbreviation FIFO_THRESHOLD :: u8 where "FIFO_THRESHOLD \<equiv> 14"

text \<open>The enumerations of the chip library: \<^verbatim>\<open>UART_PARITY_NONE\<close>, \<^verbatim>\<open>_ODD\<close>, \<^verbatim>\<open>_EVEN\<close> are 0, 1, 2; \<^verbatim>\<open>UART_DATABIT_5\<close> to
  \<^verbatim>\<open>_8\<close> are 0 to 3; \<^verbatim>\<open>UART_STOPBIT_1\<close> and \<^verbatim>\<open>_2\<close> are 0 and 1.  \<open>junk\<close> is what the local structure holds before
  it is filled: an unsupported number of bits leaves its field as it is.  Resetting the FIFOs drops what was received.\<close>

definition configure :: "uart_cfg \<Rightarrow> serial_configure \<Rightarrow> usart \<Rightarrow> rt_err \<times> usart" where
  "configure junk cfg u =
     (let baud = (if cfg_baud_rate cfg = 9600 then 9600 else if cfg_baud_rate cfg = 4800 then 4800 else 115200);
          parity = (if cfg_parity cfg = 1 then 1 else if cfg_parity cfg = 2 then 2 else 0);
          (e1, databits) = (if cfg_data_bits cfg = 9 then (RT_EIO, uc_databits junk)
                            else if cfg_data_bits cfg = 7 then (RT_EOK, 2) else if cfg_data_bits cfg = 6 then (RT_EOK, 1)
                            else if cfg_data_bits cfg = 5 then (RT_EOK, 0) else (RT_EOK, 3));
          (e2, stopbits) = (if cfg_stop_bits cfg = 1 then (e1, 1)
                            else if cfg_stop_bits cfg = 2 \<or> cfg_stop_bits cfg = 3 then (RT_EIO, uc_stopbits junk)
                            else (e1, 0))
      in (e2, u\<lparr>u_cfg := Some \<lparr>uc_baud_rate = baud, uc_parity = parity, uc_databits = databits, uc_stopbits = stopbits\<rparr>,
              u_irq := True, u_rx := []\<rparr>))"

definition control :: "u32 \<Rightarrow> u32 \<Rightarrow> usart \<Rightarrow> rt_err \<times> usart" where
  "control cmd arg u =
     (if cmd = RT_DEVICE_CTRL_CLR_INT then (RT_EOK, u\<lparr>u_irq := False\<rparr>)
      else if cmd = RT_DEVICE_CTRL_SET_INT then (RT_EOK, u\<lparr>u_irq := True\<rparr>)
      else (RT_EIO, u))"

definition put_char :: "u8 \<Rightarrow> usart \<Rightarrow> int \<times> usart" where
  "put_char c u =
     (let u1 = (if u_SendFifoLength u < 15
                then u\<lparr>u_thr := u_thr u @ [c AND 0xff], u_SendFifoLength := u_SendFifoLength u + 1\<rparr> else u)
      in (15 - uint (u_SendFifoLength u1), u1))"

text \<open>The loop of \<^verbatim>\<open>getchar\<close> on the receive FIFO \<open>rx\<close> and the variable \<^verbatim>\<open>RecvFifoLength\<close>.\<close>

fun getchar_loop :: "int \<Rightarrow> u8 list \<Rightarrow> u8 \<Rightarrow> int \<times> u8 list \<times> u8" where
  "getchar_loop result [] len = (result, [], len)"
| "getchar_loop result (c # cs) len =
     (if len > 1 then getchar_loop (uint c) cs (len - 1) else (- 1, c # cs, len))"

definition getchar :: "usart \<Rightarrow> int \<times> usart" where
  "getchar u =
     (let (result, rx, len) = getchar_loop (- 1) (u_rx u) (u_RecvFifoLength u)
      in (result, u\<lparr>u_rx := rx, u_RecvFifoLength := len\<rparr>))"

text \<open>\<^verbatim>\<open>writeSendFifo\<close>, with \<open>n\<close> places left in the FIFO; \<open>m\<close> is the memory.\<close>

fun send_fifo :: "bytes \<Rightarrow> nat \<Rightarrow> usart \<Rightarrow> nat \<times> usart" where
  "send_fifo m 0 u = (0, u)"
| "send_fifo m (Suc n) u =
     (if u_SendLength u > 0 then
        let (w, u1) = send_fifo m n (u\<lparr>u_thr := u_thr u @ [m (u_SendPtr u) AND 0xff], u_SendPtr := u_SendPtr u + 1,
                        u_SendLength := u_SendLength u - 1, u_SendFifoLength := u_SendFifoLength u + 1\<rparr>)
        in (Suc w, u1)
      else (0, u))"

definition writeSendFifo :: "bytes \<Rightarrow> usart \<Rightarrow> nat \<times> usart" where
  "writeSendFifo m u = send_fifo m (16 - unat (u_SendFifoLength u)) u"

definition dma_transmit :: "bytes \<Rightarrow> u32 \<Rightarrow> u32 \<Rightarrow> usart \<Rightarrow> u32 \<times> usart" where
  "dma_transmit m buf sz u = (sz, snd (writeSendFifo m (u\<lparr>u_SendPtr := buf, u_SendLength := sz\<rparr>)))"

definition usart_ops :: "uart_cfg \<Rightarrow> bytes \<Rightarrow> usart rt_uart_ops" where
  "usart_ops junk m = \<lparr>op_configure = Some (configure junk), op_control = control, op_putc = put_char, op_getc = getchar,
     op_dma_transmit = dma_transmit m\<rparr>"

definition RT_SERIAL_CONFIG_DEFAULT :: serial_configure where
  "RT_SERIAL_CONFIG_DEFAULT = \<lparr>cfg_baud_rate = 115200, cfg_data_bits = 8, cfg_stop_bits = 0, cfg_parity = 0,
     cfg_bit_order = 0, cfg_invert = 0\<rparr>"

abbreviation usart_flags :: u32 where "usart_flags \<equiv> 0x003 OR 0x100 OR 0x400"

text \<open>Both start-up functions; \<open>h\<close> is where the handlers of the serial driver are found.\<close>

definition usart_init :: "uart_cfg \<Rightarrow> ptr \<Rightarrow> ptr \<Rightarrow> cstr \<Rightarrow> usart serials sys \<Rightarrow> (rt_err \<times> usart serials sys) option" where
  "usart_init junk h p name s =
     rt_hw_serial_register h p name usart_flags 0
       (upd_serial p (\<lambda>se. se\<lparr>se_config := RT_SERIAL_CONFIG_DEFAULT,
          se_hw := snd (configure junk RT_SERIAL_CONFIG_DEFAULT (se_hw se))\<rparr>) s)"

definition rt_hw_usart0_init :: "uart_cfg \<Rightarrow> ptr \<Rightarrow> ptr \<Rightarrow> usart serials sys \<Rightarrow> (rt_err \<times> usart serials sys) option" where
  "rt_hw_usart0_init junk h p s = usart_init junk h p (map (of_nat \<circ> of_char) ''serial0'') s"

definition rt_hw_usart1_init :: "uart_cfg \<Rightarrow> ptr \<Rightarrow> ptr \<Rightarrow> usart serials sys \<Rightarrow> (rt_err \<times> usart serials sys) option" where
  "rt_hw_usart1_init junk h p s = usart_init junk h p (map (of_nat \<circ> of_char) ''serial1'') s"

abbreviation UART_IIR_INTID_RDA :: u32 where "UART_IIR_INTID_RDA \<equiv> 4"
abbreviation UART_IIR_INTID_CTI :: u32 where "UART_IIR_INTID_CTI \<equiv> 12"
abbreviation UART_IIR_INTID_THRE :: u32 where "UART_IIR_INTID_THRE \<equiv> 2"

definition set_recv_length :: "ptr \<Rightarrow> usart serials sys \<Rightarrow> usart serials sys" where
  "set_recv_length p = upd_serial p (\<lambda>se. se\<lparr>se_hw := (se_hw se)\<lparr>u_RecvFifoLength := FIFO_THRESHOLD\<rparr>\<rparr>)"

definition clear_send_length :: "ptr \<Rightarrow> usart serials sys \<Rightarrow> usart serials sys" where
  "clear_send_length p = upd_serial p (\<lambda>se. se\<lparr>se_hw := (se_hw se)\<lparr>u_SendFifoLength := 0\<rparr>\<rparr>)"

text \<open>The interrupt handler; \<open>reg\<close> is the value of the register \<^verbatim>\<open>IIR\<close>.  A line status interrupt only looks at the
  register.\<close>

definition UART_IRQHandler :: "uart_cfg \<Rightarrow> bytes \<Rightarrow> usart callbacks \<Rightarrow> u32 \<Rightarrow> ptr \<Rightarrow> usart serials sys \<Rightarrow> usart serials sys option" where
  "UART_IRQHandler junk m cb reg p s =
     do { let s0 = s\<lparr>sys_kernel := rt_interrupt_enter (sys_kernel s)\<rparr>;
          let iir = reg AND 0x3cf AND 14;
          let uops = usart_ops junk m;
          s1 \<leftarrow> (if iir = UART_IIR_INTID_RDA then rt_hw_serial_char_isr uops p (set_recv_length p s0) else Some s0);
          s2 \<leftarrow> (if iir = UART_IIR_INTID_CTI then rt_hw_serial_timeout_isr cb uops p (set_recv_length p s1) else Some s1);
          s3 \<leftarrow> (if iir = UART_IIR_INTID_THRE then rt_hw_serial_int_tx_isr cb uops p (clear_send_length p s2) else Some s2);
          Some (s3\<lparr>sys_kernel := rt_interrupt_leave (sys_kernel s3)\<rparr>) }"

section \<open>Transmitting\<close>

definition fifo_room :: "usart \<Rightarrow> nat" where
  "fifo_room u = 15 - unat (u_SendFifoLength u)"

lemma and_ff: "c AND 0xff = c" for c :: u8
proof -
  have "(0xff :: u8) = - 1" by simp
  then show ?thesis by (simp only: and.right_neutral)
qed

lemma put_char_room:
  assumes "0 < fifo_room u"
  shows "u_thr (snd (put_char c u)) = u_thr u @ [c]" "fifo_room (snd (put_char c u)) = fifo_room u - 1"
    "fst (put_char c u) = int (fifo_room u - 1)"
proof -
  have l: "unat (u_SendFifoLength u) < 15" using assms by (simp add: fifo_room_def)
  then have lt: "u_SendFifoLength u < 15" by (simp add: word_less_nat_alt)
  have s: "unat (u_SendFifoLength u + 1) = Suc (unat (u_SendFifoLength u))" using l by (intro unat_succ_8) auto
  then have i: "uint (u_SendFifoLength u + 1) = int (Suc (unat (u_SendFifoLength u)))" by (simp only: uint_nat)
  show "u_thr (snd (put_char c u)) = u_thr u @ [c]" using lt by (simp add: put_char_def Let_def and_ff)
  show "fifo_room (snd (put_char c u)) = fifo_room u - 1" using lt s by (simp add: put_char_def Let_def fifo_room_def)
  show "fst (put_char c u) = int (fifo_room u - 1)"
    using lt l i by (simp add: put_char_def Let_def fifo_room_def of_nat_diff)
qed

interpretation lpc: uart "usart_ops junk m" u_thr fifo_room for junk m
  by unfold_locales (simp add: usart_ops_def put_char_room)

lemma interrupt_frame [simp]:
  "k_interrupt_nest (rt_interrupt_enter k) = k_interrupt_nest k + 1" "k_threads (rt_interrupt_enter k) = k_threads k"
  "k_current (rt_interrupt_enter k) = k_current k"
  by (simp_all add: rt_interrupt_enter_def)

text \<open>A transmit interrupt: the next characters of the buffer go to the FIFO, up to 15, and nothing is lost, doubled
  or overtaken; when there was none the port is idle.\<close>

definition tx_step :: "ptr \<Rightarrow> usart serials sys \<Rightarrow> usart serials sys \<Rightarrow> bool" where
  "tx_step p s s' \<longleftrightarrow> tx_stream u_thr (serial s' p) = tx_stream u_thr (serial s p) \<and> tx_ok fifo_room (serial s' p) \<and>
     sys_devs s' = sys_devs s \<and> sys_kernel s' = sys_kernel s \<and>
     sr_contents (se_int_tx (serial s' p)) = drop 15 (sr_contents (se_int_tx (serial s p))) \<and>
     (sr_contents (se_int_tx (serial s p)) = [] \<longrightarrow> \<not> se_tx_busy (serial s' p))"

lemma thre_returns:
  assumes fl: "has (d_flag (dev s p)) RT_DEVICE_FLAG_INT_TX" and ok: "tx_ok fifo_room (serial s p)"
    and cbs: "d_tx_complete (dev s p) = None" and reg: "reg AND 0x3cf AND 14 = UART_IIR_INTID_THRE"
  shows "returns (UART_IRQHandler junk m cb reg p s) (tx_step p s)"
proof -
  let ?b = "sr_contents (se_int_tx (serial s p))"
  define s1 where "s1 = clear_send_length p (s\<lparr>sys_kernel := rt_interrupt_enter (sys_kernel s)\<rparr>)"
  have f: "se_int_tx (serial s1 p) = se_int_tx (serial s p)" "se_tx_busy (serial s1 p) = se_tx_busy (serial s p)"
    "u_thr (se_hw (serial s1 p)) = u_thr (se_hw (serial s p))" "sys_devs s1 = sys_devs s"
    "sys_kernel s1 = rt_interrupt_enter (sys_kernel s)" "fifo_room (se_hw (serial s1 p)) = 15"
    by (simp_all add: s1_def clear_send_length_def fifo_room_def)
  have ok': "tx_ok fifo_room (serial s1 p)" using ok by (simp add: tx_ok_def f)
  have str: "tx_stream u_thr (serial s1 p) = tx_stream u_thr (serial s p)" by (simp add: tx_stream_def f)
  have d: "drop (min (sr_count (se_int_tx (serial s p))) 15) ?b = drop 15 ?b" by (simp add: min_def)
  have z: "?b = [] \<longleftrightarrow> sr_count (se_int_tx (serial s p)) = 0"
    using length_0_conv[of ?b] by (simp del: length_0_conv)
  have fl': "has (d_flag (dev s1 p)) RT_DEVICE_FLAG_INT_TX" "d_tx_complete (dev s1 p) = None" "0 < fifo_room (se_hw (serial s1 p))"
    using fl cbs by (simp_all add: f)
  note isr = lpc.tx_isr_returns[OF fl'(1) ok' fl'(2,3), of cb junk m, unfolded str f d]
  have "returns (rt_hw_serial_int_tx_isr cb (usart_ops junk m) p s1)
      (\<lambda>s'. tx_step p s (s'\<lparr>sys_kernel := rt_interrupt_leave (sys_kernel s')\<rparr>))"
    by (rule returns_mono[OF isr]) (simp add: tx_step_def z interrupt_balanced)
  then show ?thesis using reg by (simp add: UART_IRQHandler_def Let_def flip: s1_def)
qed

text \<open>A sequence of transmit interrupts.\<close>

fun thre_n :: "uart_cfg \<Rightarrow> bytes \<Rightarrow> usart callbacks \<Rightarrow> ptr \<Rightarrow> nat \<Rightarrow> usart serials sys \<Rightarrow> usart serials sys option" where
  "thre_n junk m cb p 0 s = Some s"
| "thre_n junk m cb p (Suc n) s = do { s1 \<leftarrow> UART_IRQHandler junk m cb UART_IIR_INTID_THRE p s; thre_n junk m cb p n s1 }"

lemma thre_n_returns:
  assumes "has (d_flag (dev s p)) RT_DEVICE_FLAG_INT_TX" "tx_ok fifo_room (serial s p)" "d_tx_complete (dev s p) = None"
  shows "returns (thre_n junk m cb p n s) (\<lambda>s'. tx_stream u_thr (serial s' p) = tx_stream u_thr (serial s p) \<and>
     tx_ok fifo_room (serial s' p) \<and> sys_devs s' = sys_devs s \<and>
     sr_contents (se_int_tx (serial s' p)) = drop (15 * n) (sr_contents (se_int_tx (serial s p))))"
  using assms
proof (induction n arbitrary: s)
  case (Suc n)
  have reg: "UART_IIR_INTID_THRE AND 0x3cf AND 14 = UART_IIR_INTID_THRE" by simp
  from thre_returns[OF Suc.prems reg, of junk m cb] obtain s1 where s1: "UART_IRQHandler junk m cb UART_IIR_INTID_THRE p s = Some s1"
    "tx_step p s s1" by (auto simp: returns_def)
  from s1(2) Suc.prems have "has (d_flag (dev s1 p)) RT_DEVICE_FLAG_INT_TX" "tx_ok fifo_room (serial s1 p)" "d_tx_complete (dev s1 p) = None"
    by (simp_all add: tx_step_def)
  from Suc.IH[OF this] s1 show ?case
    by (auto simp: tx_step_def add.commute elim!: returns_mono)
qed simp

section \<open>Receiving\<close>

lemma getchar_loop_eq:
  "1 \<le> unat len \<Longrightarrow> getchar_loop r rx len =
     (if length rx < unat len then (if rx = [] then r else uint (last rx), [], len - of_nat (length rx))
      else (- 1, drop (unat len - 1) rx, 1))"
proof (induction r rx len rule: getchar_loop.induct)
  case (2 r c cs len)
  show ?case
  proof (cases "len > 1")
    case True
    then have l: "unat (len - 1) = unat len - 1" "1 < unat len" by (auto simp: word_less_nat_alt unat_sub word_le_nat_alt)
    then have "getchar_loop (uint c) cs (len - 1) = (if length cs < unat len - 1 then (if cs = [] then uint c else uint (last cs), [], len - 1 - of_nat (length cs))
      else (- 1, drop (unat len - Suc (Suc 0)) cs, 1))" using 2(1)[OF True] by simp
    moreover have "drop (unat len - 1) (c # cs) = drop (unat len - Suc (Suc 0)) cs" using l(2) by (simp add: drop_Cons')
    ultimately show ?thesis using True l by (auto simp: less_diff_conv)
  next
    case False
    then have "unat len = 1" using 2(2) by (simp add: word_less_nat_alt)
    then show ?thesis using False by (auto simp: word_unat_eq_iff)
  qed
qed (simp add: Suc_le_eq unat_gt_0)

text \<open>The loop of \<^verbatim>\<open>getchar\<close> runs on after it has read a character: with up to 13 characters in the FIFO it gives the
  last and has dropped the others; with more it drops 13 and gives none.\<close>

lemma serial_receive_returns:
  assumes ok: "sr_ok (se_int_rx (serial s p))" and len: "u_RecvFifoLength (se_hw (serial s p)) = 14"
  defines "rx \<equiv> u_rx (se_hw (serial s p))"
  shows "returns (serial_receive (usart_ops junk m) p s) (\<lambda>s'. sr_ok (se_int_rx (serial s' p)) \<and>
     u_rx (se_hw (serial s' p)) = (if length rx \<le> 13 then [] else drop 13 rx) \<and>
     sr_contents (se_int_rx (serial s' p)) = (let old = sr_contents (se_int_rx (serial s p)) in
       if rx = [] \<or> 13 < length rx then old else (if length old = 127 then tl old else old) @ [last rx]) \<and>
     sys_devs s' = sys_devs s \<and> sys_kernel s' = sys_kernel s)"
proof -
  let ?u = "se_hw (serial s p)"
  consider "rx = []" | "13 < length rx" | "rx \<noteq> []" "length rx \<le> 13" by linarith
  then show ?thesis
  proof cases
    case 1
    then have "getchar ?u = (- 1, ?u\<lparr>u_rx := [], u_RecvFifoLength := 14\<rparr>)" using len by (simp add: getchar_def rx_def)
    then show ?thesis using 1 ok by (subst serial_receive.simps) (simp add: usart_ops_def)
  next
    case 2
    then have "getchar_loop (- 1) (u_rx ?u) 14 = (- 1, drop 13 rx, 1)" by (subst getchar_loop_eq) (simp_all add: rx_def)
    then have "getchar ?u = (- 1, ?u\<lparr>u_rx := drop 13 rx, u_RecvFifoLength := 1\<rparr>)" using len by (simp add: getchar_def)
    then show ?thesis using 2 ok by (subst serial_receive.simps) (auto simp: usart_ops_def)
  next
    case 3
    let ?l = "14 - of_nat (length rx) :: u8"
    let ?u1 = "?u\<lparr>u_rx := [], u_RecvFifoLength := ?l\<rparr>"
    have "getchar_loop (- 1) (u_rx ?u) 14 = (uint (last rx), [], ?l)"
      using 3 by (subst getchar_loop_eq) (simp_all add: rx_def)
    then have g: "getchar ?u = (uint (last rx), ?u1)" using len by (simp add: getchar_def)
    have g2: "getchar ?u1 = (- 1, ?u1)" by (simp add: getchar_def)
    from putc_eq[OF ok, of "last rx"] obtain rb where rb: "serial_ringbuffer_putc (last rx) (se_int_rx (serial s p)) = Some rb" "sr_ok rb"
      "sr_contents rb = (if sr_count (se_int_rx (serial s p)) = 127 then tl (sr_contents (se_int_rx (serial s p)))
         else sr_contents (se_int_rx (serial s p))) @ [last rx]" by (auto simp: returns_def)
    have ne: "uint (last rx) \<noteq> - 1" using uint_ge_0[of "last rx"] by linarith
    let ?s2 = "upd_serial p (\<lambda>se. se\<lparr>se_int_rx := rb, se_hw := ?u1\<rparr>) s"
    have swap: "r\<lparr>se_hw := ?u1, se_int_rx := rb\<rparr> = r\<lparr>se_int_rx := rb, se_hw := ?u1\<rparr>" for r :: "usart rt_serial" by (cases r) simp
    have "serial_receive (usart_ops junk m) p s = serial_receive (usart_ops junk m) p ?s2"
      using ne by (subst serial_receive.simps) (simp add: usart_ops_def g rb(1) comp_def swap)
    moreover have "serial_receive (usart_ops junk m) p ?s2 = Some ?s2"
      by (subst serial_receive.simps) (simp add: usart_ops_def g2 comp_def)
    ultimately show ?thesis using 3 rb by simp
  qed
qed

section \<open>Registration\<close>

lemma serial_names: "visible (map (of_nat \<circ> of_char) ''serial0'') RT_NAME_MAX = visible (map (of_nat \<circ> of_char) ''serial1'') RT_NAME_MAX"
  by (simp add: eval_nat_numeral)

text \<open>The names of the two ports agree in the characters that count: the second port is not registered.\<close>

lemma usart1_not_registered:
  assumes k: "may_look_up (sys_kernel s)" and new: "find_name (map (of_nat \<circ> of_char) ''serial0'') RT_Object_Class_Device (sys_kernel s) = None"
  shows "returns (rt_hw_usart0_init junk h p s) (\<lambda>(r, s'). r = RT_EOK \<and>
     returns (rt_hw_usart1_init junk h p' s') (\<lambda>(r', s''). r' = -RT_ERROR))"
proof -
  have "returns (rt_hw_usart0_init junk h p s) (\<lambda>(r, s'). r = RT_EOK \<and> may_look_up (sys_kernel s') \<and>
      find_name (map (of_nat \<circ> of_char) ''serial1'') RT_Object_Class_Device (sys_kernel s') = Some (ODevice p))"
    unfolding rt_hw_usart0_init_def usart_init_def rt_hw_serial_register_def
    by (rule returns_mono[OF register_returns[OF _ _ serial_names]]) (use k new in auto)
  then show ?thesis
  proof (rule returns_mono, clarify)
    fix s' :: "usart serials sys" assume s': "may_look_up (sys_kernel s')"
      "find_name (map (of_nat \<circ> of_char) ''serial1'') RT_Object_Class_Device (sys_kernel s') = Some (ODevice p)"
    have "returns (rt_hw_usart1_init junk h p' s') (\<lambda>(r', s''). r' = -RT_ERROR)"
      unfolding rt_hw_usart1_init_def usart_init_def rt_hw_serial_register_def
      by (rule returns_mono[OF register_taken[of _ _ p]]) (use s' in auto)
    then show "RT_EOK = RT_EOK \<and> returns (rt_hw_usart1_init junk h p' s') (\<lambda>(r', s''). r' = -RT_ERROR)" by simp
  qed
qed

section \<open>Writers, kicks and interrupts in any order\<close>

text \<open>What happens at the output side of a port.  A write is the stores of its characters, each with the interrupts
  disabled, and a kick; between them other writers and the transmit interrupt may come in.  The transmitter asks for
  more only when it has been given something since it last asked.\<close>

datatype tx_event = Store u8 | Kick | Thre

fun tx_step_run :: "uart_cfg \<Rightarrow> bytes \<Rightarrow> usart callbacks \<Rightarrow> ptr \<Rightarrow> tx_event \<Rightarrow> usart serials sys \<Rightarrow>
    (u8 list \<times> usart serials sys) option" where
  "tx_step_run junk m cb p (Store b) s =
     do { (r, rb) \<leftarrow> serial_ringbuffer_putchar b (se_int_tx (serial s p));
          Some (if r \<noteq> - 1 then [b] else [], upd_serial p (\<lambda>se. se\<lparr>se_int_tx := rb\<rparr>) s) }"
| "tx_step_run junk m cb p Kick s = do { s1 \<leftarrow> serial_kick (usart_ops junk m) cb p s; Some ([], s1) }"
| "tx_step_run junk m cb p Thre s =
     (if u_SendFifoLength (se_hw (serial s p)) = 0 then Some ([], s)
      else do { s1 \<leftarrow> UART_IRQHandler junk m cb UART_IIR_INTID_THRE p s; Some ([], s1) })"

text \<open>The bytes that were accepted, in their order, are the result.\<close>

fun tx_run :: "uart_cfg \<Rightarrow> bytes \<Rightarrow> usart callbacks \<Rightarrow> ptr \<Rightarrow> tx_event list \<Rightarrow> usart serials sys \<Rightarrow>
    (u8 list \<times> usart serials sys) option" where
  "tx_run junk m cb p [] s = Some ([], s)"
| "tx_run junk m cb p (e # es) s =
     do { (a, s1) \<leftarrow> tx_step_run junk m cb p e s; (as, s2) \<leftarrow> tx_run junk m cb p es s1; Some (a @ as, s2) }"

text \<open>A port that sends by interrupts: it is busy exactly when the transmitter will ask for more.\<close>

definition tx_live :: "ptr \<Rightarrow> usart serials sys \<Rightarrow> bool" where
  "tx_live p s \<longleftrightarrow> has (d_flag (dev s p)) RT_DEVICE_FLAG_INT_TX \<and> d_tx_complete (dev s p) = None \<and> sr_ok (se_int_tx (serial s p)) \<and>
     (se_tx_busy (serial s p) \<longleftrightarrow> u_SendFifoLength (se_hw (serial s p)) \<noteq> 0)"

definition nz_stream :: "usart rt_serial \<Rightarrow> u8 list" where
  "nz_stream se = u_thr (se_hw se) @ filter (\<lambda>c. c \<noteq> 0) (sr_contents (se_int_tx se))"

lemma nz_stream_plain: "0 \<notin> set (sr_contents (se_int_tx se)) \<Longrightarrow> nz_stream se = tx_stream u_thr se"
  unfolding nz_stream_def tx_stream_def by (subst filter_True) auto

lemma fifo_empty_iff: "u_SendFifoLength u = 0 \<longleftrightarrow> fifo_room u = 15"
proof -
  have "15 - unat (u_SendFifoLength u) = 15 \<longleftrightarrow> unat (u_SendFifoLength u) = 0" by linarith
  then show ?thesis by (simp add: fifo_room_def unat_eq_zero)
qed

lemma filter_put:
  assumes "n = min (length (takeWhile (\<lambda>c. c \<noteq> 0) cs)) r"
  shows "take n cs @ filter (\<lambda>c. c \<noteq> 0) (drop (if n < r then Suc n else n) cs) = filter (\<lambda>c. c \<noteq> (0 :: u8)) cs"
proof -
  let ?t = "takeWhile (\<lambda>c. c \<noteq> 0) cs"
  have "take n cs = take n ?t" by (metis assms min.cobounded1 take_all takeWhile_dropWhile_id take_append append_Nil2 diff_is_0_eq take_0)
  then have "filter (\<lambda>c. c \<noteq> 0) (take n cs) = take n cs"
    by (intro filter_True) (metis (mono_tags, lifting) in_set_takeD set_takeWhileD)
  then have 1: "filter (\<lambda>c. c \<noteq> 0) cs = take n cs @ filter (\<lambda>c. c \<noteq> 0) (drop n cs)"
    by (metis append_take_drop_id filter_append)
  have "filter (\<lambda>c. c \<noteq> 0) (drop n cs) = filter (\<lambda>c. c \<noteq> 0) (drop (Suc n) cs)" if "n < r"
  proof (cases "drop n cs")
    case (Cons c ds)
    have n: "n = length ?t" "n < length cs" using that assms Cons by (auto simp: not_le[symmetric])
    then have "cs ! n = 0" by (metis (mono_tags, lifting) nth_length_takeWhile)
    then show ?thesis using n(2) by (metis (mono_tags, lifting) Cons_nth_drop_Suc filter.simps(2))
  qed (simp add: drop_eq_Nil)
  then show ?thesis unfolding 1 by simp
qed

text \<open>What \<open>serial_put\<close> does to a port whose transmitter is empty.\<close>

definition put_done :: "ptr \<Rightarrow> usart serials sys \<Rightarrow> usart serials sys \<Rightarrow> bool" where
  "put_done p s s' \<longleftrightarrow> tx_live p s' \<and> sys_devs s' = sys_devs s \<and> nz_stream (serial s' p) = nz_stream (serial s p) \<and>
     (0 \<notin> set (sr_contents (se_int_tx (serial s p))) \<longrightarrow>
        sr_contents (se_int_tx (serial s' p)) = drop 15 (sr_contents (se_int_tx (serial s p))) \<and>
        (se_tx_busy (serial s' p) \<longleftrightarrow> sr_contents (se_int_tx (serial s p)) \<noteq> []))"

lemma put_done_stream:
  "put_done p s s' \<Longrightarrow> tx_live p s' \<and> nz_stream (serial s' p) = nz_stream (serial s p) \<and>
     (0 \<notin> set (sr_contents (se_int_tx (serial s p))) \<longrightarrow> 0 \<notin> set (sr_contents (se_int_tx (serial s' p))))"
  using in_set_dropD[of 0 15 "sr_contents (se_int_tx (serial s p))"] by (simp add: put_done_def) blast

lemma put_live:
  assumes fl: "has (d_flag (dev s p)) RT_DEVICE_FLAG_INT_TX" "d_tx_complete (dev s p) = None"
    and ok: "sr_ok (se_int_tx (serial s p))" and room: "fifo_room (se_hw (serial s p)) = 15" and busy: "se_tx_busy (serial s p)"
  shows "returns (serial_put (usart_ops junk m) cb p 0 s) (\<lambda>(c, s'). put_done p s s')"
proof -
  let ?cs = "sr_contents (se_int_tx (serial s p))"
  define n where "n = min (length (takeWhile (\<lambda>c. c \<noteq> 0) ?cs)) 15"
  have "0 < fifo_room (se_hw (serial s p))" using room by simp
  from lpc.serial_put_general[OF ok this fl(2), of n junk m cb 0] obtain rb hw where
    put: "serial_put (usart_ops junk m) cb p 0 s = Some (n, upd_serial p (\<lambda>se. se\<lparr>se_int_tx := rb, se_hw := hw,
        se_tx_busy := (if n = 0 then False else se_tx_busy se)\<rparr>) s)" (is "_ = Some (n, ?s')") "sr_ok rb"
    and c: "sr_contents rb = drop (if n < 15 then Suc n else n) ?cs" and h: "u_thr hw = u_thr (se_hw (serial s p)) @ take n ?cs" "fifo_room hw = 15 - n"
    by (auto simp: returns_def room n_def cong: if_cong)
  have "n \<le> 15" by (simp add: n_def)
  then have "u_SendFifoLength hw \<noteq> 0 \<longleftrightarrow> n \<noteq> 0" using h(2) by (auto simp: fifo_empty_iff)
  then have live: "tx_live p ?s'" using fl put(2) busy by (simp add: tx_live_def)
  have str: "nz_stream (serial ?s' p) = nz_stream (serial s p)" using filter_put[OF n_def] by (simp add: nz_stream_def c h(1))
  have "drop (if n < 15 then Suc n else n) ?cs = drop 15 ?cs \<and> (n = 0 \<longleftrightarrow> ?cs = [])" if "0 \<notin> set ?cs"
  proof -
    have t: "takeWhile (\<lambda>c. c \<noteq> 0) ?cs = ?cs" using that by (intro takeWhile_eq_all_conv[THEN iffD2]) auto
    have n: "n = min (length ?cs) 15" unfolding n_def t ..
    have "drop (Suc n) ?cs = []" "drop 15 ?cs = []" if "n < 15" using n that by simp_all
    moreover have "n = 0 \<longleftrightarrow> ?cs = []" unfolding n by (metis length_0_conv min_0L min_def zero_neq_numeral)
    ultimately show ?thesis using \<open>n \<le> 15\<close> by (cases "n < 15") auto
  qed
  then show ?thesis using put(1) live str busy by (simp add: put_done_def c)
qed

lemma kick_live:
  assumes "tx_live p s"
  shows "returns (serial_kick (usart_ops junk m) cb p s) (\<lambda>s'. tx_live p s' \<and> nz_stream (serial s' p) = nz_stream (serial s p) \<and>
     (0 \<notin> set (sr_contents (se_int_tx (serial s p))) \<longrightarrow> 0 \<notin> set (sr_contents (se_int_tx (serial s' p))) \<and>
        (se_tx_busy (serial s' p) \<or> sr_contents (se_int_tx (serial s' p)) = [])))"
proof (cases "se_tx_busy (serial s p)")
  case False
  let ?s1 = "upd_serial p (\<lambda>se. se\<lparr>se_tx_busy := True\<rparr>) s"
  have "returns (serial_put (usart_ops junk m) cb p 0 ?s1) (\<lambda>(c, s'). put_done p ?s1 s')"
    using assms False by (intro put_live) (auto simp: tx_live_def fifo_empty_iff)
  then obtain c s' where s': "serial_put (usart_ops junk m) cb p 0 ?s1 = Some (c, s')" "put_done p ?s1 s'" by (auto simp: returns_def)
  then show ?thesis using False by (auto simp: serial_kick_def put_done_def nz_stream_def simp del: drop_eq_Nil dest: in_set_dropD)
qed (use assms in \<open>simp add: serial_kick_def\<close>)

lemma thre_live:
  assumes live: "tx_live p s" and len: "u_SendFifoLength (se_hw (serial s p)) \<noteq> 0"
  shows "returns (UART_IRQHandler junk m cb UART_IIR_INTID_THRE p s) (put_done p s)"
proof -
  define s1 where "s1 = clear_send_length p (s\<lparr>sys_kernel := rt_interrupt_enter (sys_kernel s)\<rparr>)"
  have f: "se_int_tx (serial s1 p) = se_int_tx (serial s p)" "se_tx_busy (serial s1 p) = se_tx_busy (serial s p)"
    "u_thr (se_hw (serial s1 p)) = u_thr (se_hw (serial s p))" "sys_devs s1 = sys_devs s" "fifo_room (se_hw (serial s1 p)) = 15"
    by (simp_all add: s1_def clear_send_length_def fifo_room_def)
  have fl: "has (d_flag (dev s1 p)) RT_DEVICE_FLAG_INT_TX" "d_tx_complete (dev s1 p) = None" "sr_ok (se_int_tx (serial s1 p))"
    "se_tx_busy (serial s1 p)" using live len by (simp_all add: tx_live_def f)
  have "returns (serial_put (usart_ops junk m) cb p 0 s1) (\<lambda>(c, s'). put_done p s1 s')" by (rule put_live) (use fl f(5) in simp_all)
  then obtain c s' where s': "serial_put (usart_ops junk m) cb p 0 s1 = Some (c, s')" "put_done p s1 s'" by (auto simp: returns_def)
  have "tx_live p (s'\<lparr>sys_kernel := k\<rparr>) \<longleftrightarrow> tx_live p s'" for k by (simp add: tx_live_def)
  then have "put_done p s (s'\<lparr>sys_kernel := rt_interrupt_leave (sys_kernel s')\<rparr>)"
    using s'(2) by (simp add: put_done_def nz_stream_def f)
  then show ?thesis using s'(1) fl(1) by (simp add: UART_IRQHandler_def rt_hw_serial_int_tx_isr_def Let_def flip: s1_def)
qed

lemma store_live:
  assumes "tx_live p s"
  obtains r rb where "serial_ringbuffer_putchar b (se_int_tx (serial s p)) = Some (r, rb)" "sr_ok rb"
    "sr_contents rb = sr_contents (se_int_tx (serial s p)) @ (if r \<noteq> - 1 then [b] else [])"
proof -
  let ?rb = "se_int_tx (serial s p)"
  have ok: "sr_ok ?rb" using assms by (simp add: tx_live_def)
  show thesis
  proof (cases "sr_count ?rb < 127")
    case True
    then show ?thesis using ok putchar_append[OF ok, of b] sr_append_ok[OF ok, of b] sr_append_room[OF ok True, of b]
      by (intro that[of 1 "sr_append b ?rb"]) simp_all
  next
    case False
    then show ?thesis using ok putchar_append[OF ok, of b] by (intro that[of "- 1" ?rb]) simp_all
  qed
qed

lemma tx_step_live:
  assumes live: "tx_live p s"
  shows "returns (tx_step_run junk m cb p e s) (\<lambda>(a, s'). tx_live p s' \<and> set a \<subseteq> {b. e = Store b} \<and>
     nz_stream (serial s' p) = nz_stream (serial s p) @ filter (\<lambda>c. c \<noteq> 0) a \<and>
     (0 \<notin> set (sr_contents (se_int_tx (serial s p))) \<longrightarrow> e \<noteq> Store 0 \<longrightarrow> 0 \<notin> set (sr_contents (se_int_tx (serial s' p)))))"
proof (cases e)
  case (Store b)
  from store_live[OF live, of b] obtain r rb where rb: "serial_ringbuffer_putchar b (se_int_tx (serial s p)) = Some (r, rb)" "sr_ok rb"
    "sr_contents rb = sr_contents (se_int_tx (serial s p)) @ (if r \<noteq> - 1 then [b] else [])" .
  then show ?thesis using live by (auto simp: Store tx_live_def nz_stream_def)
next
  case Kick
  then show ?thesis using kick_live[OF live, of junk m cb] by (auto elim!: returns_mono)
next
  case Thre
  have "returns (UART_IRQHandler junk m cb UART_IIR_INTID_THRE p s) (\<lambda>s'. tx_live p s' \<and> nz_stream (serial s' p) = nz_stream (serial s p) \<and>
     (0 \<notin> set (sr_contents (se_int_tx (serial s p))) \<longrightarrow> 0 \<notin> set (sr_contents (se_int_tx (serial s' p)))))"
    if "u_SendFifoLength (se_hw (serial s p)) \<noteq> 0"
    by (rule returns_mono[OF thre_live[OF live that] put_done_stream])
  then show ?thesis using Thre live by (auto elim!: returns_mono)
qed

lemma tx_run_live:
  "tx_live p s \<Longrightarrow> returns (tx_run junk m cb p es s) (\<lambda>(a, s'). tx_live p s' \<and> set a \<subseteq> {b. Store b \<in> set es} \<and>
     nz_stream (serial s' p) = nz_stream (serial s p) @ filter (\<lambda>c. c \<noteq> 0) a \<and>
     (0 \<notin> set (sr_contents (se_int_tx (serial s p))) \<longrightarrow> Store 0 \<notin> set es \<longrightarrow> 0 \<notin> set (sr_contents (se_int_tx (serial s' p)))))"
proof (induction es arbitrary: s)
  case (Cons e es)
  from tx_step_live[OF Cons.prems, of junk m cb e] obtain a s1 where s1: "tx_step_run junk m cb p e s = Some (a, s1)"
    "tx_live p s1" "set a \<subseteq> {b. e = Store b}" "nz_stream (serial s1 p) = nz_stream (serial s p) @ filter (\<lambda>c. c \<noteq> 0) a"
    "0 \<notin> set (sr_contents (se_int_tx (serial s p))) \<longrightarrow> e \<noteq> Store 0 \<longrightarrow> 0 \<notin> set (sr_contents (se_int_tx (serial s1 p)))"
    by (auto simp: returns_def)
  from Cons.IH[OF s1(2)] obtain b s2 where s2: "tx_run junk m cb p es s1 = Some (b, s2)" "tx_live p s2" "set b \<subseteq> {b. Store b \<in> set es}"
    "nz_stream (serial s2 p) = nz_stream (serial s1 p) @ filter (\<lambda>c. c \<noteq> 0) b"
    "0 \<notin> set (sr_contents (se_int_tx (serial s1 p))) \<longrightarrow> Store 0 \<notin> set es \<longrightarrow> 0 \<notin> set (sr_contents (se_int_tx (serial s2 p)))"
    by (auto simp: returns_def)
  have "set (a @ b) \<subseteq> {b. Store b \<in> set (e # es)}" using s1(3) s2(3) by auto
  then show ?case using s1(1,4,5) s2(1,2,4,5) by auto
qed simp

text \<open>\<^verbatim>\<open>rt_serial_write\<close> is the stores of the characters it accepts and a kick, and sets the error number when it accepts none.\<close>

lemma upd_serial_same: "se_int_tx (serial s p) = rb \<Longrightarrow> upd_serial p (\<lambda>se. se\<lparr>se_int_tx := rb\<rparr>) s = s"
  by (cases "sys_drv s p", cases s) (auto simp: upd_serial_def fun_upd_idem)

lemma fill_is_stores:
  "serial_fill bs n rb0 = Some (k, rb) \<Longrightarrow> se_int_tx (serial s p) = rb0 \<Longrightarrow> k \<le> n \<and> k \<le> length bs \<and>
   tx_run junk m cb p (map Store (take k bs)) s = Some (take k bs, upd_serial p (\<lambda>se. se\<lparr>se_int_tx := rb\<rparr>) s)"
proof (induction bs n rb0 arbitrary: s k rule: serial_fill.induct)
  case (3 b bs n rb0)
  obtain r rb1 where r: "serial_ringbuffer_putchar b rb0 = Some (r, rb1)" using "3.prems"(1) by (auto split: bind_splits)
  let ?s1 = "upd_serial p (\<lambda>se. se\<lparr>se_int_tx := rb1\<rparr>) s"
  show ?case
  proof (cases "r = - 1")
    case True
    then have "rb1 = rb0" using r by (auto simp: serial_ringbuffer_putchar_def Let_def split: if_splits)
    then show ?thesis using "3.prems" r True by (auto simp: upd_serial_same)
  next
    case False
    then obtain j where j: "serial_fill bs n rb1 = Some (j, rb)" "k = Suc j" using "3.prems"(1) r by (auto split: bind_splits)
    have "j \<le> n \<and> j \<le> length bs \<and> tx_run junk m cb p (map Store (take j bs)) ?s1 = Some (take j bs, upd_serial p (\<lambda>se. se\<lparr>se_int_tx := rb\<rparr>) ?s1)"
      by (rule "3.IH"[OF r refl False j(1)]) simp
    then show ?thesis using j r False "3.prems"(2) by (simp add: comp_def)
  qed
qed (simp_all add: upd_serial_same)

lemma tx_run_append:
  "tx_run junk m cb p (es @ fs) s = do { (a, s1) \<leftarrow> tx_run junk m cb p es s; (b, s2) \<leftarrow> tx_run junk m cb p fs s1; Some (a @ b, s2) }"
  by (induction es arbitrary: s) (simp_all add: bind_assoc case_prod_unfold Option.bind_assoc)

lemma write_is_stores_and_kick:
  assumes fl: "has (d_flag (dev s p)) RT_DEVICE_FLAG_INT_TX" and f: "serial_fill bs (unat sz) (se_int_tx (serial s p)) = Some (k, rb)"
  shows "rt_serial_write evt cb (usart_ops junk m) p pos buffer bs sz s =
     do { (a, s1) \<leftarrow> tx_run junk m cb p (map Store (take k bs) @ [Kick]) s;
          Some (Done (of_nat (length a)), if a = [] then rt_set_errno (-RT_EFULL) s1 else s1) }"
proof -
  note st = fill_is_stores[OF f refl, of junk m cb]
  then have l: "length (take k bs) = k" "take k bs = [] \<longleftrightarrow> k = 0" by auto
  show ?thesis using st l by (simp add: rt_serial_write_def Let_def fl f tx_run_append bind_assoc)
qed

text \<open>Without zero bytes, what has been kicked is sent.\<close>

definition kicked :: "ptr \<Rightarrow> usart serials sys \<Rightarrow> bool" where
  "kicked p s \<longleftrightarrow> tx_live p s \<and> 0 \<notin> set (sr_contents (se_int_tx (serial s p))) \<and>
     (se_tx_busy (serial s p) \<or> sr_contents (se_int_tx (serial s p)) = [])"

lemma thre_drains:
  "kicked p s \<Longrightarrow> returns (tx_run junk m cb p (replicate n Thre) s) (\<lambda>(b, s').
     tx_stream u_thr (serial s' p) = tx_stream u_thr (serial s p) \<and>
     sr_contents (se_int_tx (serial s' p)) = drop (15 * n) (sr_contents (se_int_tx (serial s p))))"
proof (induction n arbitrary: s)
  case (Suc n)
  let ?cs = "sr_contents (se_int_tx (serial s p))"
  have live: "tx_live p s" "0 \<notin> set ?cs" using Suc.prems by (simp_all add: kicked_def)
  obtain s1 where s1: "tx_step_run junk m cb p Thre s = Some ([], s1)" "kicked p s1" "sr_contents (se_int_tx (serial s1 p)) = drop 15 ?cs"
    "tx_stream u_thr (serial s1 p) = tx_stream u_thr (serial s p)"
  proof (cases "u_SendFifoLength (se_hw (serial s p)) = 0")
    case True
    then have "?cs = []" using Suc.prems by (auto simp: kicked_def tx_live_def)
    then show ?thesis using True Suc.prems by (intro that[of s]) simp_all
  next
    case False
    from thre_live[OF live(1) False, of junk m cb] obtain s1 where s1: "UART_IRQHandler junk m cb UART_IIR_INTID_THRE p s = Some s1" "put_done p s s1"
      by (auto simp: returns_def)
    have c: "sr_contents (se_int_tx (serial s1 p)) = drop 15 ?cs" "se_tx_busy (serial s1 p) \<longleftrightarrow> ?cs \<noteq> []"
      using s1(2) live(2) unfolding put_done_def by blast+
    note st = put_done_stream[OF s1(2)]
    have "kicked p s1" using st live(2) c by (auto simp: kicked_def simp del: drop_eq_Nil)
    moreover have "tx_stream u_thr (serial s1 p) = tx_stream u_thr (serial s p)" using st live(2) by (simp add: nz_stream_plain[symmetric])
    ultimately show ?thesis using that[of s1] s1(1) c(1) False by simp
  qed
  from Suc.IH[OF s1(2)] show ?case by (auto simp: s1(1,3,4) add.commute simp del: tx_step_run.simps elim!: returns_mono)
qed simp

lemma write_drains:
  assumes live: "tx_live p s" "0 \<notin> set (sr_contents (se_int_tx (serial s p)))" and bs: "0 \<notin> set bs" "length bs < 2 ^ 32"
    and str: "tx_stream u_thr (serial s p) = x @ a"
  defines "n \<equiv> min (length bs) (127 - sr_count (se_int_tx (serial s p)))"
  shows "returns (rt_serial_write evt cb (usart_ops junk m) p 0 0 bs (of_nat (length bs)) s) (\<lambda>(r, s2). r = Done (of_nat n) \<and>
       returns (tx_run junk m cb p (replicate 9 Thre) s2) (\<lambda>(b, s3).
         u_thr (se_hw (serial s3 p)) = x @ a @ take n bs \<and> sr_contents (se_int_tx (serial s3 p)) = []))"
proof -
  have l: "unat (of_nat (length bs) :: u32) = length bs" using bs(2) by (simp add: unat_of_nat)
  have fl: "has (d_flag (dev s p)) RT_DEVICE_FLAG_INT_TX" "sr_ok (se_int_tx (serial s p))" using live(1) by (simp_all add: tx_live_def)
  from serial_fill_returns[OF fl(2), of "length bs" bs] obtain rb where f: "serial_fill bs (length bs) (se_int_tx (serial s p)) = Some (n, rb)"
    "sr_ok rb" "sr_contents rb = sr_contents (se_int_tx (serial s p)) @ take n bs" by (auto simp: returns_def n_def)
  let ?s1 = "upd_serial p (\<lambda>se. se\<lparr>se_int_tx := rb\<rparr>) s"
  have live1: "tx_live p ?s1" "0 \<notin> set (sr_contents (se_int_tx (serial ?s1 p)))"
    using live bs(1) f(2,3) by (auto simp: tx_live_def dest: in_set_takeD)
  from kick_live[OF live1(1), of junk m cb] live1(2) obtain s2 where s2: "serial_kick (usart_ops junk m) cb p ?s1 = Some s2" "kicked p s2"
    "nz_stream (serial s2 p) = nz_stream (serial ?s1 p)" by (auto simp: returns_def kicked_def)
  have "0 \<notin> set (sr_contents (se_int_tx (serial s2 p)))" using s2(2) by (simp add: kicked_def)
  then have str2: "tx_stream u_thr (serial s2 p) = x @ a @ take n bs"
    using s2(3) live1(2) str f(3) by (simp add: nz_stream_plain) (simp add: tx_stream_def)
  define s3 where "s3 = (if n = 0 then rt_set_errno (-RT_EFULL) s2 else s2)"
  have "sys_drv (rt_set_errno e t) = sys_drv t" "sys_devs (rt_set_errno e t) = sys_devs t" for e and t :: "usart serials sys"
    by (simp_all add: rt_set_errno_def split: option.splits)
  then have s3: "kicked p s3" "serial s3 p = serial s2 p" using s2(2) by (auto simp: s3_def kicked_def tx_live_def)
  have w: "rt_serial_write evt cb (usart_ops junk m) p 0 0 bs (of_nat (length bs)) s = Some (Done (of_nat n), s3)"
    by (simp add: rt_serial_write_def Let_def fl(1) l f(1) s2(1) s3_def)
  have "sr_count (se_int_tx (serial s3 p)) < 128" by (simp add: sr_count_def)
  then have "drop (15 * 9) (sr_contents (se_int_tx (serial s3 p))) = []" by simp
  then have "returns (tx_run junk m cb p (replicate 9 Thre) s3) (\<lambda>(b, s4). u_thr (se_hw (serial s4 p)) = x @ a @ take n bs \<and> sr_contents (se_int_tx (serial s4 p)) = [])"
    by (intro returns_mono[OF thre_drains[OF s3(1)]]) (auto simp: tx_stream_def s3(2) str2[unfolded tx_stream_def] simp del: drop_eq_Nil)
  then show ?thesis by (simp add: w)
qed

text \<open>A port of which every character it has accepted has been sent or waits in the buffer.\<close>

definition port_ok :: "ptr \<Rightarrow> usart serials sys \<Rightarrow> bool" where
  "port_ok p s \<longleftrightarrow> has (d_flag (dev s p)) RT_DEVICE_FLAG_INT_TX \<and> d_tx_complete (dev s p) = None \<and> tx_ok fifo_room (serial s p)"

text \<open>Nine interrupts empty the buffer: everything that was accepted has been given to the transmitter.\<close>

lemma thre_nine_returns:
  assumes "port_ok p s"
  shows "returns (thre_n junk m cb p 9 s) (\<lambda>s'. port_ok p s' \<and> sr_contents (se_int_tx (serial s' p)) = [] \<and>
     u_thr (se_hw (serial s' p)) = tx_stream u_thr (serial s p))"
proof -
  have "sr_count (se_int_tx (serial s p)) < 128" by (simp add: sr_count_def)
  then have "drop (15 * 9) (sr_contents (se_int_tx (serial s p))) = []" by simp
  then show ?thesis
    using assms thre_n_returns[of s p junk m cb 9] unfolding port_ok_def
    by (auto simp: tx_stream_def elim!: returns_mono simp del: drop_eq_Nil)
qed

end
