(* ===== verification/Console.thy ===== *)
theory Console
  imports Printf Usart
begin

unbundle bit_operations_syntax

text \<open>
  The console of \<^verbatim>\<open>src/kservice.c\<close>: the variable \<^verbatim>\<open>_console_device\<close> is kept beside the state of the devices, and
  \<^verbatim>\<open>rt_kprintf\<close> formats into its static buffer, which lies at \<open>buf\<close> in the memory, and hands the text to the
  console device.
\<close>

section \<open>The code\<close>

abbreviation RT_CONSOLEBUF_SIZE :: u32 where "RT_CONSOLEBUF_SIZE \<equiv> 128"

definition rt_console_get_device :: "ptr option \<times> 'x sys \<Rightarrow> ptr option" where
  "rt_console_get_device cs = fst cs"

text \<open>Running a device operation beside the variable.\<close>

definition on_sys :: "('x sys \<Rightarrow> ('b outcome \<times> 'x sys) option) \<Rightarrow> 'c \<times> 'x sys \<Rightarrow> ('b outcome \<times> 'c \<times> 'x sys) option" where
  "on_sys f cs = do { (r, s) \<leftarrow> f (snd cs); Some (r, fst cs, s) }"

definition rt_console_set_device :: "rt_err \<Rightarrow> (ptr \<Rightarrow> ('x, 'a) rt_device_ops) \<Rightarrow> cstr \<Rightarrow> ptr option \<times> 'x sys \<Rightarrow>
    (ptr option outcome \<times> ptr option \<times> 'x sys) option" where
  "rt_console_set_device junk ops name cs =
     do { let old = fst cs;
          (new, k) \<leftarrow> rt_device_find name (sys_kernel (snd cs));
          let cs1 = (fst cs, (snd cs)\<lparr>sys_kernel := k\<rparr>);
          case new of
            None \<Rightarrow> Some (Done old, cs1)
          | Some p \<Rightarrow>
              bind_done (case fst cs1 of
                           None \<Rightarrow> Some (Done RT_EOK, cs1)
                         | Some q \<Rightarrow> on_sys (rt_device_close junk ops q) cs1) (\<lambda>_ cs2.
                bind_done (on_sys (rt_device_open ops p RT_DEVICE_OFLAG_RDWR) (Some p, snd cs2)) (\<lambda>_ cs3.
                  Some (Done old, cs3))) }"

text \<open>The weak default of \<^verbatim>\<open>rt_hw_console_output\<close>, which the board does not replace.\<close>

definition rt_hw_console_output :: "cstr \<Rightarrow> 'x sys \<Rightarrow> 'x sys" where
  "rt_hw_console_output str s = s"

text \<open>The bytes of the memory from \<open>a\<close> on.\<close>

definition bytes_at :: "bytes \<Rightarrow> u32 \<Rightarrow> nat \<Rightarrow> u8 list" where
  "bytes_at m a n = map (\<lambda>i. m (a + of_nat i)) [0..<n]"

definition rt_kprintf :: "(ptr \<Rightarrow> ('x, 'a) rt_device_ops) \<Rightarrow> u32 \<Rightarrow> cstr \<Rightarrow> arg list \<Rightarrow> ptr option \<Rightarrow> bytes \<times> 'x sys \<Rightarrow>
    (unit outcome \<times> bytes \<times> 'x sys) option" where
  "rt_kprintf ops buf fmt args con st =
     do { (n, b) \<leftarrow> vsnprintf buf RT_CONSOLEBUF_SIZE fmt args (fst st);
          case con of
            None \<Rightarrow> Some (Done (), b, rt_hw_console_output (bytes_at b buf (unat n)) (snd st))
          | Some p \<Rightarrow>
              bind_done (on_sys (rt_device_write ops p 0 buf (bytes_at b buf (unat n)) n) (b, snd st)) (\<lambda>_ st1.
                Some (Done (), st1)) }"

section \<open>Printing through a serial port\<close>

lemma decimal_nonzero: "0 \<notin> set (decimal n)"
proof (induction n rule: decimal.induct)
  case (1 n)
  have d: "(48 :: u8) + of_nat k \<noteq> 0" if "k < 10" for k
  proof -
    have "unat ((48 :: u8) + of_nat k) = 48 + k" using that by (simp add: unat_word_ariths unat_of_nat)
    then show ?thesis by (metis add_is_0 unsigned_0 zero_neq_numeral)
  qed
  show ?case using 1 d[of n] d[of "n mod 10"] by (subst decimal.simps) auto
qed

lemma decimal_text_nonzero: "0 \<notin> set (decimal_text v)"
  by (simp add: decimal_text_def decimal_nonzero)

text \<open>\<^verbatim>\<open>rt_kprintf\<close> with a serial port as the console: a text without zero bytes that is not cut is the next output of the
  port.\<close>

lemma length_bytes_at [simp]: "length (bytes_at m a n) = n"
  by (simp add: bytes_at_def)

lemma kprintf_returns:
  fixes s :: "usart serials sys"
  assumes h: "ops (d_handlers (dev s p)) = serial_ops b0 evt cb (usart_ops junk m0)" and ok: "port_ok p s"
    and room: "n + sr_count (se_int_tx (serial s p)) \<le> 127"
    and lim: "text_limit fmt args = Some n" and buf: "unat buf + 128 \<le> 2 ^ 32"
  shows "returns (vsnprintf buf RT_CONSOLEBUF_SIZE fmt args m) (\<lambda>(r, m'). unat r \<le> n \<and> m' (buf + r) = 0 \<and>
     (let txt = bytes_at m' buf (unat r) in 0 \<notin> set txt \<longrightarrow>
       returns (rt_kprintf ops buf fmt args (Some p) (m, s)) (\<lambda>(q, m1, s1). q = Done () \<and> m1 = m' \<and> port_ok p s1 \<and>
         tx_stream u_thr (serial s1 p) = tx_stream u_thr (serial s p) @ txt)))"
proof -
  have le: "n \<le> 127" using room by simp
  have "unat buf + n < 2 ^ 32" "RT_CONSOLEBUF_SIZE \<noteq> 0" "unat buf + unat RT_CONSOLEBUF_SIZE \<le> 2 ^ 32" using le buf by simp_all
  from vsnprintf_returns[OF lim this, of m] obtain r m' where pr: "vsnprintf buf RT_CONSOLEBUF_SIZE fmt args m = Some (r, m')"
    "unat r \<le> n" "m' (buf + min r (RT_CONSOLEBUF_SIZE - 1)) = 0" by (auto simp: returns_def)
  have "r \<le> RT_CONSOLEBUF_SIZE - 1" using pr(2) le by (simp add: word_le_nat_alt)
  then have end0: "m' (buf + r) = 0" using pr(3) by (simp add: min_def)
  let ?txt = "bytes_at m' buf (unat r)"
  have mn: "min (unat r) (127 - sr_count (se_int_tx (serial s p))) = unat r" using pr(2) room by simp
  have "returns (rt_kprintf ops buf fmt args (Some p) (m, s)) (\<lambda>(q, m1, s1). q = Done () \<and> m1 = m' \<and> port_ok p s1 \<and>
         tx_stream u_thr (serial s1 p) = tx_stream u_thr (serial s p) @ ?txt)" if nz: "0 \<notin> set ?txt"
  proof -
    have fl: "has (d_flag (dev s p)) RT_DEVICE_FLAG_INT_TX" "tx_ok fifo_room (serial s p)" "d_tx_complete (dev s p) = None"
      using ok by (simp_all add: port_ok_def)
    have "returns (rt_serial_write evt cb (usart_ops junk m0) p 0 buf ?txt r s) (\<lambda>(q, s'). q = Done (of_nat (unat r)) \<and>
       tx_stream u_thr (serial s' p) = tx_stream u_thr (serial s p) @ ?txt \<and> tx_ok fifo_room (serial s' p) \<and> sys_devs s' = sys_devs s)"
      by (rule returns_mono[OF lpc.serial_write_returns[OF fl _ nz, where sz = r, unfolded mn]]) auto
    moreover have "rt_device_write ops p 0 buf ?txt r s = rt_serial_write evt cb (usart_ops junk m0) p 0 buf ?txt r s"
      by (simp add: rt_device_write_def h serial_ops_def)
    ultimately show ?thesis using fl
      by (auto simp: rt_kprintf_def pr(1) on_sys_def bind_done_def port_ok_def elim!: returns_mono)
  qed
  then show ?thesis using pr(1,2) end0 by (simp add: Let_def)
qed

lemma bytes_at_decimal:
  "(\<And>i. i < n \<Longrightarrow> m (buf + of_nat i) = t ! i) \<Longrightarrow> n = length t \<Longrightarrow> bytes_at m buf n = t"
  by (intro nth_equalityI) (simp_all add: bytes_at_def)

text \<open>Changing the console: the new device is opened and active when there is one of the name, and nothing
  changes otherwise.\<close>

lemma console_unknown:
  assumes "may_look_up (sys_kernel s)" "find_name name RT_Object_Class_Device (sys_kernel s) = None"
  shows "returns (rt_console_set_device junk ops name (con, s)) (\<lambda>(r, con', s'). r = Done con \<and> con' = con \<and> sys_devs s' = sys_devs s)"
proof -
  from device_find_returns[OF assms(1), of name] obtain k where "rt_device_find name (sys_kernel s) = Some (None, k)"
    using assms(2) by (auto simp: returns_def)
  then show ?thesis by (simp add: rt_console_set_device_def Let_def)
qed

end
