(* ===== verification/Driver_Props.thy ===== *)
theory Driver_Props
  imports Pipe Console
begin

unbundle bit_operations_syntax

text \<open>The theorems on the driver framework, the serial ports and the console.\<close>

section \<open>States to exercise them on\<close>

definition demo_device :: rt_device where
  "demo_device = \<lparr>d_type = 0, d_flag = 0x503, d_open_flag = 0, d_rx_indicate = None, d_tx_complete = None,
     d_handlers = 0, d_user_data = 0\<rparr>"

definition demo_junk :: uart_cfg where
  "demo_junk = \<lparr>uc_baud_rate = 0, uc_parity = 0, uc_databits = 0, uc_stopbits = 0\<rparr>"

abbreviation demo_evt :: notify where "demo_evt \<equiv> \<lambda>_ _ s. Some s"
abbreviation demo_cb :: "usart callbacks" where "demo_cb \<equiv> \<lambda>_ _ _ s. Some s"
abbreviation demo_bytes :: bytes where "demo_bytes \<equiv> \<lambda>_. 0"

definition demo_sys :: "'x \<Rightarrow> 'x sys" where
  "demo_sys x = \<lparr>sys_kernel = demo, sys_errno = RT_EOK, sys_devs = (\<lambda>_. demo_device), sys_msgs = [], sys_drv = x\<rparr>"

definition demo_ring :: rt_ringbuffer where
  "demo_ring = rt_ringbuffer_init (replicate 8 0) 8"

definition demo_dq :: rt_data_queue where
  "demo_dq = \<lparr>dq_size = 4, dq_lwm = 1, dq_waiting_lwm = False, dq_get_index = 0, dq_put_index = 1, dq_queue_addr = 0,
     dq_queue = [(9, 1), (0, 0), (0, 0), (0, 0)], dq_evt_notify = None\<rparr>"

definition demo_pipes :: pipes where
  "demo_pipes = \<lparr>ps_pipes = (\<lambda>_. \<lparr>pipe_ringbuffer = demo_ring, pipe_buffer_ptr = 0\<rparr>), ps_first = None\<rparr>"

definition demo_usart :: usart where
  "demo_usart = \<lparr>u_thr = [], u_rx = [97, 98, 99], u_irq = True, u_cfg = None, u_RecvFifoLength = 14, u_SendFifoLength = 0,
     u_SendPtr = 0, u_SendLength = 0\<rparr>"

definition demo_serial :: "usart rt_serial" where
  "demo_serial = \<lparr>se_config = RT_SERIAL_CONFIG_DEFAULT, se_int_rx = \<lparr>sr_buffer = replicate 128 0, sr_put_index = 0, sr_get_index = 0\<rparr>,
     se_int_tx = \<lparr>sr_buffer = replicate 128 0, sr_put_index = 0, sr_get_index = 0\<rparr>, se_tx_dq = demo_dq, se_tx_busy = False,
     se_hw = demo_usart\<rparr>"

abbreviation demo_port :: "usart serials sys" where
  "demo_port \<equiv> demo_sys (\<lambda>_. demo_serial)"

lemma demo_sys_fields [simp]:
  "sys_kernel (demo_sys x) = demo" "sys_devs (demo_sys x) = (\<lambda>_. demo_device)" "sys_drv (demo_sys x) = x"
  by (simp_all add: demo_sys_def)

lemma demo_ring_ok: "rb_ok demo_ring" "rb_contents demo_ring = []" "rb_size demo_ring = 8" "rb_unwrapped demo_ring"
  "rb_write_index demo_ring = 0" "rb_count demo_ring = 0" "rb_read_index demo_ring = 0"
proof -
  have "pow2 (unat (8 :: u16))" by (auto simp: pow2_def intro: exI[of _ 3])
  then show "rb_ok demo_ring" "rb_contents demo_ring = []" "rb_size demo_ring = 8"
    using rb_init_ok[of 8 "replicate 8 0"] by (simp_all add: demo_ring_def)
qed (simp_all add: demo_ring_def rt_ringbuffer_init_def rb_unwrapped_def rb_count_def)

lemma demo_port_ok: "port_ok p demo_port"
  by (simp add: port_ok_def demo_device_def has_def tx_ok_def demo_serial_def sr_ok_def sr_contents_def sr_count_def
      fifo_room_def demo_usart_def)

lemma demo_port_live: "tx_live p demo_port"
  by (simp add: tx_live_def demo_device_def has_def demo_serial_def sr_ok_def demo_usart_def)

lemma demo_may_look_up: "may_look_up demo"
  unfolding may_look_up_def using demo_kernel_inv demo_runnable by blast

section \<open>Ring buffers, data queues and pipes\<close>





text \<open>C38: What is written into an empty pipe with room for it is what the next read, asking for that much, gets.\<close>

theorem pipe_round_trip:
  assumes inv: "kernel_inv (sys_kernel s)" and run: "runnable (sys_kernel s)" and irq: "k_interrupt_nest (sys_kernel s) = 0"
    and ok: "rb_ok (ring_of s p)" "rb_contents (ring_of s p) = []"
    and bs: "bs \<noteq> []" "length bs \<le> unat (rb_size (ring_of s p))" "unat (rb_read_index (ring_of s p)) + length bs < 2 ^ 16"
  shows "returns (rt_pipe_write p pos buffer bs (of_nat (length bs)) s) (\<lambda>(r, s1). r = Done (of_nat (length bs)) \<and>
     served (Pipe_Read_Q p) (sys_kernel s) (sys_kernel s1) \<and>
     returns (rt_pipe_read p pos (of_nat (length bs)) s1) (\<lambda>(r', s2). r' = Done (of_nat (length bs), bs) \<and>
       rb_contents (ring_of s2 p) = [] \<and> kernel_inv (sys_kernel s2) \<and> runnable (sys_kernel s2)))"
proof -
  have c0: "rb_count (ring_of s p) = 0" using ok(2) length_rb_contents[of "ring_of s p"] by simp
  have len: "unat (ucast (of_nat (length bs) :: u32) :: u16) = length bs"
    using bs(3) by (simp add: unsigned_ucast_eq unat_of_nat take_bit_nat_eq_self)
  have n: "length bs = min (unat (ucast (of_nat (length bs) :: u32) :: u16)) (unat (rb_size (ring_of s p)) - rb_count (ring_of s p))"
    using bs(2) by (simp add: len c0)
  have m: "unat m = length bs \<longleftrightarrow> m = of_nat (length bs)" for m :: u32
    using bs(3) by (auto simp: word_unat_eq_iff unat_of_nat)
  show ?thesis
  proof (rule returns_mono[OF pipe_write_returns[OF inv run irq ok(1) n]], use bs in simp, simp, clarify, goal_cases)
    case (1 r s1 w)
    have e: "rb_contents (ring_of s1 p) = bs" using 1 ok(2) by simp
    have c: "rb_count (ring_of s1 p) = length bs" using arg_cong[OF e, of length] by simp
    have uw: "rb_unwrapped (ring_of s1 p)" using 1 bs(3) c by (intro unwrappedI) simp
    have "returns (rt_pipe_read p pos (of_nat (length bs)) s1) (\<lambda>(r', s2). r' = Done (of_nat (length bs), bs) \<and>
       rb_contents (ring_of s2 p) = [] \<and> kernel_inv (sys_kernel s2) \<and> runnable (sys_kernel s2))"
      using 1 bs(1) uw by (intro returns_mono[OF pipe_read_returns[of s1 p "length bs"]]) (auto simp: len c e m)
    then show ?case using 1 by (simp add: m)
  qed
qed

theorem pipe_round_trip_witness:
  "returns (rt_pipe_write 30 0 0 [104, 105] 2 (demo_sys demo_pipes)) (\<lambda>(r, s1). r = Done 2 \<and>
     returns (rt_pipe_read 30 0 2 s1) (\<lambda>(r', s2). r' = Done (2, [104, 105])))"
proof -
  have k: "kernel_inv (sys_kernel (demo_sys demo_pipes))" using demo_kernel_inv by simp
  have "returns (rt_pipe_write 30 0 0 [104, 105] (of_nat (length [104 :: u8, 105])) (demo_sys demo_pipes)) (\<lambda>(r, s1).
     r = Done (of_nat (length [104 :: u8, 105])) \<and> served (Pipe_Read_Q 30) (sys_kernel (demo_sys demo_pipes)) (sys_kernel s1) \<and>
     returns (rt_pipe_read 30 0 (of_nat (length [104 :: u8, 105])) s1) (\<lambda>(r', s2). r' = Done (of_nat (length [104 :: u8, 105]), [104, 105]) \<and>
       rb_contents (ring_of s2 30) = [] \<and> kernel_inv (sys_kernel s2) \<and> runnable (sys_kernel s2)))"
    by (rule pipe_round_trip[OF k]) (simp_all add: demo_pipes_def demo_ring_ok demo_runnable)
  then show ?thesis by (auto elim!: returns_mono)
qed

section \<open>Serial ports\<close>

lemma thre_nine_sends:
  "port_ok p s \<Longrightarrow> tx_stream u_thr (serial s p) = x \<Longrightarrow> returns (thre_n junk m cb p 9 s) (\<lambda>s'. u_thr (se_hw (serial s' p)) = x)"
  by (rule returns_mono[OF thre_nine_returns]) auto

lemma run_plain:
  assumes "tx_live p s" "0 \<notin> set (sr_contents (se_int_tx (serial s p)))" "Store 0 \<notin> set es"
  shows "returns (tx_run junk m cb p es s) (\<lambda>(a, s'). tx_live p s' \<and> 0 \<notin> set (sr_contents (se_int_tx (serial s' p))) \<and>
     tx_stream u_thr (serial s' p) = tx_stream u_thr (serial s p) @ a)"
proof -
  from tx_run_live[OF assms(1), of junk m cb es] obtain a s' where r: "tx_run junk m cb p es s = Some (a, s')" "tx_live p s'"
    "set a \<subseteq> {b. Store b \<in> set es}" "nz_stream (serial s' p) = nz_stream (serial s p) @ filter (\<lambda>c. c \<noteq> 0) a"
    "0 \<notin> set (sr_contents (se_int_tx (serial s' p)))" using assms(2,3) by (auto simp: returns_def)
  have "filter (\<lambda>c. c \<noteq> 0) a = a" using assms(3) r(3) by (intro filter_True) auto
  then show ?thesis using r assms(2) by (simp add: nz_stream_plain)
qed

lemma device_found:
  "may_look_up k \<Longrightarrow> find_name name RT_Object_Class_Device k = Some (ODevice p) \<Longrightarrow> returns (rt_device_find name k) (\<lambda>(d, k'). d = Some p)"
  by (rule returns_mono[OF device_find_returns]) auto

text \<open>C33: The output of a port that sends by interrupts, however the stores of several writers, their kicks and the
  transmit interrupts follow each other: the bytes given to the transmitter, followed by the bytes other than 0 in the
  port's buffer, are the bytes other than 0 that the stores have accepted, in their order.  None is lost, doubled or
  overtaken; zero bytes are dropped.  A store is one step, and so is a kick: an interrupt inside the kick of a writer
  is not among the orders considered.  A call of \<^verbatim>\<open>rt_serial_write\<close> that nothing comes between is its stores and a kick
  (lemma \<open>write_is_stores_and_kick\<close>).\<close>

theorem serial_output_in_order:
  assumes "tx_live p s"
  shows "returns (tx_run junk m cb p es s) (\<lambda>(accepted, s'). tx_live p s' \<and>
     nz_stream (serial s' p) = nz_stream (serial s p) @ filter (\<lambda>c. c \<noteq> 0) accepted)"
  by (rule returns_mono[OF tx_run_live[OF assms]]) auto

theorem serial_output_in_order_witness:
  "returns (tx_run demo_junk demo_bytes demo_cb 40 [Store 104, Store 0, Kick, Store 105, Thre, Kick, Store 33] demo_port) (\<lambda>(accepted, s').
     u_thr (se_hw (serial s' 40)) @ filter (\<lambda>c. c \<noteq> 0) (sr_contents (se_int_tx (serial s' 40))) = filter (\<lambda>c. c \<noteq> 0) accepted)"
  by (rule returns_mono[OF serial_output_in_order[OF demo_port_live]])
    (auto simp: nz_stream_def demo_serial_def demo_usart_def sr_contents_def sr_count_def)

text \<open>C34: After any history of stores, kicks and transmit interrupts in which no zero byte is stored, a write of a text without
  zero bytes that no interrupt falls into accepts as much as there is room for, and nine transmit interrupts later the buffer is empty and all
  that was accepted, in the history and now, has been given to the transmitter in its order.\<close>

theorem serial_output_drains:
  assumes "tx_live p s" "0 \<notin> set (sr_contents (se_int_tx (serial s p)))" "Store 0 \<notin> set es" "0 \<notin> set bs" "length bs < 2 ^ 32"
  shows "returns (tx_run junk m cb p es s) (\<lambda>(a, s1).
     returns (rt_serial_write evt cb (usart_ops junk m) p 0 0 bs (of_nat (length bs)) s1) (\<lambda>(r, s2).
       let n = min (length bs) (127 - sr_count (se_int_tx (serial s1 p))) in r = Done (of_nat n) \<and>
       returns (tx_run junk m cb p (replicate 9 Thre) s2) (\<lambda>(b, s3).
         u_thr (se_hw (serial s3 p)) = tx_stream u_thr (serial s p) @ a @ take n bs \<and> sr_contents (se_int_tx (serial s3 p)) = [])))"
  by (rule returns_mono[OF run_plain[OF assms(1-3)]]) (auto simp: Let_def intro!: write_drains assms(4,5))

theorem serial_output_drains_witness:
  "returns (tx_run demo_junk demo_bytes demo_cb 40 [Store 104, Kick, Store 105] demo_port) (\<lambda>(a, s1).
     returns (rt_serial_write demo_evt demo_cb (usart_ops demo_junk demo_bytes) 40 0 0 [33] 1 s1) (\<lambda>(r, s2).
       let n = min 1 (127 - sr_count (se_int_tx (serial s1 40))) in r = Done (of_nat n) \<and>
       returns (tx_run demo_junk demo_bytes demo_cb 40 (replicate 9 Thre) s2) (\<lambda>(b, s3).
         u_thr (se_hw (serial s3 40)) = a @ take n [33] \<and> sr_contents (se_int_tx (serial s3 40)) = [])))"
proof -
  have e: "sr_contents (se_int_tx demo_serial) = []" "tx_stream u_thr demo_serial = []"
    by (simp_all add: tx_stream_def demo_serial_def demo_usart_def sr_contents_def sr_count_def)
  have l: "length [33 :: u8] = 1" "of_nat 1 = (1 :: u32)" by simp_all
  show ?thesis
    by (rule serial_output_drains[OF demo_port_live, of 40 "[Store 104, Kick, Store 105]" "[33]", unfolded l demo_sys_fields e append_Nil]) simp_all
qed

text \<open>C39: The receive interrupt drains the receiver and hands over one character: with up to 13 characters waiting only the
  last of them reaches the port's buffer, and with more than 13 the first 13 are taken out and none reaches it.\<close>

theorem receive_keeps_last_only:
  assumes "sr_ok (se_int_rx (serial s p))" "u_RecvFifoLength (se_hw (serial s p)) = 14" "length (sr_contents (se_int_rx (serial s p))) < 127"
  shows "returns (serial_receive (usart_ops junk m) p s) (\<lambda>s'. let rx = u_rx (se_hw (serial s p)) in
     u_rx (se_hw (serial s' p)) = drop 13 rx \<and>
     sr_contents (se_int_rx (serial s' p)) = sr_contents (se_int_rx (serial s p)) @
       (if rx = [] \<or> 13 < length rx then [] else [last rx]))"
  by (rule returns_mono[OF serial_receive_returns[OF assms(1,2)]]) (use assms(3) in \<open>auto simp: Let_def\<close>)

theorem receive_keeps_last_only_witness:
  "returns (serial_receive (usart_ops demo_junk demo_bytes) 40 demo_port) (\<lambda>s'. u_rx (se_hw (serial s' 40)) = [] \<and>
     sr_contents (se_int_rx (serial s' 40)) = [99])"
  by (rule returns_mono[OF receive_keeps_last_only])
    (auto simp: demo_serial_def demo_usart_def sr_ok_def sr_contents_def sr_count_def Let_def)

text \<open>C35: \<^verbatim>\<open>rt_kprintf\<close> on a console that is a serial port, for a format and arguments that fit and a text that the buffer of the
  port has room for (so that the 128 bytes of \<^verbatim>\<open>rt_log_buf\<close> do not cut it): the text that \<^verbatim>\<open>vsnprintf\<close> puts into the
  buffer, if it has no zero byte inside, is nine transmit interrupts later what the transmitter has been given behind
  everything printed before.\<close>

theorem kprintf_reaches_transmitter:
  fixes s :: "usart serials sys"
  assumes h: "ops (d_handlers (dev s p)) = serial_ops b0 evt cb (usart_ops junk m0)" and ok: "port_ok p s"
    and room: "n + sr_count (se_int_tx (serial s p)) \<le> 127"
    and lim: "text_limit fmt args = Some n" and buf: "unat buf + 128 \<le> 2 ^ 32"
  shows "returns (vsnprintf buf RT_CONSOLEBUF_SIZE fmt args m) (\<lambda>(r, m'). unat r \<le> n \<and> m' (buf + r) = 0 \<and>
     (let txt = bytes_at m' buf (unat r) in 0 \<notin> set txt \<longrightarrow>
       returns (rt_kprintf ops buf fmt args (Some p) (m, s)) (\<lambda>(q, m1, s1). q = Done () \<and> m1 = m' \<and>
         returns (thre_n junk m0 cb p 9 s1) (\<lambda>s2. u_thr (se_hw (serial s2 p)) = tx_stream u_thr (serial s p) @ txt))))"
  by (rule returns_mono[OF kprintf_returns[where ops = ops, OF assms]])
    (auto simp: Let_def intro: thre_nine_sends elim!: returns_mono)

theorem kprintf_reaches_transmitter_witness:
  "returns (rt_kprintf (\<lambda>_. serial_ops demo_bytes demo_evt demo_cb (usart_ops demo_junk demo_bytes)) 0x10000000 [37, 100] [Arg_int (- 42)] (Some 40) (demo_bytes, demo_port))
     (\<lambda>(r, m', s1). r = Done () \<and> returns (thre_n demo_junk demo_bytes demo_cb 40 9 s1) (\<lambda>s2. u_thr (se_hw (serial s2 40)) = [45, 52, 50]))"
proof -
  have t: "tx_stream u_thr (serial demo_port 40) = []" "20 + sr_count (se_int_tx (serial demo_port 40)) \<le> 127"
    by (simp_all add: tx_stream_def demo_serial_def demo_usart_def sr_contents_def sr_count_def)
  have d: "decimal_text (- 42) = [45, 52, 50]" by code_simp
  have lim: "text_limit [37, 100] [Arg_int (- 42)] = Some 20"
    by (simp add: text_limit_def limit_n.simps parse_spec_def parse_width_def parse_precision_def parse_qualifier_def
        isdigit_def args_after_def field_limit_def Let_def)
  have sz: "12 \<le> unat RT_CONSOLEBUF_SIZE" "unat (0x10000000 :: u32) + unat RT_CONSOLEBUF_SIZE \<le> 2 ^ 32" "unat (0x10000000 :: u32) + 128 \<le> 2 ^ 32" by simp_all
  from vsnprintf_decimal[OF sz(1,2), of "- 42" demo_bytes] obtain r m' where v: "vsnprintf 0x10000000 RT_CONSOLEBUF_SIZE [37, 100] [Arg_int (- 42)] demo_bytes = Some (r, m')"
    "unat r = length (decimal_text (- 42))" "\<forall>i<unat r. m' (0x10000000 + of_nat i) = decimal_text (- 42) ! i" by (auto simp: returns_def)
  have printed: "bytes_at m' 0x10000000 (unat r) = [45, 52, 50]" using v(2,3) by (subst bytes_at_decimal[of _ _ _ "decimal_text (- 42)"]) (simp_all add: d)
  let ?ops = "\<lambda>_. serial_ops demo_bytes demo_evt demo_cb (usart_ops demo_junk demo_bytes)"
  have "?ops (d_handlers (dev demo_port 40)) = serial_ops demo_bytes demo_evt demo_cb (usart_ops demo_junk demo_bytes)" ..
  from kprintf_reaches_transmitter[OF this demo_port_ok t(2) lim sz(3), of demo_bytes]
  show ?thesis by (simp add: v(1) printed t(1)[simplified] Let_def) (auto elim!: returns_mono)
qed

section \<open>Devices\<close>

text \<open>C40: A device that is registered under a new name gets its flags, is found under every name that agrees in the first
  \<^verbatim>\<open>RT_NAME_MAX\<close> characters, and registering another device under such a name is refused and changes no device.\<close>

theorem device_name_unique:
  assumes "may_look_up (sys_kernel s)" "find_name name RT_Object_Class_Device (sys_kernel s) = None"
    "visible name RT_NAME_MAX = visible name' RT_NAME_MAX"
  shows "returns (rt_device_register (Some p) name flags s) (\<lambda>(r, s'). r = RT_EOK \<and> d_flag (dev s' p) = flags \<and>
     returns (rt_device_find name' (sys_kernel s')) (\<lambda>(d, k'). d = Some p) \<and>
     returns (rt_device_register (Some p') name' flags' s') (\<lambda>(r', s''). r' = -RT_ERROR \<and> sys_devs s'' = sys_devs s'))"
  by (rule returns_mono[OF register_returns[OF assms, where flags = flags and p = p and p' = p' and flags' = flags']])
    (auto intro: device_found)

theorem device_name_unique_witness:
  "returns (rt_device_register (Some 60) [117, 97, 114, 116, 49] 3 (demo_sys ())) (\<lambda>(r, s'). r = RT_EOK \<and>
     returns (rt_device_find [117, 97, 114, 116, 49] (sys_kernel s')) (\<lambda>(d, k'). d = Some 60) \<and>
     returns (rt_device_register (Some 61) [117, 97, 114, 116, 49] 1 s') (\<lambda>(r', s''). r' = -RT_ERROR))"
  by (rule returns_mono[OF device_name_unique[OF _ _ refl]])
    (auto simp: demo_may_look_up find_name_def elim: returns_mono)

end
