(* ===== verification/Frames.thy ===== *)
theory Frames
  imports Mutex Event Message_Queue
begin

unbundle bit_operations_syntax

text \<open>
  What the operations leave alone: an operation on one object does not disturb the wait queues and the data of the
  others, nor the threads that are linked in a ready queue.  The facts hold for every result an operation can
  have, and are combined with the theorems that it has one.
\<close>

section \<open>All results of a call\<close>

definition always :: "'a option \<Rightarrow> ('a \<Rightarrow> bool) \<Rightarrow> bool" where
  "always m Q \<longleftrightarrow> (\<forall>x. m = Some x \<longrightarrow> Q x)"

lemma always_simps [simp]:
  "always (Some x) Q \<longleftrightarrow> Q x" "always None Q" "always (rt_assert b) Q' \<longleftrightarrow> (b \<longrightarrow> Q' ())"
  "always (Option.bind m f) R \<longleftrightarrow> always m (\<lambda>x. always (f x) R)"
  by (auto simp: always_def rt_assert_def bind_eq_Some_conv)

lemma always_if: "always (if b then m else n) Q \<longleftrightarrow> (if b then always m Q else always n Q)"
  by simp

lemma always_mono: "always m P \<Longrightarrow> (\<And>x. P x \<Longrightarrow> Q x) \<Longrightarrow> always m Q"
  by (simp add: always_def)

lemma returns_always: "returns m P \<Longrightarrow> always m Q \<Longrightarrow> returns m (\<lambda>x. P x \<and> Q x)"
  by (auto simp: returns_def always_def)

section \<open>Queues and ready threads\<close>

definition linked :: "kernel \<Rightarrow> tid \<Rightarrow> bool" where
  "linked k u \<longleftrightarrow> (\<exists>p. u \<in> set (k_tlists k (Ready p)))"

definition cur_linked :: "kernel \<Rightarrow> bool" where
  "cur_linked k \<longleftrightarrow> (\<exists>c. k_current k = Some c \<and> linked k c)"

text \<open>From \<open>k\<close> to \<open>k'\<close> only threads in \<open>B\<close> may have left the ready queues and only queues in \<open>W\<close> may have got new
  waiters.\<close>

definition moves :: "tid set \<Rightarrow> thead set \<Rightarrow> kernel \<Rightarrow> kernel \<Rightarrow> bool" where
  "moves B W k k' \<longleftrightarrow> k_lock_nest k' = k_lock_nest k \<and> k_interrupt_nest k' = k_interrupt_nest k \<and>
     (\<forall>x. (\<forall>i. x \<noteq> OTimer i) \<longrightarrow> k_objects k' x = k_objects k x) \<and>
     (\<forall>h. wait_queue h \<and> h \<notin> W \<longrightarrow> set (k_tlists k' h) \<subseteq> set (k_tlists k h)) \<and>
     (\<forall>u. u \<notin> B \<and> linked k u \<longrightarrow> linked k' u) \<and>
     (k_lock_nest k = 0 \<and> cur_linked k \<longrightarrow> cur_linked k')"

text \<open>The tables of the objects that have an invariant of their own.\<close>

definition tabs :: "kernel \<Rightarrow> (ptr \<Rightarrow> rt_semaphore) \<times> (ptr \<Rightarrow> rt_mutex) \<times> (ptr \<Rightarrow> rt_mailbox) \<times> (ptr \<Rightarrow> rt_messagequeue)" where
  "tabs k = (k_sems k, k_mutexes k, k_mailboxes k, k_mqs k)"

definition stays :: "tid set \<Rightarrow> thead set \<Rightarrow> kernel \<Rightarrow> kernel \<Rightarrow> bool" where
  "stays B W k k' \<longleftrightarrow> moves B W k k' \<and> tabs k' = tabs k"

lemma moves_refl [simp]: "moves B W k k"
  by (simp add: moves_def)

lemma stays_refl [simp]: "stays B W k k"
  by (simp add: stays_def)

lemma moves_trans: "moves B W k k1 \<Longrightarrow> moves B W k1 k2 \<Longrightarrow> moves B W k k2"
  unfolding moves_def by (metis subset_trans)

lemma stays_trans: "stays B W k k1 \<Longrightarrow> stays B W k1 k2 \<Longrightarrow> stays B W k k2"
  by (auto simp: stays_def intro: moves_trans)

lemma moves_more: "moves {} {} k k' \<Longrightarrow> moves B W k k'"
  by (auto simp: moves_def)

lemma stays_more: "stays {} {} k k' \<Longrightarrow> stays B W k k'"
  by (auto simp: stays_def moves_more)

lemma moves_frame:
  assumes "k_lock_nest k' = k_lock_nest k" "k_interrupt_nest k' = k_interrupt_nest k" "k_tlists k' = k_tlists k"
    "k_current k' = k_current k" "\<And>x. (\<forall>i. x \<noteq> OTimer i) \<Longrightarrow> k_objects k' x = k_objects k x"
  shows "moves B W k k'"
  using assms by (simp add: moves_def linked_def cur_linked_def)

lemma stays_frame:
  assumes "k_lock_nest k' = k_lock_nest k" "k_interrupt_nest k' = k_interrupt_nest k" "k_tlists k' = k_tlists k"
    "k_current k' = k_current k" "\<And>x. (\<forall>i. x \<noteq> OTimer i) \<Longrightarrow> k_objects k' x = k_objects k x" "tabs k' = tabs k"
  shows "stays B W k k'"
  using assms by (simp add: stays_def moves_frame)

section \<open>The scheduler and the timers\<close>

lemma stays_upd_thread [simp]: "stays B W k (upd_thread t f k)"
  by (rule stays_frame) (simp_all add: tabs_def)

lemma stays_schedule: "always (rt_schedule k) (\<lambda>k'. stays B W k k' \<and> (k_lock_nest k = 0 \<longrightarrow> cur_linked k'))"
proof -
  let ?Q = "\<lambda>k'. stays B W k k' \<and> (k_lock_nest k = 0 \<longrightarrow> cur_linked k')"
  define q where "q = (of_nat (highest_ready_priority (k_ready_group k)) :: u8)"
  have go: "?Q (k\<lparr>k_current_priority := q, k_current := Some t\<rparr>)" if "first_ready k q = Some t" for t
    using that by (auto simp: stays_def moves_def tabs_def linked_def cur_linked_def first_ready_def split: list.splits
        intro: exI[of _ q])
  have stay: "?Q k" if "first_ready k q = Some t" "k_current k = Some t" for t
    using that by (auto simp: linked_def cur_linked_def first_ready_def split: list.splits intro: exI[of _ q])
  show ?thesis
  proof (cases "first_ready k q")
    case None
    then show ?thesis by (simp add: rt_schedule_def flip: q_def)
  next
    case (Some t)
    show ?thesis
      using go[OF Some] stay[OF Some]
      by (auto simp: rt_schedule_def Some always_def bind_eq_Some_conv rt_assert_def simp flip: q_def split: if_splits)
  qed
qed

lemma linked_relink:
  "k_tlists k' = st_append (Ready p) t (st_remove t (k_tlists k)) \<Longrightarrow> linked k' u \<longleftrightarrow> u = t \<or> linked k u"
  by (cases "u = t") (auto simp: linked_def st_append_def)

text \<open>A thread is taken off its list and put on a ready queue.\<close>

lemma stays_relink:
  assumes l: "k_tlists k' = st_append (Ready p) t (st_remove t (k_tlists k))" and c: "k_current k' = k_current k"
    and f: "k_lock_nest k' = k_lock_nest k" "k_interrupt_nest k' = k_interrupt_nest k"
      "\<And>x. (\<forall>i. x \<noteq> OTimer i) \<Longrightarrow> k_objects k' x = k_objects k x" "tabs k' = tabs k"
  shows "stays B W k k'"
proof -
  have "set (k_tlists k' h) \<subseteq> set (k_tlists k h)" if "wait_queue h" for h using that by (auto simp: l st_append_def)
  then show ?thesis using f c by (auto simp: stays_def moves_def cur_linked_def linked_relink[OF l])
qed

lemma stays_resume [simp]: "stays B W k (snd (rt_thread_resume t k))"
proof (cases "stat k t = RT_THREAD_SUSPEND")
  case True
  show ?thesis
    by (rule stays_relink[of _ "prio k t" t]) (simp_all add: True rt_thread_resume_def rt_schedule_insert_thread_def Let_def tabs_def
        clear_flag_def upd_object_def fun_eq_iff st_append_def)
qed (simp add: rt_thread_resume_def)

lemma stays_change_priority: "always (rt_thread_control t RT_THREAD_CTRL_CHANGE_PRIORITY p k) (stays B W k)"
proof -
  have "stays B W k (rt_schedule_insert_thread t (set_priority t p (rt_schedule_remove_thread t k)))"
    by (rule stays_relink[of _ p t]) (simp_all add: rt_schedule_insert_thread_def rt_schedule_remove_thread_def set_priority_def
        Let_def tabs_def fun_eq_iff st_append_def)
  then show ?thesis by (simp add: rt_thread_control_def set_priority_def)
qed

lemma stays_arm_timer: "always (arm_timer t time k) (stays B W k)"
  by (auto simp: arm_timer_def rt_timer_control_def rt_timer_start_def Let_def always_def bind_eq_Some_conv rt_assert_def
      set_flag_def upd_object_def upd_timer_def tabs_def intro!: stays_frame split: if_splits)

section \<open>Blocking\<close>

text \<open>Between the suspension of the caller and the scheduling the current thread is in no ready queue.\<close>

definition drops :: "tid set \<Rightarrow> thead set \<Rightarrow> kernel \<Rightarrow> kernel \<Rightarrow> bool" where
  "drops B W k k' \<longleftrightarrow> k_lock_nest k' = k_lock_nest k \<and> k_interrupt_nest k' = k_interrupt_nest k \<and>
     (\<forall>x. (\<forall>i. x \<noteq> OTimer i) \<longrightarrow> k_objects k' x = k_objects k x) \<and>
     (\<forall>h. wait_queue h \<and> h \<notin> W \<longrightarrow> set (k_tlists k' h) \<subseteq> set (k_tlists k h)) \<and>
     (\<forall>u. u \<notin> B \<and> linked k u \<longrightarrow> linked k' u) \<and> tabs k' = tabs k"

lemma stays_drops: "stays B W k k' \<Longrightarrow> drops B W k k'"
  by (simp add: stays_def moves_def drops_def)

lemma drops_trans: "drops B W k k1 \<Longrightarrow> drops B W k1 k2 \<Longrightarrow> drops B W k k2"
  unfolding drops_def by (metis subset_trans)

lemma drops_stays: "drops B W k k' \<Longrightarrow> (k_lock_nest k' = 0 \<Longrightarrow> cur_linked k') \<Longrightarrow> stays B W k k'"
  by (simp add: stays_def moves_def drops_def)

lemma drops_suspend: "drops {t} W k (snd (rt_thread_suspend t k))"
  by (auto simp: rt_thread_suspend_def rt_schedule_remove_thread_def Let_def drops_def tabs_def linked_def)

lemma drops_enqueue: "wait_queue h \<Longrightarrow> drops {t} {h} k (upd_tlists (\<lambda>L. L(h := xs L)) k)"
  by (auto simp: drops_def tabs_def linked_def)

lemma drops_list_suspend:
  assumes "wait_queue h"
  shows "drops {t} {h} k (rt_ipc_list_suspend h t flag k)"
  unfolding rt_ipc_list_suspend_def Let_def st_append_def st_insert_by_def
  by (auto intro: drops_trans[OF drops_suspend] drops_suspend drops_enqueue[OF assms])

lemma stays_block_rest:
  assumes "drops B W k k1"
  shows "always (block_rest t time k1) (\<lambda>k'. stays B W k k')"
proof -
  have s: "always (rt_schedule k2) (\<lambda>k'. stays B W k k')" if "drops B W k k2" for k2
  proof (rule always_mono[OF stays_schedule])
    fix k' assume "stays B W k2 k' \<and> (k_lock_nest k2 = 0 \<longrightarrow> cur_linked k')"
    then show "stays B W k k'"
      using drops_trans[OF that stays_drops] by (intro drops_stays) (auto simp: stays_def moves_def)
  qed
  have "always (arm_timer t time k1) (\<lambda>k2. always (rt_schedule k2) (\<lambda>k'. stays B W k k'))"
    by (rule always_mono[OF stays_arm_timer]) (use drops_trans[OF assms stays_drops] s in blast)
  then show ?thesis using s[OF assms] by (simp add: block_rest_def)
qed

lemma stays_ipc_block:
  "wait_queue h \<Longrightarrow> always (ipc_block h t flag time k) (stays {t} {h} k)"
  unfolding ipc_block_def by (rule stays_block_rest[OF drops_list_suspend])

lemma stays_sleep:
  "k_current k = Some t \<Longrightarrow> always (rt_thread_sleep tick k) (\<lambda>(r, k'). stays {t} {} k k')"
proof -
  assume c: "k_current k = Some t"
  have a: "always (block_rest t tick' k1) (\<lambda>k'. stays {t} {} k k')" if "drops {t} {} k k1" for k1 tick'
    by (rule stays_block_rest[OF that])
  have "always (Option.bind (arm_timer t tick (snd (rt_thread_suspend t k))) rt_schedule) (\<lambda>k'. stays {t} {} k k')"
  proof -
    have "always (arm_timer t tick (snd (rt_thread_suspend t k))) (\<lambda>k2. always (rt_schedule k2) (\<lambda>k'. stays {t} {} k k'))"
    proof (rule always_mono[OF stays_arm_timer[of t tick "snd (rt_thread_suspend t k)" "{t}" "{}"]])
      fix k2 assume k2: "stays {t} {} (snd (rt_thread_suspend t k)) k2"
      have d: "drops {t} {} k k2" by (rule drops_trans[OF drops_suspend stays_drops[OF k2]])
      show "always (rt_schedule k2) (\<lambda>k'. stays {t} {} k k')"
        using a[OF d, of 0] by (simp add: block_rest_def)
    qed
    then show ?thesis by simp
  qed
  then show ?thesis
    by (auto simp: rt_thread_sleep_def c arm_timer_def rt_thread_sleep_resumed_def Let_def case_prod_unfold always_if
        elim!: always_mono intro: stays_trans[OF _ stays_upd_thread])
qed

lemma stays_yield: "always (rt_thread_yield k) (stays {} {} k)"
proof -
  have "stays {} {} k (upd_tlists (\<lambda>L. st_append (Ready p) t (st_remove t L)) k)" for p t
    by (rule stays_relink[of _ p t]) (simp_all add: tabs_def)
  then show ?thesis
    by (auto simp: rt_thread_yield_def always_def bind_eq_Some_conv split: if_splits
        dest!: stays_schedule[unfolded always_def, rule_format, of _ _ "{}" "{}"] intro: stays_trans)
qed

section \<open>Semaphores, mutexes and events\<close>

lemma stays_wake: "always (Option.bind (rt_ipc_list_resume h k) rt_schedule) (stays B W k)"
proof (cases "k_tlists k h")
  case (Cons t ts)
  have "always (rt_schedule (snd (rt_thread_resume t k))) (stays B W k)"
    by (rule always_mono[OF stays_schedule]) (blast intro: stays_trans[OF stays_resume])
  then show ?thesis by (simp add: rt_ipc_list_resume_def Cons)
qed (simp add: rt_ipc_list_resume_def)

lemma sem_take_moves:
  assumes "k_current k = Some t"
  shows "always (rt_sem_take s time k) (\<lambda>(r, k'). if s_value (k_sems k s) \<noteq> 0
     then k' = upd_sem s (\<lambda>sem. sem\<lparr>s_value := s_value sem - 1\<rparr>) k else stays {t} {Sem_Q s} k k')"
proof -
  let ?k = "upd_thread t (\<lambda>th. th\<lparr>t_error := RT_EOK\<rparr>) k"
  have "always (ipc_block (Sem_Q s) t flag time ?k) (stays {t} {Sem_Q s} k)" for flag
    by (rule always_mono[OF stays_ipc_block]) (auto intro: stays_trans[OF stays_upd_thread])
  then show ?thesis
    using assms by (auto simp: rt_sem_take_def rt_thread_self_def Let_def always_if word_neq_0_conv elim!: always_mono)
qed

lemma sem_release_moves:
  "always (rt_sem_release s k) (\<lambda>k'. if k_tlists k (Sem_Q s) = []
     then k' = upd_sem s (\<lambda>sem. sem\<lparr>s_value := s_value sem + 1\<rparr>) k else stays {} {} k k')"
  using stays_wake[of "Sem_Q s" k] by (simp add: rt_sem_release_def)

text \<open>Only mutex \<open>m\<close> may have changed.\<close>

definition only_mutex :: "ptr \<Rightarrow> kernel \<Rightarrow> kernel \<Rightarrow> bool" where
  "only_mutex m k k' \<longleftrightarrow> k_sems k' = k_sems k \<and> k_mailboxes k' = k_mailboxes k \<and> k_mqs k' = k_mqs k \<and>
     (\<forall>m'. m' \<noteq> m \<longrightarrow> k_mutexes k' m' = k_mutexes k m')"

lemma only_mutex_stays: "stays B W k k' \<Longrightarrow> only_mutex m k k'"
  by (simp add: stays_def tabs_def only_mutex_def)

lemma only_mutex_trans: "only_mutex m k k1 \<Longrightarrow> only_mutex m k1 k2 \<Longrightarrow> only_mutex m k k2"
  by (simp add: only_mutex_def)

definition mutex_moves :: "tid set \<Rightarrow> thead set \<Rightarrow> ptr \<Rightarrow> kernel \<Rightarrow> kernel \<Rightarrow> bool" where
  "mutex_moves B W m k k' \<longleftrightarrow> moves B W k k' \<and> only_mutex m k k'"

lemma mutex_moves_trans: "mutex_moves B W m k k1 \<Longrightarrow> mutex_moves B W m k1 k2 \<Longrightarrow> mutex_moves B W m k k2"
  by (auto simp: mutex_moves_def intro: moves_trans only_mutex_trans)

lemma mutex_moves_stays: "stays B W k k' \<Longrightarrow> mutex_moves B W m k k'"
  by (auto simp: mutex_moves_def only_mutex_stays stays_def)

lemma mutex_moves_upd [simp]: "mutex_moves B W m k (upd_mutex m f k)"
  by (auto simp: mutex_moves_def only_mutex_def upd_mutex_def intro!: moves_frame)

lemma mutex_take_moves:
  assumes "k_current k = Some t"
  shows "always (rt_mutex_take m time k) (\<lambda>(r, k'). mutex_moves {t} {Mutex_Q m} m k k')"
proof -
  let ?k = "upd_thread t (\<lambda>th. th\<lparr>t_error := RT_EOK\<rparr>) k"
  have k1: "stays {t} {Mutex_Q m} k ?k" by simp
  have b: "always (ipc_block (Mutex_Q m) t flag time k2) (stays {t} {Mutex_Q m} k)" if "stays {t} {Mutex_Q m} k k2" for flag k2
    by (rule always_mono[OF stays_ipc_block]) (auto intro: stays_trans[OF that])
  have c: "always (rt_thread_control owner RT_THREAD_CTRL_CHANGE_PRIORITY p ?k) (\<lambda>k2. stays {t} {Mutex_Q m} k k2)" for owner p
    by (rule always_mono[OF stays_change_priority]) (rule stays_trans[OF k1])
  have d: "mutex_moves {t} {Mutex_Q m} m k (upd_mutex m f ?k)" for f
    by (rule mutex_moves_trans[OF mutex_moves_stays[OF k1] mutex_moves_upd])
  have e: "stays {t} {Mutex_Q m} k (upd_thread t f ?k)" for f by (rule stays_trans[OF k1 stays_upd_thread])
  have f: "always (if b then rt_thread_control owner RT_THREAD_CTRL_CHANGE_PRIORITY p ?k else Some ?k)
     (\<lambda>k2. always (ipc_block (Mutex_Q m) t (o_flag (k_objects k2 (OMutex m))) time k2) (mutex_moves {t} {Mutex_Q m} m k))" for b owner p
    using always_mono[OF b[OF k1] mutex_moves_stays] always_mono[OF c always_mono[OF b mutex_moves_stays]] by simp
  show ?thesis
    using d mutex_moves_stays[OF e] f
    by (cases "m_owner (k_mutexes k m)")
      (simp_all add: rt_mutex_take_def rt_thread_self_def assms Let_def always_if if_distrib[of "\<lambda>x. always x _"] cong: if_cong)
qed

lemma mutex_release_moves:
  "always (rt_mutex_release m k) (\<lambda>(r, k'). mutex_moves {} {} m k k')"
proof -
  let ?S = "\<lambda>k k'. mutex_moves {} {} m k k'"
  let ?k = "upd_mutex m (\<lambda>mx. mx\<lparr>m_hold := m_hold mx - 1\<rparr>) k"
  have k1: "?S k ?k" by simp
  have c: "always (rt_thread_control t RT_THREAD_CTRL_CHANGE_PRIORITY p ?k) (?S k)" for t p
    by (rule always_mono[OF stays_change_priority]) (blast intro: mutex_moves_trans[OF k1] mutex_moves_stays)
  have w: "always (Option.bind (rt_ipc_list_resume (Mutex_Q m) (upd_mutex m f k2)) rt_schedule) (?S k)" if "?S k k2" for f k2
    by (rule always_mono[OF stays_wake]) (blast intro: mutex_moves_trans[OF that] mutex_moves_trans[OF mutex_moves_upd] mutex_moves_stays)
  have u: "?S k (upd_mutex m f k2)" if "?S k k2" for f k2 by (rule mutex_moves_trans[OF that mutex_moves_upd])
  have e: "?S k (upd_thread t f k)" for t f by (simp add: mutex_moves_stays)
  have last: "always (case k_tlists k2 (Mutex_Q m) of
                 x # _ \<Rightarrow> do {
                   let k3 = upd_mutex m (\<lambda>mx. mx\<lparr>m_owner := Some x, m_original_priority := prio k2 x,
                              m_hold := m_hold mx + 1\<rparr>) k2;
                   k4 \<leftarrow> rt_ipc_list_resume (Mutex_Q m) k3;
                   k5 \<leftarrow> rt_schedule k4;
                   Some (RT_EOK, k5) }
               | [] \<Rightarrow> Some (RT_EOK, upd_mutex m (\<lambda>mx. mx\<lparr>m_value := m_value mx + 1, m_owner := None,
                              m_original_priority := 0xff\<rparr>) k2)) (\<lambda>(r, k'). ?S k k')" if "?S k k2" for k2
    using w[OF that] u[OF that] by (auto simp: Let_def split: list.split)
  show ?thesis
  proof (cases "k_current k")
    case (Some t)
    show ?thesis
      unfolding rt_mutex_release_def rt_thread_self_def Some Let_def[of ?k]
      using always_mono[OF c[of t "m_original_priority (k_mutexes ?k m)"] last] last[OF k1] e[of t] k1
      by (simp add: always_if)
  qed (simp add: rt_mutex_release_def rt_thread_self_def)
qed

lemma stays_deliver: "stays {} {} k (snd (event_deliver e t k))"
proof -
  have ev: "stays {} {} k (upd_event e f k)" for f k by (rule stays_frame) (simp_all add: upd_event_def tabs_def)
  have r: "stays {} {} k (snd (rt_thread_resume t k1))" "stays {} {} k (snd (rt_thread_resume t (upd_event e f k1)))"
    if "stays {} {} k k1" for k1 f
    by (rule stays_trans[OF that stays_resume], rule stays_trans[OF that stays_trans[OF ev stays_resume]])
  have u: "stays {} {} k (upd_thread t f k)" for f by simp
  show ?thesis
    using r[OF stays_refl] r[OF u] u by (simp add: event_deliver_def Let_def)
qed

lemma stays_scan: "stays {} {} k (snd (event_scan e ts (need, k)))"
proof (induction ts arbitrary: need k)
  case (Cons t ts)
  obtain r k1 where d: "event_deliver e t k = (r, k1)" by fastforce
  then show ?case using stays_trans[OF stays_deliver[of k e t] , of "snd (event_scan e ts (need \<or> r, k1))"] Cons.IH[of k1 "need \<or> r"] by simp
qed simp

lemma event_send_moves: "always (rt_event_send e evset k) (\<lambda>(r, k'). stays {} {} k k')"
proof -
  let ?k = "upd_event e (\<lambda>ev. ev\<lparr>e_set := e_set ev OR evset\<rparr>) k"
  obtain need k2 where sc: "event_scan e (k_tlists ?k (Event_Q e)) (False, ?k) = (need, k2)" by fastforce
  have "stays {} {} k ?k" by (rule stays_frame) (simp_all add: upd_event_def tabs_def)
  from stays_trans[OF this, of k2] have k2: "stays {} {} k k2" using stays_scan[of ?k e "k_tlists ?k (Event_Q e)" False] sc by simp
  have "always (rt_schedule k2) (stays {} {} k)"
    by (rule always_mono[OF stays_schedule]) (blast intro: stays_trans[OF k2])
  then show ?thesis using k2 sc by (simp add: rt_event_send_def Let_def always_if)
qed

lemma event_recv_moves:
  assumes "k_current k = Some t"
  shows "always (rt_event_recv e evset option timeout k) (\<lambda>(r, k'). stays {t} {Event_Q e} k k')"
proof -
  let ?S = "stays {t} {Event_Q e} k" and ?k = "upd_thread t (\<lambda>th. th\<lparr>t_error := RT_EOK\<rparr>) k"
  have k1: "?S ?k" by simp
  have ev: "?S (upd_event e f ?k)" for f by (rule stays_trans[OF k1]) (rule stays_frame, simp_all add: upd_event_def tabs_def)
  have u: "?S (upd_thread t f ?k)" for f by (rule stays_trans[OF k1 stays_upd_thread])
  have "always (ipc_block (Event_Q e) t flag timeout (upd_thread t f ?k)) ?S" for flag f
    by (rule always_mono[OF stays_ipc_block]) (auto intro: stays_trans[OF u])
  then show ?thesis
    using k1 ev u assms
    by (auto simp: rt_event_recv_def rt_thread_self_def Let_def always_def bind_eq_Some_conv rt_assert_def split: if_splits)
qed

section \<open>Mailboxes and message queues\<close>

lemma next_linked: "kinv b B k \<Longrightarrow> next_to_run k c \<Longrightarrow> linked k c"
  using sinv_thread[of UNIV k c] kinvD(1)[of b B k] by (auto simp: linked_def next_to_run_def thread_ok_def)

lemma waiting_stays:
  assumes w: "waiting h t flag time k k'" and h: "wait_queue h" and inv: "kinv b B k'"
  shows "stays {t} {h} k k'"
proof -
  have l: "k_tlists k' = (st_remove t (k_tlists k))(h := enqueue flag (t_current_priority \<circ> k_threads k) t (k_tlists k h))"
    and o: "same_objs k' k" and c: "\<exists>c. k_current k' = Some c \<and> next_to_run k' c" using w by (auto simp: waiting_defs)
  have "cur_linked k'" using c next_linked[OF inv] by (auto simp: cur_linked_def)
  moreover have "linked k' u" if "linked k u" "u \<noteq> t" for u using that h by (auto simp: linked_def l)
  moreover have "set (k_tlists k' h') \<subseteq> set (k_tlists k h')" if "h' \<noteq> h" for h' using that by (auto simp: l)
  ultimately show ?thesis using o by (auto simp: stays_def moves_def tabs_def same_objs_def)
qed

definition only_mb :: "ptr \<Rightarrow> kernel \<Rightarrow> kernel \<Rightarrow> bool" where
  "only_mb m k k' \<longleftrightarrow> k_sems k' = k_sems k \<and> k_mutexes k' = k_mutexes k \<and> k_mqs k' = k_mqs k \<and>
     (\<forall>m'. m' \<noteq> m \<longrightarrow> k_mailboxes k' m' = k_mailboxes k m')"

definition only_mq :: "ptr \<Rightarrow> kernel \<Rightarrow> kernel \<Rightarrow> bool" where
  "only_mq m k k' \<longleftrightarrow> k_sems k' = k_sems k \<and> k_mutexes k' = k_mutexes k \<and> k_mailboxes k' = k_mailboxes k \<and>
     (\<forall>m'. m' \<noteq> m \<longrightarrow> k_mqs k' m' = k_mqs k m')"

lemma only_refl [simp]: "only_mb m k k" "only_mq m k k"
  by (simp_all add: only_mb_def only_mq_def)

lemma stays_only: "stays B W k k' \<Longrightarrow> moves B W k k' \<and> only_mb m k k' \<and> only_mq m k k'"
  by (simp add: stays_def tabs_def only_mb_def only_mq_def)

lemma wake_after_mb:
  "always (if b then Option.bind (rt_ipc_list_resume h (upd_mb m f k)) (\<lambda>k2. Option.bind (rt_schedule k2) (\<lambda>k3. Some (r, k3)))
     else Some (r, upd_mb m f k)) (\<lambda>(r, k'). moves {} {} k k' \<and> only_mb m k k')"
proof -
  have u: "moves {} {} k (upd_mb m f k)" "only_mb m k (upd_mb m f k)"
    by (auto simp: only_mb_def upd_mb_def intro!: moves_frame)
  have "always (Option.bind (rt_ipc_list_resume h (upd_mb m f k)) rt_schedule) (\<lambda>k'. moves {} {} k k' \<and> only_mb m k k')"
    by (rule always_mono[OF stays_wake[where B = "{}" and W = "{}"]])
      (use u in \<open>auto simp: stays_def tabs_def only_mb_def intro: moves_trans\<close>)
  then show ?thesis using u by (simp add: always_if)
qed

lemma wake_after_mq:
  "always (if b then Option.bind (rt_ipc_list_resume h (upd_mq m f k)) (\<lambda>k2. Option.bind (rt_schedule k2) (\<lambda>k3. Some (r, k3)))
     else Some (r, upd_mq m f k)) (\<lambda>(r, k'). moves {} {} k k' \<and> only_mq m k k')"
proof -
  have u: "moves {} {} k (upd_mq m f k)" "only_mq m k (upd_mq m f k)"
    by (auto simp: only_mq_def upd_mq_def intro!: moves_frame)
  have "always (Option.bind (rt_ipc_list_resume h (upd_mq m f k)) rt_schedule) (\<lambda>k'. moves {} {} k k' \<and> only_mq m k k')"
    by (rule always_mono[OF stays_wake[where B = "{}" and W = "{}"]])
      (use u in \<open>auto simp: stays_def tabs_def only_mq_def intro: moves_trans\<close>)
  then show ?thesis using u by (simp add: always_if)
qed

lemma deposit_moves: "always (mb_deposit m v k) (\<lambda>(r, k'). moves {} {} k k' \<and> only_mb m k k')"
  unfolding mb_deposit_def Let_def by (rule wake_after_mb)

lemma fetch_moves: "always (mb_fetch m k) (\<lambda>(r, k'). moves {} {} k k' \<and> only_mb m k k')"
  unfolding mb_fetch_def Let_def by (rule wake_after_mb)

lemma mq_send_moves: "always (rt_mq_send m buffer sz k) (\<lambda>(r, k'). moves {} {} k k' \<and> only_mq m k k')"
proof (cases "mq_alloc (k_mqs k m)")
  case None
  then show ?thesis by (simp add: rt_mq_send_def)
next
  case (Some x)
  obtain b mq1 where x: "x = (b, mq1)" by (cases x)
  show ?thesis
    using wake_after_mq[of "k_tlists k (Mq_Q m) \<noteq> []" "Mq_Q m" m "\<lambda>_. mq_link_tail b (mq_copy b buffer (unat sz) (mq_set_next b None mq1))" k RT_EOK]
    by (simp add: rt_mq_send_def Let_def Some x)
qed

lemma mq_urgent_moves: "always (rt_mq_urgent m buffer sz k) (\<lambda>(r, k'). moves {} {} k k' \<and> only_mq m k k')"
proof (cases "mq_alloc (k_mqs k m)")
  case None
  then show ?thesis by (simp add: rt_mq_urgent_def)
next
  case (Some x)
  obtain b mq1 where x: "x = (b, mq1)" by (cases x)
  show ?thesis
    using wake_after_mq[of "k_tlists k (Mq_Q m) \<noteq> []" "Mq_Q m" m "\<lambda>_. mq_link_head b (mq_copy b buffer (unat sz) mq1)" k RT_EOK]
    by (simp add: rt_mq_urgent_def Let_def Some x)
qed

lemma mq_fetch_moves: "always (mq_fetch m sz k) (\<lambda>(r, k'). moves {} {} k k' \<and> only_mq m k k')"
  by (auto simp: mq_fetch_def always_def bind_eq_Some_conv upd_mq_def only_mq_def intro!: moves_frame)

end
