(* ===== verification/System.thy ===== *)
theory System
  imports Frames Ipc_Props
begin

unbundle bit_operations_syntax

text \<open>
  The whole system: threads that make IPC calls one after another, block, are woken and go on, and a clock that
  ticks.  A state is a kernel and, for every thread that is inside a blocking call, the call and the tick at
  which it began to wait.  The step relation runs the operations of the kernel; \<open>sys_inv\<close> is an invariant of it
  under which every call returns.
\<close>

section \<open>The state\<close>

text \<open>The IPC objects of the application, and the idle thread.\<close>

record objs =
  ob_sems :: "ptr set"
  ob_mutexes :: "ptr set"
  ob_events :: "ptr set"
  ob_mailboxes :: "ptr set"
  ob_mqs :: "ptr set"
  ob_idle :: tid

definition sem_ok :: "kernel \<Rightarrow> ptr \<Rightarrow> bool" where
  "sem_ok k s \<longleftrightarrow> (s_value (k_sems k s) \<noteq> 0 \<longrightarrow> k_tlists k (Sem_Q s) = [])"

definition flags_ok :: "objs \<Rightarrow> kernel \<Rightarrow> bool" where
  "flags_ok A k \<longleftrightarrow>
     (\<forall>s\<in>ob_sems A. flag_ok (o_flag (k_objects k (OSem s)))) \<and> (\<forall>m\<in>ob_mutexes A. flag_ok (o_flag (k_objects k (OMutex m)))) \<and>
     (\<forall>e\<in>ob_events A. flag_ok (o_flag (k_objects k (OEvent e)))) \<and> (\<forall>m\<in>ob_mailboxes A. flag_ok (o_flag (k_objects k (OMailBox m)))) \<and>
     (\<forall>m\<in>ob_mqs A. flag_ok (o_flag (k_objects k (OMessageQueue m))))"

definition objs_ok :: "objs \<Rightarrow> kernel \<Rightarrow> bool" where
  "objs_ok A k \<longleftrightarrow> k_lock_nest k = 0 \<and> cur_linked k \<and> linked k (ob_idle A) \<and> flags_ok A k \<and>
     (\<forall>s\<in>ob_sems A. sem_ok k s) \<and> (\<forall>m\<in>ob_mutexes A. mutex_ok k m) \<and>
     (\<forall>m\<in>ob_mailboxes A. mb_ok (k_mailboxes k m)) \<and> (\<forall>m\<in>ob_mqs A. mq_ok (k_mqs k m))"

definition sys_inv :: "objs \<Rightarrow> kernel \<Rightarrow> bool" where
  "sys_inv A k \<longleftrightarrow> kernel_inv k \<and> objs_ok A k \<and> k_interrupt_nest k = 0"

section \<open>Calls\<close>

datatype call =
    Sem_take ptr u32 | Sem_release ptr
  | Mutex_take ptr u32 | Mutex_release ptr
  | Event_send ptr u32 | Event_recv ptr u32 u8 u32
  | Mb_send ptr u32 u32 | Mb_recv ptr u32
  | Mq_send ptr "u8 list" u32 | Mq_urgent ptr "u8 list" u32 | Mq_recv ptr u32 u32
  | Yield | Delay u32

text \<open>Whether the caller has to wait, and the state.\<close>

definition waits :: "'a outcome \<times> kernel \<Rightarrow> bool \<times> kernel" where
  "waits x = (fst x = Blocked, snd x)"

fun exec :: "call \<Rightarrow> kernel \<Rightarrow> (bool \<times> kernel) option" where
  "exec (Sem_take s time) k = map_option waits (rt_sem_take s time k)"
| "exec (Sem_release s) k = map_option (Pair False) (rt_sem_release s k)"
| "exec (Mutex_take m time) k = map_option waits (rt_mutex_take m time k)"
| "exec (Mutex_release m) k = map_option (\<lambda>(r, k'). (False, k')) (rt_mutex_release m k)"
| "exec (Event_send e evset) k = map_option (\<lambda>(r, k'). (False, k')) (rt_event_send e evset k)"
| "exec (Event_recv e evset option timeout) k = map_option waits (rt_event_recv e evset option timeout k)"
| "exec (Mb_send m v timeout) k = map_option waits (rt_mb_send_wait m v timeout k)"
| "exec (Mb_recv m timeout) k = map_option waits (rt_mb_recv m timeout k)"
| "exec (Mq_send m buffer sz) k = map_option (\<lambda>(r, k'). (False, k')) (rt_mq_send m buffer sz k)"
| "exec (Mq_urgent m buffer sz) k = map_option (\<lambda>(r, k'). (False, k')) (rt_mq_urgent m buffer sz k)"
| "exec (Mq_recv m sz timeout) k = map_option waits (rt_mq_recv m sz timeout k)"
| "exec Yield k = map_option (Pair False) (rt_thread_yield k)"
| "exec (Delay tick) k = map_option waits (rt_thread_delay tick k)"

text \<open>What the caller owes: arguments that fit the objects, and a time-out below half the range of the tick.\<close>

fun call_ok :: "objs \<Rightarrow> call \<Rightarrow> bool" where
  "call_ok A (Sem_take s time) \<longleftrightarrow> s \<in> ob_sems A \<and> time_ok time"
| "call_ok A (Sem_release s) \<longleftrightarrow> s \<in> ob_sems A"
| "call_ok A (Mutex_take m time) \<longleftrightarrow> m \<in> ob_mutexes A \<and> time_ok time"
| "call_ok A (Mutex_release m) \<longleftrightarrow> m \<in> ob_mutexes A"
| "call_ok A (Event_send e evset) \<longleftrightarrow> e \<in> ob_events A"
| "call_ok A (Event_recv e evset option timeout) \<longleftrightarrow> e \<in> ob_events A \<and> time_ok timeout"
| "call_ok A (Mb_send m v timeout) \<longleftrightarrow> m \<in> ob_mailboxes A \<and> time_ok timeout"
| "call_ok A (Mb_recv m timeout) \<longleftrightarrow> m \<in> ob_mailboxes A \<and> time_ok timeout"
| "call_ok A (Mq_send m buffer sz) \<longleftrightarrow> m \<in> ob_mqs A \<and> sz \<noteq> 0 \<and> unat sz \<le> length buffer"
| "call_ok A (Mq_urgent m buffer sz) \<longleftrightarrow> m \<in> ob_mqs A \<and> sz \<noteq> 0 \<and> unat sz \<le> length buffer"
| "call_ok A (Mq_recv m sz timeout) \<longleftrightarrow> m \<in> ob_mqs A \<and> sz \<noteq> 0 \<and> time_ok timeout"
| "call_ok A Yield \<longleftrightarrow> True"
| "call_ok A (Delay tick) \<longleftrightarrow> tick < RT_TICK_HALF"

text \<open>The calls that only threads other than the idle thread make, and the limit of the nesting of a mutex.\<close>

fun may_wait :: "call \<Rightarrow> bool" where
  "may_wait (Sem_release s) \<longleftrightarrow> False"
| "may_wait (Mutex_release m) \<longleftrightarrow> False"
| "may_wait (Event_send e evset) \<longleftrightarrow> False"
| "may_wait (Mq_send m buffer sz) \<longleftrightarrow> False"
| "may_wait (Mq_urgent m buffer sz) \<longleftrightarrow> False"
| "may_wait Yield \<longleftrightarrow> False"
| "may_wait c \<longleftrightarrow> True"

fun nest_ok :: "call \<Rightarrow> kernel \<Rightarrow> bool" where
  "nest_ok (Mutex_take m time) k \<longleftrightarrow> m_owner (k_mutexes k m) = k_current k \<longrightarrow> m_hold (k_mutexes k m) \<noteq> 255"
| "nest_ok c k \<longleftrightarrow> True"

definition allowed :: "objs \<Rightarrow> call \<Rightarrow> kernel \<Rightarrow> bool" where
  "allowed A c k \<longleftrightarrow> call_ok A c \<and> nest_ok c k \<and> (may_wait c \<longrightarrow> k_current k \<noteq> Some (ob_idle A))"

section \<open>The invariant is kept\<close>

lemma linked_ready: "sched_inv k \<Longrightarrow> linked k u \<Longrightarrow> stat k u = RT_THREAD_READY"
  using sinv_thread[of UNIV k u] by (auto simp: linked_def thread_ok_def)

lemma objs_runnable:
  assumes "sched_inv k" "objs_ok A k"
  shows "runnable k"
  using assms linked_ready[of k "ob_idle A"] by (auto simp: runnable_def objs_ok_def cur_linked_def)

lemma objs_may_block:
  assumes "sched_inv k" "objs_ok A k" "k_current k = Some t" "t \<noteq> ob_idle A"
  shows "may_block t k"
  using assms linked_ready[of k t] linked_ready[of k "ob_idle A"]
  by (auto simp: may_block_def objs_ok_def cur_linked_def intro: exI[of _ "ob_idle A"])

lemma flags_moves: "moves B W k k' \<Longrightarrow> flags_ok A k \<Longrightarrow> flags_ok A k'"
  by (simp add: flags_ok_def moves_def)

lemma sem_ok_cong:
  "sem_ok k s \<Longrightarrow> k_sems k' s = k_sems k s \<Longrightarrow> set (k_tlists k' (Sem_Q s)) \<subseteq> set (k_tlists k (Sem_Q s)) \<Longrightarrow> sem_ok k' s"
  by (auto simp: sem_ok_def)

lemma mutex_ok_cong:
  "mutex_ok k m \<Longrightarrow> k_mutexes k' m = k_mutexes k m \<Longrightarrow> set (k_tlists k' (Mutex_Q m)) \<subseteq> set (k_tlists k (Mutex_Q m)) \<Longrightarrow> mutex_ok k' m"
  by (auto simp: mutex_ok_def Let_def split: option.splits)

lemma objs_moves:
  assumes ok: "objs_ok A k" and m: "moves B W k k'" and b: "ob_idle A \<notin> B"
    and s: "\<And>s. s \<in> ob_sems A \<Longrightarrow> k_sems k' s = k_sems k s \<and> Sem_Q s \<notin> W \<or> sem_ok k' s"
    and x: "\<And>m. m \<in> ob_mutexes A \<Longrightarrow> k_mutexes k' m = k_mutexes k m \<and> Mutex_Q m \<notin> W \<or> mutex_ok k' m"
    and mb: "\<And>m. m \<in> ob_mailboxes A \<Longrightarrow> k_mailboxes k' m = k_mailboxes k m \<or> mb_ok (k_mailboxes k' m)"
    and mq: "\<And>m. m \<in> ob_mqs A \<Longrightarrow> k_mqs k' m = k_mqs k m \<or> mq_ok (k_mqs k' m)"
  shows "objs_ok A k'"
proof -
  have q: "set (k_tlists k' h) \<subseteq> set (k_tlists k h)" if "wait_queue h" "h \<notin> W" for h using m that by (simp add: moves_def)
  have "sem_ok k' s" if "s \<in> ob_sems A" for s
    using s[OF that] sem_ok_cong[of k s k'] q[of "Sem_Q s"] ok that by (auto simp: objs_ok_def)
  moreover have "mutex_ok k' m" if "m \<in> ob_mutexes A" for m
    using x[OF that] mutex_ok_cong[of k m k'] q[of "Mutex_Q m"] ok that by (auto simp: objs_ok_def)
  moreover have "mb_ok (k_mailboxes k' m)" if "m \<in> ob_mailboxes A" for m using mb[OF that] ok that by (auto simp: objs_ok_def)
  moreover have "mq_ok (k_mqs k' m)" if "m \<in> ob_mqs A" for m using mq[OF that] ok that by (auto simp: objs_ok_def)
  moreover have "k_lock_nest k' = 0" "cur_linked k'" "linked k' (ob_idle A)" "flags_ok A k'"
    using ok m b flags_moves[OF m] by (auto simp: objs_ok_def moves_def)
  ultimately show ?thesis by (simp add: objs_ok_def)
qed

lemma objs_stays:
  assumes "objs_ok A k" "stays B W k k'" "ob_idle A \<notin> B"
    "\<And>s. s \<in> ob_sems A \<Longrightarrow> Sem_Q s \<in> W \<Longrightarrow> sem_ok k' s" "\<And>m. m \<in> ob_mutexes A \<Longrightarrow> Mutex_Q m \<in> W \<Longrightarrow> mutex_ok k' m"
  shows "objs_ok A k'"
  using assms(2,4,5) by (intro objs_moves[OF assms(1) _ assms(3), of W]) (auto simp: stays_def tabs_def)

lemma stays_tabs: "stays B W k k' \<Longrightarrow> k_sems k' = k_sems k \<and> k_mutexes k' = k_mutexes k \<and> k_mailboxes k' = k_mailboxes k \<and> k_mqs k' = k_mqs k"
  by (simp add: stays_def tabs_def)

lemma moves_nest: "moves B W k k' \<Longrightarrow> k_interrupt_nest k' = k_interrupt_nest k"
  by (simp add: moves_def)

text \<open>What is proved of every call.\<close>

definition keeps :: "objs \<Rightarrow> (bool \<times> kernel) option \<Rightarrow> bool" where
  "keeps A m \<longleftrightarrow> returns m (\<lambda>(b, k'). sys_inv A k')"

lemma keeps_waits: "keeps A (map_option waits m) \<longleftrightarrow> returns m (\<lambda>(r, k'). sys_inv A k')"
  by (cases m) (auto simp: keeps_def waits_def)

lemma keeps_done: "keeps A (map_option (\<lambda>(r, k'). (False, k')) m) \<longleftrightarrow> returns m (\<lambda>(r, k'). sys_inv A k')"
  by (cases m) (auto simp: keeps_def)

lemma keeps_pair: "keeps A (map_option (Pair False) m) \<longleftrightarrow> returns m (sys_inv A)"
  by (cases m) (auto simp: keeps_def)

text \<open>A call that gives a consistent kernel and only moves threads gives a consistent system.\<close>

lemma sys_stays:
  assumes "sys_inv A k" "stays B W k k'" "ob_idle A \<notin> B" "kernel_inv k'"
    "\<And>s. s \<in> ob_sems A \<Longrightarrow> Sem_Q s \<in> W \<Longrightarrow> sem_ok k' s" "\<And>m. m \<in> ob_mutexes A \<Longrightarrow> Mutex_Q m \<in> W \<Longrightarrow> mutex_ok k' m"
  shows "sys_inv A k'"
  using assms objs_stays[OF _ assms(2,3)] by (auto simp: sys_inv_def stays_def dest: moves_nest)

lemma sem_take_keeps:
  assumes inv: "sys_inv A k" and c: "k_current k = Some t" "t \<noteq> ob_idle A" and s: "s \<in> ob_sems A" "time_ok time"
  shows "returns (rt_sem_take s time k) (\<lambda>(r, k'). sys_inv A k')"
proof (cases "s_value (k_sems k s) = 0")
  case True
  have k: "kernel_inv k" "objs_ok A k" "k_interrupt_nest k = 0" "sched_inv k" using inv by (auto simp: sys_inv_def dest: kinvD)
  have flag: "flag_ok (o_flag (k_objects k (OSem s)))" using k(2) s by (simp add: objs_ok_def flags_ok_def)
  show ?thesis
  proof (cases "time = 0")
    case False
    have r: "returns (rt_sem_take s time k) (\<lambda>(r, k'). kernel_inv k')"
      by (rule returns_mono[OF sem_take_blocks[OF k(1) True False s(2) k(3) objs_may_block[OF k(4,2) c] flag]]) auto
    show ?thesis
      by (rule returns_mono[OF returns_always[OF r sem_take_moves[OF c(1)]]])
        (use True c(2) in \<open>auto intro!: sys_stays[OF inv] simp: sem_ok_def stays_tabs\<close>)
  qed (use True inv in \<open>simp add: rt_sem_take_def\<close>)
next
  case False
  then have "k_tlists k (Sem_Q s) = []" using inv s(1) by (auto simp: sys_inv_def objs_ok_def sem_ok_def)
  then show ?thesis using inv s(1) False
    by (auto simp: sem_take_available sys_inv_def upd_sem_def sem_ok_def mutex_ok_def intro!: objs_moves[of A k "{}" "{}"] moves_frame)
qed

lemma sem_release_keeps:
  assumes inv: "sys_inv A k" and s: "s \<in> ob_sems A"
  shows "returns (rt_sem_release s k) (sys_inv A)"
proof (cases "k_tlists k (Sem_Q s)")
  case Nil
  then show ?thesis using inv
    by (auto simp: sem_release_counts sys_inv_def upd_sem_def sem_ok_def intro!: objs_moves[of A k "{}" "{}"] moves_frame)
next
  case (Cons t ts)
  have k: "kernel_inv k" "k_current k \<noteq> None" using inv by (auto simp: sys_inv_def objs_ok_def cur_linked_def)
  have r: "returns (rt_sem_release s k) (\<lambda>k'. kernel_inv k')"
    by (rule returns_mono[OF sem_release_wakes[OF k Cons]]) auto
  show ?thesis
    by (rule returns_mono[OF returns_always[OF r sem_release_moves]]) (use Cons in \<open>auto intro!: sys_stays[OF inv]\<close>)
qed

lemma sys_mutex_moves:
  assumes inv: "sys_inv A k" and mv: "mutex_moves B W m k k'" and b: "ob_idle A \<notin> B" and W: "W \<subseteq> {Mutex_Q m}"
    and k': "kernel_inv k'" "mutex_ok k' m"
  shows "sys_inv A k'"
proof -
  have "objs_ok A k'"
  proof (rule objs_moves[of A k B W])
    fix m' assume "m' \<in> ob_mutexes A"
    show "k_mutexes k' m' = k_mutexes k m' \<and> Mutex_Q m' \<notin> W \<or> mutex_ok k' m'"
      using mv W k'(2) by (cases "m' = m") (auto simp: mutex_moves_def only_mutex_def)
  qed (use inv mv b W in \<open>auto simp: sys_inv_def mutex_moves_def only_mutex_def\<close>)
  then show ?thesis using inv mv k'(1) by (auto simp: sys_inv_def mutex_moves_def dest: moves_nest)
qed

lemma sys_current:
  assumes "sys_inv A k"
  obtains t where "k_current k = Some t" "stat k t = RT_THREAD_READY" "prio k t < 32" "runnable k"
proof -
  have k: "sched_inv k" "objs_ok A k" using assms by (auto simp: sys_inv_def dest: kinvD)
  then obtain t where t: "k_current k = Some t" "linked k t" by (auto simp: objs_ok_def cur_linked_def)
  have "stat k t = RT_THREAD_READY" by (rule linked_ready[OF k(1) t(2)])
  moreover have "prio k t < 32" using sinv_thread[OF k(1), of t] calculation by (simp add: thread_ok_def mask_ok_def)
  ultimately show thesis using that t objs_runnable[OF k] by blast
qed

lemma mutex_take_keeps:
  assumes inv: "sys_inv A k" and c: "k_current k = Some t" "t \<noteq> ob_idle A" and m: "m \<in> ob_mutexes A" "time_ok time"
    and nest: "m_owner (k_mutexes k m) = Some t \<Longrightarrow> m_hold (k_mutexes k m) \<noteq> 255"
  shows "returns (rt_mutex_take m time k) (\<lambda>(r, k'). sys_inv A k')"
proof -
  have k: "kernel_inv k" "objs_ok A k" "k_interrupt_nest k = 0" "sched_inv k" "mutex_ok k m" using inv m by (auto simp: sys_inv_def objs_ok_def dest: kinvD)
  have flag: "flag_ok (o_flag (k_objects k (OMutex m)))" using k(2) m by (simp add: objs_ok_def flags_ok_def)
  have "returns (rt_mutex_take m time k) (\<lambda>(r, k'). kernel_inv k' \<and> mutex_ok k' m)"
  proof (cases "m_owner (k_mutexes k m)")
    case None
    have "prio k t < 32" using sys_current[OF inv] c(1) by auto
    from take_free[OF k(5) None k(3) c(1) this, of time] show ?thesis
      using k(1,5) None by (simp add: rt_mutex_take_def rt_thread_self_def c(1) Let_def mutex_ok_def)
  next
    case (Some owner)
    show ?thesis
    proof (cases "owner = t")
      case True
      from take_recursive[OF k(5) Some[unfolded True] nest k(3) c(1), of time] show ?thesis
        using k(1) Some True by (auto simp: rt_mutex_take_def rt_thread_self_def c(1) Let_def)
    next
      case False
      show ?thesis
      proof (cases "time = 0")
        case True
        then show ?thesis using k(1,3,5) Some False
          by (simp add: rt_mutex_take_def rt_thread_self_def c(1) Let_def mutex_ok_def)
      next
        case time: False
        show ?thesis
          by (rule returns_mono[OF take_blocks[OF k(1,5) Some False k(3) objs_may_block[OF k(4,2) c] time m(2) flag]]) auto
      qed
    qed
  qed
  from returns_always[OF this mutex_take_moves[OF c(1)]] show ?thesis
    by (rule returns_mono) (use c(2) in \<open>auto intro!: sys_mutex_moves[OF inv]\<close>)
qed

lemma mutex_release_keeps:
  assumes inv: "sys_inv A k" and m: "m \<in> ob_mutexes A"
  shows "returns (rt_mutex_release m k) (\<lambda>(r, k'). sys_inv A k')"
proof -
  obtain t where t: "k_current k = Some t" "runnable k" using sys_current[OF inv] by metis
  have k: "kernel_inv k" "mutex_ok k m" using inv m by (auto simp: sys_inv_def objs_ok_def)
  consider "m_owner (k_mutexes k m) \<noteq> Some t" | "m_owner (k_mutexes k m) = Some t" "m_hold (k_mutexes k m) \<noteq> 1"
    | "m_owner (k_mutexes k m) = Some t" "m_hold (k_mutexes k m) = 1" by blast
  then have "returns (rt_mutex_release m k) (\<lambda>(r, k'). kernel_inv k' \<and> mutex_ok k' m)"
  proof cases
    case 1
    have "mutex_ok (upd_thread t (\<lambda>th. th\<lparr>t_error := -RT_ERROR\<rparr>) k) m" by (rule mutex_ok_cong[OF k(2)]) simp_all
    then show ?thesis using k(1) by (simp add: release_not_owner[OF t(1) 1])
  next
    case 2
    from release_nested[OF k(2) t(1) 2] show ?thesis
      using 2 k by (simp add: rt_mutex_release_def rt_thread_self_def t(1) Let_def)
  next
    case 3
    show ?thesis by (rule returns_mono[OF release_last[OF k(1) t(2) k(2) t(1) 3]]) auto
  qed
  from returns_always[OF this mutex_release_moves] show ?thesis
    by (rule returns_mono) (auto intro!: sys_mutex_moves[OF inv])
qed

lemma event_send_keeps:
  assumes inv: "sys_inv A k"
  shows "returns (rt_event_send e evset k) (\<lambda>(r, k'). sys_inv A k')"
proof (cases "evset = 0")
  case True
  then show ?thesis using inv by (simp add: rt_event_send_def)
next
  case False
  have k: "kernel_inv k" "runnable k" using inv sys_current[OF inv] by (auto simp: sys_inv_def)
  have "returns (rt_event_send e evset k) (\<lambda>(r, k'). kernel_inv k')"
    by (rule returns_mono[OF event_send_returns[OF k False]]) auto
  from returns_always[OF this event_send_moves] show ?thesis
    by (rule returns_mono) (auto intro!: sys_stays[OF inv])
qed

lemma event_recv_keeps:
  assumes inv: "sys_inv A k" and c: "k_current k = Some t" "t \<noteq> ob_idle A" and e: "e \<in> ob_events A" "time_ok timeout"
  shows "returns (rt_event_recv e evset option timeout k) (\<lambda>(r, k'). sys_inv A k')"
proof (cases "evset = 0")
  case True
  then show ?thesis using inv by (simp add: rt_event_recv_def sys_inv_def)
next
  case False
  have k: "kernel_inv k" "objs_ok A k" "k_interrupt_nest k = 0" "sched_inv k" using inv by (auto simp: sys_inv_def dest: kinvD)
  have flag: "flag_ok (o_flag (k_objects k (OEvent e)))" using k(2) e by (simp add: objs_ok_def flags_ok_def)
  have "returns (rt_event_recv e evset option timeout k) (\<lambda>(r, k'). kernel_inv k')"
    by (rule returns_mono[OF event_recv_cases[OF k(1) objs_may_block[OF k(4,2) c] k(3) e(2) False flag]]) auto
  from returns_always[OF this event_recv_moves[OF c(1)]] show ?thesis
    by (rule returns_mono) (use c(2) in \<open>auto intro!: sys_stays[OF inv]\<close>)
qed

lemma sys_mb_moves:
  assumes inv: "sys_inv A k" and mv: "moves {} {} k k'" "only_mb m k k'" and k': "kernel_inv k'" "mb_ok (k_mailboxes k' m)"
  shows "sys_inv A k'"
proof -
  have "objs_ok A k'"
  proof (rule objs_moves[of A k "{}" "{}"])
    fix m' show "k_mailboxes k' m' = k_mailboxes k m' \<or> mb_ok (k_mailboxes k' m')"
      using mv(2) k'(2) by (cases "m' = m") (auto simp: only_mb_def)
  qed (use inv mv in \<open>auto simp: sys_inv_def only_mb_def\<close>)
  then show ?thesis using inv mv k'(1) by (auto simp: sys_inv_def dest: moves_nest)
qed

lemma sys_mq_moves:
  assumes inv: "sys_inv A k" and mv: "moves {} {} k k'" "only_mq m k k'" and k': "kernel_inv k'" "mq_ok (k_mqs k' m)"
  shows "sys_inv A k'"
proof -
  have "objs_ok A k'"
  proof (rule objs_moves[of A k "{}" "{}"])
    fix m' show "k_mqs k' m' = k_mqs k m' \<or> mq_ok (k_mqs k' m')"
      using mv(2) k'(2) by (cases "m' = m") (auto simp: only_mq_def)
  qed (use inv mv in \<open>auto simp: sys_inv_def only_mq_def\<close>)
  then show ?thesis using inv mv k'(1) by (auto simp: sys_inv_def dest: moves_nest)
qed

text \<open>A caller that is put on a queue behind clearing its error.\<close>

lemma sys_waiting:
  assumes inv: "sys_inv A k" and w: "waiting h t flag time (upd_thread t f k) k'" and h: "wait_queue h"
    and t: "t \<noteq> ob_idle A" and k': "kernel_inv k'" and q: "\<And>s. h \<noteq> Sem_Q s" "\<And>m. h \<noteq> Mutex_Q m"
  shows "sys_inv A k'"
proof -
  have "stays {t} {h} k k'" by (rule stays_trans[OF stays_upd_thread waiting_stays[OF w h k']])
  then show ?thesis using q t k' by (auto intro!: sys_stays[OF inv])
qed

lemma mb_send_keeps:
  assumes inv: "sys_inv A k" and c: "k_current k = Some t" "t \<noteq> ob_idle A" and m: "m \<in> ob_mailboxes A" "time_ok timeout"
  shows "returns (rt_mb_send_wait m v timeout k) (\<lambda>(r, k'). sys_inv A k')"
proof -
  have k: "kernel_inv k" "objs_ok A k" "k_interrupt_nest k = 0" "sched_inv k" "mb_ok (k_mailboxes k m)" "runnable k"
    using inv m sys_current[OF inv] by (auto simp: sys_inv_def objs_ok_def dest: kinvD)
  have flag: "flag_ok (o_flag (k_objects k (OMailBox m)))" using k(2) m by (simp add: objs_ok_def flags_ok_def)
  show ?thesis
  proof (cases "mb_entry (k_mailboxes k m) = mb_size (k_mailboxes k m)")
    case full: True
    show ?thesis
    proof (cases "timeout = 0")
      case False
      show ?thesis
        by (rule returns_mono[OF mb_send_blocks[OF k(1) full False m(2) k(3) objs_may_block[OF k(4,2) c] flag]])
          (auto intro!: sys_waiting[OF inv] simp: c(2))
    qed (use full inv in \<open>simp add: rt_mb_send_wait_def\<close>)
  next
    case False
    then have eq: "rt_mb_send_wait m v timeout k = mb_deposit m v k"
      by (simp add: rt_mb_send_wait_def mb_send_loop.simps[of m v timeout _ k])
    from returns_always[OF mb_send_room[OF k(1,6,5) False, of v timeout] deposit_moves[of m v k, folded eq]] show ?thesis
      by (rule returns_mono) (auto intro: sys_mb_moves[OF inv])
  qed
qed

lemma mb_recv_keeps:
  assumes inv: "sys_inv A k" and c: "k_current k = Some t" "t \<noteq> ob_idle A" and m: "m \<in> ob_mailboxes A" "time_ok timeout"
  shows "returns (rt_mb_recv m timeout k) (\<lambda>(r, k'). sys_inv A k')"
proof -
  have k: "kernel_inv k" "objs_ok A k" "k_interrupt_nest k = 0" "sched_inv k" "mb_ok (k_mailboxes k m)" "runnable k"
    using inv m sys_current[OF inv] by (auto simp: sys_inv_def objs_ok_def dest: kinvD)
  have flag: "flag_ok (o_flag (k_objects k (OMailBox m)))" using k(2) m by (simp add: objs_ok_def flags_ok_def)
  show ?thesis
  proof (cases "mb_entry (k_mailboxes k m) = 0")
    case empty: True
    show ?thesis
    proof (cases "timeout = 0")
      case False
      show ?thesis
        by (rule returns_mono[OF mb_recv_blocks[OF k(1) empty False m(2) k(3) objs_may_block[OF k(4,2) c] flag]])
          (auto intro!: sys_waiting[OF inv] simp: c(2))
    qed (use empty inv in \<open>simp add: rt_mb_recv_def\<close>)
  next
    case False
    then have eq: "rt_mb_recv m timeout k = mb_fetch m k"
      by (simp add: rt_mb_recv_def mb_recv_loop.simps[of m timeout _ k])
    obtain v vs where "mb_contents (k_mailboxes k m) = v # vs"
      using False by (cases "mb_contents (k_mailboxes k m)") (auto simp: mb_contents_def unat_eq_zero)
    from returns_always[OF mb_recv_some[OF k(1,6,5) this, of timeout] fetch_moves[of m k, folded eq]] show ?thesis
      by (rule returns_mono) (auto intro: sys_mb_moves[OF inv])
  qed
qed

lemma mq_send_keeps:
  assumes inv: "sys_inv A k" and m: "m \<in> ob_mqs A" and sz: "sz \<noteq> 0" "unat sz \<le> length buffer"
  shows "returns (rt_mq_send m buffer sz k) (\<lambda>(r, k'). sys_inv A k')" "returns (rt_mq_urgent m buffer sz k) (\<lambda>(r, k'). sys_inv A k')"
proof -
  have k: "kernel_inv k" "runnable k" "mq_ok (k_mqs k m)" using inv m sys_current[OF inv] by (auto simp: sys_inv_def objs_ok_def)
  then obtain qs fs where rep: "mq_rep (k_mqs k m) qs fs" by (auto simp: mq_ok_def)
  have pos: "0 < unat sz" using sz(1) by (simp add: unat_gt_0)
  have fits: "ucast (mq_msg_size (k_mqs k m)) < sz \<longleftrightarrow> unat (mq_msg_size (k_mqs k m)) < unat sz"
    by (simp add: word_less_nat_alt unsigned_ucast_eq take_bit_nat_eq_self)
  have "returns (rt_mq_send m buffer sz k) (\<lambda>(r, k'). kernel_inv k' \<and> mq_ok (k_mqs k' m)) \<and>
    returns (rt_mq_urgent m buffer sz k) (\<lambda>(r, k'). kernel_inv k' \<and> mq_ok (k_mqs k' m))"
  proof (cases "unat sz \<le> unat (mq_msg_size (k_mqs k m)) \<and> fs \<noteq> []")
    case True
    then obtain b fs' where fs: "fs = b # fs'" and le: "unat sz \<le> unat (mq_msg_size (k_mqs k m))" by (cases fs) auto
    show ?thesis
      by (rule conjI; rule returns_mono[OF mq_send_room[OF k(1,2) rep[unfolded fs] pos le sz(2)]]
          returns_mono[OF mq_urgent_room[OF k(1,2) rep[unfolded fs] pos le sz(2)]]) auto
  next
    case False
    then have "rt_mq_send m buffer sz k = Some (-RT_ERROR, k) \<or> rt_mq_send m buffer sz k = Some (-RT_EFULL, k)"
      "rt_mq_urgent m buffer sz k = Some (-RT_ERROR, k) \<or> rt_mq_urgent m buffer sz k = Some (-RT_EFULL, k)"
      using sz(1) rep mq_rep_free[OF rep] by (auto simp: rt_mq_send_def rt_mq_urgent_def fits mq_alloc_def)
    then show ?thesis using k by auto
  qed
  then have s: "returns (rt_mq_send m buffer sz k) (\<lambda>(r, k'). kernel_inv k' \<and> mq_ok (k_mqs k' m))"
    "returns (rt_mq_urgent m buffer sz k) (\<lambda>(r, k'). kernel_inv k' \<and> mq_ok (k_mqs k' m))" by auto
  from returns_always[OF s(1) mq_send_moves] show "returns (rt_mq_send m buffer sz k) (\<lambda>(r, k'). sys_inv A k')"
    by (rule returns_mono) (auto intro: sys_mq_moves[OF inv])
  from returns_always[OF s(2) mq_urgent_moves] show "returns (rt_mq_urgent m buffer sz k) (\<lambda>(r, k'). sys_inv A k')"
    by (rule returns_mono) (auto intro: sys_mq_moves[OF inv])
qed

lemma mq_recv_blocks:
  assumes inv: "kernel_inv k" and empty: "mq_entry (k_mqs k m) = 0" and sz: "sz \<noteq> 0"
    and time: "timeout \<noteq> 0" "time_ok timeout" and irq: "k_interrupt_nest k = 0" and blk: "may_block t k"
    and flag: "flag_ok (o_flag (k_objects k (OMessageQueue m)))"
  shows "returns (rt_mq_recv m sz timeout k) (\<lambda>(r, k'). r = Blocked \<and> kernel_inv k' \<and> runnable k' \<and>
     waiting (Mq_Q m) t (o_flag (k_objects k (OMessageQueue m))) timeout (upd_thread t (\<lambda>th. th\<lparr>t_error := RT_EOK\<rparr>) k) k')"
proof -
  let ?k1 = "upd_thread t (\<lambda>th. th\<lparr>t_error := RT_EOK\<rparr>) k"
  have c: "k_current k = Some t" using blk by (simp add: may_block_def)
  have "kernel_inv ?k1" "may_block t ?k1" using inv blk by simp_all
  note b = ipc_block_returns[OF this(1) wait_queue_simps(6) this(2) flag time(2)]
  show ?thesis
    unfolding rt_mq_recv_def rt_thread_self_def c using empty time(1) irq sz b[of m]
    by (subst mq_recv_loop.simps) (auto simp: Let_def dest: waiting_away elim!: returns_mono)
qed

lemma mq_recv_keeps:
  assumes inv: "sys_inv A k" and c: "k_current k = Some t" "t \<noteq> ob_idle A" and m: "m \<in> ob_mqs A" "time_ok timeout" "sz \<noteq> 0"
  shows "returns (rt_mq_recv m sz timeout k) (\<lambda>(r, k'). sys_inv A k')"
proof -
  have k: "kernel_inv k" "objs_ok A k" "k_interrupt_nest k = 0" "sched_inv k" "mq_ok (k_mqs k m)"
    using inv m by (auto simp: sys_inv_def objs_ok_def dest: kinvD)
  have flag: "flag_ok (o_flag (k_objects k (OMessageQueue m)))" using k(2) m by (simp add: objs_ok_def flags_ok_def)
  show ?thesis
  proof (cases "mq_entry (k_mqs k m) = 0")
    case empty: True
    show ?thesis
    proof (cases "timeout = 0")
      case False
      show ?thesis
        by (rule returns_mono[OF mq_recv_blocks[OF k(1) empty m(3) False m(2) k(3) objs_may_block[OF k(4,2) c] flag]])
          (auto intro!: sys_waiting[OF inv] simp: c(2))
    qed (use empty inv m(3) in \<open>simp add: rt_mq_recv_def\<close>)
  next
    case False
    then have eq: "rt_mq_recv m sz timeout k = mq_fetch m sz k"
      using m(3) by (simp add: rt_mq_recv_def mq_recv_loop.simps[of m sz timeout _ k])
    obtain qs fs where rep: "mq_rep (k_mqs k m) qs fs" using k(5) by (auto simp: mq_ok_def)
    have "qs \<noteq> []" using rep False by (auto simp: mq_rep_def unat_eq_zero)
    then obtain v vs where "mq_contents (k_mqs k m) = v # vs" using mq_contents_rep[OF rep] by (cases qs) auto
    from returns_always[OF mq_recv_some[OF k(1,5) this m(3), of timeout] mq_fetch_moves[of m sz k, folded eq]] show ?thesis
      by (rule returns_mono) (auto intro: sys_mq_moves[OF inv])
  qed
qed

lemma yield_keeps:
  assumes inv: "sys_inv A k"
  shows "returns (rt_thread_yield k) (sys_inv A)"
proof -
  have k: "kernel_inv k" "runnable k" using inv sys_current[OF inv] by (auto simp: sys_inv_def)
  have "returns (rt_thread_yield k) (\<lambda>k'. kernel_inv k')" by (rule returns_mono[OF yield_returns[OF k]]) auto
  from returns_always[OF this stays_yield] show ?thesis
    by (rule returns_mono) (auto intro!: sys_stays[OF inv])
qed

lemma delay_keeps:
  assumes inv: "sys_inv A k" and c: "k_current k = Some t" "t \<noteq> ob_idle A" and tick: "tick < RT_TICK_HALF"
  shows "returns (rt_thread_delay tick k) (\<lambda>(r, k'). sys_inv A k')"
proof -
  have k: "kernel_inv k" "objs_ok A k" "sched_inv k" "k_lock_nest k = 0" using inv by (auto simp: sys_inv_def objs_ok_def dest: kinvD)
  obtain u where u: "stat k t = RT_THREAD_READY" "u \<noteq> t" "stat k u = RT_THREAD_READY"
    using objs_may_block[OF k(3,2) c] by (auto simp: may_block_def)
  have "returns (rt_thread_sleep tick k) (\<lambda>(r, k'). kernel_inv k')"
    by (rule returns_mono[OF sleep_returns[OF k(1) c(1) u(1,3,2) tick k(4)]]) auto
  from returns_always[OF this stays_sleep[OF c(1)]] show ?thesis
    unfolding rt_thread_delay_def by (rule returns_mono) (use c(2) in \<open>auto intro!: sys_stays[OF inv]\<close>)
qed

text \<open>Every call that is allowed returns and keeps the invariant.\<close>

lemma exec_keeps:
  assumes inv: "sys_inv A k" and c: "allowed A c k"
  shows "keeps A (exec c k)"
proof -
  obtain t where t: "k_current k = Some t" using sys_current[OF inv] by metis
  show ?thesis
  proof (cases c)
    case (Mutex_take m time)
    have "m_owner (k_mutexes k m) = Some t \<Longrightarrow> m_hold (k_mutexes k m) \<noteq> 255" using c t by (simp add: allowed_def Mutex_take)
    then show ?thesis using mutex_take_keeps[OF inv t] c t by (auto simp: allowed_def keeps_waits Mutex_take)
  qed (use c t in \<open>auto simp: allowed_def keeps_waits keeps_done keeps_pair intro: sem_take_keeps[OF inv] sem_release_keeps[OF inv]
      mutex_release_keeps[OF inv] event_send_keeps[OF inv] event_recv_keeps[OF inv] mb_send_keeps[OF inv] mb_recv_keeps[OF inv]
      mq_send_keeps[OF inv] mq_recv_keeps[OF inv] yield_keeps[OF inv] delay_keeps[OF inv]\<close>)
qed

section \<open>The tick\<close>

text \<open>The interrupt handler of the clock, \<^verbatim>\<open>bsp.c\<close>.\<close>

definition SysTick_Handler :: "(ptr \<Rightarrow> ptr \<Rightarrow> kernel \<Rightarrow> kernel option) \<Rightarrow> kernel \<Rightarrow> kernel option" where
  "SysTick_Handler ucb k = do { k1 \<leftarrow> rt_tick_increase ucb (rt_interrupt_enter k); Some (rt_interrupt_leave k1) }"

text \<open>Time-out functions of the application that keep the objects consistent.\<close>

definition ucb_objs :: "objs \<Rightarrow> (ptr \<Rightarrow> ptr \<Rightarrow> kernel \<Rightarrow> kernel option) \<Rightarrow> bool" where
  "ucb_objs A ucb \<longleftrightarrow> (\<forall>a p k. core_inv k \<and> runnable k \<and> objs_ok A k \<longrightarrow>
     always (ucb a p k) (\<lambda>k'. objs_ok A k' \<and> k_interrupt_nest k' = k_interrupt_nest k))"

lemma objs_frame:
  assumes "objs_ok A k" "stays {} {} k k'"
  shows "objs_ok A k' \<and> k_interrupt_nest k' = k_interrupt_nest k"
  using objs_stays[OF assms] assms(2) by (auto simp: stays_def dest: moves_nest)

lemma stays_timeout: "always (rt_thread_timeout t k) (stays {} {} k)"
proof -
  let ?k = "rt_schedule_insert_thread t (upd_tlists (st_remove t) (upd_thread t (\<lambda>th. th\<lparr>t_error := -RT_ETIMEOUT\<rparr>) k))"
  have k: "stays {} {} k ?k"
    by (rule stays_relink[of _ "prio k t" t]) (simp_all add: rt_schedule_insert_thread_def Let_def tabs_def fun_eq_iff st_append_def)
  have "always (rt_schedule ?k) (stays {} {} k)" by (rule always_mono[OF stays_schedule]) (blast intro: stays_trans[OF k])
  then show ?thesis by (simp add: rt_thread_timeout_def Let_def)
qed

lemma timeout_call_objs:
  assumes "core_inv k" "runnable k" "objs_ok A k" "ucb_objs A ucb"
  shows "always (timeout_call ucb f p k) (\<lambda>k'. objs_ok A k' \<and> k_interrupt_nest k' = k_interrupt_nest k)"
proof (cases f)
  case Rt_thread_timeout
  have "always (rt_thread_timeout p k) (\<lambda>k'. objs_ok A k' \<and> k_interrupt_nest k' = k_interrupt_nest k)"
    by (rule always_mono[OF stays_timeout]) (rule objs_frame[OF assms(3)])
  then show ?thesis by (simp add: timeout_call_def Rt_thread_timeout)
next
  case (User_timeout a)
  then show ?thesis using assms by (simp add: timeout_call_def ucb_objs_def)
qed

lemma objs_clear [simp]:
  "objs_ok A (clear_flag i f k) \<longleftrightarrow> objs_ok A k"
proof -
  have "stays {} {} k (clear_flag i f k)" "stays {} {} (clear_flag i f k) k"
    by (rule stays_frame; simp add: tabs_def clear_flag_def upd_object_def)+
  then show ?thesis using objs_frame by blast
qed

lemma objs_started:
  assumes "objs_ok A k" "\<not> activated k i" "tm_init_tick (k_timers k i) < RT_TICK_HALF"
  shows "objs_ok A (started i k)"
proof -
  have "stays {} {} k (started i k)"
    using assms(2,3) by (intro stays_frame) (auto simp: started_def rt_timer_start_def Let_def tabs_def set_flag_def upd_object_def upd_timer_def)
  then show ?thesis using objs_frame[OF assms(1)] by blast
qed

interpretation system_timeouts: timeout_functions "timeout_call ucb"
  "\<lambda>k. core_inv k \<and> runnable k \<and> ucb_ok ucb \<and> objs_ok A k \<and> k_interrupt_nest k = n \<and> ucb_objs A ucb" for ucb A n
proof (unfold_locales, goal_cases)
  case (1 k b i "is")
  have u: "core_inv (unlink_timer i k)" "runnable (unlink_timer i k)" "objs_ok A (unlink_timer i k)" "ucb_objs A ucb"
  proof -
    have "stays {} {} k (unlink_timer i k)" by (rule stays_frame) (simp_all add: tabs_def)
    then show "objs_ok A (unlink_timer i k)" using objs_frame 1 by blast
  qed (use 1 in \<open>simp_all add: core_unlink runnable_def\<close>)
  have "core_inv k \<and> runnable k \<and> ucb_ok ucb" using 1 by simp
  from returns_always[OF kernel_timeouts.call_returns[OF this 1(2-4)] timeout_call_objs[OF u]] show ?case
  proof (rule returns_mono, goal_cases)
    case (1 k')
    then show ?case
      using \<open>core_inv k \<and> runnable k \<and> _ \<and> _ \<and> _ \<and> _\<close> objs_started[of A "clear_flag i RT_TIMER_FLAG_ACTIVATED k'" i] started_frame[of "clear_flag i RT_TIMER_FLAG_ACTIVATED k'" i]
      by (auto split: if_splits)
  qed
qed

lemma stays_tick_slice: "always (tick_slice k) (\<lambda>k'. stays {} {} k k')"
proof (cases "k_current k")
  case (Some t)
  let ?k2 = "upd_thread t (\<lambda>th. th\<lparr>t_remaining_tick := t_remaining_tick th - 1\<rparr>) (k\<lparr>k_tick := k_tick k + 1\<rparr>)"
  let ?y = "upd_thread t (\<lambda>th. th\<lparr>t_remaining_tick := t_init_tick th\<rparr>) ?k2"
  have s: "stays {} {} k ?k2" "stays {} {} k ?y" by (rule stays_frame; simp add: tabs_def)+
  have "always (rt_thread_yield ?y) (stays {} {} k)" by (rule always_mono[OF stays_yield]) (rule stays_trans[OF s(2)])
  then show ?thesis using s by (simp add: tick_slice_def rt_thread_self_def Some Let_def always_if)
qed (simp add: tick_slice_def rt_thread_self_def)

lemma interrupt_nest_inv [simp]: "kinv b B (k\<lparr>k_interrupt_nest := n\<rparr>) \<longleftrightarrow> kinv b B k"
  by (rule kinv_cong) (simp_all add: same_threads_def same_timers_def)

lemma objs_nest [simp]: "objs_ok A (k\<lparr>k_interrupt_nest := n\<rparr>) \<longleftrightarrow> objs_ok A k"
proof -
  have "mutex_ok (k\<lparr>k_interrupt_nest := n\<rparr>) m \<longleftrightarrow> mutex_ok k m" for m
    using mutex_ok_cong[of k m "k\<lparr>k_interrupt_nest := n\<rparr>"] mutex_ok_cong[of "k\<lparr>k_interrupt_nest := n\<rparr>" m k] by auto
  then show ?thesis by (simp add: objs_ok_def cur_linked_def linked_def flags_ok_def sem_ok_def)
qed

lemma tick_keeps:
  assumes inv: "sys_inv A k" and ok: "ucb_ok ucb" "ucb_objs A ucb"
  shows "returns (SysTick_Handler ucb k) (\<lambda>k'. sys_inv A k' \<and> k_tick k' = k_tick k + 1)"
proof -
  let ?k = "rt_interrupt_enter k"
  have k: "kernel_inv ?k" "objs_ok A ?k" "k_interrupt_nest ?k = 1" "k_tick ?k = k_tick k"
    using inv by (simp_all add: sys_inv_def rt_interrupt_enter_def)
  have "runnable ?k" using objs_runnable[OF kinvD(1)[OF k(1)] k(2)] .
  from returns_always[OF tick_slice_returns[OF k(1) this] stays_tick_slice]
  have s: "returns (tick_slice ?k) (\<lambda>k1. (core_inv k1 \<and> runnable k1 \<and> ucb_ok ucb \<and> objs_ok A k1 \<and> k_interrupt_nest k1 = 1 \<and> ucb_objs A ucb) \<and>
     timers_ok (k_tick k) k1 \<and> within (k_tick k) HALF k1 \<and> k_tick k1 = k_tick k + 1)"
    by (rule returns_mono) (use ok objs_frame[OF k(2)] k in auto)
  have "returns (rt_tick_increase ucb ?k) (\<lambda>k'. kernel_inv k' \<and> objs_ok A k' \<and> k_interrupt_nest k' = 1 \<and> k_tick k' = k_tick k + 1)"
    unfolding rt_tick_increase_def returns_bind
    by (rule returns_mono[OF s], elim conjE, rule returns_mono[OF system_timeouts.check_returns[where A = A and n = 1]]) (auto simp: kinv_def)
  then show ?thesis
    by (auto simp: SysTick_Handler_def sys_inv_def rt_interrupt_leave_def elim!: returns_mono)
qed

section \<open>Going on after a wait\<close>

text \<open>The rest of a blocking call of thread \<open>t\<close> that began to wait at tick \<open>start\<close>, when \<open>t\<close> runs again.\<close>

fun resume_call :: "call \<Rightarrow> u32 \<Rightarrow> tid \<Rightarrow> kernel \<Rightarrow> (bool \<times> kernel) option" where
  "resume_call (Mb_send m v timeout) start t k = map_option waits (rt_mb_send_wait_resumed m v timeout start t k)"
| "resume_call (Mb_recv m timeout) start t k = map_option waits (rt_mb_recv_resumed m timeout start t k)"
| "resume_call (Mq_recv m sz timeout) start t k = map_option waits (rt_mq_recv_resumed m sz timeout start t k)"
| "resume_call (Delay tick) start t k = Some (False, rt_thread_sleep_resumed t k)"
| "resume_call c start t k = Some (False, k)"

text \<open>The call as it waits again, with the time that is left.\<close>

fun rest_of :: "call \<Rightarrow> u32 \<Rightarrow> u32 \<Rightarrow> call" where
  "rest_of (Mb_send m v timeout) start now = Mb_send m v (timeout_left timeout start now)"
| "rest_of (Mb_recv m timeout) start now = Mb_recv m (timeout_left timeout start now)"
| "rest_of (Mq_recv m sz timeout) start now = Mq_recv m sz (timeout_left timeout start now)"
| "rest_of c start now = c"

lemma sys_error: "sys_inv A k \<Longrightarrow> sys_inv A (upd_thread t (\<lambda>th. th\<lparr>t_error := e\<rparr>) k)"
  by (rule sys_stays[of A k "{}" "{}"]) (auto simp: sys_inv_def)

lemma mb_send_again:
  "k_current k = Some t \<Longrightarrow> mb_send_loop m v timeout (Some t) k =
     (if mb_entry (k_mailboxes k m) = mb_size (k_mailboxes k m) \<and> timeout = 0
      then Some (Done (-RT_EFULL), upd_thread t (\<lambda>th. th\<lparr>t_error := RT_EOK\<rparr>) k) else rt_mb_send_wait m v timeout k)"
  by (simp add: rt_mb_send_wait_def rt_thread_self_def mb_send_loop.simps[of m v 0])

lemma mb_recv_again:
  "k_current k = Some t \<Longrightarrow> mb_recv_loop m timeout (Some t) k =
     (if mb_entry (k_mailboxes k m) = 0 \<and> timeout = 0
      then Some (Done (-RT_ETIMEOUT, None), upd_thread t (\<lambda>th. th\<lparr>t_error := -RT_ETIMEOUT\<rparr>) (upd_thread t (\<lambda>th. th\<lparr>t_error := RT_EOK\<rparr>) k))
      else rt_mb_recv m timeout k)"
  by (simp add: rt_mb_recv_def rt_thread_self_def mb_recv_loop.simps[of m 0])

lemma mq_recv_again:
  "k_current k = Some t \<Longrightarrow> sz \<noteq> 0 \<Longrightarrow> k_interrupt_nest k = 0 \<Longrightarrow> mq_recv_loop m sz timeout (Some t) k =
     (if mq_entry (k_mqs k m) = 0 \<and> timeout = 0
      then Some (Done (-RT_ETIMEOUT, None), upd_thread t (\<lambda>th. th\<lparr>t_error := -RT_ETIMEOUT\<rparr>) (upd_thread t (\<lambda>th. th\<lparr>t_error := RT_EOK\<rparr>) k))
      else rt_mq_recv m sz timeout k)"
  by (simp add: rt_mq_recv_def rt_thread_self_def mq_recv_loop.simps[of m sz 0])

lemma resume_keeps:
  assumes inv: "sys_inv A k" and c: "k_current k = Some t" "t \<noteq> ob_idle A" and r: "call_ok A (rest_of c start (k_tick k))"
  shows "keeps A (resume_call c start t k)"
proof (cases c)
  case (Mb_send m v timeout)
  then show ?thesis
    using r mb_send_keeps[OF inv c, of m "timeout_left timeout start (k_tick k)" v] sys_error[OF inv] inv
    by (simp add: keeps_waits rt_mb_send_wait_resumed_def mb_send_again[OF c(1)])
next
  case (Mb_recv m timeout)
  then show ?thesis
    using r mb_recv_keeps[OF inv c, of m "timeout_left timeout start (k_tick k)"] sys_error[OF sys_error[OF inv]] inv
    by (simp add: keeps_waits rt_mb_recv_resumed_def mb_recv_again[OF c(1)])
next
  case (Mq_recv m sz timeout)
  then show ?thesis
    using r mq_recv_keeps[OF inv c, of m "timeout_left timeout start (k_tick k)" sz] sys_error[OF sys_error[OF inv]] inv
    by (simp add: keeps_waits rt_mq_recv_resumed_def mq_recv_again[OF c(1)] sys_inv_def)
qed (use inv sys_error[OF inv] in \<open>simp_all add: keeps_def rt_thread_sleep_resumed_def\<close>)

section \<open>Runs of the system\<close>

type_synonym sysstate = "kernel \<times> (tid \<Rightarrow> (call \<times> u32) option)"

inductive step :: "objs \<Rightarrow> (ptr \<Rightarrow> ptr \<Rightarrow> kernel \<Rightarrow> kernel option) \<Rightarrow> sysstate \<Rightarrow> sysstate \<Rightarrow> bool" for A ucb where
  step_call: "\<lbrakk>k_current k = Some t; P t = None; allowed A c k; exec c k = Some (b, k')\<rbrakk> \<Longrightarrow>
     step A ucb (k, P) (k', P(t := if b then Some (c, k_tick k) else None))"
| step_resume: "\<lbrakk>k_current k = Some t; P t = Some (c, start); call_ok A (rest_of c start (k_tick k));
     resume_call c start t k = Some (b, k')\<rbrakk> \<Longrightarrow>
     step A ucb (k, P) (k', P(t := if b then Some (rest_of c start (k_tick k), k_tick k) else None))"
| step_tick: "SysTick_Handler ucb k = Some k' \<Longrightarrow> step A ucb (k, P) (k', P)"

inductive_cases stepE: "step A ucb (k, P) s'"

definition run_inv :: "objs \<Rightarrow> sysstate \<Rightarrow> bool" where
  "run_inv A s \<longleftrightarrow> sys_inv A (fst s) \<and> (\<forall>t. snd s t \<noteq> None \<longrightarrow> t \<noteq> ob_idle A)"

lemma exec_waits: "exec c k = Some (True, k') \<Longrightarrow> may_wait c"
  by (cases c) auto

lemma step_keeps:
  assumes ok: "ucb_ok ucb" "ucb_objs A ucb"
  shows "step A ucb s s' \<Longrightarrow> run_inv A s \<Longrightarrow> run_inv A s'"
proof (induction rule: step.induct)
  case (step_call k t P c b k')
  then have "sys_inv A k'" using exec_keeps[of A k c] by (auto simp: run_inv_def keeps_def returns_def)
  moreover have "b \<Longrightarrow> t \<noteq> ob_idle A" using step_call exec_waits[of c k k'] by (auto simp: allowed_def)
  ultimately show ?case using step_call.prems by (auto simp: run_inv_def)
next
  case (step_resume k t P c start b k')
  then have t: "t \<noteq> ob_idle A" by (auto simp: run_inv_def)
  then have "sys_inv A k'" using resume_keeps[of A k t c start] step_resume by (auto simp: run_inv_def keeps_def returns_def)
  then show ?case using step_resume.prems t by (auto simp: run_inv_def)
next
  case (step_tick k k' P)
  then show ?case using tick_keeps[OF _ ok, of k] by (auto simp: run_inv_def returns_def)
qed

lemma run_keeps:
  assumes "ucb_ok ucb" "ucb_objs A ucb" "(step A ucb)\<^sup>*\<^sup>* s s'" "run_inv A s"
  shows "run_inv A s'"
  using assms(3,4) by (induction rule: rtranclp_induct) (auto intro: step_keeps[OF assms(1,2)])

text \<open>The system never stops: whatever the running thread may do next, it does, and the clock ticks on.\<close>

definition goes_on :: "objs \<Rightarrow> (ptr \<Rightarrow> ptr \<Rightarrow> kernel \<Rightarrow> kernel option) \<Rightarrow> sysstate \<Rightarrow> bool" where
  "goes_on A ucb s \<longleftrightarrow> (case s of (k, P) \<Rightarrow>
     SysTick_Handler ucb k \<noteq> None \<and>
     (\<exists>t. k_current k = Some t \<and> stat k t = RT_THREAD_READY \<and>
        (case P t of
           None \<Rightarrow> \<forall>c. allowed A c k \<longrightarrow> exec c k \<noteq> None
         | Some (c, start) \<Rightarrow> call_ok A (rest_of c start (k_tick k)) \<longrightarrow> resume_call c start t k \<noteq> None)))"

lemma run_goes_on:
  assumes ok: "ucb_ok ucb" "ucb_objs A ucb" and inv: "run_inv A s"
  shows "goes_on A ucb s"
proof -
  obtain k P where s: "s = (k, P)" by (cases s)
  then have k: "sys_inv A k" "\<And>t. P t \<noteq> None \<Longrightarrow> t \<noteq> ob_idle A" using inv by (auto simp: run_inv_def)
  obtain t where t: "k_current k = Some t" "stat k t = RT_THREAD_READY" using sys_current[OF k(1)] by metis
  have "SysTick_Handler ucb k \<noteq> None" using tick_keeps[OF k(1) ok] by (auto simp: returns_def)
  moreover have "exec c k \<noteq> None" if "allowed A c k" for c using exec_keeps[OF k(1) that] by (auto simp: keeps_def returns_def)
  moreover have "resume_call c start t k \<noteq> None" if "P t = Some (c, start)" "call_ok A (rest_of c start (k_tick k))" for c start
    using resume_keeps[OF k(1) t(1) k(2) that(2)] that(1) by (auto simp: keeps_def returns_def)
  ultimately show ?thesis using t by (auto simp: goes_on_def s split: option.split)
qed

end
