(* ===== verification/Application.thy ===== *)
theory Application
  imports System Device
begin

unbundle bit_operations_syntax

text \<open>
  The start of the system, \<^verbatim>\<open>src/app/main.c\<close> and \<^verbatim>\<open>src/app/app.c\<close>: the heap is set up, the scheduler is initialised, the
  threads of the application and the idle thread are created and made ready, and the scheduler is started.
  What the linker decides, the addresses of functions and static variables, is a record.  Between the two steps
  modelled here the serial ports and the console are set up (theories \<open>Usart\<close> and \<open>Console\<close>).
\<close>

section \<open>The code\<close>

record image =
  im_texit :: u32
  im_thread_entry :: ptr
  im_demo0 :: ptr
  im_demo1 :: ptr
  im_demo2 :: ptr
  im_idle_entry :: ptr
  im_idle :: tid
  im_idle_stack :: u32
  im_bss_end :: u32

abbreviation LPC1788_SRAM_END :: u32 where "LPC1788_SRAM_END \<equiv> 0x10010000"
abbreviation IDLE_THREAD_STACK_SIZE :: u32 where "IDLE_THREAD_STACK_SIZE \<equiv> 256"
abbreviation RT_THREAD_PRIORITY_MAX :: u8 where "RT_THREAD_PRIORITY_MAX \<equiv> 32"

definition cstring :: "string \<Rightarrow> cstr" where
  "cstring s = map (of_nat \<circ> of_char) s"

text \<open>A thread is created with a stack of 2048 bytes and 20 ticks, and started if there was memory for it.\<close>

definition create_and_start :: "u32 \<Rightarrow> string \<Rightarrow> ptr \<Rightarrow> u8 \<Rightarrow> kernel \<Rightarrow> (unit outcome \<times> kernel) option" where
  "create_and_start texit name entry priority k =
     bind_done (rt_thread_create texit (cstring name) entry 0 2048 priority 20 k) (\<lambda>t k1.
       if t \<noteq> 0 then do { k2 \<leftarrow> rt_thread_startup t k1; Some (Done (), k2) } else Some (Done (), k1))"

definition rt_application_init :: "image \<Rightarrow> kernel \<Rightarrow> (int outcome \<times> kernel) option" where
  "rt_application_init im k =
     bind_done (create_and_start (im_texit im) ''init'' (im_thread_entry im) (RT_THREAD_PRIORITY_MAX div 3) k) (\<lambda>_ k1.
     bind_done (create_and_start (im_texit im) ''demo0'' (im_demo0 im) (RT_THREAD_PRIORITY_MAX div 3 - 1) k1) (\<lambda>_ k2.
     bind_done (create_and_start (im_texit im) ''demo1'' (im_demo1 im) (RT_THREAD_PRIORITY_MAX div 3 - 2) k2) (\<lambda>_ k3.
     bind_done (create_and_start (im_texit im) ''demo2'' (im_demo2 im) (RT_THREAD_PRIORITY_MAX div 3 - 3) k3) (\<lambda>_ k4.
       Some (Done 0, k4)))))"

text \<open>\<^verbatim>\<open>rtthread_startup\<close>: the heap, and what follows the set-up of the devices.  \<^verbatim>\<open>rt_system_timer_thread_init\<close> is empty
  without soft timers.\<close>

definition startup_heap :: "image \<Rightarrow> kernel \<Rightarrow> kernel option" where
  "startup_heap im k = rt_system_heap_init (im_bss_end im) LPC1788_SRAM_END k"

definition startup_threads :: "image \<Rightarrow> kernel \<Rightarrow> (unit outcome \<times> kernel) option" where
  "startup_threads im k =
     bind_done (rt_application_init im (rt_system_scheduler_init k)) (\<lambda>_ k1.
       do { k2 \<leftarrow> rt_thread_idle_init (im_texit im) (im_idle im) (im_idle_entry im) (im_idle_stack im) IDLE_THREAD_STACK_SIZE k1;
            k3 \<leftarrow> rt_system_scheduler_start k2;
            Some (Done (), k3) })"

section \<open>Creating threads\<close>

definition filled :: "u32 \<Rightarrow> tid \<Rightarrow> ptr \<Rightarrow> ptr \<Rightarrow> u32 \<Rightarrow> u32 \<Rightarrow> u8 \<Rightarrow> u32 \<Rightarrow> kernel \<Rightarrow> kernel" where
  "filled texit t entry parameter stack_start stack_size priority tick k =
     the (rt_thread_init_fields texit t entry parameter stack_start stack_size priority tick k)"

lemma init_fields_eq: "priority < 32 \<Longrightarrow> rt_thread_init_fields texit t e pa st sz priority tick k = Some (filled texit t e pa st sz priority tick k)"
  by (simp add: filled_def rt_thread_init_fields_def Let_def)

lemma filled_fields:
  fixes k texit t e pa st sz tick
  assumes "priority < 32"
  defines "k' \<equiv> filled texit t e pa st sz priority tick k"
  shows "stat k' t = RT_THREAD_INIT" "t_init_priority (thread k' t) = priority" "u \<noteq> t \<Longrightarrow> thread k' u = thread k u"
    "t_sp (thread k' t) = st + ucast (ucast sz :: u16) - 4 - 60" "t_stack_addr (thread k' t) = st" "t_stack_size (thread k' t) = ucast sz"
    "k_tlists k' = k_tlists k" "k_timer_list k' = k_timer_list k" "k_tick k' = k_tick k" "k_current k' = k_current k"
    "k_lock_nest k' = k_lock_nest k" "k_heap k' = k_heap k" "k_sems k' = k_sems k" "k_interrupt_nest k' = k_interrupt_nest k"
  using assms(1)
  by (simp_all add: k'_def filled_def rt_thread_init_fields_def Let_def rt_timer_init_def rt_timer_init_fields_def clear_flag_def stack_init_sp)

text \<open>Filling in the fields of a thread object, however the object was made, is what \<^verbatim>\<open>rt_thread_init\<close> does.\<close>

lemma filled_inited:
  assumes "priority < 32" "st \<noteq> 0"
  shows "same_threads (filled texit t e pa st sz priority tick k) (inited texit t name e pa st sz priority tick k)"
    "same_timers (filled texit t e pa st sz priority tick k) (inited texit t name e pa st sz priority tick k)"
  using assms
  by (simp_all add: same_threads_def same_timers_def inited_def rt_thread_init_def filled_def rt_thread_init_fields_def Let_def
      rt_timer_init_def rt_timer_init_fields_def clear_flag_def)

lemma filled_kinv:
  assumes "kinv b B k" "unused k t" "st \<noteq> 0" "priority < 32"
  shows "kinv b B (filled texit t e pa st sz priority tick k)"
  using inited_kinv[OF assms, of texit "[]" e pa sz tick] kinv_cong[OF filled_inited[OF assms(4,3)]] by blast

lemma new_thread_stack:
  assumes "t_sp th = st + ucast sz - 4 - 60" "t_stack_addr th = st" "t_stack_size th = sz" "64 < unat sz" "unat st + unat sz < 2 ^ 32"
  shows "rt_scheduler_stack_check th"
  using new_stack_check[OF assms(4,5), of th] assms(1-3) by (simp add: rt_scheduler_stack_check_def)

lemma started_up_fields:
  "k_tlists (started_up t k) = st_append (Ready (t_init_priority (thread k t))) t (st_remove t (k_tlists k))"
  "k_timer_list (started_up t k) = removeAll (Thread_Timer t) (k_timer_list k)" "u \<noteq> t \<Longrightarrow> thread (started_up t k) u = thread k u"
  "k_current (started_up t k) = k_current k" "k_lock_nest (started_up t k) = k_lock_nest k" "k_heap (started_up t k) = k_heap k"
  "k_sems (started_up t k) = k_sems k" "k_interrupt_nest (started_up t k) = k_interrupt_nest k" "k_tick (started_up t k) = k_tick k"
  by (simp_all add: started_up_def resume_eq)

section \<open>Memory that is only handed out\<close>

text \<open>While nothing is given back the only free block of the heap is the last one; \<open>r\<close> bytes of it are certain to be
  there.\<close>

definition tail_free :: "heap \<Rightarrow> nat \<Rightarrow> bool" where
  "tail_free h r \<longleftrightarrow> (\<exists>A x. hinv h (A @ [(x, False)]) \<and> (\<forall>b\<in>set A. snd b) \<and> lowest h (A @ [(x, False)]) \<and> unat x + r \<le> unat (h_size h))"

lemma tail_search:
  assumes t: "tail_free h r" and sz: "request_ok sz h" "unat sz + 24 \<le> r"
  obtains x h' where "malloc_loop sz (h_lfree h) h = Some (Some x, h')" "allocates x sz h (heap_blocks h) h'" "tail_free h' (r - 12 - unat sz)"
proof -
  obtain A x where inv: "hinv h (A @ [(x, False)])" and A: "\<forall>b\<in>set A. snd b" and lw: "lowest h (A @ [(x, False)])" and r: "unat x + r \<le> unat (h_size h)"
    using t by (auto simp: tail_free_def)
  have rep: "hrep (h_mem h) 0 0 (A @ [(x, False)]) (h_end h)" and lim: "limits_ok h" using inv by (simp_all add: hinv_def)
  have nx: "hm_next (h_mem h x) = h_end h" using hrep_middle(11)[OF rep] by simp
  have e: "unat (h_end h) = unat (h_size h) + 12" by (rule limits_end[OF lim])
  have bl: "heap_blocks h = A @ [(x, False)]" by (rule heap_blocks_inv[OF inv])
  have lf: "h_lfree h \<le> x" using lw A lowest_front[OF rep] by (auto simp: lowest_def)
  have big: "\<not> unat (hm_next (h_mem h x)) < unat x + 12 + unat sz" "\<not> unat (h_size h) \<le> unat x + unat sz" using nx e r sz(2) by simp_all
  obtain y h' where ml: "malloc_loop sz (h_lfree h) h = Some (Some y, h')" and al: "allocates y sz h (A @ [(x, False)]) h'"
    using heap_search_returns[OF inv sz(1)] lw big lf by (auto simp: returns_def split: option.splits)
  from al obtain A' B' where bs: "A @ [(x, False)] = A' @ (y, False) # B'" and h': "hinv h' (taken y sz h A' B')" "lowest h' (taken y sz h A' B')"
    "h_size h' = h_size h" using lw by (auto simp: allocates_def)
  have "(y, False) \<in> set (A @ [(x, False)])" unfolding bs by simp
  then have yx: "y = x" using A by auto
  then have AB: "A' = A" "B' = []" using bs A by (auto simp: append_eq_append_conv2 append_eq_Cons_conv Cons_eq_append_conv)
  have ds: "unat (h_end h - (x + 12)) = unat (h_end h) - unat x - 12" using data_size[of x "h_end h"] e r by simp
  have lt: "unat sz + 24 < 2 ^ 32" "unat x + 12 + unat sz < 2 ^ 32" using e r sz(2) unsigned_less[of "h_end h", where 'a = nat] by simp_all
  then have "unat (sz + 24) = unat sz + 24" by (simp add: unat_word_ariths)
  then have "sz + 24 \<le> hm_next (h_mem h x) - (x + 12)" using nx ds e r sz(2) by (simp add: word_le_nat_alt)
  then have tk: "taken y sz h A' B' = (A @ [(x, True)]) @ [(x + 12 + sz, False)]" using yx AB by (simp add: taken_def)
  have "unat (x + 12) = unat x + 12" using lt by (intro unat_add12) simp
  then have "unat (x + 12 + sz) = unat x + 12 + unat sz" using lt(2) by (simp add: unat_word_ariths)
  then have "unat (x + 12 + sz) + (r - 12 - unat sz) \<le> unat (h_size h')" using r h'(3) sz(2) by simp
  then have "tail_free h' (r - 12 - unat sz)"
    unfolding tail_free_def using h'(1,2)[unfolded tk] A by (intro exI[of _ "A @ [(x, True)]"] exI[of _ "x + 12 + sz"]) auto
  then show thesis using that ml al bl yx by simp
qed

lemma malloc_tail:
  assumes rdy: "heap_ready k" and t: "tail_free (k_heap k) r" and n: "n \<noteq> 0" "unat n + 3 < 2 ^ 32" and r: "unat (malloc_size n) + 24 \<le> r"
  shows "returns (rt_malloc n k) (\<lambda>(v, k'). v \<noteq> Done 0 \<and> tail_free (k_heap k') (r - 12 - unat (malloc_size n)))"
proof -
  let ?h = "k_heap k" let ?sz = "malloc_size n"
  have "unat (rt_align n) \<le> unat ?sz" by (simp add: malloc_size_def word_less_nat_alt)
  moreover have "r \<le> unat (h_size ?h)" using t by (auto simp: tail_free_def)
  ultimately have fit: "\<not> rt_align n > h_size ?h" using r by (simp add: word_less_nat_alt)
  have ok: "heap_ok ?h" "12 \<le> unat (h_size ?h)" "k_interrupt_nest k = 0" using rdy by (simp_all add: heap_ready_def)
  have req: "request_ok ?sz ?h" by (rule malloc_size_ok(1)[OF n(2) fit ok(2)])
  from tail_search[OF t req r] obtain x h' where ml: "malloc_loop ?sz (h_lfree ?h) ?h = Some (Some x, h')"
    and al: "allocates x ?sz ?h (heap_blocks ?h) h'" and t': "tail_free h' (r - 12 - unat ?sz)" .
  have g: "h_ptr h' = h_ptr ?h" "h_ptr ?h + x + 12 \<noteq> 0" using allocates_grants[OF ok(1) al order_refl] by (auto simp: grants_def word_unat_eq_iff)
  have "rt_malloc n k = rt_malloc_locked ?sz (upd_sem heap_sem (\<lambda>sem. sem\<lparr>s_value := 0\<rparr>) k)"
    using n(1) fit ok(3) rdy by (simp add: rt_malloc_def heap_take)
  moreover have "returns (rt_malloc n k) (\<lambda>_. True)" by (rule returns_mono[OF malloc_returns[OF rdy n(2)]]) simp
  ultimately show ?thesis using g t' by (simp add: rt_malloc_locked_def ml heap_released[OF rdy] Let_def)
qed

lemma malloc_given:
  assumes "heap_ready k" "tail_free (k_heap k) r" "n \<noteq> 0" "unat n + 3 < 2 ^ 32" "unat (malloc_size n) + 24 \<le> r"
    and r': "r - 12 - unat (malloc_size n) = r'"
  obtains p h' a b where "rt_malloc n k = Some (Done p, k\<lparr>k_heap := h'\<rparr>)" "p \<noteq> 0" "grants n p a b (k_heap k) h'" "tail_free h' r'"
proof -
  obtain v k' where v: "rt_malloc n k = Some (v, k')" "v \<noteq> Done 0" "tail_free (k_heap k') r'"
    using malloc_tail[OF assms(1-5), unfolded r'] by (auto simp: returns_def)
  then obtain p where p: "v = Done p" "if p = 0 then k' = k else \<exists>h' a b. k' = k\<lparr>k_heap := h'\<rparr> \<and> grants n p a b (k_heap k) h'"
    using malloc_returns[OF assms(1,4)] by (auto simp: returns_def)
  with v(2) have "p \<noteq> 0" by simp
  with p(2) obtain h' a b where "k' = k\<lparr>k_heap := h'\<rparr>" "grants n p a b (k_heap k) h'" by auto
  with v p(1) \<open>p \<noteq> 0\<close> show thesis by (intro that[of p h' a b]) simp_all
qed

text \<open>A thread with a stack of 2048 bytes takes 120 and 2048 bytes and two headers.\<close>

definition thread_room :: nat where
  "thread_room = 120 + 2048 + 2 * 12"

lemma create_room:
  assumes rdy: "heap_ready k" and t: "tail_free (k_heap k) r" and r: "thread_room + 12 \<le> r" and pr: "priority < 32"
  shows "returns (rt_thread_create texit name e pa 2048 priority tick k) (\<lambda>(v, k'). v \<noteq> Done 0 \<and> tail_free (k_heap k') (r - thread_room))"
proof -
  let ?n = "object_size RT_Object_Class_Thread"
  have n: "?n = 120" by (simp add: object_size_def)
  have ms: "malloc_size 120 = 120" "malloc_size 2048 = 2048" by (simp_all add: malloc_size_def rt_align_def)
  have g: "?n \<noteq> 0" "unat ?n + 3 < 2 ^ 32" "unat (malloc_size ?n) + 24 \<le> r" "r - 12 - unat (malloc_size ?n) = r - 132"
    using r by (simp_all add: n ms thread_room_def)
  obtain p h' a b where m1: "rt_malloc ?n k = Some (Done p, k\<lparr>k_heap := h'\<rparr>)" "p \<noteq> 0" "grants ?n p a b (k_heap k) h'" "tail_free h' (r - 132)"
    by (rule malloc_given[OF rdy t g])
  let ?k1 = "attached (OThread (unat p)) RT_Object_Class_Thread name (k\<lparr>k_heap := h'\<rparr>)"
  have rdy1: "heap_ready ?k1" using rdy m1(3) by (simp add: heap_ready_def grants_def)
  have t1: "tail_free (k_heap ?k1) (r - 132)" using m1(4) by simp
  have g1: "(2048 :: u32) \<noteq> 0" "unat (2048 :: u32) + 3 < 2 ^ 32" "unat (malloc_size 2048) + 24 \<le> r - 132"
    "r - 132 - 12 - unat (malloc_size 2048) = r - 2192" using r by (simp_all add: ms thread_room_def)
  obtain p2 h2 a2 b2 where m2: "rt_malloc 2048 ?k1 = Some (Done p2, ?k1\<lparr>k_heap := h2\<rparr>)" "p2 \<noteq> 0" "grants 2048 p2 a2 b2 (k_heap ?k1) h2" "tail_free h2 (r - 2192)"
    by (rule malloc_given[OF rdy1 t1 g1])
  have "unat p \<noteq> 0" "k_interrupt_nest k = 0" using m1(2) rdy by (simp_all add: unat_eq_zero heap_ready_def)
  then have al: "rt_object_allocate OThread RT_Object_Class_Thread name k = Some (Done (unat p), ?k1)" "unat p \<noteq> 0"
    using m1(1,2) by (simp_all add: rt_object_allocate_def attached_def Let_def)
  show ?thesis using m2(4)
    by (simp add: rt_thread_create_def create_with_def al m2(1,2) init_fields_eq[OF pr] filled_fields(12)[OF pr] thread_room_def)
qed

text \<open>The state while the system starts: nobody runs or waits, no timer runs, and the threads \<open>C\<close>, with their
  priorities, are ready and lie on the heap.\<close>

definition boot_ok :: "kernel \<Rightarrow> (tid \<times> u8) set \<Rightarrow> bool" where
  "boot_ok k C \<longleftrightarrow> kernel_inv k \<and> k_current k = None \<and> k_lock_nest k = 0 \<and> k_timer_list k = [] \<and> heap_ready k \<and>
     (\<forall>h. (\<forall>p. h \<noteq> Ready p) \<longrightarrow> k_tlists k h = []) \<and>
     (\<forall>(t, p)\<in>C. stat k t = RT_THREAD_READY \<and> prio k t = p) \<and> (\<forall>t. t \<notin> fst ` C \<longrightarrow> stat k t = RT_THREAD_CLOSE) \<and>
     (\<forall>t\<in>fst ` C. \<exists>a b. (a, b) \<in> heap_live (k_heap k) \<and> t = unat (h_ptr (k_heap k)) + a)"

lemma boot_unused: "boot_ok k C \<Longrightarrow> t \<notin> fst ` C \<Longrightarrow> unused k t"
proof -
  assume k: "boot_ok k C" "t \<notin> fst ` C"
  then have st: "stat k t = RT_THREAD_CLOSE" and tl: "k_timer_list k = []" and q: "\<forall>h. (\<forall>p. h \<noteq> Ready p) \<longrightarrow> k_tlists k h = []"
    and inv: "sched_inv k" by (auto simp: boot_ok_def dest: kinvD(1))
  have "t \<notin> set (k_tlists k h)" for h
    using sinv_thread[OF inv, of t] st q by (cases h) (auto simp: thread_ok_def)
  then show ?thesis using st tl by (simp add: unused_def unlinked_def)
qed

lemma boot_heap_step:
  assumes k: "boot_ok k C" and h': "heap_ok h'" "h_ptr h' = h_ptr (k_heap k)" "h_size h' = h_size (k_heap k)" "heap_live (k_heap k) \<subseteq> heap_live h'"
    and k': "k_heap k' = h'" "k_sems k' = k_sems k" "k_tlists k' = k_tlists k" "k_interrupt_nest k' = k_interrupt_nest k"
      "k_threads k' = k_threads k" "k_current k' = k_current k" "k_lock_nest k' = k_lock_nest k" "k_timer_list k' = k_timer_list k"
      "k_tick k' = k_tick k" "k_ready_group k' = k_ready_group k" "k_timers k' = k_timers k" "\<And>i. k_objects k' (OTimer i) = k_objects k (OTimer i)"
  shows "boot_ok k' C"
proof -
  have "kinv (k_tick k) (HALF - 1) k' \<longleftrightarrow> kernel_inv k" by (rule kinv_cong) (simp_all add: same_threads_def same_timers_def k')
  then show ?thesis using assms by (force simp: boot_ok_def heap_ready_def)
qed

text \<open>One more thread is made ready.\<close>

lemma boot_add:
  assumes k: "boot_ok k C" and new: "t \<notin> fst ` C" and live: "\<exists>a b. (a, b) \<in> heap_live (k_heap k) \<and> t = unat (h_ptr (k_heap k)) + a"
    and st: "st \<noteq> 0" "unat st + 2048 < 2 ^ 32" and pr: "priority < 32"
  shows "returns (rt_thread_startup t (filled texit t e pa st 2048 priority tick k)) (\<lambda>k'. boot_ok k' (insert (t, priority) C) \<and> k_heap k' = k_heap k)"
proof -
  let ?k = "filled texit t e pa st 2048 priority tick k"
  note f = filled_fields[OF pr, where texit = texit and t = t and e = e and pa = pa and st = st and sz = 2048 and tick = tick and k = k]
  have inv: "kinv (k_tick k) (HALF - 1) ?k" using k by (intro filled_kinv boot_unused[OF k new] st pr) (simp add: boot_ok_def)
  have chk: "rt_scheduler_stack_check (thread ?k t)" using f(4-6) st(2) by (intro new_thread_stack[of _ st 2048]) simp_all
  have cur: "k_current ?k = None" using k by (simp add: f(10) boot_ok_def)
  have pr': "t_init_priority (thread ?k t) < 32" using pr by (simp add: f(2))
  note su = started_up_kinv[OF inv f(1) pr' chk] and sf = started_up_fields[where t = t and k = ?k]
  let ?k' = "started_up t ?k"
  have "boot_ok ?k' (insert (t, priority) C)"
    unfolding boot_ok_def
  proof (intro conjI)
    show "kernel_inv ?k'" using su(1) by (simp add: sf f(9))
    show "\<forall>(u, p)\<in>insert (t, priority) C. stat ?k' u = RT_THREAD_READY \<and> prio ?k' u = p"
    proof (clarify)
      fix u p assume "(u, p) \<in> insert (t, priority) C"
      then show "stat ?k' u = RT_THREAD_READY \<and> prio ?k' u = p"
        using su(2,3) f(2) k new f(3)[of u] sf(3)[of u] by (cases "u = t") (force simp: boot_ok_def)+
    qed
    show "\<forall>u. u \<notin> fst ` insert (t, priority) C \<longrightarrow> stat ?k' u = RT_THREAD_CLOSE"
      using k sf(3) f(3) by (auto simp: boot_ok_def)
    show "\<forall>h. (\<forall>p. h \<noteq> Ready p) \<longrightarrow> k_tlists ?k' h = []" using k by (auto simp: boot_ok_def sf(1) f(7) st_append_def)
    show "heap_ready ?k'" using k by (simp add: boot_ok_def heap_ready_def sf f st_append_def)
    show "\<forall>u\<in>fst ` insert (t, priority) C. \<exists>a b. (a, b) \<in> heap_live (k_heap ?k') \<and> u = unat (h_ptr (k_heap ?k')) + a"
      using k live by (simp add: boot_ok_def sf(6) f(12))
  qed (use k in \<open>simp_all add: boot_ok_def sf f\<close>)
  then show ?thesis using cur by (simp add: rt_thread_startup_eq f(1) sf(6) f(12))
qed

lemma live_start: "(a, b) \<in> heap_live h \<Longrightarrow> (a, b') \<in> heap_live h \<Longrightarrow> b = b'"
  unfolding heap_live_def area_def by (auto simp: word_unat_eq_iff[symmetric])

text \<open>A thread that is created is new, and starting it adds it; without memory nothing changes.\<close>

definition creates :: "u8 \<Rightarrow> (tid \<times> u8) set \<Rightarrow> u32 \<Rightarrow> tid outcome \<times> kernel \<Rightarrow> bool" where
  "creates priority C base x \<longleftrightarrow> (\<exists>t. fst x = Done t \<and> h_ptr (k_heap (snd x)) = base \<and> (if t = 0 then boot_ok (snd x) C
     else t \<notin> fst ` C \<and> returns (rt_thread_startup t (snd x)) (\<lambda>k'. boot_ok k' (insert (t, priority) C) \<and> k_heap k' = k_heap (snd x))))"

lemma object_on_heap:
  fixes name :: cstr
  assumes k: "boot_ok k C" and g: "grants n p a b (k_heap k) h'" and n: "0 < unat n"
  defines "k1 \<equiv> attached (OThread (unat p)) RT_Object_Class_Thread name (k\<lparr>k_heap := h'\<rparr>)"
  shows "boot_ok k1 C" "unat p \<notin> fst ` C" "(a, b) \<in> heap_live (k_heap k1)" "a < b" "unat p = unat (h_ptr (k_heap k1)) + a"
    "h_ptr (k_heap k1) = h_ptr (k_heap k)" "unat p \<noteq> 0" "o_type (k_objects k1 (OThread (unat p))) = 0"
proof -
  note gd = g[unfolded grants_def]
  show "boot_ok k1 C" by (rule boot_heap_step[OF k]) (use gd in \<open>auto simp: k1_def attached_def Let_def\<close>)
  show "unat p \<notin> fst ` C"
  proof
    assume "unat p \<in> fst ` C"
    then obtain a' b' where "(a', b') \<in> heap_live (k_heap k)" "unat p = unat (h_ptr (k_heap k)) + a'" using k by (fastforce simp: boot_ok_def)
    then show False using gd live_start[of a b h' b'] by auto
  qed
  show "unat p \<noteq> 0" using gd by auto
qed (use g n in \<open>auto simp: k1_def grants_def\<close>)

lemma create_boot:
  assumes k: "boot_ok k C" and pr: "priority < 32"
  shows "returns (rt_thread_create texit name e pa 2048 priority tick k) (creates priority C (h_ptr (k_heap k)))"
  unfolding rt_thread_create_def
proof (rule create_with_returns)
  show "heap_ready k" using k by (simp add: boot_ok_def)
  show "creates priority C (h_ptr (k_heap k)) (Done 0, k)" using k by (simp add: creates_def)
  fix p a b h' assume g: "grants (object_size RT_Object_Class_Thread) p a b (k_heap k) h'"
  let ?t = "unat p" let ?k1 = "attached (OThread ?t) RT_Object_Class_Thread name (k\<lparr>k_heap := h'\<rparr>)"
  have sz: "0 < unat (object_size RT_Object_Class_Thread)" by (simp add: object_size_def)
  note o = object_on_heap[OF k g sz]
  have rdy: "heap_ready ?k1" using o(1)[of name] by (simp add: boot_ok_def)
  obtain p2 k2 where ml: "rt_malloc 2048 ?k1 = Some (Done p2, k2)"
    and k2: "if p2 = 0 then k2 = ?k1 else \<exists>h2 a2 b2. k2 = ?k1\<lparr>k_heap := h2\<rparr> \<and> grants 2048 p2 a2 b2 (k_heap ?k1) h2"
    using malloc_returns[OF rdy, of 2048] by (auto simp: returns_def)
  show "returns (bind_done (rt_malloc 2048 ?k1) (\<lambda>stack_start k2.
         if stack_start = 0 then bind_done (rt_object_delete (OThread ?t) k2) (\<lambda>_ k3. Some (Done 0, k3))
         else do { k3 \<leftarrow> rt_thread_init_fields texit ?t e pa stack_start 2048 priority tick k2; Some (Done ?t, k3) }))
       (creates priority C (h_ptr (k_heap k)))"
  proof (cases "p2 = 0")
    case True
    have adr: "unat (obj_addr (OThread ?t)) = unat (h_ptr (k_heap ?k1)) + a" unfolding o(5)[symmetric] by simp
    from object_delete_returns[OF rdy _ o(3,4) adr] o(8) obtain h2 where
      del: "rt_object_delete (OThread ?t) ?k1 = Some (Done (), ?k1\<lparr>k_container := st_remove (OThread ?t) (k_container ?k1), k_heap := h2\<rparr>)"
      and h2: "frees a b (k_heap ?k1) h2" by (auto simp: returns_def)
    have "boot_ok (?k1\<lparr>k_container := st_remove (OThread ?t) (k_container ?k1), k_heap := h2\<rparr>) C"
      by (rule boot_heap_step[OF k]) (use g h2 in \<open>auto simp: grants_def frees_def attached_def Let_def\<close>)
    then show ?thesis using True ml k2 del h2 o(6) by (simp add: creates_def frees_def)
  next
    case False
    then obtain h2 a2 b2 where k2': "k2 = ?k1\<lparr>k_heap := h2\<rparr>" and g2: "grants 2048 p2 a2 b2 (k_heap ?k1) h2" using k2 by auto
    note gd2 = g2[unfolded grants_def]
    have b2: "boot_ok k2 C" by (rule boot_heap_step[OF o(1)]) (use gd2 in \<open>auto simp: k2'\<close>)
    have "limits_ok h2" using gd2 by (auto simp: heap_ok_def hinv_def)
    then have "unat (h_ptr h2) + unat (h_end h2) < 2 ^ 32" using limits_end[of h2] by (simp add: limits_ok_def)
    then have st: "unat p2 + 2048 < 2 ^ 32" using gd2 by simp
    have live: "\<exists>a b. (a, b) \<in> heap_live (k_heap k2) \<and> ?t = unat (h_ptr (k_heap k2)) + a"
      using o(3,5) gd2 by (auto simp: k2')
    have "creates priority C (h_ptr (k_heap k)) (Done ?t, filled texit ?t e pa p2 2048 priority tick k2)"
      using returns_mono[OF boot_add[OF b2 o(2) live False st pr]] o(2,6,7) gd2 by (auto simp: creates_def filled_fields(12)[OF pr] k2')
    then show ?thesis using False ml by (simp add: init_fields_eq[OF pr])
  qed
qed

lemma create_and_start_boot:
  assumes k: "boot_ok k C" and pr: "priority < 32"
  shows "returns (create_and_start texit name e priority k) (\<lambda>(r, k'). r = Done () \<and> h_ptr (k_heap k') = h_ptr (k_heap k) \<and>
     (if \<exists>t. t \<notin> fst ` C \<and> boot_ok k' (insert (t, priority) C) then tail_free (k_heap k) n \<and> thread_room + 12 \<le> n \<longrightarrow> tail_free (k_heap k') (n - thread_room)
      else boot_ok k' C \<and> \<not> (tail_free (k_heap k) n \<and> thread_room + 12 \<le> n)))"
proof -
  obtain t k1 where c: "rt_thread_create texit (cstring name) e 0 2048 priority 20 k = Some (Done t, k1)"
    and k1: "creates priority C (h_ptr (k_heap k)) (Done t, k1)"
    using create_boot[OF assms, of texit "cstring name" e 0 20] by (auto simp: returns_def creates_def)
  have rdy: "heap_ready k" using k by (simp add: boot_ok_def)
  have room: "t \<noteq> 0 \<and> tail_free (k_heap k1) (n - thread_room)" if "tail_free (k_heap k) n" "thread_room + 12 \<le> n"
    using create_room[OF rdy that pr, of texit "cstring name" e 0 20] c by simp
  show ?thesis
  proof (cases "t = 0")
    case True
    then show ?thesis using c k1 room by (auto simp: create_and_start_def creates_def)
  next
    case False
    then obtain k2 where k2: "rt_thread_startup t k1 = Some k2" "boot_ok k2 (insert (t, priority) C)" "t \<notin> fst ` C"
      "k_heap k2 = k_heap k1" "h_ptr (k_heap k1) = h_ptr (k_heap k)" using k1 by (auto simp: creates_def returns_def)
    have "create_and_start texit name e priority k = Some (Done (), k2)" using c False k2(1) by (simp add: create_and_start_def)
    moreover have "\<exists>t. t \<notin> fst ` C \<and> boot_ok k2 (insert (t, priority) C)" using k2(2,3) by blast
    ultimately show ?thesis using k2(4,5) room by simp
  qed
qed

section \<open>The start\<close>

text \<open>Before the start there is no thread, nobody waits and no timer runs.\<close>

definition blank :: "kernel \<Rightarrow> bool" where
  "blank k \<longleftrightarrow> (\<forall>h. k_tlists k h = []) \<and> k_timer_list k = [] \<and> (\<forall>t. stat k t = RT_THREAD_CLOSE) \<and> (\<forall>i. \<not> periodic k i) \<and> k_interrupt_nest k = 0"

lemma scheduler_init_boot:
  assumes "blank k" "heap_ready k"
  shows "boot_ok (rt_system_scheduler_init k) {}"
proof -
  let ?k = "rt_system_scheduler_init k"
  have q: "k_tlists ?k h = []" for h using assms(1) by (cases h) (simp_all add: rt_system_scheduler_init_def blank_def)
  have f: "k_threads ?k = k_threads k" "k_timer_list ?k = []" "periodic ?k i \<longleftrightarrow> periodic k i" "k_ready_group ?k = 0" for i
    using assms(1) by (simp_all add: rt_system_scheduler_init_def blank_def periodic_def)
  have "kernel_inv ?k"
    using assms(1) by (simp add: kinv_def core_inv_def sinv_def store_wf_def group_ok_def thread_ok_def stacks_ok_def tt_ok_def
        user_timers_ok_def timers_ok_def within_def q f blank_def)
  then show ?thesis using assms q by (simp add: boot_ok_def f blank_def rt_system_scheduler_init_def heap_ready_def)
qed

definition app_priorities :: "u8 set" where
  "app_priorities = {7, 8, 9, 10}"

lemma application_init_boot:
  assumes "boot_ok k {}"
  shows "returns (rt_application_init im k) (\<lambda>(r, k'). r = Done 0 \<and> h_ptr (k_heap k') = h_ptr (k_heap k) \<and>
     (\<exists>C. boot_ok k' C \<and> snd ` C \<subseteq> app_priorities \<and> inj_on snd C \<and> (tail_free (k_heap k) (4 * thread_room + 12) \<longrightarrow> snd ` C = app_priorities)))"
proof -
  define R where "R \<longleftrightarrow> tail_free (k_heap k) (4 * thread_room + 12)"
  define Q where "Q k' P n \<longleftrightarrow> h_ptr (k_heap k') = h_ptr (k_heap k) \<and> (\<exists>C. boot_ok k' C \<and> snd ` C \<subseteq> P \<and> inj_on snd C \<and>
     (R \<longrightarrow> snd ` C = P \<and> tail_free (k_heap k') (n * thread_room + 12)))" for k' P n
  have step: "returns (create_and_start (im_texit im) name e priority k1) (\<lambda>(r, k'). r = Done () \<and> Q k' (insert priority P) n)"
    if "Q k1 P (Suc n)" "priority < 32" "priority \<notin> P" for name e priority k1 P n
  proof -
    from that(1) obtain C where C: "boot_ok k1 C" "snd ` C \<subseteq> P" "inj_on snd C"
      "R \<longrightarrow> snd ` C = P \<and> tail_free (k_heap k1) (Suc n * thread_room + 12)" "h_ptr (k_heap k1) = h_ptr (k_heap k)" by (auto simp: Q_def)
    let ?new = "\<lambda>k'. \<exists>t. t \<notin> fst ` C \<and> boot_ok k' (insert (t, priority) C)"
    have add: "snd ` insert (t, priority) C \<subseteq> insert priority P" "inj_on snd (insert (t, priority) C)"
      "R \<Longrightarrow> snd ` insert (t, priority) C = insert priority P" for t using C(2-4) that(3) by (auto simp: inj_on_def)
    have m: "Suc n * thread_room + 12 - thread_room = n * thread_room + 12" "thread_room + 12 \<le> Suc n * thread_room + 12" by simp_all
    show ?thesis
    proof (rule returns_mono[OF create_and_start_boot[OF C(1) that(2), of "im_texit im" name e "Suc n * thread_room + 12"]], clarify, intro conjI refl)
      fix k' assume h: "h_ptr (k_heap k') = h_ptr (k_heap k1)"
        and c: "if ?new k' then tail_free (k_heap k1) (Suc n * thread_room + 12) \<and> thread_room + 12 \<le> Suc n * thread_room + 12
            \<longrightarrow> tail_free (k_heap k') (Suc n * thread_room + 12 - thread_room)
          else boot_ok k' C \<and> \<not> (tail_free (k_heap k1) (Suc n * thread_room + 12) \<and> thread_room + 12 \<le> Suc n * thread_room + 12)"
      show "Q k' (insert priority P) n"
      proof (cases "?new k'")
        case True
        then obtain t where b: "boot_ok k' (insert (t, priority) C)" by blast
        have "R \<Longrightarrow> tail_free (k_heap k') (n * thread_room + 12)" using C(4) c True unfolding m(1) using m(2) by presburger
        then show ?thesis unfolding Q_def using add[of t] C(5) h b by (intro conjI exI[of _ "insert (t, priority) C"]) simp_all
      next
        case False
        note c' = c[unfolded if_not_P[OF False]]
        have "boot_ok k' C" by (rule conjunct1[OF c'])
        moreover have "\<not> R" using conjunct2[OF c'] C(4) m(2) by blast
        ultimately show ?thesis unfolding Q_def using C(2,3,5) h by auto
      qed
    qed
  qed
  have n: "(4 :: nat) = Suc 3" "(3 :: nat) = Suc 2" "(2 :: nat) = Suc 1" "(1 :: nat) = Suc 0" by simp_all
  have "Q k {} 4" using assms by (auto simp: Q_def R_def)
  from step[OF this[unfolded n(1)], of 10 "''init''" "im_thread_entry im"] obtain k1 where 1: "create_and_start (im_texit im) ''init'' (im_thread_entry im) 10 k = Some (Done (), k1)"
    "Q k1 {10} 3" by (auto simp: returns_def)
  from step[OF 1(2)[unfolded n(2)], of 9 "''demo0''" "im_demo0 im"] obtain k2 where 2: "create_and_start (im_texit im) ''demo0'' (im_demo0 im) 9 k1 = Some (Done (), k2)"
    "Q k2 {9, 10} 2" by (auto simp: returns_def)
  from step[OF 2(2)[unfolded n(3)], of 8 "''demo1''" "im_demo1 im"] obtain k3 where 3: "create_and_start (im_texit im) ''demo1'' (im_demo1 im) 8 k2 = Some (Done (), k3)"
    "Q k3 {8, 9, 10} 1" by (auto simp: returns_def)
  from step[OF 3(2)[unfolded n(4)], of 7 "''demo2''" "im_demo2 im"] obtain k4 where 4: "create_and_start (im_texit im) ''demo2'' (im_demo2 im) 7 k3 = Some (Done (), k4)"
    "Q k4 {7, 8, 9, 10} 0" by (auto simp: returns_def)
  have d: "(32 :: u8) div 3 = 10" by simp
  show ?thesis using 4(2) by (auto simp: rt_application_init_def 1(1) 2(1) 3(1) 4(1) d app_priorities_def Q_def R_def)
qed

text \<open>The idle thread joins the others.\<close>

lemma idle_init_boot:
  assumes k: "boot_ok k C" and idle: "idle \<notin> fst ` C" and st: "stack \<noteq> 0" "unat stack + 256 < 2 ^ 32"
  shows "returns (rt_thread_idle_init texit idle entry stack 256 k) (\<lambda>k'. kernel_inv k' \<and> k_current k' = None \<and> k_lock_nest k' = 0 \<and>
     k_interrupt_nest k' = 0 \<and> (\<forall>(t, p)\<in>insert (idle, 31) C. stat k' t = RT_THREAD_READY \<and> prio k' t = p) \<and>
     (\<forall>t. t \<notin> fst ` insert (idle, 31) C \<longrightarrow> stat k' t = RT_THREAD_CLOSE))"
proof -
  define n :: cstr where "n = map (of_nat \<circ> of_char) ''tidle''"
  let ?k = "inited texit idle n entry 0 stack 256 31 32 k"
  have pr: "(31 :: u8) < 32" by simp
  note f = inited_fields[OF st(1) pr, where k = k and t = idle and texit = texit and name = n and e = entry and pa = 0 and stack_size = 256 and tick = 32]
  have inv: "kinv (k_tick k) (HALF - 1) ?k" using k by (intro inited_kinv boot_unused[OF k idle] st pr) (simp add: boot_ok_def)
  have chk: "rt_scheduler_stack_check (thread ?k idle)" using f(4-6) st(2) by (intro new_thread_stack[of _ stack 256]) simp_all
  have g: "k_lock_nest ?k = k_lock_nest k" "k_interrupt_nest ?k = k_interrupt_nest k"
    using st pr by (simp_all add: inited_def rt_thread_init_def rt_thread_init_fields_def Let_def rt_timer_init_def rt_timer_init_fields_def clear_flag_def)
  have cur: "k_current ?k = None" using k by (simp add: f(11) boot_ok_def)
  have pr': "t_init_priority (thread ?k idle) < 32" by (simp add: f(2))
  note su = started_up_kinv[OF inv f(1) pr' chk] and sf = started_up_fields[where t = idle and k = ?k]
  have "\<forall>(t, p)\<in>insert (idle, 31) C. stat (started_up idle ?k) t = RT_THREAD_READY \<and> prio (started_up idle ?k) t = p"
  proof (clarify)
    fix u p assume "(u, p) \<in> insert (idle, 31) C"
    then show "stat (started_up idle ?k) u = RT_THREAD_READY \<and> prio (started_up idle ?k) u = p"
      using su(2,3) f(2) k idle f(3)[of u] sf(3)[of u] by (cases "u = idle") (force simp: boot_ok_def)+
  qed
  moreover have "\<forall>u. u \<notin> fst ` insert (idle, 31) C \<longrightarrow> stat (started_up idle ?k) u = RT_THREAD_CLOSE"
    using k sf(3) f(3) by (auto simp: boot_ok_def)
  moreover have "rt_thread_idle_init texit idle entry stack 256 k = Some (started_up idle ?k)"
    using rt_thread_init_eq[OF st(1) pr, of texit idle n entry 0 256 32 k] cur f(1) by (simp add: rt_thread_idle_init_def n_def[symmetric] rt_thread_startup_eq del: list.map)
  moreover have "k_interrupt_nest k = 0" "k_lock_nest k = 0" using k by (simp_all add: boot_ok_def heap_ready_def)
  ultimately show ?thesis using su(1) cur g by (simp add: sf f(10))
qed

text \<open>The system when it has started: it has no IPC objects yet.\<close>

definition boot_objs :: "image \<Rightarrow> objs" where
  "boot_objs im = \<lparr>ob_sems = {}, ob_mutexes = {}, ob_events = {}, ob_mailboxes = {}, ob_mqs = {}, ob_idle = im_idle im\<rparr>"

text \<open>The memory the linker has laid out: the static variables, among them the idle thread, lie below the heap.\<close>

definition image_ok :: "image \<Rightarrow> bool" where
  "image_ok im \<longleftrightarrow> im_idle im < unat (rt_align (im_bss_end im)) \<and> im_idle_stack im \<noteq> 0 \<and> unat (im_idle_stack im) + 256 < 2 ^ 32 \<and>
     heap_sem < unat (rt_align (im_bss_end im)) \<and> unat (rt_align (im_bss_end im)) + 36 \<le> 0x10010000"

text \<open>The bytes of the heap behind its first header, and whether the four threads of the application fit in.\<close>

definition heap_room :: "image \<Rightarrow> nat" where
  "heap_room im = 0x10010000 - unat (rt_align (im_bss_end im)) - 24"

definition threads_fit :: "image \<Rightarrow> bool" where
  "threads_fit im \<longleftrightarrow> 4 * thread_room + 12 \<le> heap_room im"

lemma threads_fit_tail: "threads_fit im \<Longrightarrow> tail_free h (heap_room im) \<Longrightarrow> tail_free h (4 * thread_room + 12)"
  by (force simp: threads_fit_def tail_free_def)

lemma ready_linked: "sched_inv k \<Longrightarrow> stat k t = RT_THREAD_READY \<Longrightarrow> linked k t"
  using sinv_thread[of UNIV k t] by (auto simp: linked_def thread_ok_def)

lemma startup_threads_returns:
  assumes k: "blank k" "heap_ready k" and im: "image_ok im" and base: "h_ptr (k_heap k) = rt_align (im_bss_end im)"
    and room: "tail_free (k_heap k) (heap_room im)"
  shows "returns (startup_threads im k) (\<lambda>(r, k'). r = Done () \<and> sys_inv (boot_objs im) k' \<and>
     (\<exists>C t. snd ` C \<subseteq> app_priorities \<and> inj_on snd C \<and> (threads_fit im \<longrightarrow> snd ` C = app_priorities) \<and> (\<forall>(u, p)\<in>insert (im_idle im, 31) C. stat k' u = RT_THREAD_READY \<and> prio k' u = p) \<and>
       (\<forall>u. u \<notin> fst ` insert (im_idle im, 31) C \<longrightarrow> stat k' u = RT_THREAD_CLOSE) \<and> k_current k' = Some t \<and> next_to_run k' t))"
proof -
  obtain k1 C where k1: "rt_application_init im (rt_system_scheduler_init k) = Some (Done 0, k1)" "boot_ok k1 C"
    "snd ` C \<subseteq> app_priorities" "inj_on snd C" "h_ptr (k_heap k1) = rt_align (im_bss_end im)"
    "tail_free (k_heap k) (4 * thread_room + 12) \<longrightarrow> snd ` C = app_priorities"
    using application_init_boot[OF scheduler_init_boot[OF k], of im] base by (auto simp: returns_def rt_system_scheduler_init_def)
  have idle: "im_idle im \<notin> fst ` C"
  proof
    assume "im_idle im \<in> fst ` C"
    then obtain a where "im_idle im = unat (rt_align (im_bss_end im)) + a" using k1(2,5) by (fastforce simp: boot_ok_def)
    then show False using im by (simp add: image_ok_def)
  qed
  have st: "im_idle_stack im \<noteq> 0" "unat (im_idle_stack im) + 256 < 2 ^ 32" using im by (simp_all add: image_ok_def)
  obtain k2 where k2: "rt_thread_idle_init (im_texit im) (im_idle im) (im_idle_entry im) (im_idle_stack im) 256 k1 = Some k2"
    "kernel_inv k2" "k_lock_nest k2 = 0" "k_interrupt_nest k2 = 0"
    "\<forall>(t, p)\<in>insert (im_idle im, 31) C. stat k2 t = RT_THREAD_READY \<and> prio k2 t = p"
    "\<forall>t. t \<notin> fst ` insert (im_idle im, 31) C \<longrightarrow> stat k2 t = RT_THREAD_CLOSE"
    using idle_init_boot[OF k1(2) idle st, of "im_texit im" "im_idle_entry im"] by (auto simp: returns_def)
  have inv: "sched_inv k2" by (rule kinvD(1)[OF k2(2)])
  have idr: "stat k2 (im_idle im) = RT_THREAD_READY" using k2(5) by simp
  from first_ready_highest[OF inv idr] obtain t where
    t: "first_ready k2 (of_nat (highest_ready_priority (k_ready_group k2))) = Some t" "next_to_run k2 t" by blast
  let ?k = "k2\<lparr>k_current := Some t\<rparr>"
  have "kinv (k_tick k2) (HALF - 1) ?k \<longleftrightarrow> kernel_inv k2" by (rule kinv_cong) (simp_all add: same_threads_def same_timers_def)
  then have "sys_inv (boot_objs im) ?k"
    using k2 ready_linked[OF inv idr] ready_linked[OF inv, of t] t(2)
    by (simp add: sys_inv_def objs_ok_def boot_objs_def flags_ok_def cur_linked_def linked_def next_to_run_def)
  moreover have "startup_threads im k = Some (Done (), ?k)" using k1(1) k2(1) t(1) by (simp add: startup_threads_def rt_system_scheduler_start_def)
  moreover have "threads_fit im \<longrightarrow> snd ` C = app_priorities" using k1(6) room threads_fit_tail by blast
  moreover have "k_current ?k = Some t" "next_to_run ?k t" using t(2) by (simp_all add: next_to_run_def)
  moreover have "\<forall>(u, p)\<in>insert (im_idle im, 31) C. stat ?k u = RT_THREAD_READY \<and> prio ?k u = p"
    "\<forall>u. u \<notin> fst ` insert (im_idle im, 31) C \<longrightarrow> stat ?k u = RT_THREAD_CLOSE" using k2(5,6) by simp_all
  ultimately show ?thesis unfolding returns_def using k1(3,4) by (intro exI[of _ "(Done (), ?k)"]) blast
qed

text \<open>The heap is set up in the empty system.  What the set-up of the devices then does to the kernel is to enter device
  objects in their container.\<close>

lemma startup_heap_returns:
  assumes k: "blank k" "h_used_mem (k_heap k) = 0" and im: "image_ok im"
  shows "returns (startup_heap im k) (\<lambda>k'. blank k' \<and> heap_ready k' \<and> h_ptr (k_heap k') = rt_align (im_bss_end im) \<and> tail_free (k_heap k') (heap_room im))"
proof -
  let ?b = "im_bss_end im"
  have irq: "k_interrupt_nest k = 0" using k(1) by (simp add: blank_def)
  have e: "rt_align_down LPC1788_SRAM_END = LPC1788_SRAM_END" by (simp add: rt_align_down_def)
  have lo: "heap_sem < unat (rt_align ?b)" "unat (rt_align ?b) + 36 \<le> unat (rt_align_down LPC1788_SRAM_END)"
    using im by (simp_all only: image_ok_def e, simp_all)
  have tf: "tail_free (k_heap x) (heap_room im)" if "heap_ready x \<and> heap_live (k_heap x) = {} \<and> h_ptr (k_heap x) = rt_align ?b \<and>
      unat (h_size (k_heap x)) = unat (rt_align_down LPC1788_SRAM_END) - unat (rt_align ?b) - 24 \<and>
      lowest (k_heap x) (heap_blocks (k_heap x)) \<and> heap_blocks (k_heap x) = [(0, False)]" for x
    using that by (auto simp: tail_free_def heap_ready_def heap_ok_def heap_room_def e intro!: exI[of _ "[]"] exI[of _ "0 :: u32"])
  have r: "returns (startup_heap im k) (\<lambda>k'. heap_ready k' \<and> h_ptr (k_heap k') = rt_align ?b \<and> tail_free (k_heap k') (heap_room im))"
    unfolding startup_heap_def
    by (rule returns_mono[OF heap_init_returns[OF irq k(2) lo]]) (use tf in blast)
  have "always (startup_heap im k) blank"
    using k(1) by (auto simp: startup_heap_def rt_system_heap_init_def always_def Let_def rt_sem_init_def rt_ipc_object_init_def
        set_obj_flag_def blank_def periodic_def upd_sem_def rt_assert_def split: if_splits)
  from returns_always[OF r this] show ?thesis by (rule returns_mono) simp
qed

definition only_devices :: "kernel \<Rightarrow> kernel \<Rightarrow> bool" where
  "only_devices k k' \<longleftrightarrow> (\<exists>f c. k' = k\<lparr>k_objects := f, k_container := c\<rparr> \<and> (\<forall>x. (\<forall>d. x \<noteq> ODevice d) \<longrightarrow> f x = k_objects k x))"

lemma only_devices_refl: "only_devices k k"
  by (auto simp: only_devices_def intro!: exI[of _ "k_objects k"] exI[of _ "k_container k"])

lemma only_devices_keeps:
  assumes "only_devices k k'" "blank k" "heap_ready k"
  shows "blank k'" "heap_ready k'" "k_heap k' = k_heap k"
  using assms by (auto simp: only_devices_def blank_def heap_ready_def periodic_def)

lemma device_register_only:
  assumes "k_current (sys_kernel s) = None"
  shows "returns (rt_device_register (Some p) name flags s) (\<lambda>(r, s'). only_devices (sys_kernel s) (sys_kernel s') \<and> k_current (sys_kernel s') = None)"
proof -
  have "rt_device_find name (sys_kernel s) = Some (Option.bind (find_name name RT_Object_Class_Device (sys_kernel s)) dev_of, sys_kernel s)"
    using assms by (simp add: rt_device_find_def rt_thread_self_def Let_def)
  moreover have "only_devices k (rt_object_init (ODevice p) RT_Object_Class_Device name k)" for k
    by (auto simp: only_devices_def rt_object_init_def Let_def upd_object_def)
  ultimately show ?thesis using assms by (simp add: rt_device_register_def upd_dev_def only_devices_refl)
qed

end
