(* ===== verification/System_Props.thy ===== *)
theory System_Props
  imports Application
begin

text \<open>The theorems on runs of the whole system.\<close>

definition demo_app :: objs where
  "demo_app = \<lparr>ob_sems = {7}, ob_mutexes = {20}, ob_events = {30}, ob_mailboxes = {40}, ob_mqs = {50}, ob_idle = 1\<rparr>"

lemma demo_sys_inv: "sys_inv demo_app demo"
proof -
  have l: "linked demo 1" "linked demo 2"
    by (simp_all add: linked_def demo_tlists_def exI[of _ 31] exI[of _ 10])
  have "mutex_ok demo 20" by (simp add: mutex_ok_def demo_def demo_tlists_def)
  moreover have "sem_ok demo 7" by (simp add: sem_ok_def demo_def)
  moreover have "flags_ok demo_app demo" by (simp add: flags_ok_def demo_app_def demo_objects_def)
  ultimately show ?thesis
    using demo_kernel_inv l demo_mailbox demo_mq
    by (simp add: sys_inv_def objs_ok_def demo_app_def cur_linked_def)
qed

text \<open>C2: In every state the system can reach by calls of its threads, by threads going on after a wait and by ticks, the
  kernel is consistent: the ready queues, masks and timers agree, nobody waits for a semaphore or a mutex that
  could be taken, the mailboxes and message queues are intact, and a ready thread is running.  And it goes on:
  every call the running thread may make, the rest of a call it has waited in, and the clock interrupt return.\<close>

theorem system_invariant:
  assumes "ucb_ok ucb" "ucb_objs A ucb" "sys_inv A k" "(step A ucb)\<^sup>*\<^sup>* (k, \<lambda>_. None) s"
  shows "sys_inv A (fst s) \<and> goes_on A ucb s"
proof -
  have "run_inv A s" by (rule run_keeps[OF assms(1,2,4)]) (simp add: run_inv_def assms(3))
  then show ?thesis using run_goes_on[OF assms(1,2)] by (simp add: run_inv_def)
qed

theorem system_invariant_witness:
  "\<exists>k P. (step demo_app (\<lambda>a p k. Some k))\<^sup>*\<^sup>* (demo, \<lambda>_. None) (k, P) \<and> P 2 = Some (Sem_take 7 10, 4) \<and> k_tick k = 5 \<and>
     sys_inv demo_app k \<and> goes_on demo_app (\<lambda>a p k. Some k) (k, P)"
proof -
  let ?u = "\<lambda>a p k. Some k :: kernel option"
  have u: "ucb_ok ?u" "ucb_objs demo_app ?u" by (rule ucb_ok_skip) (simp add: ucb_objs_def)
  have al: "allowed demo_app (Sem_take 7 10) demo" by (simp add: allowed_def demo_app_def time_ok_def)
  have "returns (rt_sem_take 7 10 demo) (\<lambda>(r, k'). r = Blocked \<and> k_tick k' = 4)"
    by (rule returns_mono[OF sem_take_blocks[OF demo_kernel_inv _ _ _ _ demo_may_block]])
      (auto simp: demo_def time_ok_def demo_objects_def waiting_defs same_objs_def)
  then obtain k1 where k1: "exec (Sem_take 7 10) demo = Some (True, k1)" "k_tick k1 = 4" by (auto simp: returns_def waits_def)
  have inv1: "sys_inv demo_app k1" using exec_keeps[OF demo_sys_inv al, unfolded k1(1)] by (simp add: keeps_def)
  from tick_keeps[OF inv1 u] obtain k2 where k2: "SysTick_Handler ?u k1 = Some k2" "k_tick k2 = 5" using k1(2) by (auto simp: returns_def)
  let ?P = "(\<lambda>_. None)(2 := Some (Sem_take 7 10, 4 :: u32))"
  have "step demo_app ?u (demo, \<lambda>_. None) (k1, ?P)"
    using step_call[of demo 2 "\<lambda>_. None" demo_app "Sem_take 7 10" True k1 ?u] al k1(1) by simp
  moreover have "step demo_app ?u (k1, ?P) (k2, ?P)" by (rule step_tick[OF k2(1)])
  ultimately have run: "(step demo_app ?u)\<^sup>*\<^sup>* (demo, \<lambda>_. None) (k2, ?P)" by simp
  then show ?thesis using system_invariant[OF u demo_sys_inv run] k2(2) by (intro exI[of _ k2] exI[of _ ?P]) simp
qed

section \<open>From the start on\<close>

text \<open>The idle thread and the threads \<open>C\<close> of the application, with their priorities, are ready, there is no other thread,
  and the first thread of the highest priority runs.\<close>

definition started_with :: "image \<Rightarrow> (tid \<times> u8) set \<Rightarrow> kernel \<Rightarrow> bool" where
  "started_with im C k \<longleftrightarrow> snd ` C \<subseteq> {7, 8, 9, 10} \<and> inj_on snd C \<and>
     (\<forall>(u, p)\<in>insert (im_idle im, 31) C. stat k u = RT_THREAD_READY \<and> prio k u = p) \<and>
     (\<forall>u. u \<notin> fst ` insert (im_idle im, 31) C \<longrightarrow> stat k u = RT_THREAD_CLOSE) \<and> (\<exists>t. k_current k = Some t \<and> next_to_run k t)"

definition safe_runs :: "objs \<Rightarrow> (ptr \<Rightarrow> ptr \<Rightarrow> kernel \<Rightarrow> kernel option) \<Rightarrow> kernel \<Rightarrow> bool" where
  "safe_runs A ucb k \<longleftrightarrow> (\<forall>s. (step A ucb)\<^sup>*\<^sup>* (k, \<lambda>_. None) s \<longrightarrow> sys_inv A (fst s) \<and> goes_on A ucb s)"

lemma sys_inv_safe_runs: "ucb_ok ucb \<Longrightarrow> ucb_objs A ucb \<Longrightarrow> sys_inv A k \<Longrightarrow> safe_runs A ucb k"
  using run_keeps[of ucb A "(k, \<lambda>_. None)"] run_goes_on[of ucb A] by (auto simp: safe_runs_def run_inv_def)

lemma safe_runs_now: "safe_runs A ucb k \<Longrightarrow> sys_inv A k \<and> goes_on A ucb (k, \<lambda>_. None)"
  by (force simp: safe_runs_def)

text \<open>C3: The start of the system, from memory in which there is no thread: setting up the heap returns, and after the
  devices have been entered the creation of the threads and the start of the scheduler return.  Then the idle
  thread and those threads of the application for which there was memory are ready at the priorities the code gives
  them, all four where the heap is large enough, no other thread exists, and the first thread of the highest priority runs.  Every state the system reaches
  from there is consistent, and it goes on.\<close>

theorem startup_runs:
  assumes k: "blank k" "h_used_mem (k_heap k) = 0" and im: "image_ok im" and ucb: "ucb_ok ucb" "ucb_objs (boot_objs im) ucb"
  shows "returns (startup_heap im k) (\<lambda>k1. \<forall>k2. only_devices k1 k2 \<longrightarrow> returns (startup_threads im k2) (\<lambda>(r, k3).
     r = Done () \<and> (\<exists>C. started_with im C k3 \<and> (threads_fit im \<longrightarrow> snd ` C = {7, 8, 9, 10})) \<and> safe_runs (boot_objs im) ucb k3))"
proof (rule returns_mono[OF startup_heap_returns[OF k im]], intro allI impI)
  fix k1 k2 assume k1: "blank k1 \<and> heap_ready k1 \<and> h_ptr (k_heap k1) = rt_align (im_bss_end im) \<and> tail_free (k_heap k1) (heap_room im)" and d: "only_devices k1 k2"
  note k2 = only_devices_keeps[OF d conjunct1[OF k1] conjunct1[OF conjunct2[OF k1]]]
  have base: "h_ptr (k_heap k2) = rt_align (im_bss_end im)" "tail_free (k_heap k2) (heap_room im)" using k1 k2(3) by simp_all
  show "returns (startup_threads im k2) (\<lambda>(r, k3). r = Done () \<and> (\<exists>C. started_with im C k3 \<and> (threads_fit im \<longrightarrow> snd ` C = {7, 8, 9, 10})) \<and>
     safe_runs (boot_objs im) ucb k3)"
    by (rule returns_mono[OF startup_threads_returns[OF k2(1,2) im base]])
      (auto simp: app_priorities_def started_with_def intro: sys_inv_safe_runs[OF ucb])
qed

text \<open>The demonstration as it was linked, and the memory before it starts.\<close>

definition demo_image :: image where
  "demo_image = \<lparr>im_texit = 0x1001, im_thread_entry = 0x2000, im_demo0 = 0x2100, im_demo1 = 0x2200, im_demo2 = 0x2300,
     im_idle_entry = 0x1800, im_idle = 0x10000400, im_idle_stack = 0x10000500, im_bss_end = 0x10001002\<rparr>"

definition demo_blank :: kernel where
  "demo_blank = demo\<lparr>k_threads := (\<lambda>_. demo_thread RT_THREAD_CLOSE 0), k_tlists := (\<lambda>_. []), k_timer_list := [],
     k_objects := (\<lambda>_. \<lparr>o_name = [], o_type = 0, o_flag = 0\<rparr>), k_current := None\<rparr>"

theorem startup_runs_witness:
  "returns (startup_heap demo_image demo_blank) (\<lambda>k1. returns (startup_threads demo_image k1) (\<lambda>(r, k3). r = Done () \<and>
     (\<exists>C. started_with demo_image C k3 \<and> snd ` C = {7, 8, 9, 10}) \<and> sys_inv (boot_objs demo_image) k3 \<and> goes_on (boot_objs demo_image) (\<lambda>a p k. Some k) (k3, \<lambda>_. None)))"
proof -
  let ?u = "\<lambda>a p k. Some k :: kernel option"
  have u: "ucb_ok ?u" "ucb_objs (boot_objs demo_image) ?u" by (rule ucb_ok_skip) (simp add: ucb_objs_def)
  have b: "blank demo_blank" "h_used_mem (k_heap demo_blank) = 0"
    by (simp_all add: blank_def demo_blank_def periodic_def demo_def demo_heap_def demo_thread_def)
  have fit: "threads_fit demo_image" by (simp add: threads_fit_def thread_room_def heap_room_def demo_image_def rt_align_def)
  have "image_ok demo_image" by (simp add: image_ok_def demo_image_def rt_align_def)
  from startup_runs[OF b this u] obtain k1 where k1: "startup_heap demo_image demo_blank = Some k1"
    "returns (startup_threads demo_image k1) (\<lambda>(r, k3). r = Done () \<and> (\<exists>C. started_with demo_image C k3 \<and> snd ` C = {7, 8, 9, 10}) \<and> safe_runs (boot_objs demo_image) ?u k3)"
    using only_devices_refl fit by (auto simp: returns_def[of "startup_heap demo_image demo_blank"])
  from k1(2) have "returns (startup_threads demo_image k1) (\<lambda>(r, k3). r = Done () \<and> (\<exists>C. started_with demo_image C k3 \<and> snd ` C = {7, 8, 9, 10}) \<and>
     sys_inv (boot_objs demo_image) k3 \<and> goes_on (boot_objs demo_image) ?u (k3, \<lambda>_. None))"
    by (rule returns_mono) (use safe_runs_now in blast)
  then show ?thesis by (simp add: k1(1))
qed

end
