(* ===== verification/Memheap.thy ===== *)
theory Memheap
  imports Device
begin

unbundle bit_operations_syntax

text \<open>
  Memory heaps, \<^verbatim>\<open>src/memheap.c\<close>: an allocator for any number of memory regions.  The blocks of a region are a
  ring in the order of their addresses, closed by a tailer that is always in use; the free blocks are a
  second ring that starts at a header inside \<^verbatim>\<open>struct rt_memheap\<close>.  Addresses are words; the items of all
  regions, and the headers of their free lists, are one store.  Each heap is locked by a mutex of its own.
\<close>

section \<open>Structures\<close>

record rt_memheap_item =
  mi_magic :: u32
  mi_next :: u32
  mi_prev :: u32
  mi_next_free :: u32
  mi_prev_free :: u32
  mi_pool_ptr :: ptr

record rt_memheap =
  mh_start_addr :: u32
  mh_pool_size :: u32
  mh_available_size :: u32
  mh_block_list :: u32
  mh_free_list :: u32

record memheaps =
  ms_item :: "u32 \<Rightarrow> rt_memheap_item"
  ms_heap :: "ptr \<Rightarrow> rt_memheap"

abbreviation RT_MEMHEAP_MAGIC :: u32 where "RT_MEMHEAP_MAGIC \<equiv> 0x1ea01ea0"
abbreviation RT_MEMHEAP_MASK :: u32 where "RT_MEMHEAP_MASK \<equiv> 0xfffffffe"
abbreviation RT_MEMHEAP_USED :: u32 where "RT_MEMHEAP_USED \<equiv> 1"
abbreviation RT_MEMHEAP_MINIALLOC :: u32 where "RT_MEMHEAP_MINIALLOC \<equiv> 12"
abbreviation RT_MEMHEAP_SIZE :: u32 where "RT_MEMHEAP_SIZE \<equiv> 24"

definition RT_MEMHEAP_IS_USED :: "rt_memheap_item \<Rightarrow> bool" where
  "RT_MEMHEAP_IS_USED i \<longleftrightarrow> mi_magic i AND RT_MEMHEAP_USED \<noteq> 0"

text \<open>The members \<^verbatim>\<open>free_header\<close> and \<^verbatim>\<open>lock\<close> of a heap: they lie behind the 16 bytes of the object and five words, and
  behind the header.\<close>

definition free_header :: "ptr \<Rightarrow> u32" where
  "free_header p = of_nat (p + 36)"

definition memheap_lock :: "ptr \<Rightarrow> ptr" where
  "memheap_lock p = p + 60"

definition upd_item :: "u32 \<Rightarrow> (rt_memheap_item \<Rightarrow> rt_memheap_item) \<Rightarrow> memheaps \<Rightarrow> memheaps" where
  "upd_item x f s = s\<lparr>ms_item := (ms_item s)(x := f (ms_item s x))\<rparr>"

definition upd_memheap :: "ptr \<Rightarrow> (rt_memheap \<Rightarrow> rt_memheap) \<Rightarrow> memheaps \<Rightarrow> memheaps" where
  "upd_memheap p f s = s\<lparr>ms_heap := (ms_heap s)(p := f (ms_heap s p))\<rparr>"

section \<open>The code\<close>

text \<open>The four stores that put an item behind the header of the free list, and the two that take one out.\<close>

definition free_insert :: "ptr \<Rightarrow> u32 \<Rightarrow> memheaps \<Rightarrow> memheaps" where
  "free_insert p x s =
     (let fl = mh_free_list (ms_heap s p);
          s1 = upd_item x (\<lambda>i. i\<lparr>mi_next_free := mi_next_free (ms_item s fl)\<rparr>) s;
          s2 = upd_item x (\<lambda>i. i\<lparr>mi_prev_free := fl\<rparr>) s1;
          s3 = upd_item (mi_next_free (ms_item s2 fl)) (\<lambda>i. i\<lparr>mi_prev_free := x\<rparr>) s2
      in upd_item fl (\<lambda>i. i\<lparr>mi_next_free := x\<rparr>) s3)"

definition free_remove :: "u32 \<Rightarrow> memheaps \<Rightarrow> memheaps" where
  "free_remove x s =
     (let s1 = upd_item (mi_next_free (ms_item s x)) (\<lambda>i. i\<lparr>mi_prev_free := mi_prev_free (ms_item s x)\<rparr>) s
      in upd_item (mi_prev_free (ms_item s1 x)) (\<lambda>i. i\<lparr>mi_next_free := mi_next_free (ms_item s1 x)\<rparr>) s1)"

text \<open>The stores of \<^verbatim>\<open>rt_memheap_init\<close>.\<close>

definition memheap_format :: "ptr \<Rightarrow> u32 \<Rightarrow> u32 \<Rightarrow> memheaps \<Rightarrow> memheaps" where
  "memheap_format p start sz s =
     (let s1 = upd_memheap p (\<lambda>h. h\<lparr>mh_start_addr := start, mh_pool_size := rt_align_down sz\<rparr>) s;
          s2 = upd_memheap p (\<lambda>h. h\<lparr>mh_available_size := mh_pool_size h - 2 * RT_MEMHEAP_SIZE\<rparr>) s1;
          s3 = upd_item (free_header p) (\<lambda>_. \<lparr>mi_magic = RT_MEMHEAP_MAGIC, mi_next = 0, mi_prev = 0,
                 mi_next_free = free_header p, mi_prev_free = free_header p, mi_pool_ptr = p\<rparr>) s2;
          s4 = upd_memheap p (\<lambda>h. h\<lparr>mh_free_list := free_header p\<rparr>) s3;
          s5 = upd_item start (\<lambda>_. \<lparr>mi_magic = RT_MEMHEAP_MAGIC, mi_next = 0, mi_prev = 0,
                 mi_next_free = start, mi_prev_free = start, mi_pool_ptr = p\<rparr>) s4;
          s6 = upd_item start (\<lambda>i. i\<lparr>mi_next := start + mh_available_size (ms_heap s5 p) + RT_MEMHEAP_SIZE\<rparr>) s5;
          s7 = upd_item start (\<lambda>i. i\<lparr>mi_prev := mi_next i\<rparr>) s6;
          s8 = upd_memheap p (\<lambda>h. h\<lparr>mh_block_list := start\<rparr>) s7;
          s9 = free_insert p start s8
      in upd_item (mi_next (ms_item s9 start)) (\<lambda>_. \<lparr>mi_magic = RT_MEMHEAP_MAGIC OR RT_MEMHEAP_USED,
           mi_next = start, mi_prev = start, mi_next_free = 0, mi_prev_free = 0, mi_pool_ptr = p\<rparr>) s9)"

definition rt_memheap_init :: "ptr \<Rightarrow> cstr \<Rightarrow> u32 \<Rightarrow> u32 \<Rightarrow> memheaps sys \<Rightarrow> rt_err \<times> memheaps sys" where
  "rt_memheap_init p name start sz s =
     (let s1 = s\<lparr>sys_kernel := rt_object_init (OMemHeap p) RT_Object_Class_MemHeap name (sys_kernel s)\<rparr>;
          s2 = s1\<lparr>sys_drv := memheap_format p start sz (sys_drv s1)\<rparr>
      in (RT_EOK, s2\<lparr>sys_kernel := rt_mutex_init (memheap_lock p) name RT_IPC_FLAG_FIFO (sys_kernel s2)\<rparr>))"

definition rt_memheap_detach :: "ptr \<Rightarrow> memheaps sys \<Rightarrow> rt_err \<times> memheaps sys" where
  "rt_memheap_detach p s =
     (let k1 = rt_object_detach (OMutex (memheap_lock p)) (sys_kernel s)
      in (RT_EOK, s\<lparr>sys_kernel := rt_object_detach (OMemHeap p) k1\<rparr>))"

text \<open>The search in the free list; it gives the item where it stopped and the size it saw last.\<close>

partial_function (option) memheap_search :: "u32 \<Rightarrow> u32 \<Rightarrow> u32 \<Rightarrow> u32 \<Rightarrow> memheaps \<Rightarrow> (u32 \<times> u32) option" where
  "memheap_search fl sz header_ptr free_size s =
     (if header_ptr \<noteq> fl \<and> free_size < sz then
        let n = mi_next (ms_item s header_ptr) - header_ptr - RT_MEMHEAP_SIZE
        in memheap_search fl sz (if n < sz then mi_next_free (ms_item s header_ptr) else header_ptr) n s
      else Some (header_ptr, free_size))"

text \<open>Taking \<open>sz\<close> of the \<open>free_size\<close> bytes of a free block: the block is split or taken whole.\<close>

definition memheap_split :: "ptr \<Rightarrow> u32 \<Rightarrow> u32 \<Rightarrow> memheaps \<Rightarrow> memheaps" where
  "memheap_split p header_ptr sz s =
     (let new_ptr = header_ptr + sz + RT_MEMHEAP_SIZE;
          s1 = upd_item new_ptr (\<lambda>i. i\<lparr>mi_magic := RT_MEMHEAP_MAGIC, mi_pool_ptr := p\<rparr>) s;
          s2 = upd_item new_ptr (\<lambda>i. i\<lparr>mi_prev := header_ptr\<rparr>) s1;
          s3 = upd_item new_ptr (\<lambda>i. i\<lparr>mi_next := mi_next (ms_item s2 header_ptr)\<rparr>) s2;
          s4 = upd_item (mi_next (ms_item s3 header_ptr)) (\<lambda>i. i\<lparr>mi_prev := new_ptr\<rparr>) s3;
          s5 = upd_item header_ptr (\<lambda>i. i\<lparr>mi_next := new_ptr\<rparr>) s4;
          s6 = free_remove header_ptr s5;
          s7 = upd_item header_ptr (\<lambda>i. i\<lparr>mi_next_free := 0, mi_prev_free := 0\<rparr>) s6;
          s8 = free_insert p new_ptr s7
      in upd_memheap p (\<lambda>h. h\<lparr>mh_available_size := mh_available_size h - sz - RT_MEMHEAP_SIZE\<rparr>) s8)"

definition memheap_carve :: "ptr \<Rightarrow> u32 \<Rightarrow> u32 \<Rightarrow> u32 \<Rightarrow> memheaps \<Rightarrow> memheaps" where
  "memheap_carve p header_ptr free_size sz s =
     (if free_size \<ge> sz + RT_MEMHEAP_SIZE + RT_MEMHEAP_MINIALLOC then memheap_split p header_ptr sz s
      else
        let s1 = upd_memheap p (\<lambda>h. h\<lparr>mh_available_size := mh_available_size h - free_size\<rparr>) s;
            s2 = free_remove header_ptr s1
        in upd_item header_ptr (\<lambda>i. i\<lparr>mi_next_free := 0, mi_prev_free := 0\<rparr>) s2)"

definition mark_used :: "u32 \<Rightarrow> memheaps \<Rightarrow> memheaps" where
  "mark_used x = upd_item x (\<lambda>i. i\<lparr>mi_magic := mi_magic i OR RT_MEMHEAP_USED\<rparr>)"

definition memheap_unlock :: "ptr \<Rightarrow> memheaps sys \<Rightarrow> memheaps sys option" where
  "memheap_unlock p s =
     do { (r, k) \<leftarrow> rt_mutex_release (memheap_lock p) (sys_kernel s); Some (s\<lparr>sys_kernel := k\<rparr>) }"

text \<open>\<^verbatim>\<open>rt_memheap_alloc\<close> from the point where its wait for the lock has ended with \<open>result\<close>.  The block is marked after
  the lock has been given back.\<close>

definition rt_memheap_alloc_taken :: "ptr \<Rightarrow> u32 \<Rightarrow> rt_err \<Rightarrow> memheaps sys \<Rightarrow> (u32 outcome \<times> memheaps sys) option" where
  "rt_memheap_alloc_taken p sz result s =
     (if result \<noteq> RT_EOK then Some (Done 0, rt_set_errno result s)
      else do {
        let fl = mh_free_list (ms_heap (sys_drv s) p);
        (header_ptr, free_size) \<leftarrow> memheap_search fl sz (mi_next_free (ms_item (sys_drv s) fl)) 0 (sys_drv s);
        if free_size \<ge> sz then do {
          s1 \<leftarrow> memheap_unlock p (s\<lparr>sys_drv := memheap_carve p header_ptr free_size sz (sys_drv s)\<rparr>);
          Some (Done (header_ptr + RT_MEMHEAP_SIZE), s1\<lparr>sys_drv := mark_used header_ptr (sys_drv s1)\<rparr>) }
        else do { s1 \<leftarrow> memheap_unlock p s; Some (Done 0, s1) } })"

definition take_lock :: "ptr \<Rightarrow> memheaps sys \<Rightarrow> (rt_err outcome \<times> memheaps sys) option" where
  "take_lock p s =
     do { (r, k) \<leftarrow> rt_mutex_take (memheap_lock p) RT_WAITING_FOREVER (sys_kernel s); Some (r, s\<lparr>sys_kernel := k\<rparr>) }"

definition memheap_request :: "u32 \<Rightarrow> u32" where
  "memheap_request n = (if rt_align n < RT_MEMHEAP_MINIALLOC then RT_MEMHEAP_MINIALLOC else rt_align n)"

definition rt_memheap_alloc :: "ptr \<Rightarrow> u32 \<Rightarrow> memheaps sys \<Rightarrow> (u32 outcome \<times> memheaps sys) option" where
  "rt_memheap_alloc p n s =
     (let sz = memheap_request n
      in if sz < mh_available_size (ms_heap (sys_drv s) p)
         then bind_done (take_lock p s) (rt_memheap_alloc_taken p sz)
         else Some (Done 0, s))"

text \<open>The parts of \<^verbatim>\<open>rt_memheap_free\<close>: merging with the left neighbour gives the item to go on with and whether it
  has to be put in the free list; then the right neighbour is merged.\<close>

definition merge_left :: "ptr \<Rightarrow> u32 \<Rightarrow> memheaps \<Rightarrow> u32 \<times> bool \<times> memheaps" where
  "merge_left p x s =
     (if \<not> RT_MEMHEAP_IS_USED (ms_item s (mi_prev (ms_item s x))) then
        let s1 = upd_memheap p (\<lambda>h. h\<lparr>mh_available_size := mh_available_size h + RT_MEMHEAP_SIZE\<rparr>) s;
            s2 = upd_item (mi_prev (ms_item s1 x)) (\<lambda>i. i\<lparr>mi_next := mi_next (ms_item s1 x)\<rparr>) s1;
            s3 = upd_item (mi_next (ms_item s2 x)) (\<lambda>i. i\<lparr>mi_prev := mi_prev (ms_item s2 x)\<rparr>) s2
        in (mi_prev (ms_item s3 x), False, s3)
      else (x, True, s))"

definition merge_right :: "ptr \<Rightarrow> u32 \<Rightarrow> memheaps \<Rightarrow> memheaps" where
  "merge_right p x s =
     (if \<not> RT_MEMHEAP_IS_USED (ms_item s (mi_next (ms_item s x))) then
        let s1 = upd_memheap p (\<lambda>h. h\<lparr>mh_available_size := mh_available_size h + RT_MEMHEAP_SIZE\<rparr>) s;
            new_ptr = mi_next (ms_item s1 x);
            s2 = upd_item (mi_next (ms_item s1 new_ptr)) (\<lambda>i. i\<lparr>mi_prev := x\<rparr>) s1;
            s3 = upd_item x (\<lambda>i. i\<lparr>mi_next := mi_next (ms_item s2 new_ptr)\<rparr>) s2
        in free_remove new_ptr s3
      else s)"

definition memheap_release :: "ptr \<Rightarrow> u32 \<Rightarrow> memheaps \<Rightarrow> memheaps" where
  "memheap_release p x s =
     (let s1 = upd_item x (\<lambda>i. i\<lparr>mi_magic := mi_magic i AND NOT RT_MEMHEAP_USED\<rparr>) s;
          s2 = upd_memheap p (\<lambda>h. h\<lparr>mh_available_size :=
                 mh_available_size h + (mi_next (ms_item s1 x) - x) - RT_MEMHEAP_SIZE\<rparr>) s1;
          (y, insert_header, s3) = merge_left p x s2;
          s4 = merge_right p y s3
      in if insert_header then free_insert p y s4 else s4)"

definition rt_memheap_free_taken :: "ptr \<Rightarrow> u32 \<Rightarrow> rt_err \<Rightarrow> memheaps sys \<Rightarrow> (unit outcome \<times> memheaps sys) option" where
  "rt_memheap_free_taken p x result s =
     (if result \<noteq> RT_EOK then Some (Done (), rt_set_errno result s)
      else do { s1 \<leftarrow> memheap_unlock p (s\<lparr>sys_drv := memheap_release p x (sys_drv s)\<rparr>); Some (Done (), s1) })"

definition rt_memheap_free :: "u32 \<Rightarrow> memheaps sys \<Rightarrow> (unit outcome \<times> memheaps sys) option" where
  "rt_memheap_free mem s =
     do { let x = mem - RT_MEMHEAP_SIZE;
          rt_assert (mi_magic (ms_item (sys_drv s) x) AND RT_MEMHEAP_MASK = RT_MEMHEAP_MAGIC);
          let p = mi_pool_ptr (ms_item (sys_drv s) x);
          bind_done (take_lock p s) (rt_memheap_free_taken p x) }"

lemma upd_item_fields [simp]:
  "ms_item (upd_item x f s) = (ms_item s)(x := f (ms_item s x))" "ms_heap (upd_item x f s) = ms_heap s"
  by (simp_all add: upd_item_def)

lemma upd_memheap_fields [simp]:
  "ms_heap (upd_memheap p f s) = (ms_heap s)(p := f (ms_heap s p))" "ms_item (upd_memheap p f s) = ms_item s"
  by (simp_all add: upd_memheap_def)


section \<open>The free list\<close>

text \<open>The pointers of the free list are a ring of the kind of theory \<open>Rt_List\<close>.\<close>

definition links :: "(u32 \<Rightarrow> rt_memheap_item) \<Rightarrow> (unit, u32) lheap" where
  "links m = \<lparr>l_next = (\<lambda>n. case n of Node x \<Rightarrow> Node (mi_next_free (m x)) | Head h \<Rightarrow> Head h),
              l_prev = (\<lambda>n. case n of Node x \<Rightarrow> Node (mi_prev_free (m x)) | Head h \<Rightarrow> Head h)\<rparr>"

definition frep :: "(u32 \<Rightarrow> rt_memheap_item) \<Rightarrow> u32 \<Rightarrow> u32 list \<Rightarrow> bool" where
  "frep m fl fs \<longleftrightarrow> distinct (fl # fs) \<and> chain (links m) (Node fl) (map Node fs) (Node fl)"

lemma links_node [simp]:
  "l_next (links m) (Node x) = Node (mi_next_free (m x))" "l_prev (links m) (Node x) = Node (mi_prev_free (m x))"
  by (simp_all add: links_def)

lemma chain_links_cong:
  "\<forall>y\<in>set (a # xs). mi_next_free (m' y) = mi_next_free (m y) \<Longrightarrow> \<forall>y\<in>set (xs @ [b]). mi_prev_free (m' y) = mi_prev_free (m y) \<Longrightarrow>
   chain (links m) (Node a) (map Node xs) (Node b) \<Longrightarrow> chain (links m') (Node a) (map Node xs) (Node b)"
  by (induction xs arbitrary: a) auto

lemma frep_cong:
  "frep m fl fs \<Longrightarrow> (\<And>y. y \<in> set (fl # fs) \<Longrightarrow> mi_next_free (m' y) = mi_next_free (m y) \<and> mi_prev_free (m' y) = mi_prev_free (m y)) \<Longrightarrow>
   frep m' fl fs"
  unfolding frep_def by (elim conjE, intro conjI chain_links_cong[of fl fs m' m]) auto

lemma free_insert_fields [simp]:
  "ms_heap (free_insert p x s) = ms_heap s" "mi_magic (ms_item (free_insert p x s) y) = mi_magic (ms_item s y)"
  "mi_next (ms_item (free_insert p x s) y) = mi_next (ms_item s y)" "mi_prev (ms_item (free_insert p x s) y) = mi_prev (ms_item s y)"
  "mi_pool_ptr (ms_item (free_insert p x s) y) = mi_pool_ptr (ms_item s y)"
  by (simp_all add: free_insert_def Let_def)

lemma free_remove_fields [simp]:
  "ms_heap (free_remove x s) = ms_heap s" "mi_magic (ms_item (free_remove x s) y) = mi_magic (ms_item s y)"
  "mi_next (ms_item (free_remove x s) y) = mi_next (ms_item s y)" "mi_prev (ms_item (free_remove x s) y) = mi_prev (ms_item s y)"
  "mi_pool_ptr (ms_item (free_remove x s) y) = mi_pool_ptr (ms_item s y)"
  by (simp_all add: free_remove_def Let_def)

lemma frep_insert:
  assumes f: "frep (ms_item s) fl fs" and fl: "fl = mh_free_list (ms_heap s p)" and x: "x \<notin> set (fl # fs)"
  shows "frep (ms_item (free_insert p x s)) fl (x # fs)"
proof -
  let ?l = "links (ms_item s)"
  have hd: "hd (map Node fs @ [Node fl]) = l_next ?l (Node fl)"
    using chain_first[of ?l "Node fl" "map Node fs" "Node fl"] f by (simp add: frep_def)
  then have "mi_next_free (ms_item s fl) \<in> set (fl # fs)" by (cases fs) auto
  then have "links (ms_item (free_insert p x s)) = link (Node fl) (Node x) (link (Node x) (l_next ?l (Node fl)) ?l)"
    using x by (intro lheap_eqI ext) (auto simp: fl free_insert_def Let_def links_def split: lnode.splits)
  then show ?thesis
    using hd ring_link_between[of ?l "Node fl" "[]" "map Node fs" "Node fl" "Node x"] f x
    by (auto simp: frep_def distinct_map inj_on_def)
qed

lemma frep_remove:
  assumes f: "frep (ms_item s) fl (xs @ x # ys)"
  shows "frep (ms_item (free_remove x s)) fl (xs @ ys)"
proof -
  let ?l = "links (ms_item s)"
  have "links (ms_item (free_remove x s)) = link (l_prev ?l (Node x)) (l_next ?l (Node x)) ?l"
    by (intro lheap_eqI ext) (auto simp: free_remove_def Let_def links_def split: lnode.splits)
  moreover have "l_prev ?l (Node x) = last (Node fl # map Node xs)" "l_next ?l (Node x) = hd (map Node ys @ [Node fl])"
    using f chain_last[of ?l "Node fl" "map Node xs" "Node x"] chain_first[of ?l "Node x" "map Node ys" "Node fl"]
    by (auto simp: frep_def chain_append)
  moreover have "chain (link (last (Node fl # map Node xs)) (hd (map Node ys @ [Node fl])) ?l) (Node fl) (map Node xs @ map Node ys) (Node fl)"
    using f by (intro ring_skip[of _ _ _ "Node x"]) (auto simp: frep_def distinct_map inj_on_def)
  ultimately show ?thesis using f by (simp add: frep_def)
qed

text \<open>The search ends: at the first free block that is large enough, or at the header with the size of the last one.\<close>

definition room :: "(u32 \<Rightarrow> rt_memheap_item) \<Rightarrow> u32 \<Rightarrow> u32" where
  "room m x = mi_next (m x) - x - RT_MEMHEAP_SIZE"

lemma memheap_search_returns:
  assumes f: "frep (ms_item s) fl (xs @ ys)" and n: "n < sz"
  shows "returns (memheap_search fl sz (hd (ys @ [fl])) n s) (\<lambda>(x, n'). if n' \<ge> sz then x \<in> set ys \<and> n' = room (ms_item s) x
     else \<forall>y\<in>set ys. room (ms_item s) y < sz)"
  using f n
proof (induction ys arbitrary: xs n)
  case Nil
  then show ?case by (subst memheap_search.simps) auto
next
  case (Cons y ys)
  have y: "y \<noteq> fl" using Cons.prems(1) by (auto simp: frep_def)
  have nx: "mi_next_free (ms_item s y) = hd (ys @ [fl])"
    using Cons.prems(1) chain_first[of "links (ms_item s)" "Node y" "map Node ys" "Node fl"]
    by (cases ys) (auto simp: frep_def chain_append)
  let ?r = "room (ms_item s) y"
  have step: "memheap_search fl sz (hd ((y # ys) @ [fl])) n s = memheap_search fl sz (if ?r < sz then hd (ys @ [fl]) else y) ?r s"
    using y Cons.prems(2) by (subst memheap_search.simps) (simp add: room_def nx Let_def)
  show ?case
  proof (cases "?r < sz")
    case True
    have "frep (ms_item s) fl ((xs @ [y]) @ ys)" using Cons.prems(1) by simp
    from Cons.IH[OF this True] show ?thesis unfolding step using True by (auto elim!: returns_mono split: if_splits)
  next
    case False
    then have "memheap_search fl sz y ?r s = Some (y, ?r)" by (subst memheap_search.simps) simp
    then show ?thesis unfolding step using False by simp
  qed
qed


section \<open>The region\<close>

text \<open>The blocks of a region form a chain like that of the small allocator, with larger headers.\<close>

definition headers :: "(u32 \<Rightarrow> rt_memheap_item) \<Rightarrow> u32 \<Rightarrow> heap_mem" where
  "headers m x = \<lparr>hm_magic = HEAP_MAGIC, hm_used = (if RT_MEMHEAP_IS_USED (m x) then 1 else 0), hm_next = mi_next (m x),
     hm_prev = mi_prev (m x)\<rparr>"

definition item_ok :: "ptr \<Rightarrow> rt_memheap_item \<Rightarrow> u32 \<Rightarrow> bool \<Rightarrow> bool" where
  "item_ok p i x u \<longleftrightarrow> mi_magic i = (if u then RT_MEMHEAP_MAGIC OR RT_MEMHEAP_USED else RT_MEMHEAP_MAGIC) \<and> mi_pool_ptr i = p \<and>
     unat x + 36 \<le> unat (mi_next i)"

definition region :: "ptr \<Rightarrow> (u32 \<Rightarrow> rt_memheap_item) \<Rightarrow> u32 \<Rightarrow> block list \<Rightarrow> u32 \<Rightarrow> bool" where
  "region p m start bs e \<longleftrightarrow> hrep (headers m) e start bs e \<and> (\<forall>(x, u)\<in>set bs. item_ok p (m x) x u) \<and>
     mi_next (m e) = start \<and> mi_prev (m e) = last_block e bs \<and> RT_MEMHEAP_IS_USED (m e)"

lemma headers_fields [simp]:
  "hm_next (headers m x) = mi_next (m x)" "hm_prev (headers m x) = mi_prev (m x)" "hm_used (headers m x) = 0 \<longleftrightarrow> \<not> RT_MEMHEAP_IS_USED (m x)"
  "hm_magic (headers m x) = HEAP_MAGIC"
  by (simp_all add: headers_def)

lemma headers_eqI:
  "mi_next (m' x) = mi_next (m x) \<Longrightarrow> mi_prev (m' x) = mi_prev (m x) \<Longrightarrow> mi_magic (m' x) = mi_magic (m x) \<Longrightarrow> headers m' x = headers m x"
  by (simp add: headers_def RT_MEMHEAP_IS_USED_def)

lemma used_magic:
  "RT_MEMHEAP_IS_USED i \<longleftrightarrow> u" if "item_ok p i x u"
  using that by (cases u) (simp_all add: item_ok_def RT_MEMHEAP_IS_USED_def)

lemma region_cong:
  assumes "region p m start bs e"
    "\<And>y. y \<in> insert e (fst ` set bs) \<Longrightarrow> mi_next (m' y) = mi_next (m y) \<and> mi_prev (m' y) = mi_prev (m y) \<and>
       mi_magic (m' y) = mi_magic (m y) \<and> mi_pool_ptr (m' y) = mi_pool_ptr (m y)"
  shows "region p m' start bs e"
proof -
  have "headers m' x = headers m x" if "(x, u) \<in> set bs" for x u
    by (rule headers_eqI) (use assms(2)[of x] that in force)+
  then have "hrep (headers m') e start bs e" using assms(1) by (subst hrep_cong[of bs _ "headers m"]) (auto simp: region_def)
  moreover have "item_ok p (m' x) x u" if "(x, u) \<in> set bs" for x u
  proof -
    have "item_ok p (m x) x u" using assms(1) that by (auto simp: region_def)
    then show ?thesis using assms(2)[of x] that by (simp add: item_ok_def rev_image_eqI)
  qed
  ultimately show ?thesis using assms(1) assms(2)[of e] by (auto simp: region_def RT_MEMHEAP_IS_USED_def)
qed

text \<open>A block with its neighbours.\<close>

lemma region_middle:
  assumes r: "region p m start (A @ (x, u) # B) e"
  shows "item_ok p (m x) x u" "unat (mi_next (m x)) \<le> unat e" "mi_next (m x) = (if B = [] then e else fst (hd B))"
    "mi_prev (m x) = last_block e A" "unat start \<le> unat x" "4 dvd unat x"
    "(y, v) \<in> set A \<Longrightarrow> unat y + 36 \<le> unat x" "(y, v) \<in> set B \<Longrightarrow> unat (mi_next (m x)) \<le> unat y \<and> unat y + 36 \<le> unat e"
    "RT_MEMHEAP_IS_USED (m x) = u" "unat x + 36 \<le> unat (mi_next (m x))"
proof -
  have h: "hrep (headers m) e start (A @ (x, u) # B) e" and i: "\<forall>(x, u)\<in>set (A @ (x, u) # B). item_ok p (m x) x u"
    using r by (simp_all add: region_def)
  note mid = hrep_middle[OF h]
  show x: "item_ok p (m x) x u" using i by simp
  then show "RT_MEMHEAP_IS_USED (m x) = u" by (rule used_magic)
  show "unat x + 36 \<le> unat (mi_next (m x))" using x by (simp add: item_ok_def)
  show "unat (mi_next (m x)) \<le> unat e" "mi_prev (m x) = last_block e A" "4 dvd unat x" using mid by simp_all
  show "mi_next (m x) = (if B = [] then e else fst (hd B))" using mid(7,11) by (cases B) auto
  show "unat start \<le> unat x" using hrep_bounds[OF h, of x u] by simp
  show "unat y + 36 \<le> unat x" if y: "(y, v) \<in> set A"
  proof -
    obtain A1 A2 where A: "A = A1 @ (y, v) # A2" using y by (meson split_list)
    have "unat (mi_next (m y)) \<le> unat x" using hrep_middle(8)[of "headers m" e start A1 y v A2 x] mid(1) A by simp
    moreover have "unat y + 36 \<le> unat (mi_next (m y))" using i y by (auto simp: item_ok_def)
    ultimately show ?thesis by simp
  qed
  show "unat (mi_next (m x)) \<le> unat y \<and> unat y + 36 \<le> unat e" if y: "(y, v) \<in> set B"
  proof -
    obtain B1 B2 where B: "B = B1 @ (y, v) # B2" using y by (meson split_list)
    have "unat (mi_next (m y)) \<le> unat e" using hrep_middle(8)[of "headers m" x "mi_next (m x)" B1 y v B2 e] mid(7) B by simp
    moreover have "unat y + 36 \<le> unat (mi_next (m y))" using i y by (auto simp: item_ok_def)
    ultimately show ?thesis using mid(10)[OF y] by simp
  qed
qed

lemma hrep_distinct: "hrep m pr q bs e \<Longrightarrow> distinct (map fst bs)"
proof (induction m pr q bs e rule: hrep.induct)
  case (2 m pr q x u bs e)
  then have "unat x + 12 \<le> unat y" if "(y, v) \<in> set bs" for y v using hrep_bounds[OF _ that, of m x "hm_next (m x)" e] by auto
  then show ?case using 2 by fastforce
qed simp

lemma hrep_reprev:
  assumes "hrep m pr q B e" "\<And>y v. (y, v) \<in> set B \<Longrightarrow> y \<noteq> q \<Longrightarrow> m' y = m y" "B \<noteq> [] \<Longrightarrow> m' q = (m q)\<lparr>hm_prev := pr'\<rparr>"
  shows "hrep m' pr' q B e"
proof (cases "B = []")
  case False
  have "hrep (m(q := (m q)\<lparr>hm_prev := pr'\<rparr>)) pr' q B e" by (rule hrep_new_prev[OF assms(1) refl])
  then show ?thesis using assms(2,3) False by (subst hrep_cong[of B m' "m(q := (m q)\<lparr>hm_prev := pr'\<rparr>)"]) auto
qed (use assms(1) in simp)

text \<open>The parts of an item that the ring of blocks depends on.\<close>

definition same_item :: "rt_memheap_item \<Rightarrow> rt_memheap_item \<Rightarrow> bool" where
  "same_item i j \<longleftrightarrow> mi_next i = mi_next j \<and> mi_prev i = mi_prev j \<and> mi_magic i = mi_magic j \<and> mi_pool_ptr i = mi_pool_ptr j"

lemma same_item_headers: "same_item (m' y) (m y) \<Longrightarrow> headers m' y = headers m y"
  by (rule headers_eqI) (simp_all add: same_item_def)

lemma same_item_ok: "same_item i j \<Longrightarrow> item_ok p j x u \<Longrightarrow> item_ok p i x u"
  by (simp add: same_item_def item_ok_def)

lemma item_ok_prev [simp]: "item_ok p (i\<lparr>mi_prev := q\<rparr>) x u \<longleftrightarrow> item_ok p i x u"
  by (simp add: item_ok_def)

text \<open>A block is marked, or its mark taken away.\<close>

lemma region_mark:
  assumes r: "region p m start (A @ (x, u) # B) e" and o: "\<And>y. y \<noteq> x \<Longrightarrow> same_item (m' y) (m y)"
    and x: "mi_next (m' x) = mi_next (m x)" "mi_prev (m' x) = mi_prev (m x)" "item_ok p (m' x) x v"
  shows "region p m' start (A @ (x, v) # B) e"
proof -
  note mid = region_middle[OF r]
  have h: "hrep (headers m) e start (A @ (x, u) # B) e" using r by (simp add: region_def)
  have ne: "y \<noteq> x" if "(y, w) \<in> set (A @ B)" for y w using that mid(7)[of y w] mid(8)[of y w] mid(10) by auto
  have ex: "e \<noteq> x" using mid(2,10) by auto
  have same: "headers m' y = headers m y" if "(y, w) \<in> set (A @ B)" for y w using o[OF ne[OF that]] by (rule same_item_headers)
  have "hrep (headers m') x (mi_next (m x)) B e"
    using hrep_middle(7)[OF h] same by (subst hrep_cong[of B _ "headers m"]) auto
  then have "hrep (headers m') (last_block e A) x ((x, v) # B) e"
    using hrep_middle[OF h] x used_magic[OF x(3)] by auto
  then have "hrep (headers m') e start (A @ (x, v) # B) e"
    using same by (intro hrep_replace[OF hrep_middle(1)[OF h]]) auto
  moreover have "item_ok p (m' y) y w" if "(y, w) \<in> set (A @ B)" for y w
    by (rule same_item_ok[OF o[OF ne[OF that]]]) (use r that in \<open>auto simp: region_def\<close>)
  moreover have "last_block e (A @ (x, v) # B) = last_block e (A @ (x, u) # B)" by (simp add: last_block_def)
  ultimately show ?thesis using r x(3) o[OF ex] by (auto simp: region_def same_item_def RT_MEMHEAP_IS_USED_def)
qed

text \<open>A block at \<open>n\<close> is cut off a block at \<open>x\<close>.\<close>

lemma region_cut:
  assumes r: "region p m start (A @ (x, u) # B) e" and N: "N = mi_next (m x)"
    and n: "unat x + 36 \<le> unat n" "unat n + 36 \<le> unat N" "4 dvd unat n"
    and o: "\<And>y. y \<noteq> x \<Longrightarrow> y \<noteq> n \<Longrightarrow> y \<noteq> N \<Longrightarrow> same_item (m' y) (m y)"
    and x': "same_item (m' x) ((m x)\<lparr>mi_next := n\<rparr>)" and N': "same_item (m' N) ((m N)\<lparr>mi_prev := n\<rparr>)"
    and n': "mi_next (m' n) = N" "mi_prev (m' n) = x" "mi_magic (m' n) = RT_MEMHEAP_MAGIC" "mi_pool_ptr (m' n) = p"
  shows "region p m' start (A @ (x, u) # (n, False) # B) e"
proof -
  note mid = region_middle[OF r]
  have h: "hrep (headers m) e start (A @ (x, u) # B) e" using r by (simp add: region_def)
  note hm = hrep_middle[OF h]
  have ne: "y \<noteq> x" "y \<noteq> n" if "(y, w) \<in> set (A @ B)" for y w
    using that mid(7)[of y w] mid(8)[of y w] mid(10) n N by auto
  have same: "headers m' y = headers m y" if "(y, w) \<in> set (A @ B)" "y \<noteq> N" for y w
    using o[OF ne[OF that(1)] that(2)] by (rule same_item_headers)
  have nA: "y \<noteq> N" if "(y, w) \<in> set A" for y w using mid(7)[OF that] mid(10) N by auto
  have x: "item_ok p (m' x) x u" using mid(1) x' n(1) by (simp add: item_ok_def same_item_def)
  have nn: "item_ok p (m' n) n False" using n' n by (simp add: item_ok_def)
  have "hrep (headers m') n N B e"
  proof (rule hrep_reprev)
    show "hrep (headers m) x N B e" using hm(7) N by simp
    show "headers m' N = (headers m N)\<lparr>hm_prev := n\<rparr>" using N' by (simp add: headers_def same_item_def RT_MEMHEAP_IS_USED_def)
  qed (use same in auto)
  then have "hrep (headers m') (last_block e A) x ((x, u) # (n, False) # B) e"
    using hm(2,5) x x' n n' used_magic[OF x] used_magic[OF nn] by (auto simp: same_item_def item_ok_def)
  then have "hrep (headers m') e start (A @ (x, u) # (n, False) # B) e"
    using same nA by (intro hrep_replace[OF hm(1)]) auto
  moreover have "item_ok p (m' y) y w" if "(y, w) \<in> set (A @ B)" for y w
  proof -
    have "item_ok p (m y) y w" using r that by (auto simp: region_def)
    then show ?thesis using ne[OF that] o[of y] N' by (cases "y = N") (auto intro: same_item_ok)
  qed
  moreover have "mi_next (m' e) = start \<and> mi_prev (m' e) = last_block e (A @ (x, u) # (n, False) # B) \<and> RT_MEMHEAP_IS_USED (m' e)"
  proof (cases "B = []")
    case True
    then have "N = e" using N mid(3) by simp
    then show ?thesis using N' r True by (auto simp: same_item_def region_def RT_MEMHEAP_IS_USED_def last_block_def)
  next
    case False
    then have "N \<noteq> e" using N hm(11) by simp
    moreover have "e \<noteq> x" "e \<noteq> n" using mid(2) n N by auto
    ultimately show ?thesis using o[of e] r False by (auto simp: same_item_def region_def RT_MEMHEAP_IS_USED_def last_block_def)
  qed
  ultimately show ?thesis using x nn by (auto simp: region_def)
qed

text \<open>A block at \<open>x\<close> swallows its right neighbour at \<open>z\<close>.\<close>

lemma region_absorb:
  assumes r: "region p m start (A @ (x, u) # (z, v) # B) e" and N: "N = mi_next (m z)"
    and o: "\<And>y. y \<noteq> x \<Longrightarrow> y \<noteq> z \<Longrightarrow> y \<noteq> N \<Longrightarrow> same_item (m' y) (m y)"
    and x': "same_item (m' x) ((m x)\<lparr>mi_next := N\<rparr>)" and N': "same_item (m' N) ((m N)\<lparr>mi_prev := x\<rparr>)"
  shows "region p m' start (A @ (x, u) # B) e"
proof -
  note mx = region_middle[OF r]
  have r2: "region p m start ((A @ [(x, u)]) @ (z, v) # B) e" using r by simp
  note mz = region_middle[OF r2]
  have xz: "mi_next (m x) = z" using mx(3) by simp
  have h: "hrep (headers m) e start (A @ (x, u) # (z, v) # B) e" using r by (simp add: region_def)
  have hz: "hrep (headers m) z N B e" using hrep_middle(7)[of "headers m" e start "A @ [(x, u)]" z v B e] h N by simp
  note hm = hrep_middle[OF h]
  have ne: "y \<noteq> x" "y \<noteq> z" if "(y, w) \<in> set (A @ B)" for y w
    using that mx(7)[of y w] mz(8)[of y w] mx(10) mz(10) xz N by auto
  have same: "headers m' y = headers m y" if "(y, w) \<in> set (A @ B)" "y \<noteq> N" for y w
    using o[OF ne[OF that(1)] that(2)] by (rule same_item_headers)
  have nA: "y \<noteq> N" if "(y, w) \<in> set A" for y w using mx(7)[OF that] mx(10) mz(10) xz N by auto
  have x: "item_ok p (m' x) x u" using mx(1) mx(10) mz(10) x' xz N by (simp add: item_ok_def same_item_def)
  have "hrep (headers m') x N B e"
  proof (rule hrep_reprev[OF hz])
    show "headers m' N = (headers m N)\<lparr>hm_prev := x\<rparr>" using N' by (simp add: headers_def same_item_def RT_MEMHEAP_IS_USED_def)
  qed (use same in auto)
  then have "hrep (headers m') (last_block e A) x ((x, u) # B) e"
    using hm(2,5) x x' mx(10) mz(10) xz N used_magic[OF x] by (auto simp: same_item_def)
  then have "hrep (headers m') e start (A @ (x, u) # B) e"
    using same nA by (intro hrep_replace[OF hm(1)]) auto
  moreover have "item_ok p (m' y) y w" if "(y, w) \<in> set (A @ B)" for y w
  proof -
    have "item_ok p (m y) y w" using r that by (auto simp: region_def)
    then show ?thesis using ne[OF that] o[of y] N' by (cases "y = N") (auto intro: same_item_ok)
  qed
  moreover have "mi_next (m' e) = start \<and> mi_prev (m' e) = last_block e (A @ (x, u) # B) \<and> RT_MEMHEAP_IS_USED (m' e)"
  proof (cases "B = []")
    case True
    then have "N = e" using N mz(3) by simp
    then show ?thesis using N' r True by (auto simp: same_item_def region_def RT_MEMHEAP_IS_USED_def last_block_def)
  next
    case False
    then have "N \<noteq> e" using hz hrep_middle(11)[of "headers m" e start "A @ [(x, u)]" z v B e] h N by simp
    moreover have "e \<noteq> x" "e \<noteq> z" using mx(2,10) mz(2,10) by auto
    ultimately show ?thesis using o[of e] r False by (auto simp: same_item_def region_def RT_MEMHEAP_IS_USED_def last_block_def)
  qed
  ultimately show ?thesis using x by (auto simp: region_def)
qed

section \<open>The invariant of a heap\<close>

text \<open>The bytes that are free, as the code counts them.\<close>

definition free_sum :: "(u32 \<Rightarrow> rt_memheap_item) \<Rightarrow> block list \<Rightarrow> u32" where
  "free_sum m bs = (\<Sum>(x, u)\<leftarrow>bs. if u then 0 else room m x)"

lemma free_sum_simps [simp]:
  "free_sum m [] = 0" "free_sum m ((x, u) # bs) = (if u then 0 else room m x) + free_sum m bs"
  "free_sum m (xs @ ys) = free_sum m xs + free_sum m ys"
  by (simp_all add: free_sum_def)

lemma free_sum_cong: "(\<And>x. (x, False) \<in> set bs \<Longrightarrow> mi_next (m' x) = mi_next (m x)) \<Longrightarrow> free_sum m' bs = free_sum m bs"
  by (auto simp: free_sum_def room_def intro!: arg_cong[of _ _ sum_list])

definition tailer :: "rt_memheap \<Rightarrow> u32" where
  "tailer h = mh_start_addr h + mh_pool_size h - RT_MEMHEAP_SIZE"

text \<open>The header of the free list lies outside the region.\<close>

definition memheap_limits :: "ptr \<Rightarrow> rt_memheap \<Rightarrow> bool" where
  "memheap_limits p h \<longleftrightarrow> mh_free_list h = free_header p \<and> 60 \<le> unat (mh_pool_size h) \<and>
     unat (mh_start_addr h) + unat (mh_pool_size h) < 2 ^ 32 \<and>
     (free_header p < mh_start_addr h \<or> tailer h < free_header p)"

definition memheap_inv :: "ptr \<Rightarrow> memheaps \<Rightarrow> block list \<Rightarrow> u32 list \<Rightarrow> bool" where
  "memheap_inv p s bs fs \<longleftrightarrow> (let h = ms_heap s p; m = ms_item s in
     memheap_limits p h \<and> region p m (mh_start_addr h) bs (tailer h) \<and> coalesced bs \<and>
     frep m (free_header p) fs \<and> set fs = {x. (x, False) \<in> set bs} \<and> mh_available_size h = free_sum m bs)"

lemma region_item: "region p m start bs e \<Longrightarrow> (x, u) \<in> set bs \<Longrightarrow> item_ok p (m x) x u"
  by (auto simp: region_def)

lemma region_unique: "region p m start bs e \<Longrightarrow> (x, u) \<in> set bs \<Longrightarrow> (x, v) \<in> set bs \<Longrightarrow> u = v"
  using region_item used_magic by metis

lemma memheap_invD:
  assumes "memheap_inv p s bs fs"
  shows "memheap_limits p (ms_heap s p)" "region p (ms_item s) (mh_start_addr (ms_heap s p)) bs (tailer (ms_heap s p))" "coalesced bs"
    "frep (ms_item s) (free_header p) fs" "set fs = {x. (x, False) \<in> set bs}" "mh_available_size (ms_heap s p) = free_sum (ms_item s) bs"
    "mh_free_list (ms_heap s p) = free_header p"
  using assms by (simp_all add: memheap_inv_def Let_def memheap_limits_def)

lemma memheap_invI:
  assumes "memheap_limits p (ms_heap s p)" "region p (ms_item s) (mh_start_addr (ms_heap s p)) bs (tailer (ms_heap s p))" "coalesced bs"
    "frep (ms_item s) (free_header p) fs" "set fs = {x. (x, False) \<in> set bs}" "mh_available_size (ms_heap s p) = free_sum (ms_item s) bs"
  shows "memheap_inv p s bs fs"
  using assms by (simp add: memheap_inv_def Let_def)

lemma limits_outside:
  "memheap_limits p h \<Longrightarrow> unat (mh_start_addr h) \<le> unat y \<Longrightarrow> unat y \<le> unat (tailer h) \<Longrightarrow> y \<noteq> free_header p"
  by (auto simp: memheap_limits_def word_less_nat_alt)

lemma room_eq: "unat x + 24 \<le> unat (mi_next (m x)) \<Longrightarrow> unat (room m x) = unat (mi_next (m x)) - unat x - 24"
proof -
  assume a: "unat x + 24 \<le> unat (mi_next (m x))"
  have "unat (mi_next (m x) - x) = unat (mi_next (m x)) - unat x" using a by (simp add: unat_sub word_le_nat_alt)
  then show ?thesis using a by (simp add: room_def unat_sub word_le_nat_alt)
qed

lemma free_outside:
  assumes "memheap_inv p s (A @ (x, u) # B) fs" "unat x \<le> unat y" "unat y \<le> unat (mi_next (ms_item s x))"
  shows "y \<noteq> free_header p"
  using assms region_middle(2,5)[OF memheap_invD(2)[OF assms(1)]] by (intro limits_outside[OF memheap_invD(1)[OF assms(1)]]) auto

text \<open>Inside a block no other block begins.\<close>

lemma inside_block:
  assumes "region p m start (A @ (x, u) # B) e" "unat x < unat y" "unat y < unat (mi_next (m x))"
  shows "(y, v) \<notin> set (A @ (x, u) # B)"
  using assms(2,3) region_middle(7)[OF assms(1), of y v] region_middle(8)[OF assms(1), of y v] by auto

section \<open>Allocation\<close>

definition fits_block :: "u32 \<Rightarrow> bool" where
  "fits_block sz \<longleftrightarrow> 12 \<le> unat sz \<and> 4 dvd unat sz"

lemma cut_offset:
  assumes "region p m start (A @ (x, u) # B) e" "fits_block sz" "unat sz + 36 \<le> unat (room m x)"
  shows "unat (x + sz + 24) = unat x + unat sz + 24" "unat (x + sz + 24) + 36 \<le> unat (mi_next (m x))" "4 dvd unat (x + sz + 24)"
proof -
  note mid = region_middle[OF assms(1)]
  have b: "unat x + unat sz + 60 \<le> unat (mi_next (m x))" using assms(3) mid(10) room_eq[of x m] by simp
  then have lt: "unat x + unat sz + 24 < 2 ^ 32" using unsigned_less[of "mi_next (m x)", where 'a = nat] by simp
  have "unat (x + sz) = unat x + unat sz" using lt by (simp add: unat_word_ariths)
  then show n: "unat (x + sz + 24) = unat x + unat sz + 24" using lt by (simp add: unat_word_ariths)
  then show "unat (x + sz + 24) + 36 \<le> unat (mi_next (m x))" using b by simp
  show "4 dvd unat (x + sz + 24)" using mid(6) assms(2) by (simp add: n fits_block_def)
qed

text \<open>The ring of free blocks when the block at \<open>x\<close> leaves it.\<close>

lemma frep_leave:
  assumes "frep (ms_item s) fl (f1 @ x # f2)"
  shows "frep (ms_item (upd_item x (\<lambda>i. i\<lparr>mi_next_free := a, mi_prev_free := b\<rparr>) (free_remove x s))) fl (f1 @ f2)"
  by (rule frep_cong[OF frep_remove[OF assms]]) (use assms in \<open>auto simp: frep_def\<close>)

lemma mark_magic: "item_ok p i x False \<Longrightarrow> item_ok p (i\<lparr>mi_magic := mi_magic i OR RT_MEMHEAP_USED\<rparr>) x True"
  by (simp add: item_ok_def)

text \<open>The members of the ring, when the block at \<open>x\<close> has left it and is in use.\<close>

lemma block_once:
  assumes "region p m start (A @ (x, u) # B) e"
  shows "(x, v) \<notin> set (A @ B)"
  using region_middle(7)[OF assms, of x v] region_middle(8)[OF assms, of x v] region_middle(10)[OF assms] by auto

lemma free_left:
  assumes f: "frep m fl (f1 @ x # f2)" and fs: "set (f1 @ x # f2) = {y. (y, False) \<in> set (A @ (x, False) # B)}"
    and r: "region p m start (A @ (x, False) # B) e"
  shows "set (f1 @ f2) = {y. (y, False) \<in> set (A @ B)}"
proof -
  have "(x, False) \<notin> set (A @ B)" by (rule block_once[OF r])
  moreover have "x \<notin> set (f1 @ f2)" using f by (auto simp: frep_def)
  moreover have "(y, False) \<in> set (A @ B) \<or> y = x \<longleftrightarrow> y \<in> set (f1 @ f2) \<or> y = x" for y using fs by auto
  ultimately show ?thesis by blast
qed

lemma carve_whole:
  assumes inv: "memheap_inv p s (A @ (x, False) # B) fs" and whole: "\<not> sz + 36 \<le> room (ms_item s) x"
  defines "s' \<equiv> mark_used x (memheap_carve p x (room (ms_item s) x) sz s)"
  shows "\<exists>fs'. memheap_inv p s' (A @ (x, True) # B) fs'" "mi_next (ms_item s' y) = mi_next (ms_item s y)"
    "ms_heap s' = (ms_heap s)(p := (ms_heap s p)\<lparr>mh_available_size := mh_available_size (ms_heap s p) - room (ms_item s) x\<rparr>)"
proof -
  note d = memheap_invD[OF inv]
  let ?s1 = "upd_memheap p (\<lambda>h. h\<lparr>mh_available_size := mh_available_size h - room (ms_item s) x\<rparr>) s"
  have s': "s' = mark_used x (upd_item x (\<lambda>i. i\<lparr>mi_next_free := 0, mi_prev_free := 0\<rparr>) (free_remove x ?s1))"
    using whole by (simp add: s'_def memheap_carve_def Let_def add.assoc)
  show nx: "mi_next (ms_item s' y) = mi_next (ms_item s y)" for y by (simp add: s' mark_used_def)
  show hp: "ms_heap s' = (ms_heap s)(p := (ms_heap s p)\<lparr>mh_available_size := mh_available_size (ms_heap s p) - room (ms_item s) x\<rparr>)"
    by (simp add: s' mark_used_def)
  have "x \<in> set fs" using d(5) by simp
  then obtain f1 f2 where fs: "fs = f1 @ x # f2" by (meson split_list)
  have "frep (ms_item ?s1) (free_header p) (f1 @ x # f2)" using d(4) fs by simp
  from frep_leave[OF this] have f: "frep (ms_item s') (free_header p) (f1 @ f2)"
    by (rule frep_cong) (auto simp: s' mark_used_def)
  have "region p (ms_item s') (mh_start_addr (ms_heap s p)) (A @ (x, True) # B) (tailer (ms_heap s p))"
    by (rule region_mark[OF d(2)])
      (use region_middle(1)[OF d(2)] in \<open>simp_all add: s' mark_used_def same_item_def item_ok_def\<close>)
  moreover have "set (f1 @ f2) = {y. (y, False) \<in> set (A @ (x, True) # B)}"
    using free_left[OF d(4)[unfolded fs] d(5)[unfolded fs] d(2)] by simp
  moreover have "free_sum (ms_item s') C = free_sum (ms_item s) C" for C by (rule free_sum_cong) (rule nx)
  ultimately have "memheap_inv p s' (A @ (x, True) # B) (f1 @ f2)"
    using d f coalesced_use(1)[OF d(3)] by (intro memheap_invI) (simp_all add: hp memheap_limits_def tailer_def)
  then show "\<exists>fs'. memheap_inv p s' (A @ (x, True) # B) fs'" ..
qed

lemma upd_item_twice [simp]: "upd_item x f (upd_item x g s) = upd_item x (\<lambda>i. f (g i)) s"
  by (simp add: upd_item_def)

lemma memheap_split_eq:
  assumes "n = x + sz + 24" "N = mi_next (ms_item s x)" "n \<noteq> x"
  shows "memheap_split p x sz s = upd_memheap p (\<lambda>h. h\<lparr>mh_available_size := mh_available_size h - sz - 24\<rparr>)
     (free_insert p n (upd_item x (\<lambda>i. i\<lparr>mi_next_free := 0, mi_prev_free := 0\<rparr>) (free_remove x
       (upd_item x (\<lambda>i. i\<lparr>mi_next := n\<rparr>) (upd_item N (\<lambda>i. i\<lparr>mi_prev := n\<rparr>)
         (upd_item n (\<lambda>i. i\<lparr>mi_magic := RT_MEMHEAP_MAGIC, mi_pool_ptr := p, mi_prev := x, mi_next := N\<rparr>) s))))))"
  using assms(3) unfolding memheap_split_def Let_def assms(1)[symmetric] by (simp add: assms(2))

lemma carve_split:
  assumes inv: "memheap_inv p s (A @ (x, False) # B) fs" and sz: "fits_block sz" and room: "unat sz + 36 \<le> unat (room (ms_item s) x)"
  defines "n \<equiv> x + sz + 24" and "s' \<equiv> mark_used x (memheap_carve p x (room (ms_item s) x) sz s)"
  shows "\<exists>fs'. memheap_inv p s' (A @ (x, True) # (n, False) # B) fs'" "mi_next (ms_item s' x) = n"
    "y \<noteq> x \<Longrightarrow> y \<noteq> n \<Longrightarrow> mi_next (ms_item s' y) = mi_next (ms_item s y)"
    "ms_heap s' = (ms_heap s)(p := (ms_heap s p)\<lparr>mh_available_size := mh_available_size (ms_heap s p) - sz - 24\<rparr>)"
proof -
  note d = memheap_invD[OF inv] and mid = region_middle[OF memheap_invD(2)[OF inv]]
  note n = cut_offset[OF d(2) sz room, folded n_def]
  let ?m = "ms_item s" let ?N = "mi_next (ms_item s x)" let ?fl = "free_header p"
  have ne: "n \<noteq> x" "?N \<noteq> x" "?N \<noteq> n" using n mid(10) by auto
  define s5 where "s5 = upd_item x (\<lambda>i. i\<lparr>mi_next := n\<rparr>) (upd_item ?N (\<lambda>i. i\<lparr>mi_prev := n\<rparr>)
     (upd_item n (\<lambda>i. i\<lparr>mi_magic := RT_MEMHEAP_MAGIC, mi_pool_ptr := p, mi_prev := x, mi_next := ?N\<rparr>) s))"
  define s7 where "s7 = upd_item x (\<lambda>i. i\<lparr>mi_next_free := 0, mi_prev_free := 0\<rparr>) (free_remove x s5)"
  have "sz + 36 \<le> room ?m x"
    using room unsigned_less[of "room ?m x", where 'a = nat] by (simp add: word_le_nat_alt unat_word_ariths)
  then have s': "s' = mark_used x (upd_memheap p (\<lambda>h. h\<lparr>mh_available_size := mh_available_size h - sz - 24\<rparr>) (free_insert p n s7))"
    using memheap_split_eq[OF meta_eq_to_obj_eq[OF n_def] refl ne(1)] by (simp add: s'_def memheap_carve_def s7_def s5_def add.assoc)
  have m': "same_item (ms_item s' y) (if y = x then (?m x)\<lparr>mi_next := n, mi_magic := mi_magic (?m x) OR RT_MEMHEAP_USED\<rparr>
      else if y = n then (?m n)\<lparr>mi_magic := RT_MEMHEAP_MAGIC, mi_pool_ptr := p, mi_prev := x, mi_next := ?N\<rparr>
      else if y = ?N then (?m ?N)\<lparr>mi_prev := n\<rparr> else ?m y)" for y
    using ne by (simp add: s' mark_used_def s7_def s5_def same_item_def)
  show nx: "mi_next (ms_item s' x) = n" "y \<noteq> x \<Longrightarrow> y \<noteq> n \<Longrightarrow> mi_next (ms_item s' y) = mi_next (?m y)" for y
    using m'[of x] m'[of y] by (auto simp: same_item_def split: if_splits)
  show hp: "ms_heap s' = (ms_heap s)(p := (ms_heap s p)\<lparr>mh_available_size := mh_available_size (ms_heap s p) - sz - 24\<rparr>)"
    by (simp add: s' mark_used_def s7_def s5_def)
  have bsn: "(n, v) \<notin> set (A @ (x, False) # B)" for v by (rule inside_block[OF d(2)]) (use n in auto)
  have "x \<in> set fs" using d(5) by simp
  then obtain f1 f2 where fs: "fs = f1 @ x # f2" by (meson split_list)
  have "frep (ms_item s5) ?fl (f1 @ x # f2)"
    by (rule frep_cong[OF d(4)[unfolded fs]]) (simp add: s5_def)
  from frep_leave[OF this] have "frep (ms_item s7) ?fl (f1 @ f2)" by (simp only: s7_def)
  moreover have "n \<notin> set (?fl # f1 @ f2)" using bsn[of False] d(5) fs free_outside[OF inv, of n] n by auto
  ultimately have "frep (ms_item (free_insert p n s7)) ?fl (n # f1 @ f2)" by (intro frep_insert) (simp_all add: s7_def s5_def d(7))
  then have f: "frep (ms_item s') ?fl (n # f1 @ f2)" by (rule frep_cong) (simp add: s' mark_used_def)
  have rg: "region p (ms_item s') (mh_start_addr (ms_heap s p)) (A @ (x, True) # (n, False) # B) (tailer (ms_heap s p))"
  proof (rule region_mark)
    let ?m1 = "(ms_item s')(x := (ms_item s' x)\<lparr>mi_magic := RT_MEMHEAP_MAGIC\<rparr>)"
    have x: "mi_magic (?m x) = RT_MEMHEAP_MAGIC" using mid(1) by (simp add: item_ok_def)
    show "region p ?m1 (mh_start_addr (ms_heap s p)) (A @ (x, False) # (n, False) # B) (tailer (ms_heap s p))"
    proof (rule region_cut[OF d(2) refl])
      show "same_item (?m1 x) ((?m x)\<lparr>mi_next := n\<rparr>)" using m'[of x] x by (simp add: same_item_def)
      show "same_item (?m1 ?N) ((?m ?N)\<lparr>mi_prev := n\<rparr>)" using m'[of ?N] ne by simp
    qed (use n ne m' m'[of n] fits_block_def sz in \<open>auto simp: same_item_def\<close>)
    show "item_ok p (ms_item s' x) x True" using mid(1) m'[of x] n sz by (simp add: item_ok_def same_item_def fits_block_def)
  qed (simp_all add: same_item_def)
  have set: "set (n # f1 @ f2) = {y. (y, False) \<in> set (A @ (x, True) # (n, False) # B)}"
    using free_left[OF d(4)[unfolded fs] d(5)[unfolded fs] d(2)] by auto
  have fr: "free_sum (ms_item s') A = free_sum ?m A" "free_sum (ms_item s') B = free_sum ?m B"
    using bsn mid(7)[of x] mid(8)[of x] mid(10) by (intro free_sum_cong nx(2); fastforce)+
  have "mi_next (ms_item s' n) = ?N" using m'[of n] ne by (simp add: same_item_def)
  then have "mh_available_size (ms_heap s' p) = free_sum (ms_item s') (A @ (x, True) # (n, False) # B)"
    by (simp add: hp fr d(6) room_def n_def algebra_simps)
  then have "memheap_inv p s' (A @ (x, True) # (n, False) # B) (n # f1 @ f2)"
    using d f rg set coalesced_use(2)[OF d(3)] by (intro memheap_invI) (simp_all add: hp memheap_limits_def tailer_def)
  then show "\<exists>fs'. memheap_inv p s' (A @ (x, True) # (n, False) # B) fs'" ..
qed

section \<open>Release\<close>

text \<open>The invariant without what the steps of a release restore only at the end: neighbouring blocks may both be
  free, and the ring of free blocks may lack one of them.\<close>

definition memheap_parts :: "ptr \<Rightarrow> memheaps \<Rightarrow> block list \<Rightarrow> u32 list \<Rightarrow> bool" where
  "memheap_parts p s bs fs \<longleftrightarrow> (let h = ms_heap s p; m = ms_item s in
     memheap_limits p h \<and> region p m (mh_start_addr h) bs (tailer h) \<and> frep m (free_header p) fs \<and> mh_available_size h = free_sum m bs)"

lemma memheap_partsD:
  assumes "memheap_parts p s bs fs"
  shows "memheap_limits p (ms_heap s p)" "region p (ms_item s) (mh_start_addr (ms_heap s p)) bs (tailer (ms_heap s p))"
    "frep (ms_item s) (free_header p) fs" "mh_available_size (ms_heap s p) = free_sum (ms_item s) bs"
    "mh_free_list (ms_heap s p) = free_header p"
  using assms by (simp_all add: memheap_parts_def Let_def memheap_limits_def)

lemma inv_parts: "memheap_inv p s bs fs \<longleftrightarrow> memheap_parts p s bs fs \<and> coalesced bs \<and> set fs = {x. (x, False) \<in> set bs}"
  by (auto simp: memheap_inv_def memheap_parts_def Let_def)

text \<open>What a step of a release leaves alone: the other heaps, the fields that are set up once, and the ends of the
  blocks in use.\<close>

definition release_frame :: "ptr \<Rightarrow> block list \<Rightarrow> memheaps \<Rightarrow> memheaps \<Rightarrow> bool" where
  "release_frame p bs s s' \<longleftrightarrow> (\<exists>n. ms_heap s' = (ms_heap s)(p := (ms_heap s p)\<lparr>mh_available_size := n\<rparr>)) \<and>
     (\<forall>y. (y, True) \<in> set bs \<longrightarrow> mi_next (ms_item s' y) = mi_next (ms_item s y))"

lemma frame_refl [simp]: "release_frame p bs s s"
  by (auto simp: release_frame_def intro: exI[of _ "mh_available_size (ms_heap s p)"])

lemma frame_trans: "release_frame p bs s s1 \<Longrightarrow> release_frame p bs s1 s2 \<Longrightarrow> release_frame p bs s s2"
  by (auto simp: release_frame_def)

lemma frame_fields:
  assumes "release_frame p bs s s'"
  shows "mh_start_addr (ms_heap s' p) = mh_start_addr (ms_heap s p)" "tailer (ms_heap s' p) = tailer (ms_heap s p)"
    "memheap_limits p (ms_heap s' p) \<longleftrightarrow> memheap_limits p (ms_heap s p)" "mh_free_list (ms_heap s' p) = mh_free_list (ms_heap s p)"
  using assms by (auto simp: release_frame_def tailer_def memheap_limits_def)

text \<open>A free block has swallowed the free block to its right; the free list is not concerned.\<close>

lemma absorb_parts:
  assumes inv: "memheap_parts p s (A @ (x, False) # (z, False) # B) fs"
    and N: "N = mi_next (ms_item s z)"
    and hp: "ms_heap s' = (ms_heap s)(p := (ms_heap s p)\<lparr>mh_available_size := mh_available_size (ms_heap s p) + 24\<rparr>)"
    and m': "ms_item s' = (ms_item s)(N := (ms_item s N)\<lparr>mi_prev := x\<rparr>, x := (ms_item s x)\<lparr>mi_next := N\<rparr>)"
  shows "memheap_parts p s' (A @ (x, False) # B) fs" "release_frame p (A @ B) s s'"
proof -
  note d = memheap_partsD[OF inv] and mx = region_middle[OF memheap_partsD(2)[OF inv]]
  have r2: "region p (ms_item s) (mh_start_addr (ms_heap s p)) ((A @ [(x, False)]) @ (z, False) # B) (tailer (ms_heap s p))" using d(2) by simp
  note mz = region_middle[OF r2]
  have xz: "mi_next (ms_item s x) = z" using mx(3) by simp
  have Nx: "N \<noteq> x" using mx(10) mz(10) xz N by auto
  have r: "region p (ms_item s') (mh_start_addr (ms_heap s p)) (A @ (x, False) # B) (tailer (ms_heap s p))"
    by (rule region_absorb[OF d(2) N]) (use Nx in \<open>auto simp: m' same_item_def\<close>)
  have nx: "mi_next (ms_item s' y) = mi_next (ms_item s y)" if "(y, u) \<in> set (A @ B)" for y u
    using block_once[OF r, of u] that by (auto simp: m')
  then show f: "release_frame p (A @ B) s s'" by (auto simp: release_frame_def hp)
  have "free_sum (ms_item s') A = free_sum (ms_item s) A" "free_sum (ms_item s') B = free_sum (ms_item s) B"
    by (rule free_sum_cong, rule nx[where u = False], simp)+
  moreover have "room (ms_item s') x = room (ms_item s) x + room (ms_item s) z + 24" by (simp add: room_def m' xz N)
  moreover have "frep (ms_item s') (free_header p) fs" by (rule frep_cong[OF d(3)]) (use Nx in \<open>auto simp: m'\<close>)
  ultimately show "memheap_parts p s' (A @ (x, False) # B) fs"
    using d r by (simp add: memheap_parts_def Let_def frame_fields[OF f]) (simp add: hp add_ac)
qed

definition ends_free :: "block list \<Rightarrow> bool" where
  "ends_free A \<longleftrightarrow> A \<noteq> [] \<and> \<not> snd (last A)"

lemma merge_left_parts:
  assumes inv: "memheap_parts p s (A @ (x, False) # B) fs"
  shows "case merge_left p x s of (y, ins, s') \<Rightarrow> ins = (\<not> ends_free A) \<and>
     (if ends_free A then (\<exists>A'. A = A' @ [(y, False)] \<and> memheap_parts p s' (A' @ (y, False) # B) fs) else y = x \<and> s' = s) \<and>
     release_frame p (A @ B) s s'"
proof (cases "ends_free A")
  case False
  note d = memheap_partsD[OF inv]
  have "RT_MEMHEAP_IS_USED (ms_item s (mi_prev (ms_item s x)))"
  proof (cases A rule: rev_cases)
    case Nil
    then show ?thesis using d(2) region_middle(4)[OF d(2)] by (simp add: region_def)
  next
    case (snoc A' b)
    then obtain y where b: "b = (y, True)" using False by (cases b) (auto simp: ends_free_def)
    then have "region p (ms_item s) (mh_start_addr (ms_heap s p)) (A' @ (y, True) # (x, False) # B) (tailer (ms_heap s p))"
      using d(2) snoc by simp
    then show ?thesis using region_middle(4)[OF d(2)] region_middle(9) snoc b by fastforce
  qed
  then show ?thesis using False by (simp add: merge_left_def)
next
  case True
  then obtain A' y where A: "A = A' @ [(y, False)]" by (metis append_butlast_last_id ends_free_def prod.collapse)
  note d = memheap_partsD[OF inv]
  have r: "region p (ms_item s) (mh_start_addr (ms_heap s p)) (A' @ (y, False) # (x, False) # B) (tailer (ms_heap s p))" using d(2) A by simp
  have inv': "memheap_parts p s (A' @ (y, False) # (x, False) # B) fs" using inv A by simp
  have y: "mi_prev (ms_item s x) = y" "\<not> RT_MEMHEAP_IS_USED (ms_item s y)" using region_middle(4)[OF d(2)] A region_middle(9)[OF r] by simp_all
  have ne: "mi_next (ms_item s x) \<noteq> x" "y \<noteq> x" "mi_next (ms_item s x) \<noteq> y"
    using region_middle(10)[OF d(2)] region_middle(7)[OF d(2), of y False] A by auto
  define s' where "s' = snd (snd (merge_left p x s))"
  have mv: "merge_left p x s = (y, False, s')" using y ne by (simp add: merge_left_def s'_def Let_def)
  have "ms_heap s' = (ms_heap s)(p := (ms_heap s p)\<lparr>mh_available_size := mh_available_size (ms_heap s p) + 24\<rparr>)"
    "ms_item s' = (ms_item s)(mi_next (ms_item s x) := (ms_item s (mi_next (ms_item s x)))\<lparr>mi_prev := y\<rparr>, y := (ms_item s y)\<lparr>mi_next := mi_next (ms_item s x)\<rparr>)"
    using y ne by (simp_all add: s'_def merge_left_def Let_def fun_upd_twist)
  from absorb_parts[OF inv' refl this] show ?thesis using mv True A by (auto simp: release_frame_def)
qed

lemma merge_right_parts:
  assumes inv: "memheap_parts p s (A @ (x, False) # B) fs" and fs: "\<And>z. (z, False) \<in> set B \<Longrightarrow> z \<in> set fs"
  shows "\<exists>fs'. memheap_parts p (merge_right p x s) (A @ (x, False) # merge_next B) fs' \<and>
     set fs' = set fs - (if B \<noteq> [] \<and> \<not> snd (hd B) then {fst (hd B)} else {}) \<and> release_frame p (A @ B) s (merge_right p x s)"
proof (cases "B \<noteq> [] \<and> \<not> snd (hd B)")
  case False
  note d = memheap_partsD[OF inv]
  have "RT_MEMHEAP_IS_USED (ms_item s (mi_next (ms_item s x)))"
  proof (cases B)
    case Nil
    then show ?thesis using d(2) region_middle(3)[OF d(2)] by (simp add: region_def)
  next
    case (Cons b B')
    then obtain z where b: "b = (z, True)" using False by (cases b) auto
    then have "region p (ms_item s) (mh_start_addr (ms_heap s p)) ((A @ [(x, False)]) @ (z, True) # B') (tailer (ms_heap s p))"
      using d(2) Cons by simp
    then show ?thesis using region_middle(3)[OF d(2)] region_middle(9) Cons b by fastforce
  qed
  moreover have "merge_next B = B" using False by (cases B rule: merge_next.cases) auto
  ultimately show ?thesis using False inv by (auto simp: merge_right_def)
next
  case True
  then obtain z B' where B: "B = (z, False) # B'" by (cases B) auto
  note d = memheap_partsD[OF inv]
  have r: "region p (ms_item s) (mh_start_addr (ms_heap s p)) ((A @ [(x, False)]) @ (z, False) # B') (tailer (ms_heap s p))" using d(2) B by simp
  have inv': "memheap_parts p s (A @ (x, False) # (z, False) # B') fs" using inv B by simp
  have z: "mi_next (ms_item s x) = z" "\<not> RT_MEMHEAP_IS_USED (ms_item s z)" using region_middle(3)[OF d(2)] B region_middle(9)[OF r] by simp_all
  have ne: "z \<noteq> x" "mi_next (ms_item s z) \<noteq> z" "mi_next (ms_item s z) \<noteq> x"
    using region_middle(10)[OF d(2)] region_middle(10)[OF r] z by auto
  let ?N = "mi_next (ms_item s z)"
  define s3 where "s3 = upd_item x (\<lambda>i. i\<lparr>mi_next := ?N\<rparr>) (upd_item ?N (\<lambda>i. i\<lparr>mi_prev := x\<rparr>)
     (upd_memheap p (\<lambda>h. h\<lparr>mh_available_size := mh_available_size h + RT_MEMHEAP_SIZE\<rparr>) s))"
  have mv: "merge_right p x s = free_remove z s3" using z ne by (simp add: merge_right_def Let_def s3_def)
  have "ms_heap s3 = (ms_heap s)(p := (ms_heap s p)\<lparr>mh_available_size := mh_available_size (ms_heap s p) + 24\<rparr>)"
    "ms_item s3 = (ms_item s)(?N := (ms_item s ?N)\<lparr>mi_prev := x\<rparr>, x := (ms_item s x)\<lparr>mi_next := ?N\<rparr>)"
    using ne by (simp_all add: s3_def)
  note ab = absorb_parts[OF inv' refl this]
  note d3 = memheap_partsD[OF ab(1)]
  have "z \<in> set fs" using fs B by simp
  then obtain f1 f2 where f: "fs = f1 @ z # f2" by (meson split_list)
  have "frep (ms_item (free_remove z s3)) (free_header p) (f1 @ f2)" using d3(3) unfolding f by (rule frep_remove)
  moreover have "region p (ms_item (free_remove z s3)) (mh_start_addr (ms_heap s3 p)) (A @ (x, False) # B') (tailer (ms_heap s3 p))"
    by (rule region_cong[OF d3(2)]) simp
  moreover have "free_sum (ms_item (free_remove z s3)) C = free_sum (ms_item s3) C" for C by (rule free_sum_cong) simp
  ultimately have "memheap_parts p (merge_right p x s) (A @ (x, False) # B') (f1 @ f2)"
    using d3 by (simp add: memheap_parts_def Let_def mv room_def)
  moreover have "set (f1 @ f2) = set fs - {z}" using d(3) by (auto simp: f frep_def)
  moreover have "release_frame p (A @ B) s (merge_right p x s)" using ab(2) B by (auto simp: mv release_frame_def)
  ultimately show ?thesis using B True by (intro exI[of _ "f1 @ f2"]) simp
qed

lemma free_merge_next:
  assumes r: "region p m start (A @ (x, u) # B) e"
  shows "{y. (y, False) \<in> set (A @ B)} - (if B \<noteq> [] \<and> \<not> snd (hd B) then {fst (hd B)} else {}) = {y. (y, False) \<in> set (A @ merge_next B)}"
proof (cases B rule: merge_next.cases)
  case (1 z B')
  then have "region p m start ((A @ [(x, u)]) @ (z, False) # B') e" using r by simp
  from block_once[OF this, of False] show ?thesis using 1 by auto
qed auto

text \<open>The block is no longer marked and counted as free; it is not yet in the ring of free blocks.\<close>

lemma unmark_parts:
  assumes inv: "memheap_inv p s (A @ (x, True) # B) fs"
  defines "s' \<equiv> upd_memheap p (\<lambda>h. h\<lparr>mh_available_size := mh_available_size h + (mi_next (ms_item s x) - x) - RT_MEMHEAP_SIZE\<rparr>)
     (upd_item x (\<lambda>i. i\<lparr>mi_magic := mi_magic i AND NOT RT_MEMHEAP_USED\<rparr>) s)"
  shows "memheap_parts p s' (A @ (x, False) # B) fs" "release_frame p (A @ B) s s'"
proof -
  note d = memheap_invD[OF inv]
  show f: "release_frame p (A @ B) s s'" by (auto simp: release_frame_def s'_def)
  have "region p (ms_item s') (mh_start_addr (ms_heap s p)) (A @ (x, False) # B) (tailer (ms_heap s p))"
    by (rule region_mark[OF d(2)])
      (use region_middle(1)[OF d(2)] in \<open>simp_all add: s'_def same_item_def item_ok_def\<close>)
  moreover have "frep (ms_item s') (free_header p) fs" by (rule frep_cong[OF d(4)]) (simp add: s'_def)
  moreover have "free_sum (ms_item s') C = free_sum (ms_item s) C" "room (ms_item s') x = room (ms_item s) x" for C
    by (rule free_sum_cong) (simp_all add: s'_def room_def)
  ultimately show "memheap_parts p s' (A @ (x, False) # B) fs"
    using d by (simp add: memheap_parts_def Let_def frame_fields[OF f]) (simp add: s'_def room_def algebra_simps)
qed

lemma insert_parts:
  assumes inv: "memheap_parts p s (A @ (x, False) # B) fs" and x: "x \<notin> set fs"
  shows "memheap_parts p (free_insert p x s) (A @ (x, False) # B) (x # fs)" "release_frame p bs s (free_insert p x s)"
proof -
  note d = memheap_partsD[OF inv] and mid = region_middle[OF memheap_partsD(2)[OF inv]]
  show f: "release_frame p bs s (free_insert p x s)"
    by (auto simp: release_frame_def intro: exI[of _ "mh_available_size (ms_heap s p)"])
  have "x \<noteq> free_header p" using mid(2,5,10) by (intro limits_outside[OF d(1)]) auto
  then have "frep (ms_item (free_insert p x s)) (free_header p) (x # fs)" using x d(5) by (intro frep_insert[OF d(3)]) auto
  moreover have "region p (ms_item (free_insert p x s)) (mh_start_addr (ms_heap s p)) (A @ (x, False) # B) (tailer (ms_heap s p))"
    by (rule region_cong[OF d(2)]) simp
  moreover have "free_sum (ms_item (free_insert p x s)) C = free_sum (ms_item s) C" "room (ms_item (free_insert p x s)) x = room (ms_item s) x" for C
    by (rule free_sum_cong) (simp_all add: room_def)
  ultimately show "memheap_parts p (free_insert p x s) (A @ (x, False) # B) (x # fs)"
    using d by (simp add: memheap_parts_def Let_def)
qed

lemma memheap_release_inv:
  assumes inv: "memheap_inv p s (A @ (x, True) # B) fs"
  shows "\<exists>fs'. memheap_inv p (memheap_release p x s) (merge_prev A x (merge_next B)) fs'" "release_frame p (A @ B) s (memheap_release p x s)"
proof -
  note d = memheap_invD[OF inv]
  define s2 where "s2 = upd_memheap p (\<lambda>h. h\<lparr>mh_available_size := mh_available_size h + (mi_next (ms_item s x) - x) - RT_MEMHEAP_SIZE\<rparr>)
     (upd_item x (\<lambda>i. i\<lparr>mi_magic := mi_magic i AND NOT RT_MEMHEAP_USED\<rparr>) s)"
  note um = unmark_parts[OF inv, folded s2_def]
  have rel: "memheap_release p x s = (case merge_left p x s2 of (y, ins, s3) \<Rightarrow> if ins then free_insert p y (merge_right p y s3) else merge_right p y s3)"
    by (simp add: memheap_release_def s2_def Let_def)
  note co = merged_coalesced[OF d(3)] and fm = free_merge_next[OF d(2)]
  have fs: "set fs = {y. (y, False) \<in> set (A @ B)}" using d(5) by auto
  have "(\<exists>fs'. memheap_inv p (memheap_release p x s) (merge_prev A x (merge_next B)) fs') \<and> release_frame p (A @ B) s (memheap_release p x s)"
  proof (cases "ends_free A")
    case True
    then obtain A' y s3 where l: "merge_left p x s2 = (y, False, s3)" and A: "A = A' @ [(y, False)]"
      and s3: "memheap_parts p s3 (A' @ (y, False) # B) fs" "release_frame p (A @ B) s2 s3"
      using merge_left_parts[OF um(1)] by (auto split: prod.splits)
    from merge_right_parts[OF s3(1)] fs obtain fs' where s4: "memheap_parts p (merge_right p y s3) (A' @ (y, False) # merge_next B) fs'"
      "set fs' = set fs - (if B \<noteq> [] \<and> \<not> snd (hd B) then {fst (hd B)} else {})" "release_frame p (A' @ B) s3 (merge_right p y s3)" by auto
    have "release_frame p (A @ B) s3 (merge_right p y s3)" using s4(3) A by (auto simp: release_frame_def)
    moreover have "merge_prev A x (merge_next B) = A' @ (y, False) # merge_next B" using A by (simp add: merge_prev_def)
    moreover have "set fs' = {z. (z, False) \<in> set (A' @ (y, False) # merge_next B)}" using s4(2) fs fm A by simp
    ultimately have "memheap_inv p (merge_right p y s3) (merge_prev A x (merge_next B)) fs'" "release_frame p (A @ B) s (merge_right p y s3)"
      using s4(1) co frame_trans[OF um(2) frame_trans[OF s3(2)]] by (simp_all add: inv_parts)
    then show ?thesis using l by (auto simp: rel)
  next
    case False
    then have l: "merge_left p x s2 = (x, True, s2)" using merge_left_parts[OF um(1)] by (auto split: prod.splits)
    from merge_right_parts[OF um(1)] fs obtain fs' where s4: "memheap_parts p (merge_right p x s2) (A @ (x, False) # merge_next B) fs'"
      "set fs' = set fs - (if B \<noteq> [] \<and> \<not> snd (hd B) then {fst (hd B)} else {})" "release_frame p (A @ B) s2 (merge_right p x s2)" by auto
    have "x \<notin> set fs'" using s4(2) fs block_once[OF d(2), of False] by auto
    note ins = insert_parts[OF s4(1) this]
    have "merge_prev A x (merge_next B) = A @ (x, False) # merge_next B" using False by (simp add: merge_prev_def ends_free_def)
    moreover have "set (x # fs') = {y. (y, False) \<in> set (A @ (x, False) # merge_next B)}" using s4(2) fs fm by auto
    ultimately have "memheap_inv p (free_insert p x (merge_right p x s2)) (merge_prev A x (merge_next B)) (x # fs')"
      using co ins(1) by (simp add: inv_parts)
    then show ?thesis using l frame_trans[OF um(2) frame_trans[OF s4(3) ins(2)]] by (auto simp: rel)
  qed
  then show "\<exists>fs'. memheap_inv p (memheap_release p x s) (merge_prev A x (merge_next B)) fs'" "release_frame p (A @ B) s (memheap_release p x s)"
    by blast+
qed

section \<open>Initialisation\<close>

lemma limits_tailer: "memheap_limits p h \<Longrightarrow> unat (tailer h) + 24 = unat (mh_start_addr h) + unat (mh_pool_size h)"
proof -
  assume l: "memheap_limits p h"
  then have "unat (mh_start_addr h + mh_pool_size h) = unat (mh_start_addr h) + unat (mh_pool_size h)"
    by (simp add: memheap_limits_def unat_word_ariths)
  then show ?thesis using l by (simp add: tailer_def unat_sub word_le_nat_alt memheap_limits_def)
qed

lemma memheap_format_inv:
  fixes s :: memheaps
  assumes sz: "60 \<le> unat (rt_align_down sz)" "unat start + unat (rt_align_down sz) < 2 ^ 32" "4 dvd unat start"
    and fl: "free_header p < start \<or> start + rt_align_down sz - 24 < free_header p"
  defines "s' \<equiv> memheap_format p start sz s"
  shows "memheap_inv p s' [(start, False)] [start]"
proof -
  let ?n = "rt_align_down sz" let ?e = "start + ?n - 24"
  let ?h = "(ms_heap s p)\<lparr>mh_start_addr := start, mh_pool_size := ?n, mh_available_size := ?n - 48, mh_free_list := free_header p, mh_block_list := start\<rparr>"
  have lim: "memheap_limits p ?h" using sz fl by (simp add: memheap_limits_def tailer_def)
  have t: "tailer ?h = ?e" by (simp add: tailer_def)
  have e: "unat ?e + 24 = unat start + unat ?n" using limits_tailer[OF lim] t by simp
  have ne: "start \<noteq> free_header p" "?e \<noteq> free_header p" "?e \<noteq> start"
    using limits_outside[OF lim, of start] limits_outside[OF lim, of ?e] sz e t by auto
  have hp: "ms_heap s' p = ?h" by (simp add: s'_def memheap_format_def Let_def)
  define s8 where "s8 = upd_memheap p (\<lambda>_. ?h) (upd_item start (\<lambda>_. \<lparr>mi_magic = RT_MEMHEAP_MAGIC, mi_next = ?e, mi_prev = ?e,
      mi_next_free = start, mi_prev_free = start, mi_pool_ptr = p\<rparr>) (upd_item (free_header p) (\<lambda>_. \<lparr>mi_magic = RT_MEMHEAP_MAGIC, mi_next = 0, mi_prev = 0,
      mi_next_free = free_header p, mi_prev_free = free_header p, mi_pool_ptr = p\<rparr>) s))"
  have av: "start + (?n - 48) + 24 = ?e" by (simp add: algebra_simps)
  have s': "s' = upd_item ?e (\<lambda>_. \<lparr>mi_magic = RT_MEMHEAP_MAGIC OR RT_MEMHEAP_USED, mi_next = start, mi_prev = start,
      mi_next_free = 0, mi_prev_free = 0, mi_pool_ptr = p\<rparr>) (free_insert p start s8)"
    unfolding s'_def memheap_format_def Let_def s8_def using av ne
    by (simp add: upd_item_def upd_memheap_def)
  have "frep (ms_item s8) (free_header p) []" using ne by (simp add: frep_def s8_def)
  then have "frep (ms_item (free_insert p start s8)) (free_header p) [start]"
    using ne by (intro frep_insert) (simp_all add: s8_def)
  then have f: "frep (ms_item s') (free_header p) [start]" by (rule frep_cong) (use ne in \<open>auto simp: s'\<close>)
  have i: "mi_next (ms_item s' start) = ?e" "mi_prev (ms_item s' start) = ?e" "mi_magic (ms_item s' start) = RT_MEMHEAP_MAGIC"
    "mi_pool_ptr (ms_item s' start) = p" using ne by (simp_all add: s' s8_def)
  have j: "mi_next (ms_item s' ?e) = start" "mi_prev (ms_item s' ?e) = start" "RT_MEMHEAP_IS_USED (ms_item s' ?e)"
    by (simp_all add: s' RT_MEMHEAP_IS_USED_def)
  have "region p (ms_item s') start [(start, False)] ?e"
    using i j sz e by (simp add: region_def item_ok_def RT_MEMHEAP_IS_USED_def)
  moreover have "room (ms_item s') start = ?n - 48" by (simp add: room_def i)
  ultimately show ?thesis using lim f t by (intro memheap_invI) (simp_all add: hp coalesced_def)
qed

section \<open>The contract of an allocator\<close>

text \<open>The blocks of a heap, found by walking along its region.\<close>

fun memheap_walk :: "nat \<Rightarrow> (u32 \<Rightarrow> rt_memheap_item) \<Rightarrow> u32 \<Rightarrow> u32 \<Rightarrow> block list" where
  "memheap_walk 0 m e x = []"
| "memheap_walk (Suc n) m e x = (if x = e then [] else (x, RT_MEMHEAP_IS_USED (m x)) # memheap_walk n m e (mi_next (m x)))"

definition memheap_blocks :: "ptr \<Rightarrow> memheaps \<Rightarrow> block list" where
  "memheap_blocks p s = (let h = ms_heap s p in memheap_walk (unat (mh_pool_size h)) (ms_item s) (tailer h) (mh_start_addr h))"

lemma memheap_walk_rep: "hrep (headers m) pr x bs e \<Longrightarrow> length bs \<le> n \<Longrightarrow> memheap_walk n m e x = bs"
proof (induction n arbitrary: pr x bs)
  case (Suc n)
  show ?case
  proof (cases bs)
    case (Cons b bs')
    obtain y u where b: "b = (y, u)" by fastforce
    have "x \<noteq> e" using hrep_bounds[OF Suc.prems(1), of y u] Suc.prems(1) Cons b by auto
    then show ?thesis using Suc Cons b by auto
  qed (use Suc.prems in simp)
qed simp

lemma memheap_blocks_inv: "memheap_inv p s bs fs \<Longrightarrow> memheap_blocks p s = bs"
proof -
  assume inv: "memheap_inv p s bs fs"
  note d = memheap_invD[OF inv]
  have h: "hrep (headers (ms_item s)) (tailer (ms_heap s p)) (mh_start_addr (ms_heap s p)) bs (tailer (ms_heap s p))"
    using d(2) by (simp add: region_def)
  have "length bs \<le> unat (mh_pool_size (ms_heap s p))" using hrep_length[OF h] limits_tailer[OF d(1)] by simp
  then show ?thesis using memheap_walk_rep[OF h] by (simp add: memheap_blocks_def Let_def)
qed

definition memheap_ok :: "ptr \<Rightarrow> memheaps \<Rightarrow> bool" where
  "memheap_ok p s \<longleftrightarrow> (\<exists>fs. memheap_inv p s (memheap_blocks p s) fs)"

lemma memheap_okI: "memheap_inv p s bs fs \<Longrightarrow> memheap_ok p s"
  using memheap_blocks_inv by (auto simp: memheap_ok_def)

definition memheap_area :: "memheaps \<Rightarrow> u32 \<Rightarrow> nat \<times> nat" where
  "memheap_area s x = (unat x + 24, unat (mi_next (ms_item s x)))"

definition memheap_live :: "ptr \<Rightarrow> memheaps \<Rightarrow> (nat \<times> nat) set" where
  "memheap_live p s = memheap_area s ` {x. (x, True) \<in> set (memheap_blocks p s)}"

lemma memheap_live_inv: "memheap_inv p s bs fs \<Longrightarrow> memheap_live p s = memheap_area s ` {x. (x, True) \<in> set bs}"
  by (simp add: memheap_live_def memheap_blocks_inv)

lemma memheap_area_inj: "memheap_area s x = memheap_area s' y \<Longrightarrow> x = y"
  by (simp add: memheap_area_def word_unat_eq_iff)

text \<open>The parts of the calls under the lock, by data addresses.\<close>

definition memheap_alloc :: "ptr \<Rightarrow> u32 \<Rightarrow> memheaps \<Rightarrow> (nat option \<times> memheaps) option" where
  "memheap_alloc p sz s =
     (let fl = mh_free_list (ms_heap s p)
      in do { (x, n) \<leftarrow> memheap_search fl sz (mi_next_free (ms_item s fl)) 0 s;
              Some (if n \<ge> sz then (Some (unat x + 24), mark_used x (memheap_carve p x n sz s)) else (None, s)) })"

definition memheap_free :: "ptr \<Rightarrow> nat \<Rightarrow> memheaps \<Rightarrow> memheaps option" where
  "memheap_free p a s = Some (memheap_release p (of_nat a - 24) s)"

text \<open>What has become of the blocks when \<open>sz\<close> bytes of the block at \<open>x\<close> are taken.\<close>

definition memheap_taken :: "memheaps \<Rightarrow> u32 \<Rightarrow> u32 \<Rightarrow> block list \<Rightarrow> block list \<Rightarrow> block list" where
  "memheap_taken s x sz A B = A @ (x, True) # (if sz + 36 \<le> room (ms_item s) x then [(x + sz + 24, False)] else []) @ B"

lemma carve_takes:
  assumes inv: "memheap_inv p s (A @ (x, False) # B) fs" and sz: "fits_block sz" "sz \<le> room (ms_item s) x"
  defines "s' \<equiv> mark_used x (memheap_carve p x (room (ms_item s) x) sz s)"
  shows "\<exists>fs'. memheap_inv p s' (memheap_taken s x sz A B) fs'" "unat x + 24 + unat sz \<le> unat (mi_next (ms_item s' x))"
    "(y, True) \<in> set (A @ B) \<Longrightarrow> mi_next (ms_item s' y) = mi_next (ms_item s y)"
    "\<exists>n. ms_heap s' = (ms_heap s)(p := (ms_heap s p)\<lparr>mh_available_size := n\<rparr>)"
proof -
  note d = memheap_invD[OF inv] and mid = region_middle[OF memheap_invD(2)[OF inv]]
  have room: "unat (room (ms_item s) x) + unat x + 24 = unat (mi_next (ms_item s x))" using room_eq[of x "ms_item s"] mid(10) by simp
  have "unat (mi_next (ms_item s x)) + 24 < 2 ^ 32" using mid(2) limits_tailer[OF d(1)] d(1) by (simp add: memheap_limits_def)
  moreover have "unat sz \<le> unat (room (ms_item s) x)" using sz(2) by (simp add: word_le_nat_alt)
  ultimately have "unat (sz + 36) = unat sz + 36" using room by (simp add: unat_word_ariths)
  then have cond: "sz + 36 \<le> room (ms_item s) x \<longleftrightarrow> unat sz + 36 \<le> unat (room (ms_item s) x)" by (simp add: word_le_nat_alt)
  have "(\<exists>fs'. memheap_inv p s' (memheap_taken s x sz A B) fs') \<and> unat x + 24 + unat sz \<le> unat (mi_next (ms_item s' x)) \<and>
    ((y, True) \<in> set (A @ B) \<longrightarrow> mi_next (ms_item s' y) = mi_next (ms_item s y)) \<and>
    (\<exists>n. ms_heap s' = (ms_heap s)(p := (ms_heap s p)\<lparr>mh_available_size := n\<rparr>))"
  proof (cases "sz + 36 \<le> room (ms_item s) x")
    case True
    note sp = carve_split[OF inv sz(1) True[unfolded cond], folded s'_def] and n = cut_offset[OF d(2) sz(1) True[unfolded cond]]
    have "y \<noteq> x + sz + 24" if "(y, True) \<in> set (A @ B)"
      using inside_block[OF d(2), of "x + sz + 24" True] n that by auto
    moreover have "y \<noteq> x" if "(y, True) \<in> set (A @ B)" using block_once[OF d(2), of True] that by auto
    ultimately show ?thesis using sp n True by (auto simp: memheap_taken_def)
  next
    case False
    note sp = carve_whole[OF inv False, folded s'_def]
    show ?thesis using sp False room \<open>unat sz \<le> unat (room (ms_item s) x)\<close> by (auto simp: memheap_taken_def)
  qed
  then show "\<exists>fs'. memheap_inv p s' (memheap_taken s x sz A B) fs'" "unat x + 24 + unat sz \<le> unat (mi_next (ms_item s' x))"
    "(y, True) \<in> set (A @ B) \<Longrightarrow> mi_next (ms_item s' y) = mi_next (ms_item s y)"
    "\<exists>n. ms_heap s' = (ms_heap s)(p := (ms_heap s p)\<lparr>mh_available_size := n\<rparr>)" by blast+
qed

lemma search_inv:
  assumes inv: "memheap_inv p s bs fs" and sz: "fits_block sz"
  shows "returns (memheap_search (free_header p) sz (mi_next_free (ms_item s (free_header p))) 0 s)
     (\<lambda>(x, n). if sz \<le> n then (x, False) \<in> set bs \<and> n = room (ms_item s) x else \<forall>y. (y, False) \<in> set bs \<longrightarrow> room (ms_item s) y < sz)"
proof -
  note d = memheap_invD[OF inv]
  have "mi_next_free (ms_item s (free_header p)) = hd (fs @ [free_header p])"
    using d(4) by (cases fs) (auto simp: frep_def)
  moreover have "0 < sz" using sz by (auto simp: fits_block_def word_less_nat_alt)
  ultimately show ?thesis using memheap_search_returns[of s "free_header p" "[]" fs 0 sz] d(4,5) by (auto elim!: returns_mono split: if_splits)
qed

lemma carve_live:
  assumes inv: "memheap_inv p s (A @ (x, False) # B) fs" and sz: "fits_block sz" "sz \<le> room (ms_item s) x"
  defines "s' \<equiv> mark_used x (memheap_carve p x (room (ms_item s) x) sz s)"
  shows "memheap_ok p s'" "memheap_live p s' = insert (memheap_area s' x) (memheap_live p s)" "memheap_area s' x \<notin> memheap_live p s"
proof -
  note c = carve_takes[OF inv sz, folded s'_def]
  from c(1) obtain fs' where inv': "memheap_inv p s' (memheap_taken s x sz A B) fs'" by blast
  show "memheap_ok p s'" by (rule memheap_okI[OF inv'])
  have old: "memheap_live p s = memheap_area s ` {y. (y, True) \<in> set (A @ B)}" using memheap_live_inv[OF inv] by simp
  have "(x, True) \<notin> set (A @ B)" by (rule block_once[OF memheap_invD(2)[OF inv]])
  then show "memheap_area s' x \<notin> memheap_live p s" unfolding old by (metis (mono_tags, lifting) imageE mem_Collect_eq memheap_area_inj)
  have "memheap_area s' y = memheap_area s y" if "(y, True) \<in> set (A @ B)" for y using c(3)[OF that] by (simp add: memheap_area_def)
  moreover have "{y. (y, True) \<in> set (memheap_taken s x sz A B)} = insert x {y. (y, True) \<in> set (A @ B)}" by (auto simp: memheap_taken_def)
  ultimately show "memheap_live p s' = insert (memheap_area s' x) (memheap_live p s)"
    unfolding memheap_live_inv[OF inv'] old by (auto simp: image_iff)
qed

lemma memheap_release_live:
  assumes inv: "memheap_inv p s bs fs" and x: "(x, True) \<in> set bs"
  defines "s' \<equiv> memheap_release p x s"
  shows "memheap_ok p s'" "memheap_live p s' = memheap_live p s - {memheap_area s x}"
proof -
  obtain A B where bs: "bs = A @ (x, True) # B" using x by (meson split_list)
  note r = memheap_release_inv[OF inv[unfolded bs], folded s'_def]
  from r(1) obtain fs' where inv': "memheap_inv p s' (merge_prev A x (merge_next B)) fs'" by blast
  show "memheap_ok p s'" by (rule memheap_okI[OF inv'])
  have nx: "(x, True) \<notin> set (A @ B)" using block_once memheap_invD(2)[OF inv] bs by blast
  have "memheap_area s' y = memheap_area s y" if "(y, True) \<in> set (A @ B)" for y
    using r(2) that by (auto simp: release_frame_def memheap_area_def)
  then have new: "memheap_live p s' = memheap_area s ` {y. (y, True) \<in> set (A @ B)}"
    unfolding memheap_live_inv[OF inv'] by (auto simp: merged_used image_iff simp del: set_append)
  have old: "memheap_live p s = insert (memheap_area s x) (memheap_area s ` {y. (y, True) \<in> set (A @ B)})"
    unfolding memheap_live_inv[OF inv] bs by auto
  moreover have "memheap_area s x \<notin> memheap_area s ` {y. (y, True) \<in> set (A @ B)}"
    using nx by (metis (mono_tags, lifting) imageE mem_Collect_eq memheap_area_inj)
  ultimately show "memheap_live p s' = memheap_live p s - {memheap_area s x}" by (simp add: new del: set_append)
qed

interpretation memheap: allocator "memheap_ok p" "memheap_live p" "\<lambda>s. fits_block" unat "memheap_alloc p" "memheap_free p" for p
proof (unfold_locales, goal_cases)
  case (1 s P Q)
  then obtain x y where xy: "(x, True) \<in> set (memheap_blocks p s)" "(y, True) \<in> set (memheap_blocks p s)" "P = memheap_area s x"
    "Q = memheap_area s y" "x \<noteq> y" by (auto simp: memheap_live_def)
  from split_list[OF xy(1)] obtain A B where bs: "memheap_blocks p s = A @ (x, True) # B" by blast
  from 1(1) obtain fs where "memheap_inv p s (memheap_blocks p s) fs" by (auto simp: memheap_ok_def)
  then have r: "region p (ms_item s) (mh_start_addr (ms_heap s p)) (A @ (x, True) # B) (tailer (ms_heap s p))"
    using memheap_invD(2) bs by metis
  have "(y, True) \<in> set A \<or> (y, True) \<in> set B" using xy bs by auto
  then show ?case
  proof
    assume "(y, True) \<in> set A"
    then obtain A1 A2 where "A = A1 @ (y, True) # A2" by (meson split_list)
    then have r': "region p (ms_item s) (mh_start_addr (ms_heap s p)) (A1 @ (y, True) # A2 @ (x, True) # B) (tailer (ms_heap s p))"
      using r by simp
    show ?thesis using region_middle(8)[OF r', of x True] xy by (simp add: apart_def memheap_area_def)
  qed (use region_middle(8)[OF r, of y True] xy in \<open>simp add: apart_def memheap_area_def\<close>)
next
  case (2 s sz)
  then obtain fs where inv: "memheap_inv p s (memheap_blocks p s) fs" by (auto simp: memheap_ok_def)
  show ?case
    unfolding memheap_alloc_def memheap_invD(7)[OF inv] Let_def returns_bind
  proof (rule returns_mono[OF search_inv[OF inv 2(2)]], clarify)
    fix x n assume c: "if sz \<le> n then (x, False) \<in> set (memheap_blocks p s) \<and> n = room (ms_item s) x
      else \<forall>y. (y, False) \<in> set (memheap_blocks p s) \<longrightarrow> room (ms_item s) y < sz"
    show "returns (Some (if sz \<le> n then (Some (unat x + 24), mark_used x (memheap_carve p x n sz s)) else (None, s)))
      (\<lambda>(q, s'). memheap_ok p s' \<and> fits_block = fits_block \<and> (case q of None \<Rightarrow> memheap_live p s' = memheap_live p s
       | Some a \<Rightarrow> \<exists>b. a + unat sz \<le> b \<and> (a, b) \<notin> memheap_live p s \<and> memheap_live p s' = insert (a, b) (memheap_live p s)))"
    proof (cases "sz \<le> n")
      case True
      then obtain A B where bs: "memheap_blocks p s = A @ (x, False) # B" and n: "n = room (ms_item s) x" using c by (auto dest: split_list)
      have inv': "memheap_inv p s (A @ (x, False) # B) fs" and le: "sz \<le> room (ms_item s) x" using inv bs True n by simp_all
      show ?thesis
        using carve_live[OF inv' 2(2) le] carve_takes(2)[OF inv' 2(2) le] True n
        by (auto simp: memheap_area_def intro!: exI[of _ "unat (mi_next (ms_item (mark_used x (memheap_carve p x n sz s)) x))"])
    qed (use 2(1) in simp)
  qed
next
  case (3 s a b)
  then obtain x where x: "(x, True) \<in> set (memheap_blocks p s)" "memheap_area s x = (a, b)" by (auto simp: memheap_live_def)
  then have "of_nat a - 24 = x" by (auto simp: memheap_area_def)
  moreover obtain fs where "memheap_inv p s (memheap_blocks p s) fs" using 3(1) by (auto simp: memheap_ok_def)
  ultimately show ?case using memheap_release_live[OF _ x(1)] x(2) by (simp add: memheap_free_def)
qed

section \<open>The calls\<close>

text \<open>The lock of a heap is free and the running thread \<open>t\<close> may take it.\<close>

definition lock_free :: "ptr \<Rightarrow> tid \<Rightarrow> kernel \<Rightarrow> bool" where
  "lock_free p t k \<longleftrightarrow> kernel_inv k \<and> k_interrupt_nest k = 0 \<and> k_current k = Some t \<and> prio k t < 32 \<and>
     mutex_ok k (memheap_lock p) \<and> m_owner (k_mutexes k (memheap_lock p)) = None"

lemma locked_section:
  assumes "lock_free p t (sys_kernel s)"
  obtains s1 where "take_lock p s = Some (Done RT_EOK, s1)" "sys_drv s1 = sys_drv s"
    "\<And>d. returns (memheap_unlock p (s1\<lparr>sys_drv := d\<rparr>)) (\<lambda>s2. sys_drv s2 = d \<and> lock_free p t (sys_kernel s2))"
proof -
  let ?m = "memheap_lock p" let ?k = "upd_thread t (\<lambda>th. th\<lparr>t_error := RT_EOK\<rparr>) (sys_kernel s)"
  let ?k1 = "upd_mutex ?m (\<lambda>mx. mx\<lparr>m_value := m_value mx - 1, m_owner := Some t, m_original_priority := prio ?k t, m_hold := m_hold mx + 1\<rparr>) ?k"
  have free: "m_owner (k_mutexes (sys_kernel s) ?m) = None" "m_value (k_mutexes (sys_kernel s) ?m) = 1"
    "m_hold (k_mutexes (sys_kernel s) ?m) = 0" "k_tlists (sys_kernel s) (Mutex_Q ?m) = []"
    using assms by (auto simp: lock_free_def mutex_ok_def Let_def)
  have "take_lock p s = Some (Done RT_EOK, s\<lparr>sys_kernel := ?k1\<rparr>)"
    using assms free by (simp add: take_lock_def rt_mutex_take_def rt_thread_self_def lock_free_def)
  moreover have "returns (memheap_unlock p (s\<lparr>sys_kernel := ?k1, sys_drv := d\<rparr>)) (\<lambda>s2. sys_drv s2 = d \<and> lock_free p t (sys_kernel s2))" for d
    using assms free by (simp add: memheap_unlock_def rt_mutex_release_def rt_thread_self_def lock_free_def mutex_ok_def Let_def)
  ultimately show thesis using that[of "s\<lparr>sys_kernel := ?k1\<rparr>"] by simp
qed

lemma memheap_alloc_call:
  assumes lock: "lock_free p t (sys_kernel s)" and lt: "memheap_request n < mh_available_size (ms_heap (sys_drv s) p)"
    and al: "memheap_alloc p (memheap_request n) (sys_drv s) = Some (r, d)"
  shows "returns (rt_memheap_alloc p n s) (\<lambda>(v, s'). v = Done (case r of None \<Rightarrow> 0 | Some a \<Rightarrow> of_nat a) \<and> sys_drv s' = d \<and>
     lock_free p t (sys_kernel s'))"
proof -
  from locked_section[OF lock] obtain s1 where s1: "take_lock p s = Some (Done RT_EOK, s1)" "sys_drv s1 = sys_drv s"
    "\<And>d. returns (memheap_unlock p (s1\<lparr>sys_drv := d\<rparr>)) (\<lambda>s2. sys_drv s2 = d \<and> lock_free p t (sys_kernel s2))" by blast
  let ?sz = "memheap_request n" let ?fl = "mh_free_list (ms_heap (sys_drv s) p)"
  obtain x m where se: "memheap_search ?fl ?sz (mi_next_free (ms_item (sys_drv s) ?fl)) 0 (sys_drv s) = Some (x, m)"
    and r: "(r, d) = (if ?sz \<le> m then (Some (unat x + 24), mark_used x (memheap_carve p x m ?sz (sys_drv s))) else (None, sys_drv s))"
    using al by (auto simp: memheap_alloc_def Let_def bind_eq_Some_conv)
  have call: "rt_memheap_alloc p n s = rt_memheap_alloc_taken p ?sz RT_EOK s1"
    using lt s1(1) by (simp add: rt_memheap_alloc_def Let_def bind_done_def)
  show ?thesis
  proof (cases "?sz \<le> m")
    case True
    then show ?thesis
      using s1(3)[of "memheap_carve p x m ?sz (sys_drv s)"] r
      by (auto simp: call rt_memheap_alloc_taken_def s1(2) se returns_bind elim!: returns_mono)
  next
    case False
    have "returns (memheap_unlock p s1) (\<lambda>s2. sys_drv s2 = sys_drv s1 \<and> lock_free p t (sys_kernel s2))"
      using s1(3)[of "sys_drv s1"] by simp
    then show ?thesis using r s1(2) False
      by (auto simp: call rt_memheap_alloc_taken_def se returns_bind elim!: returns_mono)
  qed
qed

lemma memheap_free_call:
  assumes lock: "lock_free p t (sys_kernel s)" and x: "item_ok p (ms_item (sys_drv s) x) x True"
  shows "returns (rt_memheap_free (x + 24) s) (\<lambda>(v, s'). v = Done () \<and> sys_drv s' = memheap_release p x (sys_drv s) \<and> lock_free p t (sys_kernel s'))"
proof -
  from locked_section[OF lock] obtain s1 where s1: "take_lock p s = Some (Done RT_EOK, s1)" "sys_drv s1 = sys_drv s"
    "\<And>d. returns (memheap_unlock p (s1\<lparr>sys_drv := d\<rparr>)) (\<lambda>s2. sys_drv s2 = d \<and> lock_free p t (sys_kernel s2))" by blast
  have "rt_memheap_free (x + 24) s = rt_memheap_free_taken p x RT_EOK s1"
    using x s1(1) by (simp add: rt_memheap_free_def item_ok_def bind_done_def)
  then show ?thesis using s1(3)[of "memheap_release p x (sys_drv s)"] by (auto simp: rt_memheap_free_taken_def s1(2) elim!: returns_mono)
qed

text \<open>Giving back what was just taken restores the blocks, and with them the count of free bytes.\<close>

lemma region_free_sum: "region p m start bs e \<Longrightarrow> region p m' start bs e \<Longrightarrow> free_sum m' bs = free_sum m bs"
proof (rule free_sum_cong)
  fix x assume r: "region p m start bs e" "region p m' start bs e" and "(x, False) \<in> set bs"
  then obtain A B where "bs = A @ (x, False) # B" by (meson split_list)
  then show "mi_next (m' x) = mi_next (m x)" using region_middle(3)[of p m start A x False B e] region_middle(3)[of p m' start A x False B e] r by simp
qed

lemma taken_merged:
  assumes "coalesced (A @ (x, False) # B)"
  shows "memheap_taken s x sz A B = A @ (x, True) # C \<Longrightarrow> merge_prev A x (merge_next C) = A @ (x, False) # B"
proof -
  have A: "\<not> (A \<noteq> [] \<and> \<not> snd (last A))" using assms by (auto simp: coalesced_def successively_append_iff)
  have "merge_next B = B" using assms by (cases B rule: merge_next.cases) (auto simp: coalesced_def successively_append_iff successively_Cons)
  then show "memheap_taken s x sz A B = A @ (x, True) # C \<Longrightarrow> merge_prev A x (merge_next C) = A @ (x, False) # B"
    using A by (auto simp: memheap_taken_def merge_prev_def split: if_splits)
qed

lemma take_release:
  assumes inv: "memheap_inv p s (A @ (x, False) # B) fs" and sz: "fits_block sz" "sz \<le> room (ms_item s) x"
  defines "s' \<equiv> memheap_release p x (mark_used x (memheap_carve p x (room (ms_item s) x) sz s))"
  shows "memheap_ok p s'" "memheap_blocks p s' = memheap_blocks p s" "mh_available_size (ms_heap s' p) = mh_available_size (ms_heap s p)"
proof -
  let ?s1 = "mark_used x (memheap_carve p x (room (ms_item s) x) sz s)"
  note c = carve_takes[OF inv sz]
  obtain C where C: "memheap_taken s x sz A B = A @ (x, True) # C" by (simp add: memheap_taken_def)
  from c(1) obtain f1 where inv1: "memheap_inv p ?s1 (A @ (x, True) # C) f1" unfolding C by blast
  note r = memheap_release_inv[OF inv1, folded s'_def]
  from r(1) obtain f2 where inv2: "memheap_inv p s' (A @ (x, False) # B) f2"
    unfolding taken_merged[OF memheap_invD(3)[OF inv] C] by blast
  show "memheap_ok p s'" by (rule memheap_okI[OF inv2])
  show "memheap_blocks p s' = memheap_blocks p s" using memheap_blocks_inv[OF inv2] memheap_blocks_inv[OF inv] by simp
  have f: "mh_start_addr (ms_heap s' p) = mh_start_addr (ms_heap s p)" "tailer (ms_heap s' p) = tailer (ms_heap s p)"
    using frame_fields[OF r(2)] c(4) by (auto simp: tailer_def)
  show "mh_available_size (ms_heap s' p) = mh_available_size (ms_heap s p)"
    using region_free_sum[OF memheap_invD(2)[OF inv] memheap_invD(2)[OF inv2, unfolded f]] memheap_invD(6)[OF inv] memheap_invD(6)[OF inv2] by simp
qed

text \<open>The size of a request.\<close>

lemma memheap_request_fits:
  assumes "unat n + 3 < 2 ^ 32"
  shows "fits_block (memheap_request n)" "unat n \<le> unat (memheap_request n)"
  using rt_align_bounds[OF assms] by (auto simp: memheap_request_def fits_block_def word_less_nat_alt)

definition memheap_ready :: "ptr \<Rightarrow> tid \<Rightarrow> memheaps sys \<Rightarrow> bool" where
  "memheap_ready p t s \<longleftrightarrow> memheap_ok p (sys_drv s) \<and> lock_free p t (sys_kernel s)"

text \<open>A heap that has been initialised is one free block, and its lock can be taken.\<close>

lemma mutex_init_lock:
  assumes "kernel_inv k" "k_interrupt_nest k = 0" "k_current k = Some t" "prio k t < 32" "k_tlists k (Mutex_Q (memheap_lock p)) = []"
  shows "lock_free p t (rt_mutex_init (memheap_lock p) name flag (rt_object_init (OMemHeap p) c name k))"
proof -
  let ?k = "rt_mutex_init (memheap_lock p) name flag (rt_object_init (OMemHeap p) c name k)"
  have e: "(k_tlists k)(Mutex_Q (memheap_lock p) := []) = k_tlists k" using assms(5) by (simp add: fun_upd_idem)
  have "kinv (k_tick k) (HALF - 1) ?k \<longleftrightarrow> kernel_inv k"
    by (rule kinv_cong) (simp_all add: same_threads_def same_timers_def rt_mutex_init_def Let_def rt_ipc_object_init_def set_obj_flag_def e upd_mutex_def rt_object_init_def)
  then show ?thesis
    using assms by (simp add: lock_free_def mutex_ok_def rt_mutex_init_def Let_def rt_ipc_object_init_def set_obj_flag_def)
qed

lemma memheap_init_ready:
  fixes s :: "memheaps sys" and name :: cstr
  assumes "kernel_inv (sys_kernel s)" "k_interrupt_nest (sys_kernel s) = 0" "k_current (sys_kernel s) = Some t" "prio (sys_kernel s) t < 32"
    "k_tlists (sys_kernel s) (Mutex_Q (memheap_lock p)) = []"
    and sz: "60 \<le> unat (rt_align_down sz)" "unat start + unat (rt_align_down sz) < 2 ^ 32" "4 dvd unat start"
      "free_header p < start \<or> start + rt_align_down sz - 24 < free_header p"
  defines "s' \<equiv> snd (rt_memheap_init p name start sz s)"
  shows "memheap_inv p (sys_drv s') [(start, False)] [start]" "memheap_ready p t s'"
proof -
  show i: "memheap_inv p (sys_drv s') [(start, False)] [start]"
    using memheap_format_inv[OF sz] by (simp add: s'_def rt_memheap_init_def Let_def)
  show "memheap_ready p t s'"
    using memheap_okI[OF i] mutex_init_lock[OF assms(1-5)] by (simp add: memheap_ready_def s'_def rt_memheap_init_def Let_def)
qed

text \<open>After it has been detached neither the heap nor its lock is found by name.\<close>

lemma memheap_detach_unlinks:
  assumes "rt_memheap_detach p s = (r, s')"
  shows "r = RT_EOK" "sys_drv s' = sys_drv s" "OMemHeap p \<notin> set (k_container (sys_kernel s') c)"
    "OMutex (memheap_lock p) \<notin> set (k_container (sys_kernel s') c)"
    "x \<noteq> OMemHeap p \<Longrightarrow> x \<noteq> OMutex (memheap_lock p) \<Longrightarrow> x \<in> set (k_container (sys_kernel s') c) \<longleftrightarrow> x \<in> set (k_container (sys_kernel s) c)"
  using assms by (auto simp: rt_memheap_detach_def Let_def rt_object_detach_def)

end
