(* ===== verification/Memheap_Props.thy ===== *)
theory Memheap_Props
  imports Memheap Demo_State
begin

text \<open>The theorem on memory heaps.\<close>

text \<open>A request for \<open>n\<close> bytes cannot be served: there are not more free bytes, or no free block is large enough.\<close>

definition exhausted :: "ptr \<Rightarrow> u32 \<Rightarrow> memheaps \<Rightarrow> bool" where
  "exhausted p n d \<longleftrightarrow> mh_available_size (ms_heap d p) \<le> memheap_request n \<or>
     (\<forall>x. (x, False) \<in> set (memheap_blocks p d) \<longrightarrow> room (ms_item d) x < memheap_request n)"

text \<open>From \<open>d\<close> to \<open>d'\<close> one area has been handed out, at the aligned address \<open>a\<close> and with at least \<open>n\<close> bytes.\<close>

definition serves :: "ptr \<Rightarrow> u32 \<Rightarrow> u32 \<Rightarrow> memheaps \<Rightarrow> memheaps \<Rightarrow> bool" where
  "serves p n a d d' \<longleftrightarrow> 4 dvd unat a \<and> (\<exists>b. unat a + unat n \<le> b \<and> memheap_live p d' = insert (unat a, b) (memheap_live p d) \<and>
     (\<forall>B\<in>memheap_live p d. apart (unat a, b) B))"

definition restores :: "ptr \<Rightarrow> memheaps \<Rightarrow> memheaps \<Rightarrow> bool" where
  "restores p d d' \<longleftrightarrow> memheap_blocks p d' = memheap_blocks p d \<and> memheap_live p d' = memheap_live p d \<and>
     mh_available_size (ms_heap d' p) = mh_available_size (ms_heap d p)"

lemma memheap_serves:
  assumes inv: "memheap_inv p d (A @ (x, False) # B) fs" and n: "unat n + 3 < 2 ^ 32" and le: "memheap_request n \<le> room (ms_item d) x"
  defines "d' \<equiv> mark_used x (memheap_carve p x (room (ms_item d) x) (memheap_request n) d)"
  shows "memheap_ok p d'" "serves p n (x + 24) d d'" "x + 24 \<noteq> 0" "item_ok p (ms_item d' x) x True"
    "memheap_ok p (memheap_release p x d')" "restores p d (memheap_release p x d')"
proof -
  note fit = memheap_request_fits[OF n]
  note tk = carve_takes[OF inv fit(1) le, folded d'_def] and lv = carve_live[OF inv fit(1) le, folded d'_def]
    and tr = take_release[OF inv fit(1) le, folded d'_def]
  let ?b = "unat (mi_next (ms_item d' x))"
  from tk(1) obtain f1 where inv1: "memheap_inv p d' (memheap_taken d x (memheap_request n) A B) f1" by blast
  have x1: "(x, True) \<in> set (memheap_taken d x (memheap_request n) A B)" by (simp add: memheap_taken_def)
  have a: "unat (x + 24) = unat x + 24" using tk(2) unsigned_less[of "mi_next (ms_item d' x)", where 'a = nat] by (simp add: unat_word_ariths)
  then show "x + 24 \<noteq> 0" by (auto simp: word_unat_eq_iff)
  have ar: "memheap_area d' x = (unat (x + 24), ?b)" by (simp add: memheap_area_def a)
  have "\<forall>Q\<in>memheap_live p d. apart (unat (x + 24), ?b) Q"
    using memheap.live_apart[OF lv(1), of "memheap_area d' x"] lv(2,3) by (auto simp: ar)
  moreover have "unat (x + 24) + unat n \<le> ?b" using tk(2) fit(2) by (simp add: a)
  moreover have "4 dvd unat (x + 24)" using region_middle(6)[OF memheap_invD(2)[OF inv]] by (simp add: a)
  ultimately show "serves p n (x + 24) d d'" using lv(2) by (auto simp: serves_def ar)
  show "memheap_ok p d'" by (rule lv(1))
  show "item_ok p (ms_item d' x) x True" by (rule region_item[OF memheap_invD(2)[OF inv1] x1])
  show "memheap_ok p (memheap_release p x d')" by (rule tr(1))
  show "restores p d (memheap_release p x d')" using tr memheap_release_live(2)[OF inv1 x1] lv(2,3) by (simp add: restores_def)
qed

text \<open>C28: On a consistent memory heap whose lock is free \<open>rt_memheap_alloc\<close> returns.  It gives an aligned address behind
  which as many bytes as were asked for lie apart from every area that is in use, or it leaves the heap alone and
  gives \<open>RT_NULL\<close>; it does so only when the free bytes are not more than the request or no free block is large
  enough.  \<open>rt_memheap_free\<close> of that address returns and restores the blocks and the count of free bytes.  The heap
  stays consistent and its lock is free again.\<close>

theorem memheap_alloc_free:
  assumes ok: "memheap_ready p t s" and n: "unat n + 3 < 2 ^ 32"
  shows "returns (rt_memheap_alloc p n s) (\<lambda>(r, s'). \<exists>a. r = Done a \<and> memheap_ready p t s' \<and>
    (if a = 0 then sys_drv s' = sys_drv s \<and> exhausted p n (sys_drv s)
     else serves p n a (sys_drv s) (sys_drv s') \<and>
       returns (rt_memheap_free a s') (\<lambda>(r, s''). r = Done () \<and> memheap_ready p t s'' \<and> restores p (sys_drv s) (sys_drv s''))))"
proof (cases "memheap_request n < mh_available_size (ms_heap (sys_drv s) p)")
  case False
  then show ?thesis using ok by (auto simp: rt_memheap_alloc_def Let_def exhausted_def)
next
  case lt: True
  let ?d = "sys_drv s" let ?sz = "memheap_request n"
  have lock: "lock_free p t (sys_kernel s)" using ok by (simp add: memheap_ready_def)
  obtain fs where inv: "memheap_inv p ?d (memheap_blocks p ?d) fs" using ok by (auto simp: memheap_ready_def memheap_ok_def)
  from search_inv[OF inv memheap_request_fits(1)[OF n]] obtain x m where
    se: "memheap_search (free_header p) ?sz (mi_next_free (ms_item ?d (free_header p))) 0 ?d = Some (x, m)"
    and c: "if ?sz \<le> m then (x, False) \<in> set (memheap_blocks p ?d) \<and> m = room (ms_item ?d) x
      else \<forall>y. (y, False) \<in> set (memheap_blocks p ?d) \<longrightarrow> room (ms_item ?d) y < ?sz" by (auto simp: returns_def)
  show ?thesis
  proof (cases "?sz \<le> m")
    case False
    then have "memheap_alloc p ?sz ?d = Some (None, ?d)" by (simp add: memheap_alloc_def memheap_invD(7)[OF inv] se)
    from memheap_alloc_call[OF lock lt this] show ?thesis
      by (rule returns_mono) (use ok c False in \<open>auto simp: memheap_ready_def exhausted_def\<close>)
  next
    case True
    then obtain A B where bs: "memheap_blocks p ?d = A @ (x, False) # B" and m: "m = room (ms_item ?d) x" using c by (auto dest: split_list)
    have invx: "memheap_inv p ?d (A @ (x, False) # B) fs" and le: "?sz \<le> room (ms_item ?d) x" using inv bs True m by simp_all
    note sv = memheap_serves[OF invx n le]
    let ?d1 = "mark_used x (memheap_carve p x (room (ms_item ?d) x) ?sz ?d)"
    have fr: "returns (rt_memheap_free (x + 24) s') (\<lambda>(r, s''). r = Done () \<and> memheap_ready p t s'' \<and> restores p ?d (sys_drv s''))"
      if "sys_drv s' = ?d1" "lock_free p t (sys_kernel s')" for s' :: "memheaps sys"
      by (rule returns_mono[OF memheap_free_call[OF that(2), of x]]) (use that sv in \<open>auto simp: memheap_ready_def\<close>)
    have "memheap_alloc p ?sz ?d = Some (Some (unat x + 24), ?d1)" using True by (simp add: memheap_alloc_def memheap_invD(7)[OF inv] se m)
    from memheap_alloc_call[OF lock lt this] show ?thesis
      by (rule returns_mono) (use sv fr in \<open>auto simp: memheap_ready_def add.commute\<close>)
  qed
qed

text \<open>A heap of 4 KByte in the external memory.\<close>

definition no_memheap :: "memheaps sys" where
  "no_memheap = \<lparr>sys_kernel = demo, sys_errno = 0, sys_devs = (\<lambda>_. \<lparr>d_type = 0, d_flag = 0, d_open_flag = 0,
     d_rx_indicate = None, d_tx_complete = None, d_handlers = 0, d_user_data = 0\<rparr>), sys_msgs = [],
     sys_drv = \<lparr>ms_item = (\<lambda>_. \<lparr>mi_magic = 0, mi_next = 0, mi_prev = 0, mi_next_free = 0,
       mi_prev_free = 0, mi_pool_ptr = 0\<rparr>), ms_heap = (\<lambda>_. \<lparr>mh_start_addr = 0, mh_pool_size = 0, mh_available_size = 0,
       mh_block_list = 0, mh_free_list = 0\<rparr>)\<rparr>\<rparr>"

definition demo_memheap :: "memheaps sys" where
  "demo_memheap = snd (rt_memheap_init 0x100 [0x73, 0x64, 0] 0xa0000000 0x1000 no_memheap)"

lemma demo_memheap_init:
  "memheap_inv 0x100 (sys_drv demo_memheap) [(0xa0000000, False)] [0xa0000000]" "memheap_ready 0x100 2 demo_memheap"
proof -
  have "sys_kernel no_memheap = demo" by (simp add: no_memheap_def)
  then have "memheap_inv 0x100 (sys_drv demo_memheap) [(0xa0000000, False)] [0xa0000000] \<and> memheap_ready 0x100 2 demo_memheap"
    unfolding demo_memheap_def using demo_kernel_inv
    by (intro conjI memheap_init_ready) (simp_all add: rt_align_down_def free_header_def demo_tlists_def memheap_lock_def)
  then show "memheap_inv 0x100 (sys_drv demo_memheap) [(0xa0000000, False)] [0xa0000000]" "memheap_ready 0x100 2 demo_memheap" by simp_all
qed

theorem memheap_alloc_free_witness:
  "\<exists>a s'. rt_memheap_alloc 0x100 100 demo_memheap = Some (Done a, s') \<and> a \<noteq> 0 \<and> serves 0x100 100 a (sys_drv demo_memheap) (sys_drv s') \<and>
     returns (rt_memheap_free a s') (\<lambda>(r, s''). r = Done () \<and> memheap_ready 0x100 2 s'' \<and> restores 0x100 (sys_drv demo_memheap) (sys_drv s''))"
proof -
  let ?d = "sys_drv demo_memheap"
  have "mh_available_size (ms_heap ?d 0x100) = 0x1000 - 48" "memheap_request 100 = 100"
    by (simp_all add: demo_memheap_def rt_memheap_init_def memheap_format_def Let_def rt_align_down_def memheap_request_def rt_align_def)
  then have "\<not> exhausted 0x100 100 ?d"
    using memheap_invD(6)[OF demo_memheap_init(1)] by (simp add: exhausted_def memheap_blocks_inv[OF demo_memheap_init(1)])
  then show ?thesis using memheap_alloc_free[OF demo_memheap_init(2), of 100] by (auto simp: returns_def split: if_splits)
qed

end
