(* ===== verification/Spec2Isabelle.thy ===== *)
theory Spec2Isabelle
  imports Kernel_Props Ipc_Props Memory_Props Service_Props Driver_Props System_Props Memheap_Props
begin

text \<open>
  \<^bold>\<open>The RT-Thread 1.1.0 kernel of the LPC1788 demonstration.\<close>

  The program is a real-time operating system, \<^verbatim>\<open>src/src/os/rt-thread\<close>, with a board support package
  and a demonstration application.  This development models the kernel: the sources under
  \<^verbatim>\<open>src/src/os/rt-thread/src\<close>, the headers \<^verbatim>\<open>include/rtdef.h\<close> and \<^verbatim>\<open>include/rtservice.h\<close>, and the stack
  frame of \<^verbatim>\<open>libcpu/arm/cortex-m3/cpuport.c\<close>; the driver framework under \<^verbatim>\<open>components/drivers\<close>; and the drivers of
  the serial ports under \<^verbatim>\<open>src/src/bsp/driver_periph/usart\<close>, in the configuration of \<^verbatim>\<open>rtconfig.h\<close>: 32 priorities, 1000
  ticks per second, names of 6 characters, alignment 4, hard timers only, the small memory allocator, no
  modules.

  \<^bold>\<open>How the parts interact.\<close>  Threads, timers and IPC objects are kernel objects, linked in the container
  of their class.  The scheduler keeps a ready queue for every priority and a bit mask of the queues that
  are not empty, and gives the processor to the first thread of the highest priority.  A thread that
  waits is taken off its ready queue and put on the wait queue of an IPC object; its timer, if it waits
  with a time-out, is put on the list of timers, which is ordered by the time of expiry.  The tick
  interrupt takes expired timers off that list and calls their functions; \<^verbatim>\<open>rt_thread_timeout\<close> makes the
  waiting thread ready again.  Releasing an IPC object makes the first waiter ready.  Objects, stacks,
  mail and message pools come from the heap, which is protected by a semaphore; dead threads are given
  back to it by the idle thread.  A device is a kernel object with a table of handlers; the serial framework is
  such a table over the operations of a port, and \<^verbatim>\<open>rt_kprintf\<close> formats a text and writes it to the console device.
  Pipes, data queues and completions suspend and wake threads as the IPC objects do.

  \<^bold>\<open>Conventions.\<close>
  \<^item> One record \<open>kernel\<close> (theory \<open>Kernel_State\<close>) holds the global variables of all sources and the tables
    of structures, indexed by address.  An operation is a function of the state; one that can stop the
    system (a failed \<^verbatim>\<open>RT_ASSERT\<close>, a dereference of \<^verbatim>\<open>RT_NULL\<close>, an access out of bounds, a loop that does not
    end) has an option type, and \<^const>\<open>None\<close> is that the call does not come back.  Loops that are not
    structurally recursive are \<^theory_text>\<open>partial_function (option)\<close>; no fuel is used, and the theorems
    state with \<open>returns\<close> that the calls come back.
  \<^item> A blocking call gives \<open>Blocked\<close> when its caller has been taken off the processor, and \<open>Done r\<close> when it
    returns \<open>r\<close>.  The part behind the wait is a function of its own (\<open>rt_sem_take_resumed\<close>, \<open>rt_mb_recv_resumed\<close>,
    ...), run in the state in which the caller is current again.  A call that reschedules and goes on
    (a release) is modelled as going on.
  \<^item> Machine integers are words of their width; ticks wrap.  Lists of \<^verbatim>\<open>rt_list_t\<close> nodes are sequences in a
    store; theory \<open>Rt_List\<close> models the pointer code of \<^verbatim>\<open>rtservice.h\<close> and proves that it implements that
    store, for nodes that are in at most one list.
  \<^item> Functions of the user (time-out functions, clean-up functions) and the address of \<^verbatim>\<open>rt_thread_exit\<close> are
    parameters.  Hooks are never set and not modelled.  Arguments that \<^verbatim>\<open>RT_ASSERT\<close> requires not to be
    \<^verbatim>\<open>RT_NULL\<close> are addresses.  Heap headers, pool words and data bytes are separate stores: the theorems on
    the heap show that the areas handed out never overlap the headers.

  \<^bold>\<open>The theories.\<close>
  \<^item> \<open>RT_Prelude\<close>: integer types, error codes, \<open>returns\<close>, alignment, lemmas on lists and words.
  \<^item> \<open>Rt_List\<close> (\<^verbatim>\<open>rtservice.h\<close>): the ring of pointers, and the refinement to sequences, including the ordered
    insertion loops of \<^verbatim>\<open>rt_timer_start\<close> and \<^verbatim>\<open>rt_ipc_list_suspend\<close>.
  \<^item> \<open>Kservice\<close>, \<open>Byte_Mem\<close> (\<^verbatim>\<open>kservice.c\<close>): strings and names; \<^verbatim>\<open>rt_memset\<close>, \<^verbatim>\<open>rt_memcpy\<close>, \<^verbatim>\<open>rt_memmove\<close> and \<^verbatim>\<open>rt_memcmp\<close> on
    a byte memory, equal to their byte-wise specifications.
  \<^item> \<open>Printf\<close> (\<^verbatim>\<open>kservice.c\<close>): formatted printing into a byte memory; every store is guarded by the end of the buffer,
    and the 32 bit write pointer runs on behind it.  The bound \<open>text_limit\<close> on the text says when it cannot wrap.
  \<^item> \<open>Kernel_State\<close> (\<^verbatim>\<open>rtdef.h\<close>): structures and the kernel record.
  \<^item> \<open>Scheduler\<close> (\<^verbatim>\<open>scheduler.c\<close>): ready queues, ready group, \<^verbatim>\<open>rt_schedule\<close>; the invariant \<open>sched_inv\<close> ties
    queues, masks and thread states together.
  \<^item> \<open>Object\<close> (\<^verbatim>\<open>object.c\<close>): containers and names.
  \<^item> \<open>Timer\<close> (\<^verbatim>\<open>timer.c\<close>): the ordered list of timers across the wrap of the tick; the check loop ends.
  \<^item> \<open>Thread\<close>, \<open>Thread_Ops\<close> (\<^verbatim>\<open>thread.c\<close>, \<^verbatim>\<open>cpuport.c\<close>): the life of a thread; the invariant \<open>kernel_inv\<close> of
    scheduler and timers together and that every operation keeps it.
  \<^item> \<open>Clock\<close> (\<^verbatim>\<open>clock.c\<close>, \<^verbatim>\<open>irq.c\<close>): the tick interrupt.
  \<^item> \<open>Demo_State\<close>: a small system on which the theorems are exercised.
  \<^item> \<open>Ipc_List\<close>, \<open>Semaphore\<close>, \<open>Mutex\<close>, \<open>Event\<close>, \<open>Mailbox\<close>, \<open>Message_Queue\<close> (\<^verbatim>\<open>ipc.c\<close>): wait queues and the IPC objects.
    \<open>Fifo_Spec\<close> is the contract of a first-in first-out store; the ring of a mailbox is an instance.
  \<^item> \<open>Mempool\<close> (\<^verbatim>\<open>mempool.c\<close>): fixed size blocks.
  \<^item> \<open>Alloc_Spec\<close>: the contract of an allocator; \<open>Mem\<close> (\<^verbatim>\<open>mem.c\<close>): the chain of heap blocks, an instance of it.  A refusal
    says what the search has seen: the free blocks from \<^verbatim>\<open>lfree\<close> on, short of the last bytes of the heap.
  \<^item> \<open>Kernel_Heap\<close> (\<^verbatim>\<open>mem.c\<close>, \<^verbatim>\<open>idle.c\<close>, and the creating and deleting functions of \<^verbatim>\<open>object.c\<close>, \<^verbatim>\<open>ipc.c\<close>, \<^verbatim>\<open>thread.c\<close>,
    \<^verbatim>\<open>timer.c\<close>, \<^verbatim>\<open>mempool.c\<close>, \<^verbatim>\<open>kservice.c\<close>): the heap under its semaphore and what the kernel keeps on it.
  \<^item> \<open>Memheap\<close> (\<^verbatim>\<open>memheap.c\<close>): allocators for further memory regions.  The ring of blocks is a chain as in \<open>Mem\<close>, the ring of
    free blocks one as in \<open>Rt_List\<close>; allocation and release under the lock are an instance of \<open>Alloc_Spec\<close>.
  \<^item> \<open>Device\<close> (\<^verbatim>\<open>device.c\<close>, the error numbers of \<^verbatim>\<open>kservice.c\<close>): devices; the record \<open>sys\<close> holds the kernel, the device
    structures and the state \<open>'x\<close> of the drivers, and the handlers are a table \<open>rt_device_ops\<close> of functions on it.
  \<^item> \<open>Ring_Index\<close>, \<open>Ring_Buffer\<close> (\<^verbatim>\<open>ringbuffer.c\<close>), \<open>Data_Queue\<close> (\<^verbatim>\<open>dataqueue.c\<close>): rings with 16 bit indices that run freely; they are
    instances of \<open>Fifo_Spec\<close>, as long as the indices have not wrapped past each other; a ring buffer is shown to be a
    queue for fewer than \<open>2 ^ 16\<close> bytes in all.
  \<^item> \<open>Completion\<close> (\<^verbatim>\<open>completion.c\<close>), \<open>Pipe\<close> (\<^verbatim>\<open>pipe.c\<close>): waiting for the end of an operation, byte pipes between threads.
  \<^item> \<open>Serial\<close> (\<^verbatim>\<open>serial.c\<close>, \<^verbatim>\<open>serial.h\<close>): the serial framework, over operations of the port that are a parameter; the locale
    \<open>uart\<close> states what it relies on when it sends.  \<open>Usart\<close> (\<^verbatim>\<open>lpc1788_usart0.c\<close>, \<^verbatim>\<open>lpc1788_usart1.c\<close>): the ports of the board, an
    instance of it.  The transmit register is the list of the bytes written to it, the receiver a list of waiting
    bytes; the status registers read in a handler are its arguments.  \<open>tx_run\<close> takes the writers apart into stores and
    kicks, with the transmit interrupt between them in any order; zero bytes, which the driver drops, are part of it.
  \<^item> \<open>Console\<close> (\<^verbatim>\<open>kservice.c\<close>): the console device and \<^verbatim>\<open>rt_kprintf\<close>.
  \<^item> \<open>Frames\<close>: what every operation of the kernel leaves alone, whether it succeeds or not.  \<open>System\<close> (\<^verbatim>\<open>bsp.c\<close>): the step
    relation of the whole system.  The running thread makes a call of the kernel, a thread that was in a blocking call goes
    on, or the clock ticks.  The invariant \<open>sys_inv\<close> of kernel and IPC objects is kept by every step, and under it every
    step is possible.  \<open>Application\<close> (\<^verbatim>\<open>main.c\<close>, \<^verbatim>\<open>app.c\<close>): the start of the system leads to a state with that invariant,
    and the heap the linker leaves, when it has room for them, holds all four threads of the application.
  \<^item> \<open>Kernel_Props\<close>, \<open>Ipc_Props\<close>, \<open>Memory_Props\<close>, \<open>Memheap_Props\<close>, \<open>Service_Props\<close>, \<open>Driver_Props\<close>, \<open>System_Props\<close>: the properties, with an application
    of each at a concrete state.

  \<^bold>\<open>Not modelled.\<close>  The context switch and the interrupt entry (assembler), the board support package
  except for the serial ports and the handler of the clock, the loops of the demonstration threads (they delay and print), the shell, soft timers, modules and the slab allocator (not configured), and
  the third-party network stack and chip library.  An interrupt in the middle of a call is not modelled, except between the
  stores and the kick of a serial write: calls and interrupt handlers are steps of their own.  In particular a transmit
  interrupt inside \<^verbatim>\<open>serial_put\<close> of a writer, which the code allows, is left out.  The buffers that the two serial
  ports share when they are linked are separate.
\<close>

end
